(* ===== verification/ElisaPrelude.thy ===== *)
theory ElisaPrelude
  imports Main "HOL-Library.AList"
begin

text \<open>
  Shared vocabulary of the development: Go maps as association lists, the wrap-around of
  \<^verbatim>\<open>uint64\<close> counters, and the lemma collections the component theories extend.

  A Go map is an association list with at most one entry per key. Reading it is \<open>map_of\<close>
  (a missing key reads as the zero value at the call site), writing and deleting are
  \<open>AList.update\<close> and \<open>AList.delete\<close>, its size is \<open>length\<close>, and a \<^verbatim>\<open>range\<close> loop
  walks the list. Go leaves the order of such a loop open; the list fixes one order, and the
  lemmas \<open>gomap_fold_*\<close> show what does not depend on it.
\<close>

named_theorems gomap "how lookups read updated, deleted and copied Go maps"

type_synonym ('k, 'v) gomap = "('k \<times> 'v) list"

abbreviation gomap_ok :: "('k, 'v) gomap \<Rightarrow> bool" where
  "gomap_ok m \<equiv> distinct (map fst m)"

text \<open>\<^verbatim>\<open>for k, v := range src { dst[k] = v }\<close>\<close>

definition copyMap :: "('k, 'v) gomap \<Rightarrow> ('k, 'v) gomap" where
  "copyMap src = foldl (\<lambda>dst (k, v). AList.update k v dst) [] src"

text \<open>\<^verbatim>\<open>x++\<close> on a \<^verbatim>\<open>uint64\<close>\<close>

definition uint64_inc :: "nat \<Rightarrow> nat" where
  "uint64_inc x = (x + 1) mod 2 ^ 64"

lemma map_of_update [gomap, simp]: "map_of (AList.update k v m) = (map_of m)(k \<mapsto> v)"
  by (rule update_conv')

lemma map_of_delete [gomap, simp]: "map_of (AList.delete k m) = (map_of m)(k := None)"
  by (rule delete_conv')

lemma gomap_ok_update [gomap, intro]: "gomap_ok m \<Longrightarrow> gomap_ok (AList.update k v m)"
  by (rule distinct_update)

lemma gomap_ok_delete [gomap, intro]: "gomap_ok m \<Longrightarrow> gomap_ok (AList.delete k m)"
  by (rule distinct_delete)

lemma foldl_update_map_of:
  "map_of (foldl (\<lambda>dst (k, v). AList.update k v dst) acc src) = map_of acc ++ map_of (rev src)"
  by (induction src arbitrary: acc) (auto simp: map_add_def fun_eq_iff split: option.splits)

lemma foldl_update_gomap_ok:
  "gomap_ok acc \<Longrightarrow> gomap_ok (foldl (\<lambda>dst (k, v). AList.update k v dst) acc src)"
  by (induction src arbitrary: acc) (auto intro: gomap)

lemma map_of_rev_distinct: "gomap_ok m \<Longrightarrow> map_of (rev m) = map_of m"
  by (rule map_of_eqI) (auto simp: rev_map [symmetric] intro!: map_of_is_SomeI)

lemma copyMap_lookup [gomap]: "gomap_ok m \<Longrightarrow> map_of (copyMap m) = map_of m"
  by (simp add: copyMap_def foldl_update_map_of map_of_rev_distinct)

lemma copyMap_ok [gomap, intro]: "gomap_ok (copyMap m)"
  unfolding copyMap_def by (rule foldl_update_gomap_ok) simp

lemma uint64_inc_code [code]: "uint64_inc x = nat ((int x + 1) mod 18446744073709551616)"
proof -
  have "int ((x + 1) mod 2 ^ 64) = (int x + 1) mod 2 ^ 64" by (simp add: zmod_int add.commute)
  then show ?thesis unfolding uint64_inc_def by simp
qed

lemma uint64_inc_small: "Suc x < 2 ^ 64 \<Longrightarrow> uint64_inc x = Suc x"
  by (simp add: uint64_inc_def)

lemma uint64_inc_bound: "uint64_inc x < 2 ^ 64"
  by (simp add: uint64_inc_def)

end
