(* ===== verification/IncDatabase.thy ===== *)
theory IncDatabase
  imports ElisaPrelude
begin

text \<open>
  The revisioned query database of \<^verbatim>\<open>compiler/src/incremental/database.go\<close> and
  \<^verbatim>\<open>database_transaction.go\<close>: its data, every operation on it, and the reference evaluator
  the memoising one is compared with. The lemmas are in \<open>IncDatabaseProofs\<close>.

  An evaluator is Go code that may look at changing data through its \<^verbatim>\<open>Reader\<close> only (the
  contract stated at \<^verbatim>\<open>Database\<close>). It is therefore a tree of reader calls, \<open>prog\<close>: each
  node is one call and a continuation for its answer, a leaf is the returned pair of value and
  error. The database gate serialises the operations, so each one is a function from a
  database to a database. The context is the number of \<^verbatim>\<open>ctx.Err()\<close> calls that still answer
  nil (\<open>None\<close>: it is never cancelled); a cancelled context stays cancelled. \<^verbatim>\<open>evaluate\<close>
  recurses through the evaluators and need not stop, so it takes fuel and answers \<open>None\<close>
  when the fuel runs out.
\<close>

record Key =
  Kind :: string
  Name :: string

datatype error =
    ErrContext
  | CycleError Key
  | ErrUnknownKind string
  | ErrDependencyBudget
  | ErrResultBudget
  | ErrUnpublishedInput "Key option"
  | ErrUnpublishedQuery "Key option"
  | ErrStaleRevision
  | ErrOther string
  | NilDereference
  | IndexOutOfRange

record input =
  in_value :: string
  in_present :: bool
  in_changed :: nat

record dependency =
  dep_key :: Key
  dep_query :: bool

record result =
  res_value :: string
  res_dependencies :: "dependency list"
  res_verified :: nat
  res_changed :: nat

record Stats =
  Executed :: nat
  MemoHits :: nat
  Validated :: nat
  DependencyChecks :: nat
  InputReads :: nat

record Change =
  ch_Key :: Key
  ch_Value :: string
  ch_Remove :: bool

record Reader =
  rd_dependencies :: "dependency list"
  rd_seen :: "dependency list option"
  rd_failure :: "error option"
  rd_inputAuthority :: "(Key \<rightharpoonup> Key) option"
  rd_queryAuthority :: "(Key \<rightharpoonup> Key) option"
  rd_boundedDependencies :: bool
  rd_maxDependencies :: int

datatype prog =
    Done "error + string"
  | InputP Key "string \<times> bool \<Rightarrow> prog"
  | QueryP Key "error + string \<Rightarrow> prog"
  | ContextP "error option \<Rightarrow> prog"
  | ConfigP "Key \<rightharpoonup> Key" "Key \<rightharpoonup> Key" int prog

type_synonym Evaluator = "string \<Rightarrow> prog"

type_synonym ctx = "nat option"

record Database =
  revision :: nat
  evaluators :: "(string, Evaluator option) gomap"
  inputs :: "(Key, input) gomap"
  results :: "(Key, result) gomap"
  stats :: Stats

definition zeroStats :: Stats where
  "zeroStats = \<lparr>Executed = 0, MemoHits = 0, Validated = 0, DependencyChecks = 0, InputReads = 0\<rparr>"

definition New :: "(string, Evaluator option) gomap \<Rightarrow> Database" where
  "New evals = \<lparr>revision = 1, evaluators = copyMap evals, inputs = [], results = [],
                stats = zeroStats\<rparr>"

text \<open>\<^verbatim>\<open>db.inputs[key]\<close>, the zero \<^verbatim>\<open>input\<close> when the key is missing.\<close>

definition zeroInput :: input where
  "zeroInput = \<lparr>in_value = [], in_present = False, in_changed = 0\<rparr>"

definition inputAt :: "Database \<Rightarrow> Key \<Rightarrow> input" where
  "inputAt db key = (case map_of (inputs db) key of None \<Rightarrow> zeroInput | Some i \<Rightarrow> i)"

text \<open>The two tests \<^verbatim>\<open>Apply\<close>, \<^verbatim>\<open>applyPending\<close> and \<^verbatim>\<open>applyTransaction\<close> repeat.\<close>

definition inputUnchanged :: "input \<Rightarrow> Change \<Rightarrow> bool" where
  "inputUnchanged old change \<longleftrightarrow>
     in_present old = (\<not> ch_Remove change) \<and>
     (ch_Remove change \<or> in_value old = ch_Value change)"

definition inputModified :: "input \<Rightarrow> Change \<Rightarrow> bool" where
  "inputModified old change \<longleftrightarrow>
     in_present old \<noteq> (\<not> ch_Remove change) \<or>
     (\<not> ch_Remove change \<and> in_value old \<noteq> ch_Value change)"

definition bumpRevision :: "Database \<Rightarrow> Database" where
  "bumpRevision db = db\<lparr>revision := uint64_inc (revision db)\<rparr>"

definition writeChange :: "Database \<Rightarrow> Key \<times> Change \<Rightarrow> Database" where
  "writeChange db kc = (case kc of (key, change) \<Rightarrow>
     let old = inputAt db key in
     if inputUnchanged old change then db
     else
       let value = (if ch_Remove change then [] else ch_Value change) in
       db\<lparr>inputs := AList.update key
            \<lparr>in_value = value, in_present = (\<not> ch_Remove change), in_changed = revision db\<rparr>
            (inputs db)\<rparr>)"

definition applyPending :: "Database \<Rightarrow> (Key, Change) gomap \<Rightarrow> bool \<times> Database" where
  "applyPending db pending =
     (if list_ex (\<lambda>(key, change). inputModified (inputAt db key) change) pending
      then (True, foldl writeChange (bumpRevision db) pending)
      else (False, db))"

definition pendingOf :: "Change list \<Rightarrow> (Key, Change) gomap" where
  "pendingOf changes = foldl (\<lambda>pending change. AList.update (ch_Key change) change pending) [] changes"

definition Apply :: "Database \<Rightarrow> Change list \<Rightarrow> bool \<times> Database" where
  "Apply db changes =
     (case changes of
        [change] \<Rightarrow>
          (if inputUnchanged (inputAt db (ch_Key change)) change then (False, db)
           else applyPending db (pendingOf changes))
      | _ \<Rightarrow> applyPending db (pendingOf changes))"

definition applySnapshot :: "Database \<Rightarrow> (Key, Change) gomap \<Rightarrow> bool \<times> Database" where
  "applySnapshot db changes = applyPending db changes"

definition EvictQuery :: "Database \<Rightarrow> Key \<Rightarrow> bool \<times> Database" where
  "EvictQuery db key =
     (case map_of (results db) key of
        None \<Rightarrow> (False, db)
      | Some _ \<Rightarrow> (True, bumpRevision (db\<lparr>results := AList.delete key (results db)\<rparr>)))"

definition EntryCounts :: "Database \<Rightarrow> nat \<times> nat" where
  "EntryCounts db = (length (inputs db), length (results db))"

definition retireInput :: "Database \<Rightarrow> Key \<Rightarrow> Database" where
  "retireInput db key =
     db\<lparr>inputs := AList.update key
          \<lparr>in_value = [], in_present = False, in_changed = revision db\<rparr> (inputs db)\<rparr>"

definition RetireInputs :: "Database \<Rightarrow> Key list \<Rightarrow> Database" where
  "RetireInputs db keys = (if keys = [] then db else foldl retireInput (bumpRevision db) keys)"

definition applyTransaction ::
  "Database \<Rightarrow> (Key, Change) gomap \<Rightarrow> Key list \<Rightarrow> Key list \<Rightarrow> bool \<times> Database" where
  "applyTransaction db changes retired evicted =
     (let modified =
        retired \<noteq> [] \<or>
        list_ex (\<lambda>key. map_of (results db) key \<noteq> None) evicted \<or>
        list_ex (\<lambda>(key, change). inputModified (inputAt db key) change) changes
      in if \<not> modified then (False, db)
         else
           let db1 = bumpRevision db;
               db2 = foldl (\<lambda>d key. d\<lparr>results := AList.delete key (results d)\<rparr>) db1 evicted;
               db3 = foldl writeChange db2 changes
           in (True, foldl retireInput db3 retired))"

text \<open>\<^verbatim>\<open>ctx.Err()\<close>: the answer and the context after the call.\<close>

fun ctxErr :: "ctx \<Rightarrow> error option \<times> ctx" where
  "ctxErr None = (None, None)"
| "ctxErr (Some 0) = (Some ErrContext, Some 0)"
| "ctxErr (Some (Suc n)) = (None, Some n)"

definition smallDependencySet :: nat where
  "smallDependencySet = 8"

definition newReader :: Reader where
  "newReader = \<lparr>rd_dependencies = [], rd_seen = None, rd_failure = None, rd_inputAuthority = None,
                rd_queryAuthority = None, rd_boundedDependencies = False, rd_maxDependencies = 0\<rparr>"

definition hasDependency :: "Reader \<Rightarrow> dependency \<Rightarrow> bool" where
  "hasDependency r dep =
     (case rd_seen r of
        Some seen \<Rightarrow> dep \<in> set seen
      | None \<Rightarrow> list_ex (\<lambda>previous. previous = dep) (rd_dependencies r))"

definition remember :: "Reader \<Rightarrow> dependency \<Rightarrow> bool \<times> Reader" where
  "remember r dep =
     (if rd_failure r \<noteq> None then (False, r)
      else if hasDependency r dep then (True, r)
      else if rd_boundedDependencies r \<and> int (length (rd_dependencies r)) \<ge> rd_maxDependencies r
      then (False, r\<lparr>rd_failure := Some ErrDependencyBudget\<rparr>)
      else
        let seen1 = (if rd_seen r = None \<and> length (rd_dependencies r) \<ge> smallDependencySet
                     then Some (rev (rd_dependencies r)) else rd_seen r);
            seen2 = map_option (\<lambda>seen. dep # seen) seen1
        in (True, r\<lparr>rd_seen := seen2, rd_dependencies := rd_dependencies r @ [dep]\<rparr>))"

text \<open>The key a reader call really uses: the authority maps of a session translate it.\<close>

definition authorised :: "(Key \<rightharpoonup> Key) option \<Rightarrow> Key \<Rightarrow> Key option" where
  "authorised authority key = (case authority of None \<Rightarrow> Some key | Some m \<Rightarrow> m key)"

definition readerInput :: "Reader \<Rightarrow> Database \<Rightarrow> Key \<Rightarrow> (string \<times> bool) \<times> Reader \<times> Database" where
  "readerInput r db key =
     (if rd_failure r \<noteq> None then (([], False), r, db)
      else case authorised (rd_inputAuthority r) key of
        None \<Rightarrow> (([], False), r\<lparr>rd_failure := Some (ErrUnpublishedInput (Some key))\<rparr>, db)
      | Some key' \<Rightarrow>
          (case remember r \<lparr>dep_key = key', dep_query = False\<rparr> of
             (False, r') \<Rightarrow> (([], False), r', db)
           | (True, r') \<Rightarrow>
               let db' = db\<lparr>stats := (stats db)\<lparr>InputReads := uint64_inc (InputReads (stats db))\<rparr>\<rparr>;
                   i = inputAt db' key'
               in ((in_value i, in_present i), r', db')))"

type_synonym outcome = "((error + string) \<times> Database \<times> ctx) option"

type_synonym query_fn = "Key \<Rightarrow> Key list \<Rightarrow> Database \<Rightarrow> ctx \<Rightarrow> outcome"

text \<open>\<^verbatim>\<open>Reader.Query\<close>; \<open>ev\<close> is the recursive call of \<^verbatim>\<open>db.evaluate\<close>.\<close>

definition readerQuery ::
  "query_fn \<Rightarrow> Key list \<Rightarrow> Reader \<Rightarrow> Database \<Rightarrow> ctx \<Rightarrow> Key \<Rightarrow>
     ((error + string) \<times> Reader \<times> Database \<times> ctx) option" where
  "readerQuery ev active r db c key =
     (case rd_failure r of
        Some err \<Rightarrow> Some (Inl err, r, db, c)
      | None \<Rightarrow>
        (case authorised (rd_queryAuthority r) key of
           None \<Rightarrow>
             (let err = ErrUnpublishedQuery (Some key)
              in Some (Inl err, r\<lparr>rd_failure := Some err\<rparr>, db, c))
         | Some key' \<Rightarrow>
             (let dep = \<lparr>dep_key = key', dep_query = True\<rparr> in
              if rd_boundedDependencies r \<and> \<not> hasDependency r dep \<and>
                 int (length (rd_dependencies r)) \<ge> rd_maxDependencies r
              then Some (Inl ErrDependencyBudget, r\<lparr>rd_failure := Some ErrDependencyBudget\<rparr>, db, c)
              else case ev key' active db c of
                None \<Rightarrow> None
              | Some (Inr value, db', c') \<Rightarrow>
                  (case remember r dep of
                     (True, r') \<Rightarrow> Some (Inr value, r', db', c')
                   | (False, r') \<Rightarrow> Some (Inl (the (rd_failure r')), r', db', c'))
              | Some (Inl err, db', c') \<Rightarrow>
                  Some (Inl err, r\<lparr>rd_failure := Some err\<rparr>, db', c'))))"

text \<open>Running an evaluator: its reader calls in order, to its returned pair.\<close>

primrec runProg ::
  "prog \<Rightarrow> query_fn \<Rightarrow> Key list \<Rightarrow> Reader \<Rightarrow> Database \<Rightarrow> ctx \<Rightarrow>
     ((error + string) \<times> Reader \<times> Database \<times> ctx) option" where
  "runProg (Done r) ev active rd db c = Some (r, rd, db, c)"
| "runProg (InputP key k) ev active rd db c =
     (case readerInput rd db key of (ans, rd', db') \<Rightarrow> runProg (k ans) ev active rd' db' c)"
| "runProg (QueryP key k) ev active rd db c =
     (case readerQuery ev active rd db c key of
        None \<Rightarrow> None
      | Some (ans, rd', db', c') \<Rightarrow> runProg (k ans) ev active rd' db' c')"
| "runProg (ContextP k) ev active rd db c =
     (case ctxErr c of (ans, c') \<Rightarrow> runProg (k ans) ev active rd db c')"
| "runProg (ConfigP inputKeys queryKeys limit p) ev active rd db c =
     runProg p ev active
       (rd\<lparr>rd_inputAuthority := Some inputKeys, rd_queryAuthority := Some queryKeys,
           rd_boundedDependencies := True, rd_maxDependencies := limit\<rparr>) db c"

definition countStat :: "((nat \<Rightarrow> nat) \<Rightarrow> Stats \<Rightarrow> Stats) \<Rightarrow> Database \<Rightarrow> Database" where
  "countStat upd db = db\<lparr>stats := upd uint64_inc (stats db)\<rparr>"

text \<open>The dependency loop of \<^verbatim>\<open>evaluate\<close>: whether every recorded dependency is unchanged
  since revision \<open>verified\<close>, or the error that ended the loop.\<close>

fun checkDependencies ::
  "query_fn \<Rightarrow> Key list \<Rightarrow> nat \<Rightarrow> dependency list \<Rightarrow> Database \<Rightarrow> ctx \<Rightarrow>
     ((error + bool) \<times> Database \<times> ctx) option" where
  "checkDependencies ev active verified [] db c = Some (Inr True, db, c)"
| "checkDependencies ev active verified (dep # deps) db c =
     (let db1 = countStat DependencyChecks_update db in
      if dep_query dep then
        (case ev (dep_key dep) active db1 c of
           None \<Rightarrow> None
         | Some (Inl err, db2, c2) \<Rightarrow> Some (Inl err, db2, c2)
         | Some (Inr _, db2, c2) \<Rightarrow>
             (case map_of (results db2) (dep_key dep) of
                None \<Rightarrow> Some (Inl NilDereference, db2, c2)
              | Some res \<Rightarrow>
                  if res_changed res > verified then Some (Inr False, db2, c2)
                  else checkDependencies ev active verified deps db2 c2))
      else if in_changed (inputAt db1 (dep_key dep)) > verified then Some (Inr False, db1, c)
      else checkDependencies ev active verified deps db1 c)"

definition lookupEvaluator :: "Database \<Rightarrow> string \<Rightarrow> Evaluator option" where
  "lookupEvaluator db kind = (case map_of (evaluators db) kind of None \<Rightarrow> None | Some e \<Rightarrow> e)"

text \<open>The second half of \<^verbatim>\<open>evaluate\<close>: run the evaluator and store its result. \<open>active\<close>
  already holds the key, \<open>old\<close> is the previous entry.\<close>

definition executeQuery ::
  "query_fn \<Rightarrow> Key \<Rightarrow> Key list \<Rightarrow> result option \<Rightarrow> Database \<Rightarrow> ctx \<Rightarrow> outcome" where
  "executeQuery ev key active old db c =
     (case lookupEvaluator db (Kind key) of
        None \<Rightarrow> Some (Inl (ErrUnknownKind (Kind key)), db, c)
      | Some evaluator \<Rightarrow>
          (case runProg (evaluator (Name key)) ev active newReader
                  (countStat Executed_update db) c of
             None \<Rightarrow> None
           | Some (ret, reader, db1, c1) \<Rightarrow>
               (case rd_failure reader of
                  Some err \<Rightarrow> Some (Inl err, db1, c1)
                | None \<Rightarrow>
                    (case ret of
                       Inl err \<Rightarrow> Some (Inl err, db1, c1)
                     | Inr value \<Rightarrow>
                         (case ctxErr c1 of
                            (Some err, c2) \<Rightarrow> Some (Inl err, db1, c2)
                          | (None, c2) \<Rightarrow>
                              (let changed = (case old of
                                   Some o' \<Rightarrow> if res_value o' = value then res_changed o'
                                              else revision db1
                                 | None \<Rightarrow> revision db1)
                               in Some (Inr value,
                                    db1\<lparr>results := AList.update key
                                      \<lparr>res_value = value,
                                       res_dependencies = rd_dependencies reader,
                                       res_verified = revision db1, res_changed = changed\<rparr>
                                      (results db1)\<rparr>, c2)))))))"

primrec evaluate :: "nat \<Rightarrow> query_fn" where
  "evaluate 0 key active db c = None"
| "evaluate (Suc fuel) key active db c =
     (case ctxErr c of
        (Some err, c1) \<Rightarrow> Some (Inl err, db, c1)
      | (None, c1) \<Rightarrow>
        if key \<in> set active then Some (Inl (CycleError key), db, c1)
        else case map_of (results db) key of
          None \<Rightarrow> executeQuery (evaluate fuel) key (key # active) None db c1
        | Some old \<Rightarrow>
            if res_verified old = revision db
            then Some (Inr (res_value old), countStat MemoHits_update db, c1)
            else
              (case checkDependencies (evaluate fuel) (key # active) (res_verified old)
                      (res_dependencies old) db c1 of
                 None \<Rightarrow> None
               | Some (Inl err, db2, c2) \<Rightarrow> Some (Inl err, db2, c2)
               | Some (Inr True, db2, c2) \<Rightarrow>
                   Some (Inr (res_value old),
                     countStat Validated_update
                       (db2\<lparr>results := AList.update key (old\<lparr>res_verified := revision db2\<rparr>)
                              (results db2)\<rparr>), c2)
               | Some (Inr False, db2, c2) \<Rightarrow>
                   executeQuery (evaluate fuel) key (key # active) (Some old) db2 c2))"

definition Evaluate :: "nat \<Rightarrow> Database \<Rightarrow> ctx \<Rightarrow> Key \<Rightarrow> outcome" where
  "Evaluate fuel db c key = evaluate fuel key [] db c"

fun evaluateRoots ::
  "nat \<Rightarrow> Key list \<Rightarrow> Database \<Rightarrow> ctx \<Rightarrow> ((error + string) list \<times> Database \<times> ctx) option" where
  "evaluateRoots fuel [] db c = Some ([], db, c)"
| "evaluateRoots fuel (key # keys) db c =
     (case evaluate fuel key [] db c of
        None \<Rightarrow> None
      | Some (r, db1, c1) \<Rightarrow>
          (case ctxErr c1 of
             (Some err, c2) \<Rightarrow> Some (r # map (\<lambda>_. Inl err) keys, db1, c2)
           | (None, c2) \<Rightarrow>
               (case evaluateRoots fuel keys db1 c2 of
                  None \<Rightarrow> None
                | Some (rs, db2, c3) \<Rightarrow> Some (r # rs, db2, c3))))"

definition EvaluateBatch ::
  "nat \<Rightarrow> Database \<Rightarrow> ctx \<Rightarrow> Key list \<Rightarrow> ((error + string) list \<times> Database \<times> ctx) option" where
  "EvaluateBatch fuel db c keys =
     (if keys = [] then Some ([], db, c)
      else if c = Some 0 then Some (map (\<lambda>_. Inl ErrContext) keys, db, c)
      else evaluateRoots fuel keys db c)"

end
