(* ===== verification/IncReference.thy ===== *)
theory IncReference
  imports IncDatabase
begin

text \<open>
  The reference the query database is measured against: evaluate a query from scratch over a
  fixed snapshot of the inputs, with no memo, no revisions and no cancellation. A database is
  right when its answers are the reference's answers on its current inputs. This theory
  defines the reference and proves what the comparison needs: it is monotone in its fuel, so
  deterministic, and its result depends only on the dependencies it records.
\<close>

type_synonym snapshot = "Key \<Rightarrow> string \<times> bool"

definition view :: "Database \<Rightarrow> snapshot" where
  "view db key = (in_value (inputAt db key), in_present (inputAt db key))"

primrec specRun ::
  "prog \<Rightarrow> snapshot \<Rightarrow> (Key \<rightharpoonup> string) \<Rightarrow> Reader \<Rightarrow> (string \<times> Reader) option" where
  "specRun (Done r) env q rd = (case r of Inl _ \<Rightarrow> None | Inr v \<Rightarrow> Some (v, rd))"
| "specRun (InputP key k) env q rd =
     (case authorised (rd_inputAuthority rd) key of
        None \<Rightarrow> None
      | Some key' \<Rightarrow>
          (case remember rd \<lparr>dep_key = key', dep_query = False\<rparr> of
             (False, _) \<Rightarrow> None
           | (True, rd') \<Rightarrow> specRun (k (env key')) env q rd'))"
| "specRun (QueryP key k) env q rd =
     (case authorised (rd_queryAuthority rd) key of
        None \<Rightarrow> None
      | Some key' \<Rightarrow>
          (case q key' of
             None \<Rightarrow> None
           | Some v \<Rightarrow>
               (case remember rd \<lparr>dep_key = key', dep_query = True\<rparr> of
                  (False, _) \<Rightarrow> None
                | (True, rd') \<Rightarrow> specRun (k (Inr v)) env q rd')))"
| "specRun (ContextP k) env q rd = specRun (k None) env q rd"
| "specRun (ConfigP inputKeys queryKeys limit p) env q rd =
     specRun p env q
       (rd\<lparr>rd_inputAuthority := Some inputKeys, rd_queryAuthority := Some queryKeys,
           rd_boundedDependencies := True, rd_maxDependencies := limit\<rparr>)"

primrec specEval ::
  "nat \<Rightarrow> (string \<rightharpoonup> Evaluator) \<Rightarrow> snapshot \<Rightarrow> Key \<Rightarrow> (string \<times> dependency list) option" where
  "specEval 0 evs env key = None"
| "specEval (Suc n) evs env key =
     (case evs (Kind key) of
        None \<Rightarrow> None
      | Some evaluator \<Rightarrow>
          map_option (\<lambda>(v, rd). (v, rd_dependencies rd))
            (specRun (evaluator (Name key)) env (\<lambda>k. map_option fst (specEval n evs env k))
               newReader))"

definition denotes ::
  "(string \<rightharpoonup> Evaluator) \<Rightarrow> snapshot \<Rightarrow> Key \<Rightarrow> string \<Rightarrow> dependency list \<Rightarrow> bool" where
  "denotes evs env key v deps \<longleftrightarrow> (\<exists>n. specEval n evs env key = Some (v, deps))"

text \<open>What the small-list optimisation of the reader keeps: the hash index, once it exists,
  holds exactly the recorded dependencies.\<close>

definition readerOk :: "Reader \<Rightarrow> bool" where
  "readerOk r \<longleftrightarrow> (case rd_seen r of None \<Rightarrow> True | Some seen \<Rightarrow> set seen = set (rd_dependencies r))"

subsection \<open>The reader's dependency list\<close>

lemma readerOk_newReader [simp]: "readerOk newReader"
  by (simp add: readerOk_def newReader_def)

lemma newReader_sel [simp]:
  "rd_failure newReader = None" "rd_dependencies newReader = []"
  by (simp_all add: newReader_def)

lemma readerOk_config [simp]:
  "readerOk (rd\<lparr>rd_inputAuthority := i, rd_queryAuthority := q, rd_boundedDependencies := b,
     rd_maxDependencies := n\<rparr>) = readerOk rd"
  by (simp add: readerOk_def split: option.split)

lemma readerOk_failure [simp]: "readerOk (rd\<lparr>rd_failure := f\<rparr>) = readerOk rd"
  by (simp add: readerOk_def split: option.split)

lemma hasDependency_iff [simp]: "readerOk r \<Longrightarrow> hasDependency r dep \<longleftrightarrow> dep \<in> set (rd_dependencies r)"
  by (auto simp: hasDependency_def readerOk_def list_ex_iff split: option.splits)

text \<open>The entry \<^verbatim>\<open>remember\<close> appends, with the index it builds or extends.\<close>

definition appendDependency :: "Reader \<Rightarrow> dependency \<Rightarrow> Reader" where
  "appendDependency r dep =
     r\<lparr>rd_seen := map_option (\<lambda>seen. dep # seen)
          (if rd_seen r = None \<and> length (rd_dependencies r) \<ge> smallDependencySet
           then Some (rev (rd_dependencies r)) else rd_seen r),
       rd_dependencies := rd_dependencies r @ [dep]\<rparr>"

lemma remember_cases:
  assumes "readerOk r"
  shows "remember r dep =
    (if rd_failure r \<noteq> None then (False, r)
     else if dep \<in> set (rd_dependencies r) then (True, r)
     else if rd_boundedDependencies r \<and> int (length (rd_dependencies r)) \<ge> rd_maxDependencies r
     then (False, r\<lparr>rd_failure := Some ErrDependencyBudget\<rparr>)
     else (True, appendDependency r dep))"
  unfolding remember_def hasDependency_iff [OF assms] appendDependency_def Let_def by simp

lemma appendDependency_sel [simp]:
  "rd_failure (appendDependency r dep) = rd_failure r"
  "rd_inputAuthority (appendDependency r dep) = rd_inputAuthority r"
  "rd_queryAuthority (appendDependency r dep) = rd_queryAuthority r"
  "rd_dependencies (appendDependency r dep) = rd_dependencies r @ [dep]"
  by (simp_all add: appendDependency_def)

lemma readerOk_append [simp]: "readerOk r \<Longrightarrow> readerOk (appendDependency r dep)"
  unfolding readerOk_def appendDependency_def by (cases "rd_seen r") auto

lemma remember_True:
  assumes "remember r dep = (True, r')" and "readerOk r"
  shows "readerOk r' \<and> rd_failure r = None \<and> rd_failure r' = None \<and>
         rd_inputAuthority r' = rd_inputAuthority r \<and> rd_queryAuthority r' = rd_queryAuthority r \<and>
         rd_dependencies r' =
           (if dep \<in> set (rd_dependencies r) then rd_dependencies r else rd_dependencies r @ [dep])"
proof (cases "rd_failure r = None \<and> dep \<in> set (rd_dependencies r)")
  case True
  with assms show ?thesis by (simp add: remember_cases)
next
  case False
  with assms have "rd_failure r = None" "dep \<notin> set (rd_dependencies r)" "r' = appendDependency r dep"
    by (auto simp: remember_cases split: if_splits)
  with assms(2) show ?thesis by simp
qed

lemma remember_False:
  "remember r dep = (False, r') \<Longrightarrow> readerOk r \<Longrightarrow> readerOk r' \<and> rd_failure r' \<noteq> None"
  by (auto simp: remember_cases split: if_splits)

lemma remember_deps:
  assumes "remember r dep = (True, r')" and "readerOk r"
  shows "set (rd_dependencies r') = insert dep (set (rd_dependencies r))"
    and "\<exists>xs. rd_dependencies r' = rd_dependencies r @ xs"
  using remember_True [OF assms] by auto

lemma prog_induct [case_names Done InputP QueryP ContextP ConfigP]:
  assumes "\<And>r. P (Done r)"
    and "\<And>key k. (\<And>ans. P (k ans)) \<Longrightarrow> P (InputP key k)"
    and "\<And>key k. (\<And>ans. P (k ans)) \<Longrightarrow> P (QueryP key k)"
    and "\<And>k. (\<And>ans. P (k ans)) \<Longrightarrow> P (ContextP k)"
    and "\<And>inputKeys queryKeys limit p. P p \<Longrightarrow> P (ConfigP inputKeys queryKeys limit p)"
  shows "P p"
  using assms by (induction p) auto

subsection \<open>The reference is monotone, hence deterministic\<close>

lemma specRun_mono:
  "specRun p env q rd = Some x \<Longrightarrow> (\<And>k w. q k = Some w \<Longrightarrow> q' k = Some w) \<Longrightarrow>
   specRun p env q' rd = Some x"
proof (induction p arbitrary: rd)
  case (QueryP key k)
  then obtain key' w rd' where
    key': "authorised (rd_queryAuthority rd) key = Some key'" and w: "q key' = Some w" and
    rd': "remember rd \<lparr>dep_key = key', dep_query = True\<rparr> = (True, rd')" and
    run: "specRun (k (Inr w)) env q rd' = Some x"
    by (auto split: option.splits prod.splits bool.splits)
  have "specRun (k (Inr w)) env q' rd' = Some x"
    using QueryP.IH [OF _ run QueryP.prems(2)] by simp
  with key' rd' QueryP.prems(2) [OF w] show ?case by simp
qed (auto split: sum.splits option.splits prod.splits bool.splits)

lemma specEval_Suc: "specEval n evs env key = Some x \<Longrightarrow> specEval (Suc n) evs env key = Some x"
proof (induction n arbitrary: key x)
  case (Suc n)
  have sub: "map_option fst (specEval n evs env k) = Some w \<Longrightarrow>
             map_option fst (specEval (Suc n) evs env k) = Some w" for k w
    using Suc.IH by fastforce
  from Suc.prems obtain f y where f: "evs (Kind key) = Some f" and
    y: "specRun (f (Name key)) env (\<lambda>k. map_option fst (specEval n evs env k)) newReader = Some y" and
    x: "x = (\<lambda>(v, rd). (v, rd_dependencies rd)) y"
    by (auto split: option.splits)
  have "specRun (f (Name key)) env (\<lambda>k. map_option fst (specEval (Suc n) evs env k)) newReader = Some y"
    by (rule specRun_mono [OF y]) (rule sub)
  then have "specEval (Suc (Suc n)) evs env key = Some x"
    by (subst specEval.simps(2)) (simp only: f x option.simps)
  then show ?case .
qed simp

lemma specEval_mono: "specEval n evs env key = Some x \<Longrightarrow> n \<le> m \<Longrightarrow> specEval m evs env key = Some x"
  by (induction m) (auto simp: le_Suc_eq simp del: specEval.simps(2) intro: specEval_Suc)

lemma denotes_unique:
  "denotes evs env key v d \<Longrightarrow> denotes evs env key v' d' \<Longrightarrow> v' = v \<and> d' = d"
  unfolding denotes_def by (metis specEval_mono linorder_le_cases option.inject prod.inject)

lemma denotes_fuel: "denotes evs env key v d \<Longrightarrow> \<exists>n. \<forall>m\<ge>n. specEval m evs env key = Some (v, d)"
  unfolding denotes_def using specEval_mono by blast

subsection \<open>The result depends on the recorded dependencies only\<close>

lemma specRun_reader:
  assumes "specRun p env q rd = Some (v, rd')" "readerOk rd"
  shows "readerOk rd' \<and> (\<exists>xs. rd_dependencies rd' = rd_dependencies rd @ xs)"
  using assms
proof (induction p arbitrary: rd)
  case (InputP key k)
  then show ?case
    by (auto split: option.splits prod.splits bool.splits)
       (metis remember_True rangeI append.assoc remember_deps(2))+
next
  case (QueryP key k)
  then show ?case
    by (auto split: option.splits prod.splits bool.splits)
       (metis remember_True rangeI append.assoc remember_deps(2))+
next
  case (ConfigP x1a x2a x3a p)
  from ConfigP.IH [of "rd\<lparr>rd_inputAuthority := Some x1a, rd_queryAuthority := Some x2a,
           rd_boundedDependencies := True, rd_maxDependencies := x3a\<rparr>"] ConfigP.prems
  show ?case by simp
next
  case (ContextP k)
  from ContextP.prems(1) have "specRun (k None) env q rd = Some (v, rd')" by simp
  from ContextP.IH [OF rangeI this ContextP.prems(2)] show ?case .
qed (auto split: sum.splits)

lemma specRun_deps_subset:
  "specRun p env q rd = Some (v, rd') \<Longrightarrow> readerOk rd \<Longrightarrow>
   set (rd_dependencies rd) \<subseteq> set (rd_dependencies rd')"
  using specRun_reader [of p env q rd v rd'] by auto

text \<open>Two snapshots agree on a dependency when it reads the same in both.\<close>

definition agree ::
  "snapshot \<Rightarrow> (Key \<rightharpoonup> string) \<Rightarrow> snapshot \<Rightarrow> (Key \<rightharpoonup> string) \<Rightarrow> dependency \<Rightarrow> bool" where
  "agree env q env' q' dep \<longleftrightarrow>
     (if dep_query dep then (\<forall>w. q (dep_key dep) = Some w \<longrightarrow> q' (dep_key dep) = Some w)
      else env (dep_key dep) = env' (dep_key dep))"

lemma specRun_cong:
  assumes "specRun p env q rd = Some (v, rd')" "readerOk rd"
    and "\<And>dep. dep \<in> set (rd_dependencies rd') \<Longrightarrow> agree env q env' q' dep"
  shows "specRun p env' q' rd = Some (v, rd')"
  using assms
proof (induction p arbitrary: rd)
  case (InputP key k)
  then obtain key' rd1 where
    key': "authorised (rd_inputAuthority rd) key = Some key'" and
    rd1: "remember rd \<lparr>dep_key = key', dep_query = False\<rparr> = (True, rd1)" and
    run: "specRun (k (env key')) env q rd1 = Some (v, rd')"
    by (auto split: option.splits prod.splits bool.splits)
  have ok1: "readerOk rd1" using remember_True [OF rd1 InputP.prems(2)] by blast
  have "\<lparr>dep_key = key', dep_query = False\<rparr> \<in> set (rd_dependencies rd')"
    using remember_deps(1) [OF rd1 InputP.prems(2)] specRun_deps_subset [OF run ok1] by auto
  from InputP.prems(3) [OF this] have "env key' = env' key'" by (simp add: agree_def)
  moreover have "specRun (k (env key')) env' q' rd1 = Some (v, rd')"
    using InputP.IH [OF _ run ok1 InputP.prems(3)] by simp
  ultimately show ?case using key' rd1 by simp
next
  case (QueryP key k)
  then obtain key' w rd1 where
    key': "authorised (rd_queryAuthority rd) key = Some key'" and w: "q key' = Some w" and
    rd1: "remember rd \<lparr>dep_key = key', dep_query = True\<rparr> = (True, rd1)" and
    run: "specRun (k (Inr w)) env q rd1 = Some (v, rd')"
    by (auto split: option.splits prod.splits bool.splits)
  have ok1: "readerOk rd1" using remember_True [OF rd1 QueryP.prems(2)] by blast
  have "\<lparr>dep_key = key', dep_query = True\<rparr> \<in> set (rd_dependencies rd')"
    using remember_deps(1) [OF rd1 QueryP.prems(2)] specRun_deps_subset [OF run ok1] by auto
  from QueryP.prems(3) [OF this] w have "q' key' = Some w" by (simp add: agree_def)
  moreover have "specRun (k (Inr w)) env' q' rd1 = Some (v, rd')"
    using QueryP.IH [OF _ run ok1 QueryP.prems(3)] by simp
  ultimately show ?case using key' rd1 by simp
next
  case (ConfigP x1a x2a x3a p)
  then show ?case by simp
qed (auto split: sum.splits)

lemma list_max_bound:
  fixes P :: "'a \<Rightarrow> nat \<Rightarrow> bool"
  assumes "\<And>x n m. P x n \<Longrightarrow> n \<le> m \<Longrightarrow> P x m" and "\<And>x. x \<in> set xs \<Longrightarrow> \<exists>n. P x n"
  shows "\<exists>n. \<forall>x\<in>set xs. P x n"
  using assms(2)
proof (induction xs)
  case (Cons a xs)
  then obtain n m where "P a n" "\<forall>x\<in>set xs. P x m" by (meson list.set_intros)
  then have "\<forall>x\<in>set (a # xs). P x (max n m)"
    using assms(1) by (metis max.cobounded1 max.cobounded2 set_ConsD)
  then show ?case ..
qed simp

text \<open>The recorded dependencies certify the value: a snapshot in which they read the same
  gives the same value and the same dependencies.\<close>

lemma denotes_transfer:
  assumes den: "denotes evs env key v d"
    and inp: "\<And>dep. dep \<in> set d \<Longrightarrow> \<not> dep_query dep \<Longrightarrow> env (dep_key dep) = env' (dep_key dep)"
    and qry: "\<And>dep w d'. dep \<in> set d \<Longrightarrow> dep_query dep \<Longrightarrow> denotes evs env (dep_key dep) w d' \<Longrightarrow>
               \<exists>d''. denotes evs env' (dep_key dep) w d''"
  shows "denotes evs env' key v d"
proof -
  from den obtain n where "specEval (Suc n) evs env key = Some (v, d)"
    unfolding denotes_def using specEval_Suc by blast
  then obtain f rd where f: "evs (Kind key) = Some f" and d: "d = rd_dependencies rd" and
    run: "specRun (f (Name key)) env (\<lambda>k. map_option fst (specEval n evs env k)) newReader = Some (v, rd)"
    by (auto split: option.splits)
  define P where "P = (\<lambda>(dep :: dependency) m. dep_query dep \<longrightarrow>
    (\<forall>w. map_option fst (specEval n evs env (dep_key dep)) = Some w \<longrightarrow>
         map_option fst (specEval m evs env' (dep_key dep)) = Some w))"
  have "\<exists>m. \<forall>dep\<in>set d. P dep m"
  proof (rule list_max_bound)
    show "P dep a \<Longrightarrow> a \<le> b \<Longrightarrow> P dep b" for dep a b
      unfolding P_def by (auto simp: map_option_case split: option.splits dest: specEval_mono)
    show "\<exists>m. P dep m" if "dep \<in> set d" for dep
    proof (cases "\<exists>w d'. dep_query dep \<and> specEval n evs env (dep_key dep) = Some (w, d')")
      case True
      then obtain w d' where q: "dep_query dep" "specEval n evs env (dep_key dep) = Some (w, d')"
        by blast
      then have "denotes evs env (dep_key dep) w d'" unfolding denotes_def by blast
      from qry [OF that q(1) this] obtain m d'' where "specEval m evs env' (dep_key dep) = Some (w, d'')"
        unfolding denotes_def by blast
      with q have "P dep m" by (simp add: P_def)
      then show ?thesis ..
    next
      case False
      then show ?thesis by (auto simp: P_def)
    qed
  qed
  then obtain m where m: "\<And>dep. dep \<in> set d \<Longrightarrow> P dep m" by blast
  have "specRun (f (Name key)) env' (\<lambda>k. map_option fst (specEval m evs env' k)) newReader = Some (v, rd)"
    by (rule specRun_cong [OF run]) (use inp m d in \<open>auto simp: agree_def P_def\<close>)
  then have "specEval (Suc m) evs env' key = Some (v, d)" by (simp add: f d)
  then show ?thesis unfolding denotes_def by blast
qed

end
