(* ===== verification/IncDatabaseProofs.thy ===== *)
theory IncDatabaseProofs
  imports IncReference
begin

text \<open>
  Correctness of the memoising evaluator. The invariant \<open>db_inv\<close> relates a database to the
  inputs it had at every revision (\<open>hist\<close>): a memo entry is the reference's answer at the
  revision it was last verified, and the value a parent saw of a child is the child's current
  one unless the child's \<^verbatim>\<open>changed\<close> is later than the parent's \<^verbatim>\<open>verified\<close>.
  The contract a recursive call of \<^verbatim>\<open>evaluate\<close> keeps is the locale \<open>memo_query\<close>; the
  dependency loop, the reader and the evaluator run are its clients, and \<open>evaluate\<close> is its
  interpretation.
\<close>

definition inputs_inv :: "(nat \<Rightarrow> snapshot) \<Rightarrow> Database \<Rightarrow> bool" where
  "inputs_inv hist db \<longleftrightarrow>
     (\<forall>k. in_changed (inputAt db k) \<le> revision db) \<and>
     (\<forall>k q. in_changed (inputAt db k) \<le> q \<longrightarrow> q \<le> revision db \<longrightarrow> hist q k = view db k)"

definition memo_inv :: "(string \<rightharpoonup> Evaluator) \<Rightarrow> (nat \<Rightarrow> snapshot) \<Rightarrow> Database \<Rightarrow> bool" where
  "memo_inv evs hist db \<longleftrightarrow>
     (\<forall>k r. map_of (results db) k = Some r \<longrightarrow>
        res_changed r \<le> res_verified r \<and> res_verified r \<le> revision db \<and>
        denotes evs (hist (res_verified r)) k (res_value r) (res_dependencies r))"

definition link_ok ::
  "(string \<rightharpoonup> Evaluator) \<Rightarrow> (nat \<Rightarrow> snapshot) \<Rightarrow> Database \<Rightarrow> nat \<Rightarrow> Key \<Rightarrow> bool" where
  "link_ok evs hist db seenAt k \<longleftrightarrow>
     (\<forall>rk. map_of (results db) k = Some rk \<longrightarrow> res_changed rk \<le> seenAt \<longrightarrow>
        (\<exists>d. denotes evs (hist seenAt) k (res_value rk) d)) \<and>
     (seenAt = revision db \<longrightarrow>
        (\<exists>rk. map_of (results db) k = Some rk \<and> res_verified rk = revision db))"

definition links_inv :: "(string \<rightharpoonup> Evaluator) \<Rightarrow> (nat \<Rightarrow> snapshot) \<Rightarrow> Database \<Rightarrow> bool" where
  "links_inv evs hist db \<longleftrightarrow>
     (\<forall>p rp dep. map_of (results db) p = Some rp \<longrightarrow> dep \<in> set (res_dependencies rp) \<longrightarrow>
        dep_query dep \<longrightarrow> link_ok evs hist db (res_verified rp) (dep_key dep))"

text \<open>An evaluator covers another when it succeeds wherever the other does, with the same value
  and dependencies. The evaluators a database runs may be restricted further than those its answers
  are measured by: a session's refuse what is not admitted.\<close>

definition covers :: "prog \<Rightarrow> prog \<Rightarrow> bool" where
  "covers p p' \<longleftrightarrow>
     (\<forall>env q v rd. specRun p' env q newReader = Some (v, rd) \<longrightarrow>
        (\<exists>rd'. specRun p env q newReader = Some (v, rd') \<and> rd_dependencies rd' = rd_dependencies rd))"

definition covered :: "(string \<rightharpoonup> Evaluator) \<Rightarrow> (string \<rightharpoonup> Evaluator) \<Rightarrow> bool" where
  "covered reg evs \<longleftrightarrow>
     (\<forall>kind f. reg kind = Some f \<longrightarrow> (\<exists>g. evs kind = Some g \<and> (\<forall>name. covers (g name) (f name))))"

definition db_inv :: "(string \<rightharpoonup> Evaluator) \<Rightarrow> (nat \<Rightarrow> snapshot) \<Rightarrow> Database \<Rightarrow> bool" where
  "db_inv evs hist db \<longleftrightarrow>
     covered (lookupEvaluator db) evs \<and> inputs_inv hist db \<and> memo_inv evs hist db \<and> links_inv evs hist db"

text \<open>What a recursive call leaves alone: the inputs, entries already verified at this
  revision, and the entries of the keys in progress. An entry it makes for a key that had none
  carries this revision in both stamps.\<close>

definition evolves :: "Key list \<Rightarrow> Database \<Rightarrow> Database \<Rightarrow> bool" where
  "evolves active db db' \<longleftrightarrow>
     revision db' = revision db \<and> inputs db' = inputs db \<and> evaluators db' = evaluators db \<and>
     (\<forall>k r. map_of (results db) k = Some r \<longrightarrow> res_verified r = revision db \<longrightarrow>
            map_of (results db') k = Some r) \<and>
     (\<forall>k r. map_of (results db) k = None \<longrightarrow> map_of (results db') k = Some r \<longrightarrow>
            res_changed r = revision db \<and> res_verified r = revision db) \<and>
     (\<forall>a\<in>set active. map_of (results db') a = map_of (results db) a)"

definition fresh :: "Database \<Rightarrow> Key \<Rightarrow> string \<Rightarrow> bool" where
  "fresh db key v \<longleftrightarrow>
     (\<exists>r. map_of (results db) key = Some r \<and> res_value r = v \<and> res_verified r = revision db)"

definition deps_fresh :: "Database \<Rightarrow> dependency list \<Rightarrow> bool" where
  "deps_fresh db deps \<longleftrightarrow> (\<forall>dep\<in>set deps. dep_query dep \<longrightarrow> (\<exists>v. fresh db (dep_key dep) v))"

subsection \<open>Bookkeeping\<close>

lemma covered_refl [simp]: "covered evs evs"
  by (simp add: covered_def covers_def)

lemma coveredD:
  assumes "covered reg evs" "reg (Kind key) = Some f" "specRun (f (Name key)) env q newReader = Some (v, rd)"
  shows "\<exists>g rd'. evs (Kind key) = Some g \<and> specRun (g (Name key)) env q newReader = Some (v, rd') \<and>
    rd_dependencies rd' = rd_dependencies rd"
  using assms unfolding covered_def covers_def by metis

lemma covered_specEval:
  assumes "covered reg evs" and "specEval n reg env key = Some (v, d)"
  shows "specEval n evs env key = Some (v, d)"
  using assms(2)
proof (induction n arbitrary: key v d)
  case (Suc n)
  then obtain f rd where f: "reg (Kind key) = Some f" and d: "d = rd_dependencies rd" and
    run: "specRun (f (Name key)) env (\<lambda>k. map_option fst (specEval n reg env k)) newReader = Some (v, rd)"
    by (auto split: option.splits)
  from coveredD [OF assms(1) f run] obtain g rd' where g: "evs (Kind key) = Some g" "rd_dependencies rd' = rd_dependencies rd"
    and run': "specRun (g (Name key)) env (\<lambda>k. map_option fst (specEval n reg env k)) newReader = Some (v, rd')" by blast
  have "specRun (g (Name key)) env (\<lambda>k. map_option fst (specEval n evs env k)) newReader = Some (v, rd')"
    by (rule specRun_mono [OF run']) (use Suc.IH in fastforce)
  with g d show ?case by simp
qed simp

lemma covered_denotes: "covered reg evs \<Longrightarrow> denotes reg env key v d \<Longrightarrow> denotes evs env key v d"
  unfolding denotes_def using covered_specEval by blast

lemma inputAt_cong [simp]:
  "inputAt (db\<lparr>results := r\<rparr>) = inputAt db" "inputAt (db\<lparr>stats := s\<rparr>) = inputAt db"
  by (simp_all add: inputAt_def fun_eq_iff)

lemma view_cong [simp]:
  "view (db\<lparr>results := r\<rparr>) = view db" "view (db\<lparr>stats := s\<rparr>) = view db"
  by (simp_all add: view_def fun_eq_iff)

lemma countStat_sel [simp]:
  "revision (countStat u db) = revision db" "inputs (countStat u db) = inputs db"
  "results (countStat u db) = results db" "evaluators (countStat u db) = evaluators db"
  by (simp_all add: countStat_def)

lemma lookupEvaluator_cong [simp]:
  "lookupEvaluator (db\<lparr>results := r\<rparr>) = lookupEvaluator db"
  "lookupEvaluator (db\<lparr>stats := s\<rparr>) = lookupEvaluator db"
  by (simp_all add: lookupEvaluator_def fun_eq_iff)

lemma db_inv_stats [simp]: "db_inv evs hist (db\<lparr>stats := s\<rparr>) = db_inv evs hist db"
  by (simp add: db_inv_def inputs_inv_def memo_inv_def links_inv_def link_ok_def)

lemma db_inv_countStat [simp]: "db_inv evs hist (countStat u db) = db_inv evs hist db"
  by (simp add: countStat_def)

lemma evolves_refl [simp]: "evolves active db db"
  by (simp add: evolves_def)

lemma evolves_stats [simp]:
  "evolves active db (countStat u db')  = evolves active db db'"
  "evolves active (countStat u db) db' = evolves active db db'"
  "evolves active db (db'\<lparr>stats := s\<rparr>) = evolves active db db'"
  "evolves active (db\<lparr>stats := s\<rparr>) db' = evolves active db db'"
  by (simp_all add: evolves_def)

lemma evolves_kept:
  "evolves active a b \<Longrightarrow> map_of (results a) k = Some r \<Longrightarrow> res_verified r = revision a \<Longrightarrow>
   map_of (results b) k = Some r"
  by (simp add: evolves_def)

lemma evolves_new:
  "evolves active a b \<Longrightarrow> map_of (results a) k = None \<Longrightarrow> map_of (results b) k = Some r \<Longrightarrow>
   res_changed r = revision a \<and> res_verified r = revision a"
  by (simp add: evolves_def)

lemma evolves_trans:
  assumes ab: "evolves active a b" and bc: "evolves active b c"
  shows "evolves active a c"
  unfolding evolves_def
proof (intro conjI allI impI ballI)
  have rev: "revision b = revision a" using ab by (simp add: evolves_def)
  fix k r assume r: "map_of (results a) k = Some r" "res_verified r = revision a"
  show "map_of (results c) k = Some r"
    by (rule evolves_kept [OF bc evolves_kept [OF ab r]]) (simp add: r rev)
next
  have rev: "revision b = revision a" using ab by (simp add: evolves_def)
  fix k r assume n: "map_of (results a) k = None" and s: "map_of (results c) k = Some r"
  have "res_changed r = revision a \<and> res_verified r = revision a"
  proof (cases "map_of (results b) k")
    case None
    from evolves_new [OF bc None s] rev show ?thesis by simp
  next
    case (Some q)
    from evolves_new [OF ab n Some] have q: "res_changed q = revision a \<and> res_verified q = revision a" .
    with evolves_kept [OF bc Some] rev s show ?thesis by simp
  qed
  then show "res_changed r = revision a" "res_verified r = revision a" by simp_all
qed (use ab bc in \<open>simp_all add: evolves_def\<close>)

lemma evolves_weaken: "evolves (k # active) a b \<Longrightarrow> evolves active a b"
  by (simp add: evolves_def)

lemma evolves_view: "evolves active a b \<Longrightarrow> view b = view a"
  by (simp add: evolves_def view_def inputAt_def fun_eq_iff)

lemma evolves_fresh: "evolves active a b \<Longrightarrow> fresh a k v \<Longrightarrow> fresh b k v"
  by (auto simp: evolves_def fresh_def)

lemma evolves_deps_fresh: "evolves active a b \<Longrightarrow> deps_fresh a ds \<Longrightarrow> deps_fresh b ds"
  unfolding deps_fresh_def using evolves_fresh by blast

lemma inv_view: "db_inv evs hist db \<Longrightarrow> hist (revision db) = view db"
  by (auto simp: db_inv_def inputs_inv_def fun_eq_iff)

lemma fresh_denotes: "db_inv evs hist db \<Longrightarrow> fresh db k v \<Longrightarrow> \<exists>d. denotes evs (view db) k v d"
  unfolding fresh_def using inv_view [of evs hist db]
  by (auto simp: db_inv_def memo_inv_def) (metis)

lemma ctxErr_None: "ctxErr c = (None, c') \<Longrightarrow> c \<noteq> Some 0"
  by (cases c rule: ctxErr.cases) auto

lemma ctxErr_Some: "ctxErr c = (Some e, c') \<Longrightarrow> c = Some 0 \<and> c' = Some 0 \<and> e = ErrContext"
  by (cases c rule: ctxErr.cases) auto

subsection \<open>Storing an entry keeps the invariant\<close>

lemma store_inv:
  assumes inv: "db_inv evs hist db"
    and stale: "\<And>o'. map_of (results db) key = Some o' \<Longrightarrow> res_verified o' \<noteq> revision db"
    and now: "res_verified r = revision db"
    and den: "denotes evs (view db) key (res_value r) (res_dependencies r)"
    and deps: "deps_fresh db (res_dependencies r)"
    and chg: "res_changed r = revision db \<or>
              (\<exists>o'. map_of (results db) key = Some o' \<and> res_value o' = res_value r \<and>
                    res_changed o' = res_changed r)"
  shows "db_inv evs hist (db\<lparr>results := AList.update key r (results db)\<rparr>)" (is "db_inv _ _ ?db")
proof -
  have memo: "memo_inv evs hist db" and links: "links_inv evs hist db"
    using inv by (auto simp: db_inv_def)
  have le: "res_changed r \<le> revision db"
    using chg memo unfolding memo_inv_def by (metis le_trans order_refl)
  have "memo_inv evs hist ?db"
    using memo den now le inv_view [OF inv] by (auto simp: memo_inv_def)
  moreover have "links_inv evs hist ?db"
    unfolding links_inv_def
  proof (intro allI impI)
    fix p rp dep
    assume p: "map_of (results ?db) p = Some rp" and d: "dep \<in> set (res_dependencies rp)"
      and q: "dep_query dep"
    show "link_ok evs hist ?db (res_verified rp) (dep_key dep)"
    proof (cases "p = key")
      case True
      with p have rp: "rp = r" by simp
      from deps d q rp obtain v where fr: "fresh db (dep_key dep) v" by (auto simp: deps_fresh_def)
      with stale have ne: "dep_key dep \<noteq> key" by (auto simp: fresh_def)
      from fresh_denotes [OF inv fr] ne fr rp now inv_view [OF inv] show ?thesis
        by (auto simp: link_ok_def fresh_def)
    next
      case False
      with p have old: "map_of (results db) p = Some rp" by simp
      from links old d q have l: "link_ok evs hist db (res_verified rp) (dep_key dep)"
        by (auto simp: links_inv_def)
      show ?thesis
      proof (cases "dep_key dep = key")
        case True
        have "res_verified rp \<le> revision db" using memo old by (auto simp: memo_inv_def)
        moreover have "res_verified rp \<noteq> revision db" using l stale True by (auto simp: link_ok_def)
        ultimately show ?thesis using l chg True by (fastforce simp: link_ok_def)
      next
        case False
        with l show ?thesis by (simp add: link_ok_def)
      qed
    qed
  qed
  moreover have "inputs_inv hist ?db" "covered (lookupEvaluator ?db) evs"
    using inv by (simp_all add: db_inv_def inputs_inv_def)
  ultimately show ?thesis by (simp add: db_inv_def)
qed

lemma store_evolves:
  "key \<notin> set active \<Longrightarrow>
   (\<And>o'. map_of (results db) key = Some o' \<Longrightarrow> res_verified o' \<noteq> revision db) \<Longrightarrow>
   (map_of (results db) key = None \<Longrightarrow> res_changed r = revision db \<and> res_verified r = revision db) \<Longrightarrow>
   evolves active db (db\<lparr>results := AList.update key r (results db)\<rparr>)"
  by (auto simp: evolves_def)

lemma store_fresh:
  "res_verified r = revision db \<Longrightarrow>
   fresh (db\<lparr>results := AList.update key r (results db)\<rparr>) key (res_value r)"
  by (simp add: fresh_def)

subsection \<open>The contract of a recursive call, and its clients\<close>

locale memo_query =
  fixes evs :: "string \<rightharpoonup> Evaluator"
    and hist :: "nat \<Rightarrow> snapshot"
    and ev :: query_fn
  assumes ev_sound:
    "db_inv evs hist db \<Longrightarrow> ev key active db c = Some (r, db', c') \<Longrightarrow>
     evolves active db db' \<and> db_inv evs hist db' \<and> (\<forall>v. r = Inr v \<longrightarrow> fresh db' key v)"
    and ev_cancelled: "ev key active db (Some 0) = Some (r, db', c') \<Longrightarrow> c' = Some 0"
begin

lemma query_sound:
  assumes "readerQuery ev active rd db c key = Some (ans, rd', db', c')"
    and "db_inv evs hist db" and "readerOk rd"
  shows "evolves active db db' \<and> db_inv evs hist db' \<and> readerOk rd' \<and>
         (rd_failure rd' = None \<longrightarrow>
           (\<exists>key' v. rd_failure rd = None \<and> authorised (rd_queryAuthority rd) key = Some key' \<and>
              ans = Inr v \<and> fresh db' key' v \<and>
              remember rd \<lparr>dep_key = key', dep_query = True\<rparr> = (True, rd')))"
  using assms unfolding readerQuery_def Let_def
  by (auto split: option.splits if_splits sum.splits prod.splits bool.splits
      dest!: ev_sound [OF assms(2)] dest: remember_True remember_False)

lemma query_cancelled:
  "readerQuery ev active rd db (Some 0) key = Some (ans, rd', db', c') \<Longrightarrow> c' = Some 0"
  unfolding readerQuery_def Let_def
  by (auto split: option.splits if_splits sum.splits prod.splits bool.splits dest: ev_cancelled)

lemma run_cancelled: "runProg p ev active rd db (Some 0) = Some (ret, rd', db', c') \<Longrightarrow> c' = Some 0"
proof (induction p arbitrary: rd db rule: prog_induct)
  case (QueryP key k)
  then obtain ans rd1 db1 c1 where
    q: "readerQuery ev active rd db (Some 0) key = Some (ans, rd1, db1, c1)" and
    run: "runProg (k ans) ev active rd1 db1 c1 = Some (ret, rd', db', c')"
    by (auto split: option.splits prod.splits)
  from query_cancelled [OF q] QueryP.IH run show ?case by blast
qed (auto split: prod.splits)

lemma input_sound:
  assumes "readerInput rd db key = (ans, rd', db')" and "readerOk rd"
  shows "evolves active db db' \<and> db_inv evs hist db' = db_inv evs hist db \<and> results db' = results db \<and>
         revision db' = revision db \<and> readerOk rd' \<and>
         (rd_failure rd' = None \<longrightarrow>
           (\<exists>key'. rd_failure rd = None \<and> authorised (rd_inputAuthority rd) key = Some key' \<and>
              ans = view db key' \<and> remember rd \<lparr>dep_key = key', dep_query = False\<rparr> = (True, rd')))"
  using assms unfolding readerInput_def Let_def
  by (auto split: option.splits if_splits prod.splits bool.splits simp: view_def
      dest: remember_True remember_False)

lemma specRun_mono_fuel:
  "specRun p env (\<lambda>k. map_option fst (specEval n evs env k)) rd = Some x \<Longrightarrow> n \<le> m \<Longrightarrow>
   specRun p env (\<lambda>k. map_option fst (specEval m evs env k)) rd = Some x"
  by (rule specRun_mono) (auto dest: specEval_mono)

lemma run_frame:
  assumes "runProg p ev active rd db c = Some (ret, rd', db', c')"
    and "db_inv evs hist db" and "readerOk rd"
  shows "evolves active db db' \<and> db_inv evs hist db' \<and> readerOk rd' \<and>
         (rd_failure rd' = None \<longrightarrow> rd_failure rd = None)"
  using assms
proof (induction p arbitrary: rd db c rule: prog_induct)
  case (InputP key k)
  then obtain ans rd1 db1 where i: "readerInput rd db key = (ans, rd1, db1)"
    and run: "runProg (k ans) ev active rd1 db1 c = Some (ret, rd', db', c')"
    by (auto split: prod.splits)
  from input_sound [OF i InputP.prems(3), of active] InputP.IH [OF run] InputP.prems(2)
  show ?case by (auto intro: evolves_trans)
next
  case (QueryP key k)
  then obtain ans rd1 db1 c1 where q: "readerQuery ev active rd db c key = Some (ans, rd1, db1, c1)"
    and run: "runProg (k ans) ev active rd1 db1 c1 = Some (ret, rd', db', c')"
    by (auto split: option.splits prod.splits)
  from query_sound [OF q QueryP.prems(2,3)] QueryP.IH [OF run]
  show ?case by (auto intro: evolves_trans)
next
  case (ConfigP inputKeys queryKeys limit p)
  from ConfigP.prems ConfigP.IH [OF ConfigP.prems(1) [unfolded runProg.simps]] show ?case by simp
qed (auto split: prod.splits)

text \<open>A run that ends without failure, error or cancellation is a run of the reference.\<close>

lemma run_sound:
  assumes "runProg p ev active rd db c = Some (Inr v, rd', db', c')"
    and "db_inv evs hist db" and "readerOk rd" and "deps_fresh db (rd_dependencies rd)"
    and "rd_failure rd' = None" and "c' \<noteq> Some 0"
  shows "deps_fresh db' (rd_dependencies rd') \<and>
         (\<exists>n. specRun p (view db) (\<lambda>k. map_option fst (specEval n evs (view db) k)) rd
              = Some (v, rd'))"
  using assms
proof (induction p arbitrary: rd db c rule: prog_induct)
  case (InputP key k)
  then obtain ans rd1 db1 where i: "readerInput rd db key = (ans, rd1, db1)"
    and run: "runProg (k ans) ev active rd1 db1 c = Some (Inr v, rd', db', c')"
    by (auto split: prod.splits)
  note io = input_sound [OF i InputP.prems(3), of active]
  from io InputP.prems(2) have inv1: "db_inv evs hist db1" and ok1: "readerOk rd1" by auto
  from run_frame [OF run inv1 ok1] InputP.prems(5) have "rd_failure rd1 = None" by simp
  with io obtain key' where key': "authorised (rd_inputAuthority rd) key = Some key'"
    and ans: "ans = view db key'" and rem: "remember rd \<lparr>dep_key = key', dep_query = False\<rparr> = (True, rd1)"
    by auto
  have fr: "deps_fresh db1 (rd_dependencies rd1)"
    using InputP.prems(4) remember_deps(1) [OF rem InputP.prems(3)] io
    by (auto simp: deps_fresh_def fresh_def)
  have "view db1 = view db" using io evolves_view by blast
  with InputP.IH [OF run inv1 ok1 fr InputP.prems(5,6)] key' ans rem show ?case by simp
next
  case (QueryP key k)
  then obtain ans rd1 db1 c1 where q: "readerQuery ev active rd db c key = Some (ans, rd1, db1, c1)"
    and run: "runProg (k ans) ev active rd1 db1 c1 = Some (Inr v, rd', db', c')"
    by (auto split: option.splits prod.splits)
  note qs = query_sound [OF q QueryP.prems(2,3)]
  then have inv1: "db_inv evs hist db1" and ok1: "readerOk rd1" and ev1: "evolves active db db1"
    by auto
  from run_frame [OF run inv1 ok1] QueryP.prems(5) have "rd_failure rd1 = None" by simp
  with qs obtain key' w where key': "authorised (rd_queryAuthority rd) key = Some key'"
    and ans: "ans = Inr w" and fw: "fresh db1 key' w"
    and rem: "remember rd \<lparr>dep_key = key', dep_query = True\<rparr> = (True, rd1)"
    by auto
  have fr: "deps_fresh db1 (rd_dependencies rd1)"
    using QueryP.prems(4) remember_deps(1) [OF rem QueryP.prems(3)] evolves_deps_fresh [OF ev1] fw
    by (auto simp: deps_fresh_def)
  have vw: "view db1 = view db" by (rule evolves_view [OF ev1])
  from QueryP.IH [OF run inv1 ok1 fr QueryP.prems(5,6)] ans vw obtain n where
    fin: "deps_fresh db' (rd_dependencies rd')" and
    n: "specRun (k (Inr w)) (view db) (\<lambda>k. map_option fst (specEval n evs (view db) k)) rd1 = Some (v, rd')"
    by auto
  from fresh_denotes [OF inv1 fw] vw obtain m d where m: "specEval m evs (view db) key' = Some (w, d)"
    by (auto simp: denotes_def)
  have "specRun (k (Inr w)) (view db) (\<lambda>k. map_option fst (specEval (max n m) evs (view db) k)) rd1
        = Some (v, rd')"
    by (rule specRun_mono_fuel [OF n]) simp
  moreover have "specEval (max n m) evs (view db) key' = Some (w, d)"
    by (rule specEval_mono [OF m]) simp
  ultimately have "specRun (QueryP key k) (view db)
      (\<lambda>k. map_option fst (specEval (max n m) evs (view db) k)) rd = Some (v, rd')"
    by (simp add: key' rem)
  with fin show ?case by blast
next
  case (ContextP k)
  obtain ans c1 where ce: "ctxErr c = (ans, c1)" by force
  with ContextP.prems have run: "runProg (k ans) ev active rd db c1 = Some (Inr v, rd', db', c')"
    by simp
  have "ans = None"
  proof (cases ans)
    case (Some e)
    with ce ctxErr_Some run run_cancelled ContextP.prems(6) show ?thesis by metis
  qed
  with ContextP.IH [OF run ContextP.prems(2-)] show ?case by simp
next
  case (ConfigP inputKeys queryKeys limit p)
  from ConfigP.prems ConfigP.IH [OF ConfigP.prems(1) [unfolded runProg.simps]] show ?case by simp
qed auto

lemma check_sound:
  assumes "checkDependencies ev active verified deps db c = Some (r, db', c')"
    and "db_inv evs hist db"
  shows "evolves active db db' \<and> db_inv evs hist db' \<and>
    (r = Inr True \<longrightarrow> deps_fresh db' deps \<and>
       (\<forall>dep\<in>set deps. if dep_query dep
          then (\<forall>rk. map_of (results db') (dep_key dep) = Some rk \<longrightarrow> res_changed rk \<le> verified)
          else in_changed (inputAt db (dep_key dep)) \<le> verified))"
  using assms
proof (induction deps arbitrary: db c)
  case (Cons dep deps)
  let ?db1 = "countStat DependencyChecks_update db"
  have inv1: "db_inv evs hist ?db1" using Cons.prems(2) by simp
  show ?case
  proof (cases "dep_query dep")
    case False
    have ia: "inputAt ?db1 = inputAt db" by (simp add: inputAt_def fun_eq_iff)
    show ?thesis
    proof (cases "in_changed (inputAt db (dep_key dep)) > verified")
      case True
      with False Cons.prems ia show ?thesis by (auto simp: Let_def)
    next
      case nle: False
      with False Cons.prems ia have "checkDependencies ev active verified deps ?db1 c = Some (r, db', c')"
        by (simp add: Let_def)
      from Cons.IH [OF this inv1] False nle show ?thesis by (auto simp: deps_fresh_def ia)
    qed
  next
    case True
    with Cons.prems(1) obtain r2 db2 c2 where e: "ev (dep_key dep) active ?db1 c = Some (r2, db2, c2)"
      by (auto simp: Let_def split: option.splits)
    note es = ev_sound [OF inv1 e]
    then have ev2: "evolves active db db2" and inv2: "db_inv evs hist db2" by auto
    have ia: "inputAt db2 = inputAt db" using ev2 by (simp add: evolves_def inputAt_def fun_eq_iff)
    show ?thesis
    proof (cases "\<exists>v rk. r2 = Inr v \<and> map_of (results db2) (dep_key dep) = Some rk \<and>
                        res_changed rk \<le> verified")
      case False
      with True e Cons.prems(1) es ev2 inv2 show ?thesis
        by (auto simp: Let_def not_le split: sum.splits option.splits if_splits)
    next
      case ok: True
      then obtain v rk where v: "r2 = Inr v" and rk: "map_of (results db2) (dep_key dep) = Some rk"
        and le: "res_changed rk \<le> verified" by blast
      with True e Cons.prems(1) have "checkDependencies ev active verified deps db2 c2 = Some (r, db', c')"
        by (simp add: Let_def)
      note ih = Cons.IH [OF this inv2]
      from es v rk have fr: "fresh db2 (dep_key dep) v" and "res_verified rk = revision db2"
        by (auto simp: fresh_def)
      with ih rk have "map_of (results db') (dep_key dep) = Some rk" by (auto simp: evolves_def)
      moreover from ih fr have "fresh db' (dep_key dep) v" by (auto intro: evolves_fresh)
      ultimately show ?thesis using ih ev2 True le ia
        by (auto simp: deps_fresh_def intro: evolves_trans)
    qed
  qed
qed (auto simp: deps_fresh_def)

lemma execute_sound:
  assumes ex: "executeQuery ev key (key # active) old db c = Some (r, db', c')"
    and inv: "db_inv evs hist db" and old: "map_of (results db) key = old"
    and stale: "\<And>o'. old = Some o' \<Longrightarrow> res_verified o' \<noteq> revision db"
    and nact: "key \<notin> set active"
  shows "evolves active db db' \<and> db_inv evs hist db' \<and> (\<forall>v. r = Inr v \<longrightarrow> fresh db' key v)"
proof (cases "lookupEvaluator db (Kind key)")
  case None
  with ex inv show ?thesis by (auto simp: executeQuery_def)
next
  case (Some f)
  let ?db0 = "countStat Executed_update db"
  from ex Some obtain ret rd db1 c1 where
    run: "runProg (f (Name key)) ev (key # active) newReader ?db0 c = Some (ret, rd, db1, c1)"
    by (auto simp: executeQuery_def split: option.splits)
  have inv0: "db_inv evs hist ?db0" using inv by simp
  from run_frame [OF run inv0] have ev1: "evolves (key # active) db db1" and inv1: "db_inv evs hist db1"
    by auto
  show ?thesis
  proof (cases "rd_failure rd = None \<and> (\<exists>v. ret = Inr v) \<and> fst (ctxErr c1) = None")
    case False
    with ex Some run have "(\<exists>e. r = Inl e) \<and> db' = db1"
      by (auto simp: executeQuery_def split: option.splits sum.splits prod.splits)
    with evolves_weaken [OF ev1] inv1 show ?thesis by auto
  next
    case True
    then obtain v c2 where rf: "rd_failure rd = None" and ret: "ret = Inr v" and c2: "ctxErr c1 = (None, c2)"
      by (metis prod.collapse)
    define new where "new = \<lparr>res_value = v, res_dependencies = rd_dependencies rd,
      res_verified = revision db1,
      res_changed = (case old of Some o' \<Rightarrow> if res_value o' = v then res_changed o' else revision db1
                     | None \<Rightarrow> revision db1)\<rparr>"
    from ex Some run rf ret c2 have r: "r = Inr v"
      and db': "db' = db1\<lparr>results := AList.update key new (results db1)\<rparr>"
      by (auto simp: executeQuery_def new_def Let_def)
    have old1: "map_of (results db1) key = old" using ev1 old by (simp add: evolves_def)
    have rev1: "revision db1 = revision db" using ev1 by (simp add: evolves_def)
    have st1: "\<And>o'. map_of (results db1) key = Some o' \<Longrightarrow> res_verified o' \<noteq> revision db1"
      using stale old1 rev1 by simp
    have c1: "c1 \<noteq> Some 0" by (rule ctxErr_None [OF c2])
    from run_sound [OF run [unfolded ret] inv0 _ _ rf c1] obtain n where
      fr: "deps_fresh db1 (rd_dependencies rd)" and
      n: "specRun (f (Name key)) (view db) (\<lambda>k. map_option fst (specEval n evs (view db) k)) newReader
          = Some (v, rd)"
      by (auto simp: deps_fresh_def countStat_def)
    have "covered (lookupEvaluator db) evs" using inv by (simp add: db_inv_def)
    from coveredD [OF this Some n] have "specEval (Suc n) evs (view db) key = Some (v, rd_dependencies rd)" by auto
    then have den: "denotes evs (view db1) key v (rd_dependencies rd)"
      unfolding denotes_def using evolves_view [OF ev1] by metis
    have "db_inv evs hist db'"
      unfolding db' by (rule store_inv [OF inv1 st1])
        (use den fr old1 in \<open>auto simp: new_def split: option.splits\<close>)
    moreover have "evolves active db1 db'"
      unfolding db' by (rule store_evolves [OF nact st1]) (use old1 in \<open>auto simp: new_def\<close>)
    moreover have "fresh db' key v"
      unfolding db' using store_fresh [of new db1 key] by (simp add: new_def)
    ultimately show ?thesis using evolves_trans [OF evolves_weaken [OF ev1]] r by auto
  qed
qed

text \<open>A revalidated entry is the reference's answer on the current inputs.\<close>

lemma validate_sound:
  assumes inv: "db_inv evs hist db" and old: "map_of (results db) key = Some old"
    and chk: "checkDependencies ev (key # active) (res_verified old) (res_dependencies old) db c
              = Some (Inr True, db', c')"
  shows "denotes evs (view db') key (res_value old) (res_dependencies old) \<and>
         deps_fresh db' (res_dependencies old)"
proof -
  note cs = check_sound [OF chk inv]
  from cs have ev': "evolves (key # active) db db'" and inv': "db_inv evs hist db'"
    and fr: "deps_fresh db' (res_dependencies old)" by auto
  from inv old have den: "denotes evs (hist (res_verified old)) key (res_value old) (res_dependencies old)"
    and le: "res_verified old \<le> revision db"
    by (auto simp: db_inv_def memo_inv_def)
  have vw: "view db' = view db" by (rule evolves_view [OF ev'])
  have old': "map_of (results db') key = Some old" using ev' old by (simp add: evolves_def)
  have "denotes evs (view db) key (res_value old) (res_dependencies old)"
  proof (rule denotes_transfer [OF den])
    fix dep assume d: "dep \<in> set (res_dependencies old)" and "\<not> dep_query dep"
    with cs have "in_changed (inputAt db (dep_key dep)) \<le> res_verified old" by auto
    with inv le show "hist (res_verified old) (dep_key dep) = view db (dep_key dep)"
      by (auto simp: db_inv_def inputs_inv_def)
  next
    fix dep w d' assume d: "dep \<in> set (res_dependencies old)" and q: "dep_query dep"
      and w: "denotes evs (hist (res_verified old)) (dep_key dep) w d'"
    from fr d q obtain v where fv: "fresh db' (dep_key dep) v" by (auto simp: deps_fresh_def)
    then obtain rk where rk: "map_of (results db') (dep_key dep) = Some rk" "res_value rk = v"
      by (auto simp: fresh_def)
    with cs d q have "res_changed rk \<le> res_verified old" by auto
    moreover have "link_ok evs hist db' (res_verified old) (dep_key dep)"
      using inv' old' d q by (auto simp: db_inv_def links_inv_def)
    ultimately obtain d'' where "denotes evs (hist (res_verified old)) (dep_key dep) v d''"
      using rk by (auto simp: link_ok_def)
    with denotes_unique [OF w] have "v = w" by blast
    with fresh_denotes [OF inv' fv] vw show "\<exists>d''. denotes evs (view db) (dep_key dep) w d''"
      by simp
  qed
  with vw fr show ?thesis by simp
qed

end

subsection \<open>The memoising evaluator keeps the contract\<close>

lemma evaluate_contract: "memo_query evs hist (evaluate fuel)"
proof (induction fuel)
  case 0
  show ?case by unfold_locales auto
next
  case (Suc fuel)
  have canc: "evaluate (Suc fuel) key active db (Some 0) = Some (r, db', c') \<Longrightarrow> c' = Some 0"
    for key active db r db' c' by simp
  have "evolves active db db' \<and> db_inv evs hist db' \<and> (\<forall>v. r = Inr v \<longrightarrow> fresh db' key v)"
    if inv: "db_inv evs hist db" and e: "evaluate (Suc fuel) key active db c = Some (r, db', c')"
    for key active db c r db' c'
  proof (cases "fst (ctxErr c) = None \<and> key \<notin> set active")
    case False
    with e inv show ?thesis by (auto split: prod.splits option.splits if_splits)
  next
    case True
    then obtain c1 where c1: "ctxErr c = (None, c1)" and nact: "key \<notin> set active"
      by (metis prod.collapse)
    show ?thesis
    proof (cases "map_of (results db) key")
      case None
      with e c1 nact have "executeQuery (evaluate fuel) key (key # active) None db c1 = Some (r, db', c')"
        by simp
      from memo_query.execute_sound [OF Suc.IH this inv None _ nact] show ?thesis by simp
    next
      case (Some old)
      show ?thesis
      proof (cases "res_verified old = revision db")
        case True
        with e c1 nact Some inv show ?thesis by (auto simp: fresh_def)
      next
        case stale: False
        let ?chk = "checkDependencies (evaluate fuel) (key # active) (res_verified old)
          (res_dependencies old) db c1"
        from e c1 nact Some stale obtain b db2 c2 where chk: "?chk = Some (b, db2, c2)"
          by (auto split: option.splits)
        from memo_query.check_sound [OF Suc.IH chk inv] have ev2: "evolves (key # active) db db2"
          and inv2: "db_inv evs hist db2" by auto
        have old2: "map_of (results db2) key = Some old" and rev2: "revision db2 = revision db"
          using ev2 Some by (auto simp: evolves_def)
        consider (err) er where "b = Inl er" | (valid) "b = Inr True" | (changed) "b = Inr False"
          by (cases b) auto
        then show ?thesis
        proof cases
          case err
          with e c1 nact Some stale chk inv2 evolves_weaken [OF ev2] show ?thesis by auto
        next
          case valid
          let ?r = "old\<lparr>res_verified := revision db2\<rparr>"
          let ?db3 = "db2\<lparr>results := AList.update key ?r (results db2)\<rparr>"
          from e c1 nact Some stale chk valid have db': "r = Inr (res_value old)"
            "db' = countStat Validated_update ?db3" by auto
          note vs = memo_query.validate_sound [OF Suc.IH inv Some chk [unfolded valid]]
          have "db_inv evs hist ?db3"
            by (rule store_inv [OF inv2]) (use vs old2 rev2 stale in auto)
          moreover have "evolves active db2 ?db3"
            by (rule store_evolves [OF nact]) (use old2 rev2 stale in auto)
          moreover have "fresh ?db3 key (res_value old)"
            using store_fresh [of ?r db2 key] by simp
          ultimately show ?thesis using evolves_trans [OF evolves_weaken [OF ev2]] db'
            by (auto simp: fresh_def)
        next
          case changed
          with e c1 nact Some stale chk
          have "executeQuery (evaluate fuel) key (key # active) (Some old) db2 c2 = Some (r, db', c')"
            by simp
          from memo_query.execute_sound [OF Suc.IH this inv2 old2 _ nact] rev2 stale
            evolves_trans [OF evolves_weaken [OF ev2]]
          show ?thesis by auto
        qed
      qed
    qed
  qed
  with canc show ?case unfolding memo_query_def by metis
qed

interpretation ev: memo_query evs hist "evaluate fuel" for evs hist fuel
  by (rule evaluate_contract)

end
