(* ===== verification/IncDatabaseComplete.thy ===== *)
theory IncDatabaseComplete
  imports IncDatabaseProofs
begin

text \<open>
  The memoising evaluator finds every answer the reference has: revalidating a memo entry in
  dependency order never asks for a query the reference would not ask for, so it meets neither
  an error nor a cycle of its own. The contract of the recursive call is extended by
  \<open>complete_query\<close>, which the induction on the reference's fuel discharges.
\<close>

subsection \<open>A rerun asks for the old dependencies as long as they read the same\<close>

definition same_read ::
  "(string \<rightharpoonup> Evaluator) \<Rightarrow> snapshot \<Rightarrow> (string \<rightharpoonup> Evaluator) \<Rightarrow> snapshot \<Rightarrow> dependency \<Rightarrow> bool" where
  "same_read evs env1 reg env2 dep \<longleftrightarrow>
     (if dep_query dep
      then \<exists>w d d'. denotes evs env1 (dep_key dep) w d \<and> denotes reg env2 (dep_key dep) w d'
      else env1 (dep_key dep) = env2 (dep_key dep))"

lemma same_read_query:
  assumes "same_read evs env1 reg env2 \<lparr>dep_key = k, dep_query = True\<rparr>"
    and "map_option fst (specEval n1 evs env1 k) = Some w1"
    and "map_option fst (specEval n2 reg env2 k) = Some w2"
  shows "w1 = w2"
proof -
  from assms(2,3) obtain d1 d2 where "denotes evs env1 k w1 d1" "denotes reg env2 k w2 d2"
    unfolding denotes_def by fastforce
  with assms(1) show ?thesis by (auto simp: same_read_def dest: denotes_unique)
qed

lemma specRun_QueryP:
  assumes "specRun (QueryP key k) env q rd = Some x"
  shows "\<exists>key' w rd'. authorised (rd_queryAuthority rd) key = Some key' \<and> q key' = Some w \<and>
           remember rd \<lparr>dep_key = key', dep_query = True\<rparr> = (True, rd') \<and>
           specRun (k (Inr w)) env q rd' = Some x"
  using assms by (auto split: option.splits prod.splits bool.splits)

lemma specRun_prefix:
  assumes "specRun p env1 (\<lambda>k. map_option fst (specEval n1 evs env1 k)) rd = Some (v1, rd1)"
    and "specRun p env2 (\<lambda>k. map_option fst (specEval n2 reg env2 k)) rd = Some (v2, rd2)"
    and "readerOk rd" and "\<And>x. x \<in> set (rd_dependencies rd) \<Longrightarrow> same_read evs env1 reg env2 x"
    and "rd_dependencies rd1 = rd_dependencies rd @ pre @ dep # post"
    and "\<And>x. x \<in> set pre \<Longrightarrow> same_read evs env1 reg env2 x" and "dep_query dep"
  shows "\<exists>w d. specEval n2 reg env2 (dep_key dep) = Some (w, d)"
  using assms
proof (induction p arbitrary: rd pre rule: prog_induct)
  case (InputP key k)
  then obtain key' rd' where
    rem: "remember rd \<lparr>dep_key = key', dep_query = False\<rparr> = (True, rd')" and
    run1: "specRun (k (env1 key')) env1 (\<lambda>k. map_option fst (specEval n1 evs env1 k)) rd' = Some (v1, rd1)" and
    run2: "specRun (k (env2 key')) env2 (\<lambda>k. map_option fst (specEval n2 reg env2 k)) rd' = Some (v2, rd2)"
    by (auto split: option.splits prod.splits bool.splits)
  let ?dep = "\<lparr>dep_key = key', dep_query = False\<rparr>"
  note rt = remember_True [OF rem InputP.prems(3)]
  have ok: "readerOk rd'" using rt by blast
  show ?case
  proof (cases "?dep \<in> set (rd_dependencies rd)")
    case True
    with rt have same: "rd_dependencies rd' = rd_dependencies rd" by simp
    from True InputP.prems(4) have "env1 key' = env2 key'" by (force simp: same_read_def)
    with run2 InputP.IH [OF run1 _ ok _ _ InputP.prems(6,7)] InputP.prems(4,5) same show ?thesis
      by simp
  next
    case False
    with rt have app: "rd_dependencies rd' = rd_dependencies rd @ [?dep]" by simp
    from specRun_reader [OF run1 ok] obtain xs where "rd_dependencies rd1 = rd_dependencies rd' @ xs"
      by blast
    with app InputP.prems(5,7) obtain pre' where pre: "pre = ?dep # pre'"
      and d1: "rd_dependencies rd1 = rd_dependencies rd' @ pre' @ dep # post"
      by (cases pre) auto
    from pre InputP.prems(6) have e: "env1 key' = env2 key'" by (force simp: same_read_def)
    show ?thesis
      by (rule InputP.IH [OF run1 _ ok _ d1 _ InputP.prems(7)])
        (use run2 e pre app InputP.prems(4,6) in auto)
  qed
next
  case (QueryP key k)
  from specRun_QueryP [OF QueryP.prems(1)] obtain key' w1 rd' where
    key': "authorised (rd_queryAuthority rd) key = Some key'" and
    w1: "map_option fst (specEval n1 evs env1 key') = Some w1" and
    rem: "remember rd \<lparr>dep_key = key', dep_query = True\<rparr> = (True, rd')" and
    run1: "specRun (k (Inr w1)) env1 (\<lambda>k. map_option fst (specEval n1 evs env1 k)) rd' = Some (v1, rd1)"
    by blast
  from specRun_QueryP [OF QueryP.prems(2)] key' rem obtain w2 where
    w2: "map_option fst (specEval n2 reg env2 key') = Some w2" and
    run2: "specRun (k (Inr w2)) env2 (\<lambda>k. map_option fst (specEval n2 reg env2 k)) rd' = Some (v2, rd2)"
    by fastforce
  let ?dep = "\<lparr>dep_key = key', dep_query = True\<rparr>"
  note rt = remember_True [OF rem QueryP.prems(3)]
  have ok: "readerOk rd'" using rt by blast
  show ?case
  proof (cases "?dep \<in> set (rd_dependencies rd)")
    case True
    with rt have same: "rd_dependencies rd' = rd_dependencies rd" by simp
    from same_read_query [OF QueryP.prems(4) [OF True] w1 w2] have "w1 = w2" .
    with run2 QueryP.IH [OF run1 _ ok _ _ QueryP.prems(6,7)] QueryP.prems(4,5) same show ?thesis
      by simp
  next
    case False
    with rt have app: "rd_dependencies rd' = rd_dependencies rd @ [?dep]" by simp
    from specRun_reader [OF run1 ok] obtain xs where xs: "rd_dependencies rd1 = rd_dependencies rd' @ xs"
      by blast
    show ?thesis
    proof (cases pre)
      case Nil
      with xs app QueryP.prems(5) have "dep = ?dep" by simp
      with w2 show ?thesis by fastforce
    next
      case (Cons x pre')
      with xs app QueryP.prems(5) have x: "x = ?dep"
        and d1: "rd_dependencies rd1 = rd_dependencies rd' @ pre' @ dep # post" by simp_all
      have "same_read evs env1 reg env2 ?dep" using QueryP.prems(6) Cons x by simp
      from same_read_query [OF this w1 w2] have e: "w1 = w2" .
      show ?thesis
        by (rule QueryP.IH [OF run1 _ ok _ d1 _ QueryP.prems(7)])
          (use run2 e x Cons app QueryP.prems(4,6) in auto)
    qed
  qed
next
  case (ConfigP inputKeys queryKeys limit p)
  show ?case
    by (rule ConfigP.IH [OF ConfigP.prems(1) [unfolded specRun.simps]
          ConfigP.prems(2) [unfolded specRun.simps] _ _ _ ConfigP.prems(6,7)])
      (use ConfigP.prems(3,4,5) in auto)
next
  case (ContextP k)
  show ?case
    by (rule ContextP.IH [OF ContextP.prems(1) [unfolded specRun.simps]
          ContextP.prems(2) [unfolded specRun.simps] ContextP.prems(3-)])
next
  case (Done r)
  from Done.prems(1) have "rd1 = rd" by (cases r) simp_all
  with Done.prems(5) show ?case by (metis append_self_conv append_is_Nil_conv list.distinct(1))
qed

lemma specEval_prefix:
  assumes "denotes evs env1 key v1 deps" and "covered reg evs" and "specEval (Suc n) reg env2 key = Some (v2, d2)"
    and "deps = pre @ dep # post" and "dep_query dep"
    and "\<And>x. x \<in> set pre \<Longrightarrow> same_read evs env1 reg env2 x"
  shows "\<exists>w d. specEval n reg env2 (dep_key dep) = Some (w, d)"
proof -
  from assms(1) obtain m where "specEval (Suc m) evs env1 key = Some (v1, deps)"
    unfolding denotes_def using specEval_Suc by blast
  then obtain f rd1 where f: "evs (Kind key) = Some f" and deps: "deps = rd_dependencies rd1" and
    run1: "specRun (f (Name key)) env1 (\<lambda>k. map_option fst (specEval m evs env1 k)) newReader = Some (v1, rd1)"
    by (auto split: option.splits)
  from assms(3) obtain f' rd' where f': "reg (Kind key) = Some f'" and
    run': "specRun (f' (Name key)) env2 (\<lambda>k. map_option fst (specEval n reg env2 k)) newReader = Some (v2, rd')"
    by (auto split: option.splits)
  from coveredD [OF assms(2) f' run'] f obtain rd2 where
    run2: "specRun (f (Name key)) env2 (\<lambda>k. map_option fst (specEval n reg env2 k)) newReader = Some (v2, rd2)"
    by auto
  show ?thesis
    by (rule specRun_prefix [where pre = pre and post = post, OF run1 run2 _ _ _ assms(6,5)]) (use assms(4) deps in auto)
qed

subsection \<open>The extended contract and its clients\<close>

text \<open>The evaluators a database runs, and the inputs it has now.\<close>

definition current :: "(string \<rightharpoonup> Evaluator) \<Rightarrow> snapshot \<Rightarrow> Database \<Rightarrow> bool" where
  "current reg env db \<longleftrightarrow> lookupEvaluator db = reg \<and> view db = env"

lemma current_stats [simp]: "current reg env (countStat u db) = current reg env db" "current reg env (db\<lparr>stats := s\<rparr>) = current reg env db"
  by (simp_all add: current_def countStat_def)

lemma current_evolves: "evolves active db db' \<Longrightarrow> current reg env db \<Longrightarrow> current reg env db'"
  by (simp add: current_def evolves_view) (simp add: evolves_def lookupEvaluator_def fun_eq_iff)

locale complete_query = memo_query evs hist ev
  for evs hist ev +
  fixes n :: nat and reg :: "string \<rightharpoonup> Evaluator"
  assumes ev_complete:
    "db_inv evs hist db \<Longrightarrow> current reg env db \<Longrightarrow> specEval n reg env key = Some (v, d) \<Longrightarrow>
     \<forall>a\<in>set active. specEval n reg env a = None \<Longrightarrow>
     \<exists>db'. ev key active db None = Some (Inr v, db', None)"
begin

lemma run_complete:
  assumes "specRun p env (\<lambda>k. map_option fst (specEval n reg env k)) rd = Some (v, rd')"
    and "db_inv evs hist db" and "current reg env db" and "readerOk rd" and "rd_failure rd = None"
    and act: "\<forall>a\<in>set active. specEval n reg env a = None"
  shows "\<exists>db'. runProg p ev active rd db None = Some (Inr v, rd', db', None) \<and> rd_failure rd' = None"
  using assms(1-5)
proof (induction p arbitrary: rd db rule: prog_induct)
  case (InputP key k)
  then obtain key' rd1 where
    key': "authorised (rd_inputAuthority rd) key = Some key'" and
    rem: "remember rd \<lparr>dep_key = key', dep_query = False\<rparr> = (True, rd1)" and
    run: "specRun (k (env key')) env (\<lambda>k. map_option fst (specEval n reg env k)) rd1 = Some (v, rd')"
    by (auto split: option.splits prod.splits bool.splits)
  obtain db1 where i: "readerInput rd db key = (view db key', rd1, db1)"
    and db1: "db_inv evs hist db1" "current reg env db1"
    using key' rem InputP.prems(2,3,5) by (auto simp: readerInput_def view_def Let_def)
  from InputP.IH [OF run db1] remember_True [OF rem InputP.prems(4)] i InputP.prems(3) show ?case
    by (auto simp: current_def)
next
  case (QueryP key k)
  from specRun_QueryP [OF QueryP.prems(1)] obtain key' w rd1 where
    key': "authorised (rd_queryAuthority rd) key = Some key'" and
    w: "map_option fst (specEval n reg env key') = Some w" and
    rem: "remember rd \<lparr>dep_key = key', dep_query = True\<rparr> = (True, rd1)" and
    run: "specRun (k (Inr w)) env (\<lambda>k. map_option fst (specEval n reg env k)) rd1 = Some (v, rd')"
    by blast
  from w obtain d where "specEval n reg env key' = Some (w, d)" by fastforce
  from ev_complete [OF QueryP.prems(2,3) this act] obtain db1 where
    e: "ev key' active db None = Some (Inr w, db1, None)" by blast
  from ev_sound [OF QueryP.prems(2) e] QueryP.prems(3) have db1: "db_inv evs hist db1" "current reg env db1"
    by (auto dest: current_evolves)
  have "readerQuery ev active rd db None key = Some (Inr w, rd1, db1, None)"
    using key' rem QueryP.prems(4,5) e
    by (auto simp: readerQuery_def Let_def remember_cases split: if_splits)
  with QueryP.IH [OF run db1] remember_True [OF rem QueryP.prems(4)] show ?case by auto
next
  case (ConfigP inputKeys queryKeys limit p)
  from ConfigP.IH [OF ConfigP.prems(1) [unfolded specRun.simps] ConfigP.prems(2,3)] ConfigP.prems(4,5)
  show ?case by simp
qed (auto split: sum.splits)

lemma check_complete:
  assumes "db_inv evs hist db" and "current reg env db" and "verified \<le> revision db"
    and "\<And>dep. dep \<in> set deps \<Longrightarrow> dep_query dep \<Longrightarrow> \<exists>rp. map_of (results db) p = Some rp \<and>
           res_verified rp = verified \<and> dep \<in> set (res_dependencies rp)"
    and "p \<in> set active"
    and "\<And>pre dep post. deps = pre @ dep # post \<Longrightarrow>
           (\<And>x. x \<in> set pre \<Longrightarrow> same_read evs (hist verified) reg env x) \<Longrightarrow> dep_query dep \<Longrightarrow>
           \<exists>w d. specEval n reg env (dep_key dep) = Some (w, d)"
    and act: "\<forall>a\<in>set active. specEval n reg env a = None"
  shows "\<exists>b db'. checkDependencies ev active verified deps db None = Some (Inr b, db', None)"
  using assms(1-6)
proof (induction deps arbitrary: db)
  case (Cons dep deps)
  let ?db1 = "countStat DependencyChecks_update db"
  have db1: "db_inv evs hist ?db1" "current reg env ?db1" "inputAt ?db1 = inputAt db"
    using Cons.prems(1,2) by (simp, simp, simp add: countStat_def)
  have rest: "\<exists>w d. specEval n reg env (dep_key dp) = Some (w, d)"
    if "same_read evs (hist verified) reg env dep" "deps = pre @ dp # post"
      "\<And>x. x \<in> set pre \<Longrightarrow> same_read evs (hist verified) reg env x" "dep_query dp" for pre dp post
    using Cons.prems(6) [of "dep # pre" dp post] that by auto
  show ?case
  proof (cases "dep_query dep")
    case False
    show ?thesis
    proof (cases "in_changed (inputAt db (dep_key dep)) > verified")
      case True
      with False db1 show ?thesis by (intro exI [of _ False]) (simp add: Let_def)
    next
      case nle: False
      with Cons.prems(1-3) have "hist verified (dep_key dep) = env (dep_key dep)"
        by (auto simp: db_inv_def inputs_inv_def current_def)
      with False have "same_read evs (hist verified) reg env dep" by (simp add: same_read_def)
      from Cons.IH [OF db1(1,2) _ _ Cons.prems(5) rest [OF this]] Cons.prems(3,4)
      have "\<exists>b db'. checkDependencies ev active verified deps ?db1 None = Some (Inr b, db', None)"
        by simp
      with False nle db1 show ?thesis by (simp add: Let_def)
    qed
  next
    case True
    from Cons.prems(6) [of "[]" dep deps] True obtain w d where
      w: "specEval n reg env (dep_key dep) = Some (w, d)" by auto
    from ev_complete [OF db1(1,2) w act] obtain db2 where
      e: "ev (dep_key dep) active ?db1 None = Some (Inr w, db2, None)" by blast
    note es = ev_sound [OF db1(1) e]
    then have inv2: "db_inv evs hist db2" and ev2: "evolves active db db2" and
      fr: "fresh db2 (dep_key dep) w" by auto
    have v2: "current reg env db2" by (rule current_evolves [OF ev2 Cons.prems(2)])
    from fr obtain rk where rk: "map_of (results db2) (dep_key dep) = Some rk" "res_value rk = w"
      by (auto simp: fresh_def)
    have keep: "map_of (results db2) p = map_of (results db) p" "revision db2 = revision db"
      using ev2 Cons.prems(5) by (auto simp: evolves_def)
    show ?thesis
    proof (cases "res_changed rk > verified")
      case True
      with \<open>dep_query dep\<close> e rk show ?thesis by (intro exI [of _ False]) (simp add: Let_def)
    next
      case False
      from Cons.prems(4) [of dep] True obtain rp where rp: "map_of (results db2) p = Some rp"
        "res_verified rp = verified" "dep \<in> set (res_dependencies rp)" using keep by auto
      with inv2 True have "link_ok evs hist db2 verified (dep_key dep)"
        by (auto simp: db_inv_def links_inv_def)
      with rk False have "\<exists>d. denotes evs (hist verified) (dep_key dep) w d"
        by (auto simp: link_ok_def)
      with w True have "same_read evs (hist verified) reg env dep"
        by (auto simp: same_read_def denotes_def)
      from Cons.IH [OF inv2 v2 _ _ Cons.prems(5) rest [OF this]] Cons.prems(3,4) keep
      have "\<exists>b db'. checkDependencies ev active verified deps db2 None = Some (Inr b, db', None)"
        by simp
      with True False e rk show ?thesis by (simp add: Let_def)
    qed
  qed
qed (intro exI [of _ True], simp)

lemma execute_complete:
  assumes "db_inv evs hist db" and "current reg env db"
    and "specEval (Suc n) reg env key = Some (v, d)"
    and act: "\<forall>a\<in>set active. specEval n reg env a = None"
  shows "\<exists>db'. executeQuery ev key active old db None = Some (Inr v, db', None)"
proof -
  from assms(3) obtain f rd where f: "reg (Kind key) = Some f" and
    run: "specRun (f (Name key)) env (\<lambda>k. map_option fst (specEval n reg env k)) newReader = Some (v, rd)"
    by (auto split: option.splits)
  have "lookupEvaluator db (Kind key) = Some f" using assms(2) f by (simp add: current_def)
  moreover have "db_inv evs hist (countStat Executed_update db)" "current reg env (countStat Executed_update db)"
    using assms by simp_all
  from run_complete [OF run this _ _ act] obtain db' where
    "runProg (f (Name key)) ev active newReader (countStat Executed_update db) None
       = Some (Inr v, rd, db', None) \<and> rd_failure rd = None" by auto
  ultimately show ?thesis by (simp add: executeQuery_def Let_def)
qed

end

text \<open>Revalidating or recomputing one key, given the contract one level down.\<close>

lemma evaluate_step_complete:
  assumes cq: "complete_query evs hist (evaluate f) n (lookupEvaluator db)"
    and inv: "db_inv evs hist db" and spec: "specEval (Suc n) (lookupEvaluator db) (view db) key = Some (v, d)"
    and act: "\<forall>a\<in>set (key # active). specEval n (lookupEvaluator db) (view db) a = None"
    and nact: "key \<notin> set active"
  shows "\<exists>db'. evaluate (Suc f) key active db None = Some (Inr v, db', None)"
proof (cases "map_of (results db) key")
  case None
  from complete_query.execute_complete [OF cq inv _ spec act] None nact show ?thesis by (simp add: current_def)
next
  case (Some old)
  have cov: "covered (lookupEvaluator db) evs" using inv by (simp add: db_inv_def)
  have den: "denotes evs (view db) key v d" using covered_specEval [OF cov spec] unfolding denotes_def by blast
  have now: "current (lookupEvaluator db) (view db) db" by (simp add: current_def)
  from inv Some have oden: "denotes evs (hist (res_verified old)) key (res_value old) (res_dependencies old)"
    and ole: "res_verified old \<le> revision db" by (auto simp: db_inv_def memo_inv_def)
  show ?thesis
  proof (cases "res_verified old = revision db")
    case True
    with oden inv_view [OF inv] denotes_unique [OF den] have "res_value old = v" by auto
    with True Some nact show ?thesis by simp
  next
    case stale: False
    have H: "\<exists>w d. specEval n (lookupEvaluator db) (view db) (dep_key dep) = Some (w, d)"
      if "res_dependencies old = pre @ dep # post" "dep_query dep"
        "\<And>x. x \<in> set pre \<Longrightarrow> same_read evs (hist (res_verified old)) (lookupEvaluator db) (view db) x" for pre dep post
      by (rule specEval_prefix [OF oden cov spec that])
    from complete_query.check_complete [OF cq inv now ole _ _ _ act, of "res_dependencies old" key] H Some
    obtain b db2 where
      chk: "checkDependencies (evaluate f) (key # active) (res_verified old) (res_dependencies old) db None
            = Some (Inr b, db2, None)" by force
    from memo_query.check_sound [OF evaluate_contract chk inv] have inv2: "db_inv evs hist db2"
      and ev2: "evolves (key # active) db db2" by auto
    have vw: "view db2 = view db" by (rule evolves_view [OF ev2])
    show ?thesis
    proof (cases b)
      case True
      with chk have chk': "checkDependencies (evaluate f) (key # active) (res_verified old)
        (res_dependencies old) db None = Some (Inr True, db2, None)" by simp
      from memo_query.validate_sound [OF evaluate_contract inv Some chk'] vw denotes_unique [OF den]
      have "res_value old = v" by auto
      with Some stale nact chk' show ?thesis by simp
    next
      case False
      from complete_query.execute_complete [OF cq inv2 current_evolves [OF ev2 now] spec act] Some stale nact chk False
      show ?thesis by simp
    qed
  qed
qed

lemma evaluate_complete: "n \<le> fuel \<Longrightarrow> complete_query evs hist (evaluate fuel) n reg"
proof (induction n arbitrary: fuel)
  case 0
  then show ?case
    by (intro complete_query.intro evaluate_contract complete_query_axioms.intro) simp
next
  case (Suc n)
  then obtain f where fuel: "fuel = Suc f" and f: "n \<le> f" by (cases fuel) auto
  show ?case
  proof (intro complete_query.intro evaluate_contract complete_query_axioms.intro)
    fix db env key v d active
    assume inv: "db_inv evs hist db" and env: "current reg env db"
      and spec: "specEval (Suc n) reg env key = Some (v, d)"
      and act: "\<forall>a\<in>set active. specEval (Suc n) reg env a = None"
    have act': "\<forall>a\<in>set active. specEval n reg env a = None"
      using act specEval_Suc by (metis not_Some_eq)
    have nact: "key \<notin> set active" using spec act by (metis option.distinct(1))
    show "\<exists>db'. evaluate fuel key active db None = Some (Inr v, db', None)"
    proof (cases "specEval n reg env key")
      case (Some x)
      with specEval_Suc [OF this] spec have "specEval n reg env key = Some (v, d)" by simp
      moreover have "complete_query evs hist (evaluate fuel) n reg" using Suc.IH f fuel by simp
      ultimately show ?thesis using complete_query.ev_complete inv env act' by blast
    next
      case None
      from env have reg: "reg = lookupEvaluator db" "env = view db" by (simp_all add: current_def)
      show ?thesis unfolding fuel
        by (rule evaluate_step_complete [OF Suc.IH [OF f, unfolded reg] inv spec [unfolded reg] _ nact])
          (use None act' in \<open>simp add: reg\<close>)
    qed
  qed
qed

interpretation evc: complete_query evs hist "evaluate (n + extra)" n reg for evs hist n extra reg
  by (rule evaluate_complete) simp

end
