(* ===== verification/IncDatabaseReach.thy ===== *)
theory IncDatabaseReach
  imports IncDatabaseComplete
begin

text \<open>
  Every history of a database. The public operations are the steps of \<open>reachable\<close>; the
  revision counter is a \<^verbatim>\<open>uint64\<close>, and the histories are those in which it has not wrapped
  around. \<open>reach_inv\<close> carries the invariant of \<open>IncDatabaseProofs\<close> through all of them, and
  the write operations are compared with plain updates of a snapshot.
\<close>

definition evalMap :: "(string, Evaluator option) gomap \<Rightarrow> string \<rightharpoonup> Evaluator" where
  "evalMap evals kind = (case map_of evals kind of None \<Rightarrow> None | Some e \<Rightarrow> e)"

inductive reachable :: "(string, Evaluator option) gomap \<Rightarrow> Database \<Rightarrow> bool" for evals where
  start: "reachable evals (New evals)"
| applied: "reachable evals db \<Longrightarrow> Suc (revision db) < 2 ^ 64 \<Longrightarrow>
     reachable evals (snd (Apply db changes))"
| snapshot: "reachable evals db \<Longrightarrow> Suc (revision db) < 2 ^ 64 \<Longrightarrow>
     reachable evals (snd (applySnapshot db pending))"
| evict: "reachable evals db \<Longrightarrow> Suc (revision db) < 2 ^ 64 \<Longrightarrow>
     reachable evals (snd (EvictQuery db key))"
| retire: "reachable evals db \<Longrightarrow> Suc (revision db) < 2 ^ 64 \<Longrightarrow>
     reachable evals (RetireInputs db keys)"
| transaction: "reachable evals db \<Longrightarrow> Suc (revision db) < 2 ^ 64 \<Longrightarrow>
     reachable evals (snd (applyTransaction db pending retired evicted))"
| evaluate: "reachable evals db \<Longrightarrow> Evaluate fuel db c key = Some (r, db', c') \<Longrightarrow>
     reachable evals db'"
| batch: "reachable evals db \<Longrightarrow> EvaluateBatch fuel db c keys = Some (rs, db', c') \<Longrightarrow>
     reachable evals db'"

text \<open>The record of an absent input is empty, and the maps have one entry per key.\<close>

definition store_wf :: "Database \<Rightarrow> bool" where
  "store_wf db \<longleftrightarrow>
     (\<forall>k. \<not> in_present (inputAt db k) \<longrightarrow> in_value (inputAt db k) = []) \<and>
     gomap_ok (inputs db)"

subsection \<open>One write of an input\<close>

text \<open>The effect of a change, and of retiring a key, on the snapshot.\<close>

definition setInput :: "snapshot \<Rightarrow> Change \<Rightarrow> snapshot" where
  "setInput env change =
     env(ch_Key change := (if ch_Remove change then ([], False) else (ch_Value change, True)))"

definition dropInput :: "snapshot \<Rightarrow> Key \<Rightarrow> snapshot" where
  "dropInput env key = env(key := ([], False))"

text \<open>A database after writes at its own revision: only inputs stamped with that revision
  differ.\<close>

definition overwrites :: "Database \<Rightarrow> Database \<Rightarrow> bool" where
  "overwrites db db' \<longleftrightarrow>
     revision db' = revision db \<and> evaluators db' = evaluators db \<and> results db' = results db \<and>
     (\<forall>k. inputAt db' k = inputAt db k \<or> in_changed (inputAt db' k) = revision db) \<and>
     (store_wf db \<longrightarrow> store_wf db')"

lemma overwrites_refl [simp]: "overwrites db db"
  by (simp add: overwrites_def)

lemma overwrites_trans: "overwrites a b \<Longrightarrow> overwrites b c \<Longrightarrow> overwrites a c"
  unfolding overwrites_def by metis

lemma overwrites_foldl:
  assumes "\<And>d x. overwrites d (f d x)"
  shows "overwrites db (foldl f db xs)"
  by (induction xs rule: rev_induct) (auto intro: overwrites_trans assms)

lemma inputAt_write:
  "inputAt (db\<lparr>inputs := AList.update key i (inputs db)\<rparr>) k = (if k = key then i else inputAt db k)"
  by (simp add: inputAt_def)

lemma store_write:
  "(\<not> in_present i \<Longrightarrow> in_value i = []) \<Longrightarrow> store_wf db \<Longrightarrow>
   store_wf (db\<lparr>inputs := AList.update key i (inputs db)\<rparr>)"
  unfolding store_wf_def inputAt_write by (auto intro: gomap_ok_update)

lemma writeChange_overwrites: "overwrites db (writeChange db kc)"
  by (cases kc) (auto simp: writeChange_def Let_def overwrites_def inputAt_write intro!: store_write)

lemma retireInput_overwrites: "overwrites db (retireInput db key)"
  by (auto simp: retireInput_def overwrites_def inputAt_write intro!: store_write)

lemma retireInput_view: "view (retireInput db key) = dropInput (view db) key"
  by (auto simp: retireInput_def dropInput_def view_def inputAt_write fun_eq_iff)

lemma writeChange_view:
  "store_wf db \<Longrightarrow> view (writeChange db (ch_Key ch, ch)) = setInput (view db) ch"
  by (auto simp: writeChange_def Let_def setInput_def view_def inputAt_write fun_eq_iff
      inputUnchanged_def store_wf_def)

lemma foldl_retireInput_view: "view (foldl retireInput db keys) = foldl dropInput (view db) keys"
  by (induction keys arbitrary: db) (simp_all add: retireInput_view)

lemma foldl_writeChange_view:
  "store_wf db \<Longrightarrow> \<forall>(k, ch)\<in>set pending. k = ch_Key ch \<Longrightarrow>
   view (foldl writeChange db pending) = foldl setInput (view db) (map snd pending)"
proof (induction pending arbitrary: db)
  case (Cons kc pending)
  then obtain ch where kc: "kc = (ch_Key ch, ch)" by (cases kc) auto
  have "store_wf (writeChange db kc)"
    using Cons.prems(1) writeChange_overwrites by (auto simp: overwrites_def)
  with Cons kc show ?case by (simp add: writeChange_view)
qed simp

lemma inputModified_unchanged: "inputModified old ch \<longleftrightarrow> \<not> inputUnchanged old ch"
  by (auto simp: inputModified_def inputUnchanged_def)

lemma inputUnchanged_view:
  "store_wf db \<Longrightarrow> inputUnchanged (inputAt db (ch_Key ch)) ch \<longleftrightarrow> setInput (view db) ch = view db"
  by (auto simp: inputUnchanged_def setInput_def view_def store_wf_def fun_eq_iff)

lemma bumpRevision_sel [simp]:
  "revision (bumpRevision db) = uint64_inc (revision db)" "inputs (bumpRevision db) = inputs db"
  "results (bumpRevision db) = results db" "evaluators (bumpRevision db) = evaluators db"
  "inputAt (bumpRevision db) = inputAt db" "view (bumpRevision db) = view db"
  "store_wf (bumpRevision db) = store_wf db"
  by (simp_all add: bumpRevision_def inputAt_def view_def store_wf_def fun_eq_iff)

subsection \<open>A new revision keeps the invariant\<close>

definition bumps :: "Database \<Rightarrow> Database \<Rightarrow> bool" where
  "bumps db db' \<longleftrightarrow>
     revision db' = Suc (revision db) \<and> evaluators db' = evaluators db \<and>
     (\<forall>k r. map_of (results db') k = Some r \<longrightarrow> map_of (results db) k = Some r) \<and>
     (\<forall>k. inputAt db' k = inputAt db k \<or> in_changed (inputAt db' k) = revision db') \<and>
     (store_wf db \<longrightarrow> store_wf db')"

lemma bumps_inv:
  assumes inv: "db_inv evs hist db" and b: "bumps db db'"
  shows "db_inv evs (hist(revision db' := view db')) db'" (is "db_inv _ ?hist _")
proof -
  have old: "?hist q = hist q" if "q \<le> revision db" for q
    using that b by (auto simp: bumps_def)
  note i = inv [unfolded db_inv_def inputs_inv_def memo_inv_def links_inv_def]
  note b' = b [unfolded bumps_def]
  have "inputs_inv ?hist db'"
    unfolding inputs_inv_def
  proof (intro conjI allI impI)
    fix k
    show "in_changed (inputAt db' k) \<le> revision db'"
      using i b' by (metis order_refl le_SucI)
    fix q assume q: "in_changed (inputAt db' k) \<le> q" "q \<le> revision db'"
    show "?hist q k = view db' k"
    proof (cases "q = revision db'")
      case False
      with q b have "inputAt db' k = inputAt db k" and le: "q \<le> revision db" by (auto simp: bumps_def)
      with q inv have "hist q k = view db' k" by (auto simp: db_inv_def inputs_inv_def view_def)
      with old [OF le] show ?thesis by simp
    qed simp
  qed
  moreover have "memo_inv evs ?hist db'"
    unfolding memo_inv_def
  proof (intro allI impI)
    fix k r assume "map_of (results db') k = Some r"
    with b' have "map_of (results db) k = Some r" by blast
    with i have r: "res_changed r \<le> res_verified r" "res_verified r \<le> revision db"
      "denotes evs (hist (res_verified r)) k (res_value r) (res_dependencies r)" by blast+
    with old [OF r(2)] b' show "res_changed r \<le> res_verified r \<and> res_verified r \<le> revision db' \<and>
      denotes evs (?hist (res_verified r)) k (res_value r) (res_dependencies r)" by simp
  qed
  moreover have "links_inv evs ?hist db'"
    unfolding links_inv_def
  proof (intro allI impI)
    fix p rp dep
    assume p: "map_of (results db') p = Some rp" and d: "dep \<in> set (res_dependencies rp)" "dep_query dep"
    from p b' have p0: "map_of (results db) p = Some rp" by blast
    from p0 d i have l: "link_ok evs hist db (res_verified rp) (dep_key dep)" by blast
    from p0 i have le: "res_verified rp \<le> revision db" by blast
    from b' le have "res_verified rp \<noteq> revision db'" by simp
    with l b' old [OF le] show "link_ok evs ?hist db' (res_verified rp) (dep_key dep)"
      unfolding link_ok_def by metis
  qed
  moreover have "lookupEvaluator db' = lookupEvaluator db"
    using b by (simp add: lookupEvaluator_def bumps_def fun_eq_iff)
  then have "covered (lookupEvaluator db') evs" using inv by (simp add: db_inv_def)
  ultimately show ?thesis by (simp add: db_inv_def)
qed

lemma bumps_overwrites:
  assumes "Suc (revision db) < 2 ^ 64" and "overwrites (bumpRevision db) db'"
  shows "bumps db db'"
  using assms uint64_inc_small [OF assms(1)] by (auto simp: bumps_def overwrites_def)

lemma applyPending_bumps:
  "Suc (revision db) < 2 ^ 64 \<Longrightarrow> applyPending db pending = (b, db') \<Longrightarrow>
   if b then bumps db db' else db' = db"
  by (auto simp: applyPending_def split: if_splits
      intro!: bumps_overwrites overwrites_foldl writeChange_overwrites)

lemma Apply_eq_pending: "Apply db changes = applyPending db (pendingOf changes)"
  by (auto simp: Apply_def applyPending_def pendingOf_def inputModified_unchanged split: list.split)

lemma EvictQuery_bumps:
  "Suc (revision db) < 2 ^ 64 \<Longrightarrow> EvictQuery db key = (b, db') \<Longrightarrow>
   if b then bumps db db' else db' = db"
  by (auto simp: EvictQuery_def bumps_def uint64_inc_small store_wf_def inputAt_def
      split: option.splits if_splits)

lemma RetireInputs_bumps:
  "Suc (revision db) < 2 ^ 64 \<Longrightarrow> bumps db (RetireInputs db keys) \<or> RetireInputs db keys = db"
  by (auto simp: RetireInputs_def intro!: bumps_overwrites overwrites_foldl retireInput_overwrites)

definition evictResults :: "Database \<Rightarrow> Key list \<Rightarrow> Database" where
  "evictResults db keys = foldl (\<lambda>d key. d\<lparr>results := AList.delete key (results d)\<rparr>) db keys"

lemma evictResults_sel [simp]:
  "revision (evictResults db keys) = revision db" "inputs (evictResults db keys) = inputs db"
  "evaluators (evictResults db keys) = evaluators db" "stats (evictResults db keys) = stats db"
  "inputAt (evictResults db keys) = inputAt db" "view (evictResults db keys) = view db"
  "store_wf (evictResults db keys) = store_wf db"
  by (induction keys arbitrary: db) (simp_all add: evictResults_def store_wf_def inputAt_def view_def fun_eq_iff)

lemma evictResults_lookup:
  "map_of (results (evictResults db keys)) k = (if k \<in> set keys then None else map_of (results db) k)"
  by (induction keys arbitrary: db) (simp_all add: evictResults_def)

lemma applyTransaction_bumps:
  assumes "Suc (revision db) < 2 ^ 64" and "applyTransaction db pending retired evicted = (b, db')"
  shows "if b then bumps db db' else db' = db"
proof -
  let ?db2 = "evictResults (bumpRevision db) evicted"
  have "overwrites ?db2 (foldl retireInput (foldl writeChange ?db2 pending) retired)"
    by (blast intro: overwrites_trans overwrites_foldl writeChange_overwrites retireInput_overwrites)
  moreover have "bumps db d" if "overwrites ?db2 d" for d
    using that uint64_inc_small [OF assms(1)]
    by (auto simp: bumps_def overwrites_def evictResults_lookup split: if_splits)
  ultimately show ?thesis using assms(2)
    by (auto simp: applyTransaction_def Let_def evictResults_def split: if_splits)
qed

subsection \<open>Every reachable database has the invariant\<close>

lemma New_lookup: "gomap_ok evals \<Longrightarrow> lookupEvaluator (New evals) = evalMap evals"
  by (simp add: New_def evalMap_def lookupEvaluator_def copyMap_lookup fun_eq_iff)

lemma New_inv:
  assumes "gomap_ok evals" "covered (evalMap evals) evs"
  shows "db_inv evs (\<lambda>_ _. ([], False)) (New evals) \<and> store_wf (New evals)"
  using assms(2) unfolding db_inv_def New_lookup [OF assms(1)]
  by (simp add: New_def inputs_inv_def memo_inv_def links_inv_def view_def inputAt_def zeroInput_def store_wf_def fun_eq_iff)

lemma Evaluate_contract:
  assumes "Evaluate fuel db c key = Some (r, db', c')" and "db_inv evs hist db"
  shows "evolves [] db db' \<and> db_inv evs hist db' \<and> (\<forall>v. r = Inr v \<longrightarrow> fresh db' key v)"
  using ev.ev_sound [OF assms(2) assms(1) [unfolded Evaluate_def]] .

lemma evaluateRoots_contract:
  "evaluateRoots fuel keys db c = Some (rs, db', c') \<Longrightarrow> db_inv evs hist db \<Longrightarrow>
   evolves [] db db' \<and> db_inv evs hist db' \<and>
   list_all2 (\<lambda>r key. \<forall>v. r = Inr v \<longrightarrow> fresh db' key v) rs keys"
proof (induction keys arbitrary: db c rs)
  case (Cons key keys)
  from Cons.prems(1) obtain r db1 c1 where e: "evaluate fuel key [] db c = Some (r, db1, c1)"
    by (auto split: option.splits)
  note es = ev.ev_sound [OF Cons.prems(2) e]
  then have inv1: "db_inv evs hist db1" by blast
  obtain er c2 where ce: "ctxErr c1 = (er, c2)" by force
  show ?case
  proof (cases er)
    case None
    with Cons.prems(1) e ce obtain rs' where
      roots: "evaluateRoots fuel keys db1 c2 = Some (rs', db', c')" and rs: "rs = r # rs'"
      by (auto split: option.splits)
    from Cons.IH [OF roots inv1] es rs show ?thesis by (auto intro: evolves_trans evolves_fresh)
  next
    case (Some err)
    with Cons.prems(1) e ce have "rs = r # map (\<lambda>_. Inl err) keys" "db' = db1" by auto
    with es show ?thesis by (auto simp: list_all2_map1 intro: list_all2_refl)
  qed
qed simp

lemma EvaluateBatch_contract:
  assumes "EvaluateBatch fuel db c keys = Some (rs, db', c')" and "db_inv evs hist db"
  shows "evolves [] db db' \<and> db_inv evs hist db' \<and>
         list_all2 (\<lambda>r key. \<forall>v. r = Inr v \<longrightarrow> fresh db' key v) rs keys"
  using assms evaluateRoots_contract [of fuel keys db c rs db' c' evs hist]
  by (auto simp: EvaluateBatch_def list_all2_conv_all_nth split: if_splits)

lemma evolves_store_wf:
  assumes "evolves active db db'"
  shows "store_wf db' = store_wf db" "lookupEvaluator db' = lookupEvaluator db"
  using assms by (simp_all add: evolves_def store_wf_def inputAt_def lookupEvaluator_def fun_eq_iff)

definition reach_ok :: "(string, Evaluator option) gomap \<Rightarrow> Database \<Rightarrow> bool" where
  "reach_ok evals db \<longleftrightarrow> (\<exists>hist. db_inv (evalMap evals) hist db) \<and> store_wf db \<and> lookupEvaluator db = evalMap evals"

lemma bumps_keeps:
  assumes "bumps db db'"
  shows "lookupEvaluator db' = lookupEvaluator db" "store_wf db \<Longrightarrow> store_wf db'"
  using assms by (simp_all add: bumps_def lookupEvaluator_def fun_eq_iff)

lemma reach_ok_bumps: "reach_ok evals db \<Longrightarrow> bumps db db' \<Longrightarrow> reach_ok evals db'"
  unfolding reach_ok_def using bumps_inv bumps_keeps by metis

lemma reach_ok_step: "reach_ok evals db \<Longrightarrow> (if b then bumps db db' else db' = db) \<Longrightarrow> reach_ok evals db'"
  by (cases b) (auto intro: reach_ok_bumps)

lemma reach_inv:
  assumes "reachable evals db" and "gomap_ok evals"
  shows "reach_ok evals db"
  using assms
proof (induction rule: reachable.induct)
  case start
  then show ?case using New_inv [OF _ covered_refl] New_lookup unfolding reach_ok_def by blast
next
  case (evaluate db fuel c key r db' c')
  with Evaluate_contract evolves_store_wf show ?case unfolding reach_ok_def by metis
next
  case (batch db fuel c keys rs db' c')
  with EvaluateBatch_contract evolves_store_wf show ?case unfolding reach_ok_def by metis
next
  case (applied db changes)
  show ?case
    by (rule reach_ok_step [OF applied.IH [OF assms(2)] applyPending_bumps [OF applied.hyps(2)]])
      (simp add: Apply_eq_pending prod_eq_iff)
next
  case (snapshot db pending)
  show ?case
    by (rule reach_ok_step [OF snapshot.IH [OF assms(2)] applyPending_bumps [OF snapshot.hyps(2)]])
      (simp add: applySnapshot_def prod_eq_iff)
next
  case (evict db key)
  show ?case
    by (rule reach_ok_step [OF evict.IH [OF assms(2)] EvictQuery_bumps [OF evict.hyps(2)]])
      (simp add: prod_eq_iff)
next
  case (retire db keys)
  with RetireInputs_bumps [OF retire.hyps(2), of keys] reach_ok_bumps show ?case by metis
next
  case (transaction db pending retired evicted)
  show ?case
    by (rule reach_ok_step [OF transaction.IH [OF assms(2)] applyTransaction_bumps [OF transaction.hyps(2)]])
      (simp add: prod_eq_iff)
qed

end
