(* ===== verification/IncDatabaseCycle.thy ===== *)
theory IncDatabaseCycle
  imports IncDatabaseReach
begin

text \<open>
  Queries that fail. \<open>asksFor\<close> follows an evaluator over a snapshot, with the reference's answers
  to the queries it makes, and says whether it gets to ask for a given key; \<open>failsWith\<close> follows it
  to the error it ends with, its own or the cycle error of asking for itself. A key whose evaluator
  fails has no reference value, its memo entry (if it has one from other inputs) is never
  validated, and evaluating it returns that error and stores nothing.
\<close>

primrec asksFor :: "Key \<Rightarrow> prog \<Rightarrow> snapshot \<Rightarrow> (Key \<rightharpoonup> string) \<Rightarrow> Reader \<Rightarrow> bool" where
  "asksFor self (Done r) env q rd = False"
| "asksFor self (InputP key k) env q rd =
     (case authorised (rd_inputAuthority rd) key of
        None \<Rightarrow> False
      | Some key' \<Rightarrow>
          (case remember rd \<lparr>dep_key = key', dep_query = False\<rparr> of
             (False, _) \<Rightarrow> False
           | (True, rd') \<Rightarrow> asksFor self (k (env key')) env q rd'))"
| "asksFor self (QueryP key k) env q rd =
     (case authorised (rd_queryAuthority rd) key of
        None \<Rightarrow> False
      | Some key' \<Rightarrow>
          (case remember rd \<lparr>dep_key = key', dep_query = True\<rparr> of
             (False, _) \<Rightarrow> False
           | (True, rd') \<Rightarrow>
               if key' = self then True
               else (case q key' of None \<Rightarrow> False | Some v \<Rightarrow> asksFor self (k (Inr v)) env q rd')))"
| "asksFor self (ContextP k) env q rd = asksFor self (k None) env q rd"
| "asksFor self (ConfigP inputKeys queryKeys limit p) env q rd =
     asksFor self p env q
       (rd\<lparr>rd_inputAuthority := Some inputKeys, rd_queryAuthority := Some queryKeys,
           rd_boundedDependencies := True, rd_maxDependencies := limit\<rparr>)"

primrec failsWith :: "Key \<Rightarrow> prog \<Rightarrow> snapshot \<Rightarrow> (Key \<rightharpoonup> string) \<Rightarrow> Reader \<Rightarrow> error option" where
  "failsWith self (Done r) env q rd = (case r of Inl err \<Rightarrow> Some err | Inr _ \<Rightarrow> None)"
| "failsWith self (InputP key k) env q rd =
     (case authorised (rd_inputAuthority rd) key of
        None \<Rightarrow> None
      | Some key' \<Rightarrow>
          (case remember rd \<lparr>dep_key = key', dep_query = False\<rparr> of
             (False, _) \<Rightarrow> None
           | (True, rd') \<Rightarrow> failsWith self (k (env key')) env q rd'))"
| "failsWith self (QueryP key k) env q rd =
     (case authorised (rd_queryAuthority rd) key of
        None \<Rightarrow> None
      | Some key' \<Rightarrow>
          (case remember rd \<lparr>dep_key = key', dep_query = True\<rparr> of
             (False, _) \<Rightarrow> None
           | (True, rd') \<Rightarrow>
               if key' = self then Some (CycleError self)
               else (case q key' of None \<Rightarrow> None | Some v \<Rightarrow> failsWith self (k (Inr v)) env q rd')))"
| "failsWith self (ContextP k) env q rd = failsWith self (k None) env q rd"
| "failsWith self (ConfigP inputKeys queryKeys limit p) env q rd =
     failsWith self p env q
       (rd\<lparr>rd_inputAuthority := Some inputKeys, rd_queryAuthority := Some queryKeys,
           rd_boundedDependencies := True, rd_maxDependencies := limit\<rparr>)"

lemma asksFor_fails: "asksFor self p env q rd \<Longrightarrow> failsWith self p env q rd = Some (CycleError self)"
  by (induction p arbitrary: rd rule: prog_induct) (auto split: option.splits prod.splits bool.splits if_splits)

lemma failsWith_InputP:
  assumes "failsWith self (InputP key k) env q rd = Some err"
  shows "\<exists>key' rd'. authorised (rd_inputAuthority rd) key = Some key' \<and>
           remember rd \<lparr>dep_key = key', dep_query = False\<rparr> = (True, rd') \<and>
           failsWith self (k (env key')) env q rd' = Some err"
  using assms by (auto split: option.splits prod.splits bool.splits)

lemma failsWith_QueryP:
  assumes "failsWith self (QueryP key k) env q rd = Some err"
  shows "\<exists>key' rd'. authorised (rd_queryAuthority rd) key = Some key' \<and>
           remember rd \<lparr>dep_key = key', dep_query = True\<rparr> = (True, rd') \<and>
           (key' = self \<and> err = CycleError self \<or>
            (\<exists>w. key' \<noteq> self \<and> q key' = Some w \<and> failsWith self (k (Inr w)) env q rd' = Some err))"
  using assms by (auto split: option.splits prod.splits bool.splits if_splits)

lemma specRun_InputP:
  assumes "specRun (InputP key k) env q rd = Some x"
  shows "\<exists>key' rd'. authorised (rd_inputAuthority rd) key = Some key' \<and>
           remember rd \<lparr>dep_key = key', dep_query = False\<rparr> = (True, rd') \<and>
           specRun (k (env key')) env q rd' = Some x"
  using assms by (auto split: option.splits prod.splits bool.splits)

subsection \<open>The reference has no value for it\<close>

lemma failsWith_needs:
  assumes "failsWith self p env q rd = Some err" and "specRun p env q' rd = Some x"
    and "\<And>k w w'. q k = Some w \<Longrightarrow> q' k = Some w' \<Longrightarrow> w = w'"
  shows "\<exists>w. q' self = Some w"
  using assms(1,2)
proof (induction p arbitrary: rd rule: prog_induct)
  case (InputP key k)
  from failsWith_InputP [OF InputP.prems(1)] specRun_InputP [OF InputP.prems(2)] InputP.IH
  show ?case by fastforce
next
  case (QueryP key k)
  from specRun_QueryP [OF QueryP.prems(2)] obtain key' w' rd' where
    key': "authorised (rd_queryAuthority rd) key = Some key'" and w': "q' key' = Some w'" and
    rem: "remember rd \<lparr>dep_key = key', dep_query = True\<rparr> = (True, rd')" and
    run: "specRun (k (Inr w')) env q' rd' = Some x" by blast
  from failsWith_QueryP [OF QueryP.prems(1)] key' rem have
    "key' = self \<or> (\<exists>w. q key' = Some w \<and> failsWith self (k (Inr w)) env q rd' = Some err)" by auto
  then show ?case
  proof
    assume "\<exists>w. q key' = Some w \<and> failsWith self (k (Inr w)) env q rd' = Some err"
    then obtain w where w: "q key' = Some w" and a: "failsWith self (k (Inr w)) env q rd' = Some err" by blast
    from assms(3) [OF w w'] a have "failsWith self (k (Inr w')) env q rd' = Some err" by simp
    from QueryP.IH [OF this run] show ?case .
  qed (use w' in blast)
qed (auto split: sum.splits)

lemma reference_agrees:
  assumes "map_option fst (specEval n evs env k) = Some w" and "map_option fst (specEval m evs env k) = Some w'"
  shows "w = w'"
proof -
  from assms obtain d d' where "denotes evs env k w d" "denotes evs env k w' d'"
    unfolding denotes_def by fastforce
  then show ?thesis by (simp add: denotes_unique)
qed

lemma failsWith_undefined:
  assumes "evs (Kind self) = Some f"
    and "failsWith self (f (Name self)) env (\<lambda>k. map_option fst (specEval n evs env k)) newReader = Some err"
  shows "specEval m evs env self = None"
proof (induction m)
  case (Suc m)
  show ?case
  proof (rule ccontr)
    assume "specEval (Suc m) evs env self \<noteq> None"
    with assms(1) obtain x where run:
      "specRun (f (Name self)) env (\<lambda>k. map_option fst (specEval m evs env k)) newReader = Some x"
      by (auto split: option.splits)
    have "\<exists>w. map_option fst (specEval m evs env self) = Some w"
      by (rule failsWith_needs [OF assms(2) run]) (rule reference_agrees)
    with Suc.IH show False by simp
  qed
qed simp

subsection \<open>Checking an old entry of it\<close>

text \<open>As long as the old dependencies read the same, the rerun asks for them, and a query among
  them is one the rerun gets an answer to before it asks for itself.\<close>

lemma failsWith_prefix:
  assumes "specRun p env1 (\<lambda>k. map_option fst (specEval n1 evs env1 k)) rd = Some (v1, rd1)"
    and "failsWith self p env2 (\<lambda>k. map_option fst (specEval n2 reg env2 k)) rd = Some err"
    and "specEval n1 evs env1 self = None"
    and "readerOk rd" and "\<And>x. x \<in> set (rd_dependencies rd) \<Longrightarrow> same_read evs env1 reg env2 x"
    and "rd_dependencies rd1 = rd_dependencies rd @ pre @ dep # post"
    and "\<And>x. x \<in> set pre \<Longrightarrow> same_read evs env1 reg env2 x" and "dep_query dep"
  shows "\<exists>w d. specEval n2 reg env2 (dep_key dep) = Some (w, d)"
  using assms
proof (induction p arbitrary: rd pre rule: prog_induct)
  case (InputP key k)
  from specRun_InputP [OF InputP.prems(1)] obtain key' rd' where
    key': "authorised (rd_inputAuthority rd) key = Some key'" and
    rem: "remember rd \<lparr>dep_key = key', dep_query = False\<rparr> = (True, rd')" and
    run1: "specRun (k (env1 key')) env1 (\<lambda>k. map_option fst (specEval n1 evs env1 k)) rd' = Some (v1, rd1)"
    by blast
  from failsWith_InputP [OF InputP.prems(2)] key' rem have
    asks: "failsWith self (k (env2 key')) env2 (\<lambda>k. map_option fst (specEval n2 reg env2 k)) rd' = Some err" by auto
  let ?dep = "\<lparr>dep_key = key', dep_query = False\<rparr>"
  note rt = remember_True [OF rem InputP.prems(4)]
  have ok: "readerOk rd'" using rt by blast
  show ?case
  proof (cases "?dep \<in> set (rd_dependencies rd)")
    case True
    with rt have same: "rd_dependencies rd' = rd_dependencies rd" by simp
    from InputP.prems(5) [OF True] have e: "env1 key' = env2 key'" by (simp add: same_read_def)
    show ?thesis
      by (rule InputP.IH [OF run1 _ InputP.prems(3) ok _ _ InputP.prems(7,8)])
        (use asks e same InputP.prems(5,6) in auto)
  next
    case False
    with rt have app: "rd_dependencies rd' = rd_dependencies rd @ [?dep]" by simp
    from specRun_reader [OF run1 ok] obtain xs where "rd_dependencies rd1 = rd_dependencies rd' @ xs"
      by blast
    with app InputP.prems(6,8) obtain pre' where pre: "pre = ?dep # pre'"
      and d1: "rd_dependencies rd1 = rd_dependencies rd' @ pre' @ dep # post"
      by (cases pre) auto
    from pre InputP.prems(7) have e: "env1 key' = env2 key'" by (force simp: same_read_def)
    show ?thesis
      by (rule InputP.IH [OF run1 _ InputP.prems(3) ok _ d1 _ InputP.prems(8)])
        (use asks e pre app InputP.prems(5,7) in auto)
  qed
next
  case (QueryP key k)
  from specRun_QueryP [OF QueryP.prems(1)] obtain key' w1 rd' where
    key': "authorised (rd_queryAuthority rd) key = Some key'" and
    w1: "map_option fst (specEval n1 evs env1 key') = Some w1" and
    rem: "remember rd \<lparr>dep_key = key', dep_query = True\<rparr> = (True, rd')" and
    run1: "specRun (k (Inr w1)) env1 (\<lambda>k. map_option fst (specEval n1 evs env1 k)) rd' = Some (v1, rd1)"
    by blast
  have "key' \<noteq> self" using w1 QueryP.prems(3) by auto
  with failsWith_QueryP [OF QueryP.prems(2)] key' rem obtain w2 where
    w2: "map_option fst (specEval n2 reg env2 key') = Some w2" and
    asks: "failsWith self (k (Inr w2)) env2 (\<lambda>k. map_option fst (specEval n2 reg env2 k)) rd' = Some err"
    by auto
  let ?dep = "\<lparr>dep_key = key', dep_query = True\<rparr>"
  note rt = remember_True [OF rem QueryP.prems(4)]
  have ok: "readerOk rd'" using rt by blast
  show ?case
  proof (cases "?dep \<in> set (rd_dependencies rd)")
    case True
    with rt have same: "rd_dependencies rd' = rd_dependencies rd" by simp
    from same_read_query [OF QueryP.prems(5) [OF True] w1 w2] have e: "w1 = w2" .
    show ?thesis
      by (rule QueryP.IH [OF run1 _ QueryP.prems(3) ok _ _ QueryP.prems(7,8)])
        (use asks e same QueryP.prems(5,6) in auto)
  next
    case False
    with rt have app: "rd_dependencies rd' = rd_dependencies rd @ [?dep]" by simp
    from specRun_reader [OF run1 ok] obtain xs where xs: "rd_dependencies rd1 = rd_dependencies rd' @ xs"
      by blast
    show ?thesis
    proof (cases pre)
      case Nil
      with xs app QueryP.prems(6) have "dep = ?dep" by simp
      with w2 show ?thesis by fastforce
    next
      case (Cons x pre')
      with xs app QueryP.prems(6) have x: "x = ?dep"
        and d1: "rd_dependencies rd1 = rd_dependencies rd' @ pre' @ dep # post" by simp_all
      have "same_read evs env1 reg env2 ?dep" using QueryP.prems(7) Cons x by simp
      from same_read_query [OF this w1 w2] have e: "w1 = w2" .
      show ?thesis
        by (rule QueryP.IH [OF run1 _ QueryP.prems(3) ok _ d1 _ QueryP.prems(8)])
          (use asks e x Cons app QueryP.prems(5,7) in auto)
    qed
  qed
next
  case (ConfigP inputKeys queryKeys limit p)
  show ?case
    by (rule ConfigP.IH [OF ConfigP.prems(1) [unfolded specRun.simps]
          ConfigP.prems(2) [unfolded failsWith.simps] ConfigP.prems(3) _ _ _ ConfigP.prems(7,8)])
      (use ConfigP.prems(4,5,6) in auto)
next
  case (ContextP k)
  show ?case
    by (rule ContextP.IH [OF ContextP.prems(1) [unfolded specRun.simps]
          ContextP.prems(2) [unfolded failsWith.simps] ContextP.prems(3-)])
next
  case (Done r)
  from Done.prems(1,2) show ?case by (cases r) simp_all
qed

text \<open>An answer is found first at a fuel at which the key itself has none yet.\<close>

lemma denotes_first:
  assumes "denotes evs env key v d"
  shows "\<exists>m f rd. specEval m evs env key = None \<and> evs (Kind key) = Some f \<and> d = rd_dependencies rd \<and>
    specRun (f (Name key)) env (\<lambda>k. map_option fst (specEval m evs env k)) newReader = Some (v, rd)"
proof -
  from assms obtain n where n: "specEval n evs env key \<noteq> None" by (auto simp: denotes_def)
  have z: "\<not> specEval 0 evs env key \<noteq> None" by simp
  from ex_least_nat_less [of "\<lambda>n. specEval n evs env key \<noteq> None", OF n z]
  obtain m where m: "specEval m evs env key = None" and "specEval (Suc m) evs env key \<noteq> None" by blast
  then obtain x where x: "specEval (Suc m) evs env key = Some x" by blast
  then have "denotes evs env key (fst x) (snd x)" unfolding denotes_def by (intro exI [of _ "Suc m"]) simp
  from denotes_unique [OF assms this] have "x = (v, d)" by (simp add: prod_eq_iff)
  with x m show ?thesis by (auto split: option.splits)
qed

subsection \<open>A reader that has failed stays failed\<close>

lemma run_failed:
  assumes "rd_failure rd = Some e"
  shows "\<exists>r rd' c'. runProg p ev active rd db c = Some (r, rd', db, c') \<and> rd_failure rd' = Some e"
  using assms
proof (induction p arbitrary: rd c rule: prog_induct)
  case (ContextP k)
  then show ?case by (auto split: prod.splits)
qed (auto simp: readerInput_def readerQuery_def)

lemma run_failed_ctx:
  "rd_failure rd = Some e \<Longrightarrow> runProg p ev active rd db None = Some (r, rd', db', c') \<Longrightarrow> c' = None"
proof (induction p arbitrary: rd rule: prog_induct)
  case (ConfigP inputKeys queryKeys limit p)
  from ConfigP.prems ConfigP.IH [OF _ ConfigP.prems(2) [unfolded runProg.simps]] show ?case by simp
qed (auto simp: readerInput_def readerQuery_def)

subsection \<open>Running it\<close>

context complete_query
begin

lemma run_fails:
  assumes "failsWith self p env (\<lambda>k. map_option fst (specEval n reg env k)) rd = Some err"
    and "db_inv evs hist db" and "current reg env db" and "readerOk rd" and "rd_failure rd = None"
    and act: "\<forall>a\<in>set active. specEval n reg env a = None"
    and cyc: "\<And>d. ev self active d None = Some (Inl (CycleError self), d, None)"
  shows "\<exists>r rd' db'. runProg p ev active rd db None = Some (r, rd', db', None) \<and>
           (rd_failure rd' = Some err \<or> rd_failure rd' = None \<and> r = Inl err)"
  using assms(1-5)
proof (induction p arbitrary: rd db rule: prog_induct)
  case (InputP key k)
  from failsWith_InputP [OF InputP.prems(1)] obtain key' rd1 where
    key': "authorised (rd_inputAuthority rd) key = Some key'" and
    rem: "remember rd \<lparr>dep_key = key', dep_query = False\<rparr> = (True, rd1)" and
    asks: "failsWith self (k (env key')) env (\<lambda>k. map_option fst (specEval n reg env k)) rd1 = Some err" by blast
  obtain db1 where i: "readerInput rd db key = (view db key', rd1, db1)"
    and db1: "db_inv evs hist db1" "current reg env db1"
    using key' rem InputP.prems(2,3,5) by (auto simp: readerInput_def view_def Let_def)
  from InputP.IH [OF asks db1] remember_True [OF rem InputP.prems(4)] i InputP.prems(3) show ?case
    by (auto simp: current_def)
next
  case (QueryP key k)
  from failsWith_QueryP [OF QueryP.prems(1)] obtain key' rd1 where
    key': "authorised (rd_queryAuthority rd) key = Some key'" and
    rem: "remember rd \<lparr>dep_key = key', dep_query = True\<rparr> = (True, rd1)" and
    next': "key' = self \<and> err = CycleError self \<or> (\<exists>w. key' \<noteq> self \<and> map_option fst (specEval n reg env key') = Some w \<and>
        failsWith self (k (Inr w)) env (\<lambda>k. map_option fst (specEval n reg env k)) rd1 = Some err)" by blast
  from next' show ?case
  proof
    assume self: "key' = self \<and> err = CycleError self"
    then have q: "readerQuery ev active rd db None key =
        Some (Inl (CycleError self), rd\<lparr>rd_failure := Some (CycleError self)\<rparr>, db, None)"
      using key' rem QueryP.prems(4,5) cyc
      by (auto simp: readerQuery_def Let_def remember_cases split: if_splits)
    have "rd_failure (rd\<lparr>rd_failure := Some (CycleError self)\<rparr>) = Some (CycleError self)" by simp
    note fl = run_failed [OF this, of "k (Inl (CycleError self))" ev active db None]
    then obtain r rd' c' where run: "runProg (k (Inl (CycleError self))) ev active
        (rd\<lparr>rd_failure := Some (CycleError self)\<rparr>) db None = Some (r, rd', db, c')"
      and f: "rd_failure rd' = Some (CycleError self)" by blast
    from run_failed_ctx [OF _ run] f q run self show ?case by auto
  next
    assume "\<exists>w. key' \<noteq> self \<and> map_option fst (specEval n reg env key') = Some w \<and>
        failsWith self (k (Inr w)) env (\<lambda>k. map_option fst (specEval n reg env k)) rd1 = Some err"
    then obtain w d where w: "specEval n reg env key' = Some (w, d)" and
      asks: "failsWith self (k (Inr w)) env (\<lambda>k. map_option fst (specEval n reg env k)) rd1 = Some err" by fastforce
    from ev_complete [OF QueryP.prems(2,3) w act] obtain db1 where
      e: "ev key' active db None = Some (Inr w, db1, None)" by blast
    from ev_sound [OF QueryP.prems(2) e] QueryP.prems(3) have db1: "db_inv evs hist db1" "current reg env db1"
      by (auto dest: current_evolves)
    have "readerQuery ev active rd db None key = Some (Inr w, rd1, db1, None)"
      using key' rem QueryP.prems(4,5) e
      by (auto simp: readerQuery_def Let_def remember_cases split: if_splits)
    with QueryP.IH [OF asks db1] remember_True [OF rem QueryP.prems(4)] show ?case by auto
  qed
next
  case (ConfigP inputKeys queryKeys limit p)
  from ConfigP.IH [OF ConfigP.prems(1) [unfolded failsWith.simps] ConfigP.prems(2,3)] ConfigP.prems(4,5)
  show ?case by simp
next
  case (ContextP k)
  from ContextP.IH [OF ContextP.prems(1) [unfolded failsWith.simps] ContextP.prems(2-5)] show ?case by simp
qed (auto split: sum.splits)

lemma execute_fails:
  assumes "reg (Kind self) = Some f"
    and "failsWith self (f (Name self)) env (\<lambda>k. map_option fst (specEval n reg env k)) newReader = Some err"
    and "db_inv evs hist db" and "current reg env db"
    and act: "\<forall>a\<in>set active. specEval n reg env a = None"
    and cyc: "\<And>d. ev self active d None = Some (Inl (CycleError self), d, None)"
  shows "\<exists>db'. executeQuery ev self active old db None = Some (Inl err, db', None) \<and>
           evolves active db db'"
proof -
  let ?db0 = "countStat Executed_update db"
  have db0: "db_inv evs hist ?db0" "current reg env ?db0" using assms(3,4) by simp_all
  from run_fails [OF assms(2) db0 _ _ act cyc] obtain r rd' db' where
    run: "runProg (f (Name self)) ev active newReader ?db0 None = Some (r, rd', db', None)"
    and fail: "rd_failure rd' = Some err \<or> rd_failure rd' = None \<and> r = Inl err" by auto
  from run_frame [OF run db0(1)] have "evolves active db db'" by simp
  moreover have "lookupEvaluator db (Kind self) = Some f" using assms(1,4) by (simp add: current_def)
  ultimately show ?thesis using run fail by (auto simp: executeQuery_def)
qed

end

text \<open>The whole call: whatever entry the key has, it is not served, and it stays as it was.\<close>

lemma evaluate_fails:
  assumes inv: "db_inv evs hist db" and reg: "lookupEvaluator db = evs" and f: "evs (Kind self) = Some f"
    and asks: "failsWith self (f (Name self)) (view db) (\<lambda>k. map_option fst (specEval n evs (view db) k)) newReader = Some err"
  shows "\<exists>db'. evaluate (Suc (Suc (n + extra))) self [] db None = Some (Inl err, db', None) \<and>
           map_of (results db') self = map_of (results db) self"
proof -
  define ev where ev: "ev = evaluate (Suc (n + extra))"
  have cq: "complete_query evs hist ev n evs" unfolding ev by (rule evaluate_complete) simp
  have mq: "memo_query evs hist ev" unfolding ev by (rule evaluate_contract)
  have none: "specEval m evs (view db) self = None" for m by (rule failsWith_undefined [OF f asks])
  then have act: "\<forall>a\<in>set [self]. specEval n evs (view db) a = None" by simp
  have undef: "\<not> denotes evs (view db) self v d" for v d using none by (simp add: denotes_def)
  have now: "current evs (view db) db" using reg by (simp add: current_def)
  have cyc: "ev self [self] d None = Some (Inl (CycleError self), d, None)" for d by (simp add: ev)
  have exec: "\<exists>db'. executeQuery ev self [self] old db1 None = Some (Inl err, db', None) \<and>
      map_of (results db') self = map_of (results db) self"
    if "db_inv evs hist db1" "evolves [self] db db1" for old db1
    using complete_query.execute_fails [OF cq f asks that(1) current_evolves [OF that(2) now] act cyc, of old]
      that(2) by (auto simp: evolves_def)
  note out = evaluate.simps(2) [of "Suc (n + extra)", folded ev]
  show ?thesis
  proof (cases "map_of (results db) self")
    case None
    with exec [OF inv, of None] show ?thesis by (simp add: out del: evaluate.simps)
  next
    case (Some old)
    from inv Some have oden: "denotes evs (hist (res_verified old)) self (res_value old) (res_dependencies old)"
      and ole: "res_verified old \<le> revision db" by (auto simp: db_inv_def memo_inv_def)
    have stale: "res_verified old \<noteq> revision db" using oden undef inv_view [OF inv] by metis
    from denotes_first [OF oden] f obtain m rd where
      m: "specEval m evs (hist (res_verified old)) self = None" "res_dependencies old = rd_dependencies rd"
      "specRun (f (Name self)) (hist (res_verified old))
         (\<lambda>k. map_option fst (specEval m evs (hist (res_verified old)) k)) newReader = Some (res_value old, rd)"
      by auto
    have H: "\<exists>w d. specEval n evs (view db) (dep_key dep) = Some (w, d)"
      if "res_dependencies old = pre @ dep # post" "dep_query dep"
        "\<And>x. x \<in> set pre \<Longrightarrow> same_read evs (hist (res_verified old)) evs (view db) x" for pre dep post
      by (rule failsWith_prefix [OF m(3) asks m(1) _ _ _ that(3,2)]) (use that(1) m(2) in auto)
    from complete_query.check_complete [OF cq inv now ole _ _ _ act, of "res_dependencies old" self] H Some
    obtain b db2 where
      chk: "checkDependencies ev [self] (res_verified old) (res_dependencies old) db None
            = Some (Inr b, db2, None)" by force
    from memo_query.check_sound [OF mq chk inv] have inv2: "db_inv evs hist db2"
      and ev2: "evolves [self] db db2" by auto
    have "b = False"
    proof (rule ccontr)
      assume "b \<noteq> False"
      with chk have "checkDependencies ev [self] (res_verified old) (res_dependencies old) db None
            = Some (Inr True, db2, None)" by simp
      from memo_query.validate_sound [OF mq inv Some this] evolves_view [OF ev2] undef
      show False by simp
    qed
    with exec [OF inv2 ev2, of "Some old"] chk Some stale show ?thesis
      by (simp add: out del: evaluate.simps)
  qed
qed

end
