(* ===== verification/IncDatabaseProps.thy ===== *)
theory IncDatabaseProps
  imports IncDatabaseCycle
begin

text \<open>
  What the query database promises, for every reachable database: its answers are exactly the
  reference's, its writes are exactly the intended snapshot updates, and evaluation disturbs
  nothing else.
\<close>

subsection \<open>The effect of a batch of changes\<close>

definition changeEffect :: "Change \<Rightarrow> string \<times> bool" where
  "changeEffect ch = (if ch_Remove ch then ([], False) else (ch_Value ch, True))"

lemma setInput_effect: "setInput env ch = env(ch_Key ch := changeEffect ch)"
  by (simp add: setInput_def changeEffect_def)

lemma foldl_setInput:
  "foldl setInput env chs k =
     (case map_of (rev (map (\<lambda>ch. (ch_Key ch, ch)) chs)) k of
        None \<Rightarrow> env k | Some ch \<Rightarrow> changeEffect ch)"
  by (induction chs arbitrary: env) (auto simp: setInput_effect map_add_def split: option.splits)

lemma pendingOf_conv:
  "pendingOf chs = foldl (\<lambda>m (k, v). AList.update k v m) [] (map (\<lambda>ch. (ch_Key ch, ch)) chs)"
  by (simp add: pendingOf_def foldl_map)

lemma pendingOf_ok: "gomap_ok (pendingOf chs)"
  unfolding pendingOf_conv by (rule foldl_update_gomap_ok) simp

lemma pendingOf_lookup: "map_of (pendingOf chs) = map_of (rev (map (\<lambda>ch. (ch_Key ch, ch)) chs))"
  unfolding pendingOf_conv foldl_update_map_of by simp

lemma pendingOf_keyed: "\<forall>(k, ch)\<in>set (pendingOf chs). k = ch_Key ch"
proof (clarify)
  fix k ch assume "(k, ch) \<in> set (pendingOf chs)"
  with pendingOf_ok have "map_of (pendingOf chs) k = Some ch" by simp
  then have "(k, ch) \<in> set (map (\<lambda>ch. (ch_Key ch, ch)) chs)"
    unfolding pendingOf_lookup by (auto dest: map_of_SomeD)
  then show "k = ch_Key ch" by auto
qed

text \<open>A pending map as \<^verbatim>\<open>Apply\<close> and the sessions build it: one entry per key, filed under it.\<close>

definition pending_wf :: "(Key, Change) gomap \<Rightarrow> bool" where
  "pending_wf pending \<longleftrightarrow> gomap_ok pending \<and> (\<forall>(k, ch)\<in>set pending. k = ch_Key ch)"

lemma pendingOf_wf: "pending_wf (pendingOf chs)"
  using pendingOf_ok pendingOf_keyed by (auto simp: pending_wf_def)

lemma keyed_map: "\<forall>(k, ch)\<in>set pending. k = ch_Key ch \<Longrightarrow>
  map (\<lambda>ch. (ch_Key ch, ch)) (map snd pending) = pending"
  by (induction pending) auto

lemma pending_effect:
  assumes "pending_wf pending"
  shows "foldl setInput env (map snd pending) k =
    (case map_of pending k of None \<Rightarrow> env k | Some ch \<Rightarrow> changeEffect ch)"
  using assms unfolding foldl_setInput
  by (simp add: pending_wf_def keyed_map map_of_rev_distinct del: map_map)

lemma pendingOf_effect: "foldl setInput env (map snd (pendingOf chs)) = foldl setInput env chs"
proof
  fix k
  show "foldl setInput env (map snd (pendingOf chs)) k = foldl setInput env chs k"
    unfolding pending_effect [OF pendingOf_wf] pendingOf_lookup by (simp only: foldl_setInput)
qed

lemma modified_effect:
  assumes "pending_wf pending" and "store_wf db"
  shows "list_ex (\<lambda>(key, ch). inputModified (inputAt db key) ch) pending \<longleftrightarrow>
         foldl setInput (view db) (map snd pending) \<noteq> view db"
proof -
  have "inputModified (inputAt db k) ch \<longleftrightarrow> changeEffect ch \<noteq> view db k"
    if "(k, ch) \<in> set pending" for k ch
    using that assms inputUnchanged_view [OF assms(2), of ch]
    by (auto simp: inputModified_unchanged pending_wf_def setInput_effect fun_upd_idem_iff)
  moreover have "map_of pending k = Some ch \<longleftrightarrow> (k, ch) \<in> set pending" for k ch
    using assms(1) by (simp add: pending_wf_def)
  ultimately have "list_ex (\<lambda>(key, ch). inputModified (inputAt db key) ch) pending \<longleftrightarrow>
      (\<exists>k ch. map_of pending k = Some ch \<and> changeEffect ch \<noteq> view db k)"
    by (auto simp: list_ex_iff Bex_def)
  also have "\<dots> \<longleftrightarrow> (\<exists>k. foldl setInput (view db) (map snd pending) k \<noteq> view db k)"
    unfolding pending_effect [OF assms(1)] by (auto split: option.splits)
  finally show ?thesis by (simp add: fun_eq_iff)
qed

text \<open>The stamp of an input moves exactly when its value does.\<close>

definition stamped :: "Database \<Rightarrow> Database \<Rightarrow> bool" where
  "stamped db db' \<longleftrightarrow>
     (\<forall>k. inputAt db' k =
        (if view db' k = view db k then inputAt db k
         else \<lparr>in_value = fst (view db' k), in_present = snd (view db' k), in_changed = revision db'\<rparr>))"

lemma writeChange_inputAt:
  assumes "store_wf db"
  shows "inputAt (writeChange db (ch_Key ch, ch)) k =
    (if k = ch_Key ch \<and> changeEffect ch \<noteq> view db k
     then \<lparr>in_value = fst (changeEffect ch), in_present = snd (changeEffect ch), in_changed = revision db\<rparr>
     else inputAt db k)"
  using assms by (auto simp: writeChange_def Let_def inputAt_write inputUnchanged_def changeEffect_def
      view_def store_wf_def)

lemma foldl_writeChange_inputAt:
  assumes "store_wf db" and "pending_wf pending"
  shows "inputAt (foldl writeChange db pending) k =
    (case map_of pending k of
       None \<Rightarrow> inputAt db k
     | Some ch \<Rightarrow>
         if changeEffect ch = view db k then inputAt db k
         else \<lparr>in_value = fst (changeEffect ch), in_present = snd (changeEffect ch), in_changed = revision db\<rparr>)"
  using assms
proof (induction pending arbitrary: db)
  case (Cons kc pending)
  then obtain ch where kc: "kc = (ch_Key ch, ch)" by (cases kc) (auto simp: pending_wf_def)
  let ?db1 = "writeChange db kc"
  have wf: "store_wf ?db1" and rev: "revision ?db1 = revision db"
    using Cons.prems(1) writeChange_overwrites by (auto simp: overwrites_def)
  have pw: "pending_wf pending" and nk: "map_of pending (ch_Key ch) = None"
    using Cons.prems(2) kc by (auto simp: pending_wf_def map_of_eq_None_iff)
  have "view ?db1 k = (if k = ch_Key ch then changeEffect ch else view db k)"
    using writeChange_view [OF Cons.prems(1)] kc by (simp add: setInput_effect)
  with Cons.IH [OF wf pw] writeChange_inputAt [OF Cons.prems(1), of ch k] kc rev nk show ?case
    by (auto split: option.splits)
qed simp

lemma foldl_writeChange_stamped:
  assumes "store_wf db" and "pending_wf pending"
  shows "stamped db (foldl writeChange db pending)"
proof -
  have "revision (foldl writeChange db pending) = revision db"
    using overwrites_foldl [of writeChange db pending] writeChange_overwrites by (auto simp: overwrites_def)
  then show ?thesis
    unfolding stamped_def using foldl_writeChange_inputAt [OF assms]
    by (auto simp: view_def prod_eq_iff split: option.splits)
qed

lemma applyPending_effect:
  assumes wf: "store_wf db" and pw: "pending_wf pending" and rev: "Suc (revision db) < 2 ^ 64"
    and ap: "applyPending db pending = (b, db')"
  shows "view db' = foldl setInput (view db) (map snd pending) \<and> b = (view db' \<noteq> view db) \<and>
         revision db' = revision db + (if b then 1 else 0) \<and> stamped db db' \<and>
         results db' = results db \<and> (\<not> b \<longrightarrow> db' = db)"
proof (cases b)
  case False
  with ap modified_effect [OF pw wf] show ?thesis
    by (auto simp: applyPending_def stamped_def split: if_splits)
next
  case True
  with ap have db': "db' = foldl writeChange (bumpRevision db) pending" and
    m: "list_ex (\<lambda>(key, ch). inputModified (inputAt db key) ch) pending"
    by (auto simp: applyPending_def split: if_splits)
  have wf': "store_wf (bumpRevision db)" using wf by simp
  have v: "view db' = foldl setInput (view db) (map snd pending)"
    using foldl_writeChange_view [OF wf'] pw db' by (simp add: pending_wf_def)
  have "overwrites (bumpRevision db) db'"
    unfolding db' by (rule overwrites_foldl) (rule writeChange_overwrites)
  moreover have "stamped db db'"
    using foldl_writeChange_stamped [OF wf' pw] db' by (simp add: stamped_def)
  ultimately show ?thesis
    using v True modified_effect [OF pw wf] m uint64_inc_small [OF rev] by (auto simp: overwrites_def)
qed

subsection \<open>The reader's index\<close>

text \<open>The dependencies an unbounded reader records: each once, in the order of first use.\<close>

fun firstUses :: "dependency list \<Rightarrow> dependency list \<Rightarrow> dependency list" where
  "firstUses acc [] = acc"
| "firstUses acc (d # ds) = firstUses (if d \<in> set acc then acc else acc @ [d]) ds"

definition rememberAll :: "Reader \<Rightarrow> dependency list \<Rightarrow> Reader" where
  "rememberAll rd deps = foldl (\<lambda>r dep. snd (remember r dep)) rd deps"

lemma set_firstUses: "set (firstUses acc ds) = set acc \<union> set ds"
  by (induction acc ds rule: firstUses.induct) auto

lemma distinct_firstUses: "distinct acc \<Longrightarrow> distinct (firstUses acc ds)"
  by (induction acc ds rule: firstUses.induct) auto

lemma rememberAll_unbounded:
  "readerOk rd \<Longrightarrow> rd_failure rd = None \<Longrightarrow> \<not> rd_boundedDependencies rd \<Longrightarrow>
   readerOk (rememberAll rd ds) \<and> rd_dependencies (rememberAll rd ds) = firstUses (rd_dependencies rd) ds"
proof (induction ds arbitrary: rd)
  case (Cons d ds)
  have "snd (remember rd d) = (if d \<in> set (rd_dependencies rd) then rd else appendDependency rd d)"
    using Cons.prems by (simp add: remember_cases)
  moreover have "\<not> rd_boundedDependencies (appendDependency rd d)"
    using Cons.prems(3) by (simp add: appendDependency_def)
  ultimately show ?case using Cons by (simp add: rememberAll_def)
qed (simp add: rememberAll_def)


subsection \<open>A small database for the witnesses\<close>

definition fileKey :: "string \<Rightarrow> Key" where
  "fileKey name = \<lparr>Kind = ''file'', Name = name\<rparr>"

definition lineKey :: "string \<Rightarrow> Key" where
  "lineKey name = \<lparr>Kind = ''line'', Name = name\<rparr>"

definition pairKey :: Key where
  "pairKey = \<lparr>Kind = ''pair'', Name = ''ab''\<rparr>"

definition loopKey :: Key where
  "loopKey = \<lparr>Kind = ''loop'', Name = ''x''\<rparr>"

definition lineEval :: Evaluator where
  "lineEval name = InputP (fileKey name) (\<lambda>(v, present). Done (Inr v))"

definition pairEval :: Evaluator where
  "pairEval name = QueryP (lineKey ''a'') (\<lambda>ra. QueryP (lineKey ''b'') (\<lambda>rb.
     Done (case (ra, rb) of (Inr x, Inr y) \<Rightarrow> Inr (x @ y) | _ \<Rightarrow> Inr [])))"

definition stopKey :: Key where
  "stopKey = \<lparr>Kind = ''stop'', Name = ''x''\<rparr>"

definition loopEval :: Evaluator where
  "loopEval name = InputP stopKey (\<lambda>(v, present).
     if v = ''yes'' then Done (Inr ''complete'') else QueryP loopKey (\<lambda>r. Done (Inr ''partial fallback'')))"

definition demoEvals :: "(string, Evaluator option) gomap" where
  "demoEvals = [(''line'', Some lineEval), (''pair'', Some pairEval), (''loop'', Some loopEval)]"

definition putFile :: "string \<Rightarrow> string \<Rightarrow> Change" where
  "putFile name v = \<lparr>ch_Key = fileKey name, ch_Value = v, ch_Remove = False\<rparr>"

definition demoDb0 :: Database where
  "demoDb0 = snd (Apply (New demoEvals) [putFile ''a'' ''x'', putFile ''b'' ''y''])"

definition demoDb1 :: Database where
  "demoDb1 = (case Evaluate 4 demoDb0 None pairKey of Some (_, db, _) \<Rightarrow> db | None \<Rightarrow> demoDb0)"

definition demoDb2 :: Database where
  "demoDb2 = snd (Apply demoDb1 [putFile ''b'' ''z''])"

lemma demo_ok: "gomap_ok demoEvals"
  by (simp add: demoEvals_def)

lemma demo_lookup [simp]: "map_of (copyMap demoEvals) ''line'' = Some (Some lineEval)"
  "map_of (copyMap demoEvals) ''pair'' = Some (Some pairEval)"
  "map_of (copyMap demoEvals) ''loop'' = Some (Some loopEval)"
  by (simp_all add: demoEvals_def copyMap_lookup)

lemma demo_eval1: "map_option (\<lambda>(r, db, c). (r, stats db, c)) (Evaluate 4 demoDb0 None pairKey) =
   Some (Inr ''xy'', \<lparr>Executed = 3, MemoHits = 0, Validated = 0, DependencyChecks = 0, InputReads = 2\<rparr>, None)"
  by code_simp

lemma demo_eval2: "map_option (\<lambda>(r, db, c). (r, stats db, c)) (Evaluate 4 demoDb2 None pairKey) =
   Some (Inr ''xz'', \<lparr>Executed = 5, MemoHits = 2, Validated = 1, DependencyChecks = 4, InputReads = 3\<rparr>, None)"
  by code_simp

lemma demo_revision: "Suc (revision (New demoEvals)) < 2 ^ 64" "Suc (revision demoDb1) < 2 ^ 64"
proof -
  show "Suc (revision (New demoEvals)) < 2 ^ 64" by (simp add: New_def)
  have "revision demoDb1 = 2" by code_simp
  then show "Suc (revision demoDb1) < 2 ^ 64" by simp
qed

lemma demo_reachable: "reachable demoEvals demoDb0" "reachable demoEvals demoDb1" "reachable demoEvals demoDb2"
proof -
  show r0: "reachable demoEvals demoDb0"
    unfolding demoDb0_def by (intro reachable.applied reachable.start demo_revision)
  show r1: "reachable demoEvals demoDb1"
    unfolding demoDb1_def by (auto split: option.splits prod.splits intro: reachable.evaluate r0)
  show "reachable demoEvals demoDb2"
    unfolding demoDb2_def by (intro reachable.applied r1 demo_revision)
qed


lemma demo_result: obtains db' where "Evaluate 4 demoDb2 None pairKey = Some (Inr ''xz'', db', None)"
  using demo_eval2 by auto

lemma demoDb2_revision: "Suc (revision demoDb2) < 2 ^ 64"
proof -
  have "revision demoDb2 = 3" by code_simp
  then show ?thesis by simp
qed

subsection \<open>Answers\<close>

lemma finds_value:
  assumes "gomap_ok evals" and "reachable evals db"
    and "denotes (evalMap evals) (view db) key v deps"
  shows "\<exists>n. \<forall>fuel\<ge>n. \<exists>db'. Evaluate fuel db None key = Some (Inr v, db', None)"
proof -
  from reach_inv [OF assms(2,1)] obtain hist where inv: "db_inv (evalMap evals) hist db"
    and now: "current (evalMap evals) (view db) db" by (auto simp: reach_ok_def current_def)
  from assms(3) obtain n where n: "specEval n (evalMap evals) (view db) key = Some (v, deps)"
    unfolding denotes_def by blast
  have "\<exists>db'. evaluate (n + extra) key [] db None = Some (Inr v, db', None)" for extra
    by (rule evc.ev_complete [OF inv now n]) simp
  then show ?thesis unfolding Evaluate_def by (metis le_Suc_ex)
qed

text \<open>Claim C1. Soundness of incremental evaluation: whatever history of writes, evictions and
  (possibly failed or cancelled) evaluations a database has, and whenever a cancellation
  arrives, a value that \<^verbatim>\<open>Evaluate\<close> returns is the value a from-scratch evaluation of the
  query over the current inputs has.\<close>

theorem evaluate_is_current:
  assumes "gomap_ok evals" and "reachable evals db"
    and "Evaluate fuel db c key = Some (Inr v, db', c')"
  shows "(\<exists>deps. denotes (evalMap evals) (view db) key v deps) \<and> view db' = view db"
proof -
  from reach_inv [OF assms(2,1)] obtain hist where inv: "db_inv (evalMap evals) hist db"
    by (auto simp: reach_ok_def)
  from Evaluate_contract [OF assms(3) inv] have e: "evolves [] db db'" "db_inv (evalMap evals) hist db'"
    "fresh db' key v" by auto
  from fresh_denotes [OF e(2,3)] evolves_view [OF e(1)] show ?thesis by simp
qed

theorem evaluate_is_current_witness:
  "\<exists>deps. denotes (evalMap demoEvals) (view demoDb2) pairKey ''xz'' deps"
proof -
  obtain db' where "Evaluate 4 demoDb2 None pairKey = Some (Inr ''xz'', db', None)" by (rule demo_result)
  from evaluate_is_current [OF demo_ok demo_reachable(3) this] show ?thesis by blast
qed

lemma finds_error:
  assumes "gomap_ok evals" and "reachable evals db" and "evalMap evals (Kind key) = Some f"
    and "failsWith key (f (Name key)) (view db)
           (\<lambda>k. map_option fst (specEval n (evalMap evals) (view db) k)) newReader = Some err"
  shows "\<exists>db'. Evaluate (Suc (Suc (n + fuel))) db None key = Some (Inl err, db', None) \<and>
    map_of (results db') key = map_of (results db) key"
proof -
  from reach_inv [OF assms(2,1)] obtain hist where inv: "db_inv (evalMap evals) hist db"
    and reg: "lookupEvaluator db = evalMap evals" by (auto simp: reach_ok_def)
  from evaluate_fails [OF inv reg assms(3,4)] show ?thesis unfolding Evaluate_def .
qed

text \<open>Claim C3. Completeness: when a from-scratch evaluation over the current inputs has a
  value, an uncancelled \<^verbatim>\<open>Evaluate\<close> on any reachable database terminates and returns exactly
  it. No stale memo entry makes it fail, loop or report a cycle.\<close>

theorem evaluate_finds_value:
  assumes "gomap_ok evals" and "reachable evals db"
    and "denotes (evalMap evals) (view db) key v deps"
  shows "\<exists>n. \<forall>fuel\<ge>n. \<exists>db'. Evaluate fuel db None key = Some (Inr v, db', None)"
  by (rule finds_value [OF assms])

theorem evaluate_finds_value_witness:
  "\<exists>n. \<forall>fuel\<ge>n. \<exists>db'. Evaluate fuel demoDb2 None pairKey = Some (Inr ''xz'', db', None)"
proof -
  have "specEval 3 (evalMap demoEvals) (view demoDb2) pairKey =
      Some (''xz'', [\<lparr>dep_key = lineKey ''a'', dep_query = True\<rparr>, \<lparr>dep_key = lineKey ''b'', dep_query = True\<rparr>])"
    by code_simp
  then have "denotes (evalMap demoEvals) (view demoDb2) pairKey ''xz''
      [\<lparr>dep_key = lineKey ''a'', dep_query = True\<rparr>, \<lparr>dep_key = lineKey ''b'', dep_query = True\<rparr>]"
    unfolding denotes_def by blast
  from evaluate_finds_value [OF demo_ok demo_reachable(3) this] show ?thesis .
qed

text \<open>Claim C8. An incremental database and any other database over the same evaluators with the
  same current inputs, in particular a clean one, give the same answers: one returns a value
  exactly when the other does, and it is the same value.\<close>

theorem incremental_equals_clean:
  assumes "gomap_ok evals" and "reachable evals db" and "reachable evals clean"
    and "view clean = view db"
  shows "(\<exists>fuel db'. Evaluate fuel db None key = Some (Inr v, db', None)) \<longleftrightarrow>
         (\<exists>fuel db'. Evaluate fuel clean None key = Some (Inr v, db', None))"
proof -
  have sound: "(\<exists>fuel db'. Evaluate fuel d None key = Some (Inr v, db', None)) \<longleftrightarrow>
      (\<exists>deps. denotes (evalMap evals) (view d) key v deps)" if d: "reachable evals d" for d
  proof -
    from reach_inv [OF d assms(1)] obtain hist where inv: "db_inv (evalMap evals) hist d"
      and now: "current (evalMap evals) (view d) d" by (auto simp: reach_ok_def current_def)
    have "\<exists>deps. denotes (evalMap evals) (view d) key v deps"
      if "Evaluate fuel d None key = Some (Inr v, db', None)" for fuel db'
      using Evaluate_contract [OF that inv] fresh_denotes [of _ hist db'] evolves_view by metis
    moreover have "\<exists>fuel db'. Evaluate fuel d None key = Some (Inr v, db', None)"
      if "specEval n (evalMap evals) (view d) key = Some (v, deps)" for n deps
      using evc.ev_complete [OF inv now that, of "[]"] unfolding Evaluate_def by (simp, blast)
    ultimately show ?thesis unfolding denotes_def by blast
  qed
  from sound [OF assms(2)] sound [OF assms(3)] assms(4) show ?thesis by simp
qed

definition cleanDb :: Database where
  "cleanDb = snd (Apply (New demoEvals) [putFile ''b'' ''z'', putFile ''a'' ''x''])"

lemma cleanDb_view: "view cleanDb = view demoDb2"
proof -
  have a: "inputs cleanDb = [(fileKey ''b'', \<lparr>in_value = ''z'', in_present = True, in_changed = 2\<rparr>),
      (fileKey ''a'', \<lparr>in_value = ''x'', in_present = True, in_changed = 2\<rparr>)]" by code_simp
  have b: "inputs demoDb2 = [(fileKey ''a'', \<lparr>in_value = ''x'', in_present = True, in_changed = 2\<rparr>),
      (fileKey ''b'', \<lparr>in_value = ''z'', in_present = True, in_changed = 3\<rparr>)]" by code_simp
  show ?thesis by (rule ext) (simp add: view_def inputAt_def a b fileKey_def)
qed

theorem incremental_equals_clean_witness:
  "\<exists>fuel db'. Evaluate fuel cleanDb None pairKey = Some (Inr ''xz'', db', None)"
proof -
  have "reachable demoEvals cleanDb"
    unfolding cleanDb_def by (intro reachable.applied reachable.start demo_revision)
  from incremental_equals_clean [OF demo_ok demo_reachable(3) this cleanDb_view, of pairKey "''xz''"]
  show ?thesis by (metis demo_result)
qed

text \<open>Claim C25. \<^verbatim>\<open>Evaluate\<close>, whatever it returns, leaves the inputs, the revision, the
  evaluators and every entry already verified at this revision as they were, and an answer is
  always backed by an entry verified at this revision. The lookup of a validated dependency's
  entry therefore never dereferences nil.\<close>

theorem evaluate_frame:
  assumes "gomap_ok evals" and "reachable evals db" and "Evaluate fuel db c key = Some (r, db', c')"
  shows "inputs db' = inputs db \<and> revision db' = revision db \<and> evaluators db' = evaluators db \<and>
    (\<forall>k e. map_of (results db) k = Some e \<longrightarrow> res_verified e = revision db \<longrightarrow>
       map_of (results db') k = Some e) \<and>
    (\<forall>v. r = Inr v \<longrightarrow> (\<exists>e. map_of (results db') key = Some e \<and> res_value e = v \<and>
       res_verified e = revision db))"
proof -
  from reach_inv [OF assms(2,1)] obtain hist where inv: "db_inv (evalMap evals) hist db"
    by (auto simp: reach_ok_def)
  from Evaluate_contract [OF assms(3) inv] show ?thesis
    unfolding evolves_def fresh_def by auto
qed

theorem evaluate_frame_witness:
  "\<exists>db'. Evaluate 4 demoDb2 None pairKey = Some (Inr ''xz'', db', None) \<and> inputs db' = inputs demoDb2"
proof -
  obtain db' where e: "Evaluate 4 demoDb2 None pairKey = Some (Inr ''xz'', db', None)" by (rule demo_result)
  from evaluate_frame [OF demo_ok demo_reachable(3) e] e show ?thesis by blast
qed

text \<open>Claim C28. Asking again at the same revision is a memo hit: one step of fuel is enough, no
  evaluator runs, no input is read and only the \<^verbatim>\<open>MemoHits\<close> counter moves.\<close>

theorem evaluate_again_is_memo_hit:
  assumes "gomap_ok evals" and "reachable evals db" and "Evaluate fuel db c key = Some (Inr v, db', c')"
    and "ctxErr c2 = (None, c3)"
  shows "Evaluate (Suc fuel2) db' c2 key = Some (Inr v, countStat MemoHits_update db', c3)"
proof -
  from reach_inv [OF assms(2,1)] obtain hist where inv: "db_inv (evalMap evals) hist db"
    by (auto simp: reach_ok_def)
  from Evaluate_contract [OF assms(3) inv] have "fresh db' key v" by blast
  with assms(4) show ?thesis by (auto simp: Evaluate_def fresh_def)
qed

theorem evaluate_again_is_memo_hit_witness:
  "\<exists>db'. Evaluate 1 db' (Some 3) pairKey = Some (Inr ''xz'', countStat MemoHits_update db', Some 2)"
proof -
  obtain db' where e: "Evaluate 4 demoDb2 None pairKey = Some (Inr ''xz'', db', None)" by (rule demo_result)
  have "ctxErr (Some 3) = (None, Some 2)" by code_simp
  from evaluate_again_is_memo_hit [OF demo_ok demo_reachable(3) e this, of 0] show ?thesis by auto
qed

text \<open>Claim C30. \<^verbatim>\<open>EvaluateBatch\<close> answers position by position, and every value in the batch is
  the from-scratch value of its key, also when a cancellation fills the rest with errors.\<close>

theorem batch_is_current:
  assumes "gomap_ok evals" and "reachable evals db"
    and "EvaluateBatch fuel db c keys = Some (rs, db', c')"
  shows "length rs = length keys \<and>
    (\<forall>i<length keys. \<forall>v. rs ! i = Inr v \<longrightarrow> (\<exists>d. denotes (evalMap evals) (view db) (keys ! i) v d))"
proof -
  from reach_inv [OF assms(2,1)] obtain hist where inv: "db_inv (evalMap evals) hist db"
    by (auto simp: reach_ok_def)
  from EvaluateBatch_contract [OF assms(3) inv] have e: "evolves [] db db'"
    and inv': "db_inv (evalMap evals) hist db'"
    and rs: "list_all2 (\<lambda>r key. \<forall>v. r = Inr v \<longrightarrow> fresh db' key v) rs keys" by auto
  have "\<exists>d. denotes (evalMap evals) (view db) (keys ! i) v d" if "i < length keys" "rs ! i = Inr v" for i v
  proof -
    from rs that have "fresh db' (keys ! i) v" by (auto simp: list_all2_conv_all_nth)
    with fresh_denotes [OF inv'] evolves_view [OF e] show ?thesis by simp
  qed
  with rs show ?thesis by (auto dest: list_all2_lengthD)
qed

theorem batch_is_current_witness:
  "\<exists>d. denotes (evalMap demoEvals) (view demoDb2) (lineKey ''b'') ''z'' d"
proof -
  have "map_option fst (EvaluateBatch 4 demoDb2 None [pairKey, lineKey ''b'']) = Some [Inr ''xz'', Inr ''z'']"
    by code_simp
  then obtain db' c' where
    e: "EvaluateBatch 4 demoDb2 None [pairKey, lineKey ''b''] = Some ([Inr ''xz'', Inr ''z''], db', c')"
    by auto
  from batch_is_current [OF demo_ok demo_reachable(3) e] show ?thesis by auto
qed

text \<open>Claim C32. A query that needs itself is reported as a cycle, even when its evaluator
  ignores the error of the inner call and returns a value: if the evaluator, after any reads of
  current inputs, polls of its context and queries that have an answer, asks for its own key, then
  \<^verbatim>\<open>Evaluate\<close> (not cancelled) returns the cycle error for that key. No result is stored: the
  entry the key had from other inputs, if any, is neither served nor touched.\<close>

theorem self_query_is_cycle:
  assumes "gomap_ok evals" and "reachable evals db" and "evalMap evals (Kind key) = Some f"
    and "asksFor key (f (Name key)) (view db)
           (\<lambda>k. map_option fst (specEval n (evalMap evals) (view db) k)) newReader"
  shows "\<exists>db'. Evaluate (Suc (Suc (n + fuel))) db None key = Some (Inl (CycleError key), db', None) \<and>
    map_of (results db') key = map_of (results db) key"
  by (rule finds_error [OF assms(1-3) asksFor_fails [OF assms(4)]])

definition putStop :: "string \<Rightarrow> Change" where
  "putStop v = \<lparr>ch_Key = stopKey, ch_Value = v, ch_Remove = False\<rparr>"

text \<open>The key has been answered while its evaluator was told to stop; then the input changes.\<close>

definition stopDb :: Database where
  "stopDb = (case Evaluate 4 (snd (Apply (New demoEvals) [putStop ''yes''])) None loopKey of
       Some (_, db, _) \<Rightarrow> db | None \<Rightarrow> New demoEvals)"

definition loopDb :: Database where
  "loopDb = snd (Apply stopDb [putStop ''no''])"

lemma loop_reachable: "reachable demoEvals loopDb"
proof -
  have r: "reachable demoEvals (snd (Apply (New demoEvals) [putStop ''yes'']))"
    by (intro reachable.applied reachable.start demo_revision)
  then have "reachable demoEvals stopDb"
    unfolding stopDb_def
    by (auto split: option.splits prod.splits intro: reachable.start reachable.evaluate)
  moreover have "revision stopDb = 2" by code_simp
  ultimately show ?thesis unfolding loopDb_def by (intro reachable.applied) simp_all
qed

theorem self_query_is_cycle_witness:
  "(\<exists>db'. Evaluate 2 loopDb None loopKey = Some (Inl (CycleError loopKey), db', None) \<and>
      map_of (results db') loopKey = map_of (results loopDb) loopKey) \<and>
   map_option res_value (map_of (results loopDb) loopKey) = Some ''complete''"
proof -
  have l: "evalMap demoEvals (Kind loopKey) = Some loopEval" by (simp add: evalMap_def demoEvals_def loopKey_def)
  have "view loopDb stopKey = (''no'', True)" by code_simp
  then have "asksFor loopKey (loopEval (Name loopKey)) (view loopDb)
      (\<lambda>k. map_option fst (specEval 0 (evalMap demoEvals) (view loopDb) k)) newReader"
    by (simp add: loopEval_def authorised_def newReader_def remember_def hasDependency_def smallDependencySet_def)
  moreover have "map_option res_value (map_of (results loopDb) loopKey) = Some ''complete''" by code_simp
  ultimately show ?thesis
    using self_query_is_cycle [OF demo_ok loop_reachable l, of 0 0] by (simp add: numeral_2_eq_2)
qed


subsection \<open>Writes\<close>

text \<open>Claim C23. \<^verbatim>\<open>Apply\<close> refines the plain snapshot update: the new inputs are the changes
  applied in order (the last one for a key wins), it answers whether they changed anything, it
  makes exactly one new revision then and none otherwise, and it stamps exactly the inputs
  whose value or presence moved.\<close>

theorem apply_refines_update:
  assumes "gomap_ok evals" and "reachable evals db" and "Suc (revision db) < 2 ^ 64"
    and "Apply db changes = (b, db')"
  shows "view db' = foldl setInput (view db) changes \<and> b = (view db' \<noteq> view db) \<and>
    revision db' = revision db + (if b then 1 else 0) \<and> stamped db db' \<and> results db' = results db"
proof -
  have "store_wf db" using reach_inv [OF assms(2,1)] by (auto simp: reach_ok_def)
  from applyPending_effect [OF this pendingOf_wf assms(3) assms(4) [unfolded Apply_eq_pending]]
  show ?thesis by (simp only: pendingOf_effect)
qed

theorem apply_refines_update_witness:
  "view (snd (Apply demoDb2 [putFile ''a'' ''q'', putFile ''a'' ''x''])) = view demoDb2 \<and>
   \<not> fst (Apply demoDb2 [putFile ''a'' ''q'', putFile ''a'' ''x''])"
proof -
  let ?chs = "[putFile ''a'' ''q'', putFile ''a'' ''x'']"
  have "view demoDb2 (fileKey ''a'') = (''x'', True)" by code_simp
  then have "foldl setInput (view demoDb2) ?chs = view demoDb2"
    by (auto simp: setInput_def putFile_def fun_eq_iff)
  with apply_refines_update [OF demo_ok demo_reachable(3) demoDb2_revision prod.collapse [symmetric], of ?chs]
  show ?thesis by simp
qed

text \<open>Whether a transaction has anything to do: something to retire, a memo entry to evict, or
  a change that is not what the inputs already are.\<close>

definition transaction_acts ::
  "Database \<Rightarrow> (Key, Change) gomap \<Rightarrow> Key list \<Rightarrow> Key list \<Rightarrow> bool" where
  "transaction_acts db pending retired evicted \<longleftrightarrow>
     retired \<noteq> [] \<or> (\<exists>k\<in>set evicted. map_of (results db) k \<noteq> None) \<or>
     foldl setInput (view db) (map snd pending) \<noteq> view db"

lemma retireInput_inputAt:
  "inputAt (retireInput db key) k =
     (if k = key then \<lparr>in_value = [], in_present = False, in_changed = revision db\<rparr> else inputAt db k)"
  by (simp add: retireInput_def inputAt_write)

lemma foldl_retireInput_inputAt:
  "inputAt (foldl retireInput db keys) k =
     (if k \<in> set keys then \<lparr>in_value = [], in_present = False, in_changed = revision db\<rparr> else inputAt db k)"
proof (induction keys rule: rev_induct)
  case (snoc key keys)
  have "revision (foldl retireInput db keys) = revision db"
    using overwrites_foldl [of retireInput db keys] retireInput_overwrites by (auto simp: overwrites_def)
  with snoc show ?case by (simp add: retireInput_inputAt)
qed simp

lemma applyTransaction_effect:
  assumes wf: "store_wf db" and rev: "Suc (revision db) < 2 ^ 64" and pw: "pending_wf pending"
    and run: "applyTransaction db pending retired evicted = (b, db')"
  shows "b = transaction_acts db pending retired evicted \<and>
    view db' = foldl dropInput (foldl setInput (view db) (map snd pending)) retired \<and>
    (\<forall>k. map_of (results db') k = (if k \<in> set evicted then None else map_of (results db) k)) \<and>
    revision db' = revision db + (if b then 1 else 0) \<and> (\<not> b \<longrightarrow> db' = db) \<and>
    (\<forall>k. inputAt db' k =
       (if k \<in> set retired then \<lparr>in_value = [], in_present = False, in_changed = revision db'\<rparr>
        else if view db' k = view db k then inputAt db k
        else \<lparr>in_value = fst (view db' k), in_present = snd (view db' k), in_changed = revision db'\<rparr>))"
proof -
  have b: "b = transaction_acts db pending retired evicted"
    using run modified_effect [OF pw wf]
    by (auto simp: applyTransaction_def transaction_acts_def Let_def list_ex_iff split: if_splits)
  show ?thesis
  proof (cases b)
    case False
    with run have "db' = db" by (auto simp: applyTransaction_def Let_def split: if_splits)
    moreover from False b have "retired = []" "\<forall>k\<in>set evicted. map_of (results db) k = None"
      "foldl setInput (view db) (map snd pending) = view db" by (auto simp: transaction_acts_def)
    ultimately show ?thesis using False b by simp
  next
    case True
    let ?db2 = "evictResults (bumpRevision db) evicted"
    let ?db3 = "foldl writeChange ?db2 pending"
    from True run have db': "db' = foldl retireInput ?db3 retired"
      by (auto simp: applyTransaction_def Let_def evictResults_def split: if_splits)
    have v3: "view ?db3 = foldl setInput (view db) (map snd pending)"
      using foldl_writeChange_view [of ?db2 pending] wf pw by (simp add: pending_wf_def)
    have ov: "overwrites ?db2 ?db3" "overwrites ?db3 db'"
      unfolding db' by (blast intro: overwrites_foldl writeChange_overwrites retireInput_overwrites)+
    then have rev': "revision ?db3 = Suc (revision db)" "revision db' = Suc (revision db)"
      using uint64_inc_small [OF rev] by (simp_all add: overwrites_def)
    have "stamped ?db2 ?db3" by (rule foldl_writeChange_stamped) (use wf pw in simp_all)
    then have in3: "inputAt ?db3 k = (if view ?db3 k = view db k then inputAt db k
        else \<lparr>in_value = fst (view ?db3 k), in_present = snd (view ?db3 k), in_changed = Suc (revision db)\<rparr>)" for k
      unfolding stamped_def rev' by simp
    have "inputAt db' k =
       (if k \<in> set retired then \<lparr>in_value = [], in_present = False, in_changed = revision db'\<rparr>
        else if view db' k = view db k then inputAt db k
        else \<lparr>in_value = fst (view db' k), in_present = snd (view db' k), in_changed = revision db'\<rparr>)" for k
    proof (cases "k \<in> set retired")
      case False
      then have "inputAt db' k = inputAt ?db3 k" by (simp add: db' foldl_retireInput_inputAt)
      then have "view db' k = view ?db3 k" by (simp add: view_def)
      with \<open>inputAt db' k = inputAt ?db3 k\<close> in3 [of k] False rev' show ?thesis by simp
    qed (simp add: db' foldl_retireInput_inputAt rev' [unfolded db'])
    moreover have "view db' = foldl dropInput (foldl setInput (view db) (map snd pending)) retired"
      unfolding db' foldl_retireInput_view v3 ..
    moreover have "map_of (results db') k = (if k \<in> set evicted then None else map_of (results db) k)" for k
      using ov by (simp add: overwrites_def evictResults_lookup)
    ultimately show ?thesis using True b rev' by simp
  qed
qed

text \<open>Claim C24. \<^verbatim>\<open>applyTransaction\<close> does a session's replacement under one revision: the
  snapshot gets the changes and then loses the retired keys, the evicted entries are gone and
  every other entry is kept; the retired inputs and the inputs whose value moved, and no others,
  are stamped with the new revision. It answers whether there was anything to do (a key to
  retire, an entry to evict, or a change to the inputs); only then is there a new revision, and
  otherwise the database is left exactly as it was.\<close>

theorem transaction_refines_update:
  assumes "gomap_ok evals" and "reachable evals db" and "Suc (revision db) < 2 ^ 64"
    and "pending_wf pending" and "applyTransaction db pending retired evicted = (b, db')"
  shows "(b \<longleftrightarrow> retired \<noteq> [] \<or> (\<exists>k\<in>set evicted. map_of (results db) k \<noteq> None) \<or>
       foldl setInput (view db) (map snd pending) \<noteq> view db) \<and>
    view db' = foldl dropInput (foldl setInput (view db) (map snd pending)) retired \<and>
    (\<forall>k. map_of (results db') k = (if k \<in> set evicted then None else map_of (results db) k)) \<and>
    revision db' = revision db + (if b then 1 else 0) \<and> (\<not> b \<longrightarrow> db' = db) \<and>
    (\<forall>k. inputAt db' k =
       (if k \<in> set retired then \<lparr>in_value = [], in_present = False, in_changed = revision db'\<rparr>
        else if view db' k = view db k then inputAt db k
        else \<lparr>in_value = fst (view db' k), in_present = snd (view db' k), in_changed = revision db'\<rparr>))"
proof -
  have "store_wf db" using reach_inv [OF assms(2,1)] by (auto simp: reach_ok_def)
  from applyTransaction_effect [OF this assms(3-5)] show ?thesis unfolding transaction_acts_def .
qed

theorem transaction_refines_update_witness:
  "fst (view (snd (applyTransaction demoDb2 [(fileKey ''a'', putFile ''a'' ''w'')] [fileKey ''b''] [pairKey]))
          (fileKey ''a'')) = ''w'' \<and>
   \<not> fst (applyTransaction demoDb2 [(fileKey ''a'', putFile ''a'' ''x'')] [] [loopKey])"
proof -
  have pw: "pending_wf [(fileKey ''a'', putFile ''a'' v)]" for v by (simp add: pending_wf_def putFile_def)
  note tr = transaction_refines_update [OF demo_ok demo_reachable(3) demoDb2_revision pw prod.collapse [symmetric]]
  have "view demoDb2 (fileKey ''a'') = (''x'', True)" "map_of (results demoDb2) loopKey = None" by code_simp+
  then have "foldl setInput (view demoDb2) (map snd [(fileKey ''a'', putFile ''a'' ''x'')]) = view demoDb2"
    by (auto simp: setInput_def putFile_def fun_eq_iff)
  with tr [of "''x''" "[]" "[loopKey]"] \<open>map_of (results demoDb2) loopKey = None\<close>
  have "\<not> fst (applyTransaction demoDb2 [(fileKey ''a'', putFile ''a'' ''x'')] [] [loopKey])" by simp
  moreover from tr [of "''w''" "[fileKey ''b'']" "[pairKey]"]
  have "fst (view (snd (applyTransaction demoDb2 [(fileKey ''a'', putFile ''a'' ''w'')] [fileKey ''b''] [pairKey]))
          (fileKey ''a'')) = ''w''" by (simp add: setInput_def dropInput_def putFile_def fileKey_def)
  ultimately show ?thesis by simp
qed







subsection \<open>Readers\<close>

text \<open>Claim C36. The reader's hash index, built once the dependency list has eight entries, is
  only an optimisation: after any sequence of reads the recorded dependencies are the distinct
  ones in order of first use, and membership is membership in what was read.\<close>

theorem reader_index_equivalent:
  "rd_dependencies (rememberAll newReader deps) = firstUses [] deps \<and>
   distinct (rd_dependencies (rememberAll newReader deps)) \<and>
   (hasDependency (rememberAll newReader deps) dep \<longleftrightarrow> dep \<in> set deps)"
proof -
  have "\<not> rd_boundedDependencies newReader" by (simp add: newReader_def)
  from rememberAll_unbounded [OF readerOk_newReader _ this, of deps] show ?thesis
    by (simp add: set_firstUses distinct_firstUses)
qed

text \<open>Claim C37. A reader fails closed: after its first failure no further read of the
  evaluator touches the database, no context poll or answer can clear it, and that first
  failure is what the query reports.\<close>

theorem first_failure_wins:
  assumes "rd_failure rd = Some e"
  shows "\<exists>r rd' c'. runProg p ev active rd db c = Some (r, rd', db, c') \<and> rd_failure rd' = Some e"
  by (rule run_failed [OF assms])

theorem first_failure_wins_witness:
  "\<exists>r rd' c'. runProg (pairEval ''ab'') (evaluate 0) [] (newReader\<lparr>rd_failure := Some ErrDependencyBudget\<rparr>)
     demoDb2 None = Some (r, rd', demoDb2, c') \<and> rd_failure rd' = Some ErrDependencyBudget"
proof -
  have "rd_failure (newReader\<lparr>rd_failure := Some ErrDependencyBudget\<rparr>) = Some ErrDependencyBudget" by simp
  from first_failure_wins [OF this] show ?thesis .
qed

end
