(* ===== verification/GoUtf8.thy ===== *)
theory GoUtf8
  imports ElisaPrelude
begin

text \<open>
  What the sources use of Go's \<^verbatim>\<open>unicode/utf8\<close>, \<^verbatim>\<open>unicode/utf16\<close> and the Latin-1 part of
  \<^verbatim>\<open>unicode\<close>: decoding and appending one rune, joining a surrogate pair, and the letter and
  digit classes. A byte is a \<open>char\<close>, a Go string or byte slice is a list of them, and a rune
  is a natural number. The classes above Latin-1 come from Unicode tables; they are the
  arguments of the functions that need them (\<open>UnicodeTables\<close>).
\<close>

type_synonym byte = char
type_synonym rune = nat

abbreviation byteVal :: "byte \<Rightarrow> nat" where
  "byteVal c \<equiv> of_char c"

definition RuneError :: rune where
  "RuneError = 0xFFFD"

definition UTFMax :: nat where
  "UTFMax = 4"

text \<open>The range of the second byte and the length of a sequence, from its first byte.\<close>

definition leadInfo :: "nat \<Rightarrow> (nat \<times> nat \<times> nat) option" where
  "leadInfo b =
     (if 0xC2 \<le> b \<and> b \<le> 0xDF then Some (2, 0x80, 0xBF)
      else if b = 0xE0 then Some (3, 0xA0, 0xBF)
      else if b = 0xED then Some (3, 0x80, 0x9F)
      else if 0xE1 \<le> b \<and> b \<le> 0xEF then Some (3, 0x80, 0xBF)
      else if b = 0xF0 then Some (4, 0x90, 0xBF)
      else if b = 0xF4 then Some (4, 0x80, 0x8F)
      else if 0xF1 \<le> b \<and> b \<le> 0xF3 then Some (4, 0x80, 0xBF)
      else None)"

definition isCont :: "nat \<Rightarrow> bool" where
  "isCont b \<longleftrightarrow> 0x80 \<le> b \<and> b \<le> 0xBF"

definition decodeRune :: "byte list \<Rightarrow> rune \<times> nat" where
  "decodeRune p =
     (case map byteVal (take 4 p) of
        [] \<Rightarrow> (RuneError, 0)
      | b0 # rest \<Rightarrow>
          if b0 < 0x80 then (b0, 1)
          else case leadInfo b0 of
            None \<Rightarrow> (RuneError, 1)
          | Some (sz, lo, hi) \<Rightarrow>
              (case rest of
                 [] \<Rightarrow> (RuneError, 1)
               | b1 # rest1 \<Rightarrow>
                   if length rest < sz - 1 \<or> \<not> (lo \<le> b1 \<and> b1 \<le> hi) then (RuneError, 1)
                   else if sz = 2 then ((b0 mod 32) * 64 + b1 mod 64, 2)
                   else (case rest1 of
                      [] \<Rightarrow> (RuneError, 1)
                    | b2 # rest2 \<Rightarrow>
                        if \<not> isCont b2 then (RuneError, 1)
                        else if sz = 3
                        then ((b0 mod 16) * 4096 + (b1 mod 64) * 64 + b2 mod 64, 3)
                        else (case rest2 of
                           [] \<Rightarrow> (RuneError, 1)
                         | b3 # _ \<Rightarrow>
                             if \<not> isCont b3 then (RuneError, 1)
                             else ((b0 mod 8) * 262144 + (b1 mod 64) * 4096 + (b2 mod 64) * 64
                                   + b3 mod 64, 4)))))"

definition validRune :: "rune \<Rightarrow> bool" where
  "validRune r \<longleftrightarrow> r < 0xD800 \<or> (0xE000 \<le> r \<and> r \<le> 0x10FFFF)"

text \<open>The bytes \<^verbatim>\<open>utf8.AppendRune\<close> appends, and the conversion \<^verbatim>\<open>string(rune)\<close>.\<close>

definition encodeRune :: "rune \<Rightarrow> byte list" where
  "encodeRune r0 =
     (let r = (if validRune r0 then r0 else RuneError) in
      map char_of
        (if r < 0x80 then [r]
         else if r < 0x800 then [0xC0 + r div 64, 0x80 + r mod 64]
         else if r < 0x10000 then [0xE0 + r div 4096, 0x80 + (r div 64) mod 64, 0x80 + r mod 64]
         else [0xF0 + r div 262144, 0x80 + (r div 4096) mod 64, 0x80 + (r div 64) mod 64,
               0x80 + r mod 64]))"

definition utf16DecodeRune :: "rune \<Rightarrow> rune \<Rightarrow> rune" where
  "utf16DecodeRune r1 r2 =
     (if 0xD800 \<le> r1 \<and> r1 < 0xDC00 \<and> 0xDC00 \<le> r2 \<and> r2 < 0xE000
      then (r1 - 0xD800) * 1024 + (r2 - 0xDC00) + 0x10000 else RuneError)"

record UnicodeTables =
  wideLetter :: "rune \<Rightarrow> bool"
  wideDigit :: "rune \<Rightarrow> bool"

definition latinLetter :: "nat \<Rightarrow> bool" where
  "latinLetter r \<longleftrightarrow>
     (0x41 \<le> r \<and> r \<le> 0x5A) \<or> (0x61 \<le> r \<and> r \<le> 0x7A) \<or> r = 0xAA \<or> r = 0xB5 \<or> r = 0xBA \<or>
     (0xC0 \<le> r \<and> r \<le> 0xD6) \<or> (0xD8 \<le> r \<and> r \<le> 0xF6) \<or> (0xF8 \<le> r \<and> r \<le> 0xFF)"

definition IsLetter :: "UnicodeTables \<Rightarrow> rune \<Rightarrow> bool" where
  "IsLetter u r = (if r \<le> 0xFF then latinLetter r else wideLetter u r)"

definition IsDigit :: "UnicodeTables \<Rightarrow> rune \<Rightarrow> bool" where
  "IsDigit u r = (if r \<le> 0xFF then 0x30 \<le> r \<and> r \<le> 0x39 else wideDigit u r)"

text \<open>Decimal spelling of integers, as \<^verbatim>\<open>strconv\<close> and \<^verbatim>\<open>fmt\<close> write it.\<close>

fun decimal :: "nat \<Rightarrow> string" where
  "decimal n = (if n < 10 then [char_of (48 + n)] else decimal (n div 10) @ [char_of (48 + n mod 10)])"

declare decimal.simps [simp del]

definition showInt :: "int \<Rightarrow> string" where
  "showInt i = (if i < 0 then CHR ''-'' # decimal (nat (- i)) else decimal (nat i))"

subsection \<open>Decoding\<close>

lemma leadInfo_size: "leadInfo b = Some (sz, lo, hi) \<Longrightarrow> sz = 2 \<or> sz = 3 \<or> sz = 4"
  by (auto simp: leadInfo_def split: if_splits)

lemma decodeRune_cases:
  obtains r where "decodeRune (b # p) = (r, 1)"
  | r n where "decodeRune (b # p) = (r, n)" "2 \<le> n" "n \<le> 4" "n \<le> length (b # p)"
proof (cases "leadInfo (byteVal b)")
  case None
  then have "decodeRune (b # p) = (if byteVal b < 128 then byteVal b else RuneError, 1)"
    by (simp add: decodeRune_def)
  then show ?thesis by (rule that(1))
next
  case (Some x)
  obtain sz lo hi where x: "x = (sz, lo, hi)" by (cases x)
  have sz: "sz = 2 \<or> sz = 3 \<or> sz = 4" using Some x leadInfo_size by blast
  consider "p = []" | b1 where "p = [b1]" | b1 b2 where "p = [b1, b2]" | b1 b2 b3 q where "p = b1 # b2 # b3 # q"
    by (metis neq_Nil_conv)
  then have "snd (decodeRune (b # p)) = 1 \<or>
      (2 \<le> snd (decodeRune (b # p)) \<and> snd (decodeRune (b # p)) \<le> 4 \<and> snd (decodeRune (b # p)) \<le> length (b # p))"
  proof cases
    case (4 b1 b2 b3 q)
    have "decodeRune (b # p) = (let r = decodeRune [b, b1, b2, b3] in r)"
      unfolding 4 by (simp add: decodeRune_def)
    with sz 4 show ?thesis by (simp add: decodeRune_def Some x)
  qed (use sz in \<open>auto simp: decodeRune_def Some x\<close>)
  then show ?thesis using that by (metis prod.collapse)
qed

lemma decodeRune_size:
  "snd (decodeRune p) \<le> length p" "snd (decodeRune p) \<le> 4" "p \<noteq> [] \<Longrightarrow> 0 < snd (decodeRune p)"
proof -
  have "snd (decodeRune p) \<le> length p \<and> snd (decodeRune p) \<le> 4 \<and> (p \<noteq> [] \<longrightarrow> 0 < snd (decodeRune p))"
  proof (cases p)
    case (Cons b q)
    then show ?thesis by (cases rule: decodeRune_cases [of b q]) auto
  qed (simp add: decodeRune_def)
  then show "snd (decodeRune p) \<le> length p" "snd (decodeRune p) \<le> 4" "p \<noteq> [] \<Longrightarrow> 0 < snd (decodeRune p)"
    by auto
qed

text \<open>Decoding looks at no more than four bytes.\<close>

lemma decodeRune_take: "take 4 p = take 4 q \<Longrightarrow> decodeRune p = decodeRune q"
  by (simp add: decodeRune_def)

lemma mod_shift: "m < k \<Longrightarrow> (n * k + m) mod k = m" for m k n :: nat
  by simp

lemma decode_two: "2 \<le> q \<Longrightarrow> q < 32 \<Longrightarrow> m < 64 \<Longrightarrow>
  decodeRune (char_of (192 + q) # char_of (128 + m) # rest) = (q * 64 + m, 2)"
proof -
  assume a: "2 \<le> q" "q < 32" "m < 64"
  then have "leadInfo (192 + q) = Some (2, 128, 191)" by (simp add: leadInfo_def)
  moreover have "(192 + q) mod 32 = q" "(128 + m) mod 64 = m"
    using mod_shift [of q 32 6] mod_shift [of m 64 2] a by simp_all
  ultimately show ?thesis using a by (simp add: decodeRune_def)
qed

lemma decode_three:
  assumes a: "a < 16" "b < 64" "c < 64" "a = 0 \<longrightarrow> 32 \<le> b" "a = 13 \<longrightarrow> b < 32"
  shows "decodeRune (char_of (224 + a) # char_of (128 + b) # char_of (128 + c) # rest)
    = (a * 4096 + b * 64 + c, 3)"
proof -
  have l: "leadInfo (224 + a) = Some (3, if a = 0 then 160 else 128, if a = 13 then 159 else 191)"
    using a(1) by (auto simp: leadInfo_def)
  have "(224 + a) mod 16 = a" "(128 + b) mod 64 = b" "(128 + c) mod 64 = c"
    using mod_shift [of a 16 14] mod_shift [of b 64 2] mod_shift [of c 64 2] a by simp_all
  with a l show ?thesis by (auto simp: decodeRune_def isCont_def)
qed

lemma decode_four:
  assumes a: "a < 5" "b < 64" "c < 64" "d < 64" "a = 0 \<longrightarrow> 16 \<le> b" "a = 4 \<longrightarrow> b < 16"
  shows "decodeRune (char_of (240 + a) # char_of (128 + b) # char_of (128 + c) # char_of (128 + d) # rest)
    = (a * 262144 + b * 4096 + c * 64 + d, 4)"
proof -
  have l: "leadInfo (240 + a) = Some (4, if a = 0 then 144 else 128, if a = 4 then 143 else 191)"
    using a(1) by (auto simp: leadInfo_def)
  have "(240 + a) mod 8 = a" "(128 + b) mod 64 = b" "(128 + c) mod 64 = c" "(128 + d) mod 64 = d"
    using mod_shift [of a 8 30] mod_shift [of b 64 2] mod_shift [of c 64 2] mod_shift [of d 64 2] a by simp_all
  with a l show ?thesis by (auto simp: decodeRune_def isCont_def)
qed

lemma decode_encode:
  assumes "validRune r"
  shows "decodeRune (encodeRune r @ rest) = (r, length (encodeRune r))"
proof -
  consider "r < 0x80" | "0x80 \<le> r" "r < 0x800" | "0x800 \<le> r" "r < 0x10000" | "0x10000 \<le> r" "r \<le> 0x10FFFF"
    using assms unfolding validRune_def by linarith
  then show ?thesis
  proof cases
    case 1
    then show ?thesis using assms by (simp add: encodeRune_def decodeRune_def)
  next
    case 2
    have "decodeRune (char_of (192 + r div 64) # char_of (128 + r mod 64) # rest)
        = (r div 64 * 64 + r mod 64, 2)" by (rule decode_two) (use 2 in auto)
    with 2 assms show ?thesis by (simp add: encodeRune_def)
  next
    case 3
    define s where "s = r div 64"
    have d: "r div 4096 = s div 64" unfolding s_def by (simp add: div_mult2_eq [symmetric])
    have sr: "s * 64 + r mod 64 = r" "s div 64 * 64 + s mod 64 = s" unfolding s_def by simp_all
    have e: "r div 4096 * 4096 + s mod 64 * 64 + r mod 64 = r" using sr d by linarith
    have lt: "r mod 64 < 64" "s mod 64 < 64" by simp_all
    have c0: "s div 64 = 0 \<longrightarrow> 32 \<le> s mod 64" using sr lt 3 by linarith
    have c13: "s div 64 = 13 \<longrightarrow> s mod 64 < 32" using sr lt assms unfolding validRune_def by linarith
    have a16: "s div 64 < 16" using sr lt 3 by linarith
    have "decodeRune (char_of (224 + r div 4096) # char_of (128 + s mod 64) # char_of (128 + r mod 64) # rest)
        = (r div 4096 * 4096 + s mod 64 * 64 + r mod 64, 3)"
      by (rule decode_three) (use c0 c13 a16 d lt in simp_all)
    with 3 assms e show ?thesis by (simp add: encodeRune_def s_def [symmetric])
  next
    case 4
    define s t where "s = r div 64" and "t = s div 64"
    have d: "r div 4096 = t" "r div 262144 = t div 64"
      unfolding s_def t_def by (simp_all add: div_mult2_eq [symmetric])
    have sr: "s * 64 + r mod 64 = r" "t * 64 + s mod 64 = s" "t div 64 * 64 + t mod 64 = t"
      unfolding s_def t_def by simp_all
    have lt: "r mod 64 < 64" "s mod 64 < 64" "t mod 64 < 64" by simp_all
    have e: "t div 64 * 262144 + t mod 64 * 4096 + s mod 64 * 64 + r mod 64 = r" using sr by linarith
    have c: "t div 64 < 5" "t div 64 = 0 \<longrightarrow> 16 \<le> t mod 64" "t div 64 = 4 \<longrightarrow> t mod 64 < 16"
      using sr lt 4 by linarith+
    have "decodeRune (char_of (240 + t div 64) # char_of (128 + t mod 64) #
          char_of (128 + s mod 64) # char_of (128 + r mod 64) # rest)
        = (t div 64 * 262144 + t mod 64 * 4096 + s mod 64 * 64 + r mod 64, 4)"
      by (rule decode_four) (use c lt in simp_all)
    with 4 assms e show ?thesis by (simp add: encodeRune_def d s_def [symmetric])
  qed
qed

end
