(* ===== verification/LexToken.thy ===== *)
theory LexToken
  imports GoUtf8
begin

text \<open>
  Tokens and positions: \<^verbatim>\<open>compiler/src/lexer/token.go\<close>. A token kind is a Go \<^verbatim>\<open>int16\<close> whose
  constants count up from zero (\<^verbatim>\<open>iota\<close>); the ordinals matter to the sources, so the kind is
  the number and each constant an abbreviation of it. Line and column numbers are Go
  \<^verbatim>\<open>int\<close>s; a line number read from a \<^verbatim>\<open>#line\<close> directive can wrap around (\<open>int64\<close>).
\<close>

type_synonym TokenKind = int

abbreviation (input) TOKEN_EOF :: TokenKind where "TOKEN_EOF \<equiv> 0"
abbreviation (input) TOKEN_NEWLINE :: TokenKind where "TOKEN_NEWLINE \<equiv> 1"
abbreviation (input) TOKEN_INDENT :: TokenKind where "TOKEN_INDENT \<equiv> 2"
abbreviation (input) TOKEN_DEDENT :: TokenKind where "TOKEN_DEDENT \<equiv> 3"
abbreviation (input) TOKEN_IDENT :: TokenKind where "TOKEN_IDENT \<equiv> 4"
abbreviation (input) TOKEN_INT_LIT :: TokenKind where "TOKEN_INT_LIT \<equiv> 5"
abbreviation (input) TOKEN_FLOAT_LIT :: TokenKind where "TOKEN_FLOAT_LIT \<equiv> 6"
abbreviation (input) TOKEN_HEX_LIT :: TokenKind where "TOKEN_HEX_LIT \<equiv> 7"
abbreviation (input) TOKEN_STRING_LIT :: TokenKind where "TOKEN_STRING_LIT \<equiv> 8"
abbreviation (input) TOKEN_DEF :: TokenKind where "TOKEN_DEF \<equiv> 9"
abbreviation (input) TOKEN_ERROR :: TokenKind where "TOKEN_ERROR \<equiv> 10"
abbreviation (input) TOKEN_ENUM :: TokenKind where "TOKEN_ENUM \<equiv> 11"
abbreviation (input) TOKEN_STRUCT :: TokenKind where "TOKEN_STRUCT \<equiv> 12"
abbreviation (input) TOKEN_CONST :: TokenKind where "TOKEN_CONST \<equiv> 13"
abbreviation (input) TOKEN_GLOBAL :: TokenKind where "TOKEN_GLOBAL \<equiv> 14"
abbreviation (input) TOKEN_EXTERN :: TokenKind where "TOKEN_EXTERN \<equiv> 15"
abbreviation (input) TOKEN_EXPORT :: TokenKind where "TOKEN_EXPORT \<equiv> 16"
abbreviation (input) TOKEN_IF :: TokenKind where "TOKEN_IF \<equiv> 17"
abbreviation (input) TOKEN_MATCH :: TokenKind where "TOKEN_MATCH \<equiv> 18"
abbreviation (input) TOKEN_ELIF :: TokenKind where "TOKEN_ELIF \<equiv> 19"
abbreviation (input) TOKEN_ELSE :: TokenKind where "TOKEN_ELSE \<equiv> 20"
abbreviation (input) TOKEN_WHILE :: TokenKind where "TOKEN_WHILE \<equiv> 21"
abbreviation (input) TOKEN_BREAK :: TokenKind where "TOKEN_BREAK \<equiv> 22"
abbreviation (input) TOKEN_CONTINUE :: TokenKind where "TOKEN_CONTINUE \<equiv> 23"
abbreviation (input) TOKEN_RETURN :: TokenKind where "TOKEN_RETURN \<equiv> 24"
abbreviation (input) TOKEN_HEAP :: TokenKind where "TOKEN_HEAP \<equiv> 25"
abbreviation (input) TOKEN_STACK :: TokenKind where "TOKEN_STACK \<equiv> 26"
abbreviation (input) TOKEN_STATIC :: TokenKind where "TOKEN_STATIC \<equiv> 27"
abbreviation (input) TOKEN_MUTABLE :: TokenKind where "TOKEN_MUTABLE \<equiv> 28"
abbreviation (input) TOKEN_LMUT :: TokenKind where "TOKEN_LMUT \<equiv> 29"
abbreviation (input) TOKEN_REPR :: TokenKind where "TOKEN_REPR \<equiv> 30"
abbreviation (input) TOKEN_PACKED :: TokenKind where "TOKEN_PACKED \<equiv> 31"
abbreviation (input) TOKEN_ALIGNED :: TokenKind where "TOKEN_ALIGNED \<equiv> 32"
abbreviation (input) TOKEN_PASS :: TokenKind where "TOKEN_PASS \<equiv> 33"
abbreviation (input) TOKEN_PANIC :: TokenKind where "TOKEN_PANIC \<equiv> 34"
abbreviation (input) TOKEN_NOT :: TokenKind where "TOKEN_NOT \<equiv> 35"
abbreviation (input) TOKEN_AND :: TokenKind where "TOKEN_AND \<equiv> 36"
abbreviation (input) TOKEN_OR :: TokenKind where "TOKEN_OR \<equiv> 37"
abbreviation (input) TOKEN_NULL :: TokenKind where "TOKEN_NULL \<equiv> 38"
abbreviation (input) TOKEN_TRUE :: TokenKind where "TOKEN_TRUE \<equiv> 39"
abbreviation (input) TOKEN_FALSE :: TokenKind where "TOKEN_FALSE \<equiv> 40"
abbreviation (input) TOKEN_ZEROED :: TokenKind where "TOKEN_ZEROED \<equiv> 41"
abbreviation (input) TOKEN_SIZEOF :: TokenKind where "TOKEN_SIZEOF \<equiv> 42"
abbreviation (input) TOKEN_ALIGNOF :: TokenKind where "TOKEN_ALIGNOF \<equiv> 43"
abbreviation (input) TOKEN_OFFSETOF :: TokenKind where "TOKEN_OFFSETOF \<equiv> 44"
abbreviation (input) TOKEN_TAIL :: TokenKind where "TOKEN_TAIL \<equiv> 45"
abbreviation (input) TOKEN_TRY :: TokenKind where "TOKEN_TRY \<equiv> 46"
abbreviation (input) TOKEN_CATCH :: TokenKind where "TOKEN_CATCH \<equiv> 47"
abbreviation (input) TOKEN_RAISE :: TokenKind where "TOKEN_RAISE \<equiv> 48"
abbreviation (input) TOKEN_REGION :: TokenKind where "TOKEN_REGION \<equiv> 49"
abbreviation (input) TOKEN_NEW :: TokenKind where "TOKEN_NEW \<equiv> 50"
abbreviation (input) TOKEN_AS :: TokenKind where "TOKEN_AS \<equiv> 51"
abbreviation (input) TOKEN_IN :: TokenKind where "TOKEN_IN \<equiv> 52"
abbreviation (input) TOKEN_WITH :: TokenKind where "TOKEN_WITH \<equiv> 53"
abbreviation (input) TOKEN_COLON :: TokenKind where "TOKEN_COLON \<equiv> 54"
abbreviation (input) TOKEN_SCOPE :: TokenKind where "TOKEN_SCOPE \<equiv> 55"
abbreviation (input) TOKEN_ARROW :: TokenKind where "TOKEN_ARROW \<equiv> 56"
abbreviation (input) TOKEN_DOT :: TokenKind where "TOKEN_DOT \<equiv> 57"
abbreviation (input) TOKEN_RANGE :: TokenKind where "TOKEN_RANGE \<equiv> 58"
abbreviation (input) TOKEN_RANGE_LT :: TokenKind where "TOKEN_RANGE_LT \<equiv> 59"
abbreviation (input) TOKEN_RANGE_GT :: TokenKind where "TOKEN_RANGE_GT \<equiv> 60"
abbreviation (input) TOKEN_COMMA :: TokenKind where "TOKEN_COMMA \<equiv> 61"
abbreviation (input) TOKEN_LPAREN :: TokenKind where "TOKEN_LPAREN \<equiv> 62"
abbreviation (input) TOKEN_RPAREN :: TokenKind where "TOKEN_RPAREN \<equiv> 63"
abbreviation (input) TOKEN_LBRACKET :: TokenKind where "TOKEN_LBRACKET \<equiv> 64"
abbreviation (input) TOKEN_RBRACKET :: TokenKind where "TOKEN_RBRACKET \<equiv> 65"
abbreviation (input) TOKEN_HASH :: TokenKind where "TOKEN_HASH \<equiv> 66"
abbreviation (input) TOKEN_AMPERSAND :: TokenKind where "TOKEN_AMPERSAND \<equiv> 67"
abbreviation (input) TOKEN_QUESTION :: TokenKind where "TOKEN_QUESTION \<equiv> 68"
abbreviation (input) TOKEN_QASSIGN :: TokenKind where "TOKEN_QASSIGN \<equiv> 69"
abbreviation (input) TOKEN_BANG :: TokenKind where "TOKEN_BANG \<equiv> 70"
abbreviation (input) TOKEN_AT :: TokenKind where "TOKEN_AT \<equiv> 71"
abbreviation (input) TOKEN_ELLIPSIS :: TokenKind where "TOKEN_ELLIPSIS \<equiv> 72"
abbreviation (input) TOKEN_LARROW :: TokenKind where "TOKEN_LARROW \<equiv> 73"
abbreviation (input) TOKEN_PLUSEQ :: TokenKind where "TOKEN_PLUSEQ \<equiv> 74"
abbreviation (input) TOKEN_MINUSEQ :: TokenKind where "TOKEN_MINUSEQ \<equiv> 75"
abbreviation (input) TOKEN_STAREQ :: TokenKind where "TOKEN_STAREQ \<equiv> 76"
abbreviation (input) TOKEN_SLASHEQ :: TokenKind where "TOKEN_SLASHEQ \<equiv> 77"
abbreviation (input) TOKEN_PERCENTEQ :: TokenKind where "TOKEN_PERCENTEQ \<equiv> 78"
abbreviation (input) TOKEN_CARETEQ :: TokenKind where "TOKEN_CARETEQ \<equiv> 79"
abbreviation (input) TOKEN_PIPEEQ :: TokenKind where "TOKEN_PIPEEQ \<equiv> 80"
abbreviation (input) TOKEN_AMPEQ :: TokenKind where "TOKEN_AMPEQ \<equiv> 81"
abbreviation (input) TOKEN_LSHIFTEQ :: TokenKind where "TOKEN_LSHIFTEQ \<equiv> 82"
abbreviation (input) TOKEN_RSHIFTEQ :: TokenKind where "TOKEN_RSHIFTEQ \<equiv> 83"
abbreviation (input) TOKEN_ASSIGN :: TokenKind where "TOKEN_ASSIGN \<equiv> 84"
abbreviation (input) TOKEN_EQEQ :: TokenKind where "TOKEN_EQEQ \<equiv> 85"
abbreviation (input) TOKEN_BANGEQ :: TokenKind where "TOKEN_BANGEQ \<equiv> 86"
abbreviation (input) TOKEN_LT :: TokenKind where "TOKEN_LT \<equiv> 87"
abbreviation (input) TOKEN_GT :: TokenKind where "TOKEN_GT \<equiv> 88"
abbreviation (input) TOKEN_LTEQ :: TokenKind where "TOKEN_LTEQ \<equiv> 89"
abbreviation (input) TOKEN_GTEQ :: TokenKind where "TOKEN_GTEQ \<equiv> 90"
abbreviation (input) TOKEN_PLUS :: TokenKind where "TOKEN_PLUS \<equiv> 91"
abbreviation (input) TOKEN_MINUS :: TokenKind where "TOKEN_MINUS \<equiv> 92"
abbreviation (input) TOKEN_STAR :: TokenKind where "TOKEN_STAR \<equiv> 93"
abbreviation (input) TOKEN_SLASH :: TokenKind where "TOKEN_SLASH \<equiv> 94"
abbreviation (input) TOKEN_PERCENT :: TokenKind where "TOKEN_PERCENT \<equiv> 95"
abbreviation (input) TOKEN_PIPE :: TokenKind where "TOKEN_PIPE \<equiv> 96"
abbreviation (input) TOKEN_CARET :: TokenKind where "TOKEN_CARET \<equiv> 97"
abbreviation (input) TOKEN_LSHIFT :: TokenKind where "TOKEN_LSHIFT \<equiv> 98"
abbreviation (input) TOKEN_RSHIFT :: TokenKind where "TOKEN_RSHIFT \<equiv> 99"
abbreviation (input) TOKEN_TILDE :: TokenKind where "TOKEN_TILDE \<equiv> 100"
abbreviation (input) TOKEN_CHAR_LIT :: TokenKind where "TOKEN_CHAR_LIT \<equiv> 101"
abbreviation (input) TOKEN_IS :: TokenKind where "TOKEN_IS \<equiv> 102"
abbreviation (input) TOKEN_FATARROW :: TokenKind where "TOKEN_FATARROW \<equiv> 103"
abbreviation (input) TOKEN_TO :: TokenKind where "TOKEN_TO \<equiv> 104"
abbreviation (input) TOKEN_LBRACE :: TokenKind where "TOKEN_LBRACE \<equiv> 105"
abbreviation (input) TOKEN_RBRACE :: TokenKind where "TOKEN_RBRACE \<equiv> 106"
abbreviation (input) TOKEN_PIPEGT :: TokenKind where "TOKEN_PIPEGT \<equiv> 107"
abbreviation (input) TOKEN_SEMICOLON :: TokenKind where "TOKEN_SEMICOLON \<equiv> 108"
abbreviation (input) TOKEN_RANGE_LE :: TokenKind where "TOKEN_RANGE_LE \<equiv> 109"
abbreviation (input) TOKEN_FSTRING_LIT :: TokenKind where "TOKEN_FSTRING_LIT \<equiv> 110"

datatype NumericSuffix =
    NumericSuffixNone
  | NumericSuffixU8
  | NumericSuffixU16
  | NumericSuffixU32
  | NumericSuffixU64
  | NumericSuffixU
  | NumericSuffixI8
  | NumericSuffixI16
  | NumericSuffixI32
  | NumericSuffixI64
  | NumericSuffixUSize
  | NumericSuffixISize
  | NumericSuffixF32
  | NumericSuffixF64
  | NumericSuffixCode nat

text \<open>\<^verbatim>\<open>NumericSuffix.String\<close>; the last constructor stands for the codes that name no suffix.\<close>

fun NumericSuffixString :: "NumericSuffix \<Rightarrow> string" where
  "NumericSuffixString NumericSuffixNone = []"
| "NumericSuffixString NumericSuffixU8 = ''u8''"
| "NumericSuffixString NumericSuffixU16 = ''u16''"
| "NumericSuffixString NumericSuffixU32 = ''u32''"
| "NumericSuffixString NumericSuffixU64 = ''u64''"
| "NumericSuffixString NumericSuffixU = ''u''"
| "NumericSuffixString NumericSuffixI8 = ''i8''"
| "NumericSuffixString NumericSuffixI16 = ''i16''"
| "NumericSuffixString NumericSuffixI32 = ''i32''"
| "NumericSuffixString NumericSuffixI64 = ''i64''"
| "NumericSuffixString NumericSuffixUSize = ''usize''"
| "NumericSuffixString NumericSuffixISize = ''isize''"
| "NumericSuffixString NumericSuffixF32 = ''f32''"
| "NumericSuffixString NumericSuffixF64 = ''f64''"
| "NumericSuffixString (NumericSuffixCode _) = char_of (0::nat) # ''<invalid numeric suffix>''"

definition tokenNames :: "(TokenKind \<times> string) list" where
  "tokenNames =
    [(TOKEN_EOF, ''EOF''),
     (TOKEN_NEWLINE, ''NEWLINE''),
     (TOKEN_INDENT, ''INDENT''),
     (TOKEN_DEDENT, ''DEDENT''),
     (TOKEN_IDENT, ''IDENT''),
     (TOKEN_INT_LIT, ''INT''),
     (TOKEN_FLOAT_LIT, ''FLOAT''),
     (TOKEN_HEX_LIT, ''HEX''),
     (TOKEN_STRING_LIT, ''STRING''),
     (TOKEN_FSTRING_LIT, ''FSTRING''),
     (TOKEN_CHAR_LIT, ''CHAR''),
     (TOKEN_DEF, ''def''),
     (TOKEN_ERROR, ''error''),
     (TOKEN_ENUM, ''enum''),
     (TOKEN_STRUCT, ''struct''),
     (TOKEN_CONST, ''const''),
     (TOKEN_GLOBAL, ''global''),
     (TOKEN_EXTERN, ''extern''),
     (TOKEN_EXPORT, ''export''),
     (TOKEN_IF, ''if''),
     (TOKEN_MATCH, ''match''),
     (TOKEN_ELIF, ''elif''),
     (TOKEN_ELSE, ''else''),
     (TOKEN_WHILE, ''while''),
     (TOKEN_BREAK, ''break''),
     (TOKEN_CONTINUE, ''continue''),
     (TOKEN_RETURN, ''return''),
     (TOKEN_HEAP, ''heap''),
     (TOKEN_STACK, ''stack''),
     (TOKEN_STATIC, ''static''),
     (TOKEN_MUTABLE, ''mutable''),
     (TOKEN_LMUT, ''lmut''),
     (TOKEN_REPR, ''repr''),
     (TOKEN_PACKED, ''packed''),
     (TOKEN_PASS, ''pass''),
     (TOKEN_PANIC, ''panic''),
     (TOKEN_NOT, ''not''),
     (TOKEN_AND, ''and''),
     (TOKEN_OR, ''or''),
     (TOKEN_NULL, ''null''),
     (TOKEN_TRUE, ''true''),
     (TOKEN_FALSE, ''false''),
     (TOKEN_ZEROED, ''zeroed''),
     (TOKEN_SIZEOF, ''sizeof''),
     (TOKEN_ALIGNOF, ''alignof''),
     (TOKEN_OFFSETOF, ''offsetof''),
     (TOKEN_TAIL, ''tail''),
     (TOKEN_TRY, ''try''),
     (TOKEN_CATCH, ''catch''),
     (TOKEN_RAISE, ''raise''),
     (TOKEN_REGION, ''region''),
     (TOKEN_NEW, ''new''),
     (TOKEN_IS, ''is''),
     (TOKEN_AS, ''as''),
     (TOKEN_IN, ''in''),
     (TOKEN_WITH, ''with''),
     (TOKEN_TO, ''to''),
     (TOKEN_COLON, '':''),
     (TOKEN_SCOPE, ''::''),
     (TOKEN_ARROW, ''->''),
     (TOKEN_FATARROW, ''=>''),
     (TOKEN_DOT, ''.''),
     (TOKEN_RANGE, ''..''),
     (TOKEN_RANGE_LT, ''..<''),
     (TOKEN_RANGE_GT, ''..>''),
     (TOKEN_RANGE_LE, ''..=''),
     (TOKEN_COMMA, '',''),
     (TOKEN_LPAREN, ''(''),
     (TOKEN_RPAREN, '')''),
     (TOKEN_LBRACKET, ''[''),
     (TOKEN_RBRACKET, '']''),
     (TOKEN_LBRACE, ''{''),
     (TOKEN_RBRACE, ''}''),
     (TOKEN_HASH, ''#''),
     (TOKEN_AMPERSAND, ''&''),
     (TOKEN_QUESTION, ''?''),
     (TOKEN_QASSIGN, ''?=''),
     (TOKEN_BANG, ''!''),
     (TOKEN_AT, ''@''),
     (TOKEN_ELLIPSIS, ''...''),
     (TOKEN_LARROW, ''<-''),
     (TOKEN_PLUSEQ, ''+=''),
     (TOKEN_MINUSEQ, ''-=''),
     (TOKEN_STAREQ, ''*=''),
     (TOKEN_SLASHEQ, ''/=''),
     (TOKEN_PERCENTEQ, ''%=''),
     (TOKEN_CARETEQ, ''^=''),
     (TOKEN_PIPEEQ, ''|=''),
     (TOKEN_AMPEQ, ''&=''),
     (TOKEN_LSHIFTEQ, ''<<=''),
     (TOKEN_RSHIFTEQ, ''>>=''),
     (TOKEN_ASSIGN, ''=''),
     (TOKEN_EQEQ, ''==''),
     (TOKEN_BANGEQ, ''!=''),
     (TOKEN_LT, ''<''),
     (TOKEN_GT, ''>''),
     (TOKEN_LTEQ, ''<=''),
     (TOKEN_GTEQ, ''>=''),
     (TOKEN_PLUS, ''+''),
     (TOKEN_MINUS, ''-''),
     (TOKEN_STAR, ''*''),
     (TOKEN_SLASH, ''/''),
     (TOKEN_PERCENT, ''%''),
     (TOKEN_PIPE, ''|''),
     (TOKEN_CARET, ''^''),
     (TOKEN_LSHIFT, ''<<''),
     (TOKEN_RSHIFT, ''>>''),
     (TOKEN_TILDE, ''~''),
     (TOKEN_PIPEGT, ''|>''),
     (TOKEN_SEMICOLON, '';'')]"

definition keywordTable :: "(string \<times> TokenKind) list" where
  "keywordTable =
    [(''def'', TOKEN_DEF),
     (''error'', TOKEN_ERROR),
     (''enum'', TOKEN_ENUM),
     (''struct'', TOKEN_STRUCT),
     (''const'', TOKEN_CONST),
     (''global'', TOKEN_GLOBAL),
     (''extern'', TOKEN_EXTERN),
     (''export'', TOKEN_EXPORT),
     (''if'', TOKEN_IF),
     (''match'', TOKEN_MATCH),
     (''elif'', TOKEN_ELIF),
     (''else'', TOKEN_ELSE),
     (''while'', TOKEN_WHILE),
     (''break'', TOKEN_BREAK),
     (''continue'', TOKEN_CONTINUE),
     (''return'', TOKEN_RETURN),
     (''heap'', TOKEN_HEAP),
     (''stack'', TOKEN_STACK),
     (''static'', TOKEN_STATIC),
     (''mutable'', TOKEN_MUTABLE),
     (''lmut'', TOKEN_LMUT),
     (''repr'', TOKEN_REPR),
     (''packed'', TOKEN_PACKED),
     (''pass'', TOKEN_PASS),
     (''panic'', TOKEN_PANIC),
     (''not'', TOKEN_NOT),
     (''and'', TOKEN_AND),
     (''or'', TOKEN_OR),
     (''null'', TOKEN_NULL),
     (''true'', TOKEN_TRUE),
     (''false'', TOKEN_FALSE),
     (''zeroed'', TOKEN_ZEROED),
     (''sizeof'', TOKEN_SIZEOF),
     (''size_of'', TOKEN_SIZEOF),
     (''alignof'', TOKEN_ALIGNOF),
     (''align_of'', TOKEN_ALIGNOF),
     (''offsetof'', TOKEN_OFFSETOF),
     (''offset_of'', TOKEN_OFFSETOF),
     (''tail'', TOKEN_TAIL),
     (''try'', TOKEN_TRY),
     (''catch'', TOKEN_CATCH),
     (''raise'', TOKEN_RAISE),
     (''is'', TOKEN_IS),
     (''as'', TOKEN_AS),
     (''in'', TOKEN_IN),
     (''with'', TOKEN_WITH),
     (''to'', TOKEN_TO)]"

definition LookupKeyword :: "string \<Rightarrow> TokenKind" where
  "LookupKeyword ident = (case map_of keywordTable ident of Some tok \<Rightarrow> tok | None \<Rightarrow> TOKEN_IDENT)"

definition IsReservedWord :: "string \<Rightarrow> bool" where
  "IsReservedWord ident \<longleftrightarrow> map_of keywordTable ident \<noteq> None"

text \<open>64-bit two's complement wrap-around.\<close>

definition int64 :: "int \<Rightarrow> int" where
  "int64 x = (x + 9223372036854775808) mod 18446744073709551616 - 9223372036854775808"

definition TokenName :: "TokenKind \<Rightarrow> string" where
  "TokenName kind =
     (case map_of tokenNames kind of
        Some name \<Rightarrow> name
      | None \<Rightarrow> ''TokenKind('' @ showInt kind @ '')'')"

record Pos =
  File :: string
  Line :: int
  Col :: int
  Offset :: int
  EndLine :: int
  EndCol :: int
  EndOffset :: int

definition zeroPos :: Pos where
  "zeroPos = \<lparr>File = [], Line = 0, Col = 0, Offset = 0, EndLine = 0, EndCol = 0, EndOffset = 0\<rparr>"

definition IsZero :: "Pos \<Rightarrow> bool" where
  "IsZero p \<longleftrightarrow> File p = [] \<and> Line p = 0 \<and> Col p = 0 \<and> Offset p = 0 \<and> EndLine p = 0 \<and>
     EndCol p = 0 \<and> EndOffset p = 0"

definition normalizedEnd :: "Pos \<Rightarrow> Pos" where
  "normalizedEnd p =
     (if EndLine p = 0 \<and> EndCol p = 0 \<and> EndOffset p = 0
      then zeroPos\<lparr>File := File p, Line := Line p, Col := Col p, Offset := Offset p\<rparr>
      else zeroPos\<lparr>File := File p, Line := EndLine p, Col := EndCol p, Offset := EndOffset p\<rparr>)"

definition WithEnd :: "Pos \<Rightarrow> Pos \<Rightarrow> Pos" where
  "WithEnd p0 endp =
     (let p1 = (if IsZero p0 then endp else p0);
          p2 = (if File p1 = [] then p1\<lparr>File := File endp\<rparr> else p1);
          p3 = (if Line p2 = 0 then p2\<lparr>Line := Line endp\<rparr> else p2);
          p4 = (if Col p3 = 0 then p3\<lparr>Col := Col endp\<rparr> else p3);
          p5 = (if Offset p4 = 0 \<and> (Line p4 \<noteq> 0 \<or> Col p4 \<noteq> 0 \<or> Offset endp \<noteq> 0)
                then p4\<lparr>Offset := Offset endp\<rparr> else p4)
      in p5\<lparr>EndLine := Line endp, EndCol := Col endp, EndOffset := Offset endp\<rparr>)"

definition Merge :: "Pos \<Rightarrow> Pos \<Rightarrow> Pos" where
  "Merge p other =
     (if IsZero p then other else if IsZero other then p else WithEnd p (normalizedEnd other))"

definition HasRange :: "Pos \<Rightarrow> bool" where
  "HasRange p \<longleftrightarrow> \<not> IsZero p \<and>
     (let endp = normalizedEnd p
      in Line endp \<noteq> Line p \<or> Col endp \<noteq> Col p \<or> Offset endp \<noteq> Offset p)"

definition PosString :: "Pos \<Rightarrow> string" where
  "PosString p =
     (let file = (if File p = [] then ''<unknown>'' else File p);
          start = file @ '':'' @ showInt (Line p) @ '':'' @ showInt (Col p);
          endp = normalizedEnd p
      in if \<not> HasRange p then start
         else if Line endp = Line p then start @ ''-'' @ showInt (Col endp)
         else start @ ''-'' @ showInt (Line endp) @ '':'' @ showInt (Col endp))"

text \<open>A Go string is a pointer and a length. \<open>tok_View\<close> is the part of the pointer that the code
  looks at: the offset in the source at which the bytes of \<open>tok_Text\<close> are stored, or \<open>None\<close> when
  the text has storage of its own.\<close>

record Token =
  tok_Kind :: TokenKind
  tok_Suffix :: NumericSuffix
  tok_Text :: string
  tok_View :: "nat option"
  tok_Pos :: Pos

definition SuffixString :: "Token \<Rightarrow> string" where
  "SuffixString t = NumericSuffixString (tok_Suffix t)"

end
