(* ===== verification/LexerModel.thy ===== *)
theory LexerModel
  imports LexToken "HOL-Library.State_Monad"
begin

text \<open>
  The lexer's state and its readers: \<^verbatim>\<open>compiler/src/lexer/lexer_lexer_to_readident.go\<close> and
  \<^verbatim>\<open>source_reads.go\<close>. Every method of \<^verbatim>\<open>Lexer\<close> is a computation of the state monad over
  the record \<open>Lexer\<close>. Reads of the source go through \<^verbatim>\<open>sourceHas\<close>, \<^verbatim>\<open>sourceByte\<close>,
  \<^verbatim>\<open>sourceSlice\<close> and \<^verbatim>\<open>runeBytes\<close>, which record the bytes they looked at. An index that Go
  would refuse sets \<open>panicked\<close>; the proofs show that it never does.

  A Go loop is \<open>loopM\<close>: its body returns whether to go on and the loop's local variables. The
  loop carries a measure. A round that asks to go on without having brought the measure down ends
  the loop and sets \<open>hung\<close>, which stands for a loop that may run forever: no later step clears the
  flag, so a run that ends without it is a run in which every loop ended by its own condition. The
  proofs show that it is never set.
\<close>

record groupedPatternHeader =
  ph_ParenDepth :: nat
  ph_HeadStart :: nat

record groupedBlockContext =
  gb_ParenDepth :: nat
  gb_BaseIndent :: nat
  gb_HeaderIndent :: nat

record Lexer =
  trackReads :: bool
  readLimit :: nat
  lineEpoch :: nat
  src :: "byte list"
  filename :: string
  pos :: nat
  line :: int
  col :: int
  indentStack :: "nat list"
  atLineStart :: bool
  pendingToks :: "Token list"
  lastTokenKind :: TokenKind
  parenDepth :: nat
  pendingGroupedBlock :: bool
  pendingPatternBlocks :: "groupedPatternHeader list"
  groupedBlockContexts :: "groupedBlockContext list"
  errors :: "string list"
  panicked :: bool
  hung :: bool

type_synonym 'a lex = "(Lexer, 'a) state"

definition lexNew :: "string \<Rightarrow> byte list \<Rightarrow> Lexer" where
  "lexNew name source =
     \<lparr>trackReads = False, readLimit = 0, lineEpoch = 0, src = source, filename = name, pos = 0,
      line = 1, col = 1, indentStack = [0], atLineStart = True, pendingToks = [],
      lastTokenKind = 0, parenDepth = 0, pendingGroupedBlock = False, pendingPatternBlocks = [],
      groupedBlockContexts = [], errors = [], panicked = False, hung = False\<rparr>"

abbreviation ret :: "'a \<Rightarrow> 'a lex" where
  "ret \<equiv> State_Monad.return"

definition gets :: "(Lexer \<Rightarrow> 'a) \<Rightarrow> 'a lex" where
  "gets f = State (\<lambda>l. (f l, l))"

definition modify :: "(Lexer \<Rightarrow> Lexer) \<Rightarrow> unit lex" where
  "modify f = State (\<lambda>l. ((), f l))"

function loopL ::
  "('v \<Rightarrow> Lexer \<Rightarrow> nat) \<Rightarrow> ('v \<Rightarrow> (bool \<times> 'v) lex) \<Rightarrow> 'v \<Rightarrow> Lexer \<Rightarrow> 'v \<times> Lexer" where
  "loopL meas step v l =
     (case run_state (step v) l of
        ((again, v'), l') \<Rightarrow>
          if \<not> again then (v', l')
          else if meas v' l' < meas v l then loopL meas step v' l'
          else (v', l'\<lparr>hung := True\<rparr>))"
  by pat_completeness auto
termination by (relation "measure (\<lambda>(meas, step, v, l). meas v l)") auto

declare loopL.simps [simp del]

definition loopM :: "('v \<Rightarrow> Lexer \<Rightarrow> nat) \<Rightarrow> ('v \<Rightarrow> (bool \<times> 'v) lex) \<Rightarrow> 'v \<Rightarrow> 'v lex" where
  "loopM meas step v = State (loopL meas step v)"

definition remaining :: "Lexer \<Rightarrow> nat" where
  "remaining l = length (src l) - pos l"

definition whileM :: "bool lex \<Rightarrow> unit lex \<Rightarrow> unit lex" where
  "whileM c body =
     loopM (\<lambda>_ l. remaining l)
       (\<lambda>_. do { t \<leftarrow> c; if t then do { body; ret (True, ()) } else ret (False, ()) }) ()"

subsection \<open>Reads\<close>

definition noteRead :: "nat \<Rightarrow> unit lex" where
  "noteRead lim =
     modify (\<lambda>l. if trackReads l \<and> lim > readLimit l then l\<lparr>readLimit := lim\<rparr> else l)"

definition sourceHas :: "nat \<Rightarrow> bool lex" where
  "sourceHas index = do { noteRead (index + 1); gets (\<lambda>l. index < length (src l)) }"

definition sourceByte :: "nat \<Rightarrow> byte lex" where
  "sourceByte index = do {
     noteRead (index + 1);
     State (\<lambda>l. if index < length (src l) then (src l ! index, l)
                else (CHR 0x00, l\<lparr>panicked := True\<rparr>)) }"

definition sourceSlice :: "nat \<Rightarrow> nat \<Rightarrow> byte list lex" where
  "sourceSlice start lim = do {
     noteRead lim;
     State (\<lambda>l. if start \<le> lim \<and> lim \<le> length (src l)
                then (take (lim - start) (drop start (src l)), l)
                else ([], l\<lparr>panicked := True\<rparr>)) }"

definition runeBytes :: "nat \<Rightarrow> byte list lex" where
  "runeBytes index = do {
     noteRead (index + UTFMax);
     State (\<lambda>l. if index \<le> length (src l)
                then (take (min (length (src l)) (index + UTFMax) - index) (drop index (src l)), l)
                else ([], l\<lparr>panicked := True\<rparr>)) }"

text \<open>\<^verbatim>\<open>l.sourceHas(j) && P(l.sourceByte(j))\<close>\<close>

definition byteIs :: "nat \<Rightarrow> (byte \<Rightarrow> bool) \<Rightarrow> bool lex" where
  "byteIs j P = do { h \<leftarrow> sourceHas j; if h then do { ch \<leftarrow> sourceByte j; ret (P ch) } else ret False }"

text \<open>\<^verbatim>\<open>for l.sourceHas(j) && P(l.sourceByte(j)) { j++ }\<close>\<close>

definition scanWhile :: "(byte \<Rightarrow> bool) \<Rightarrow> nat \<Rightarrow> nat lex" where
  "scanWhile P =
     loopM (\<lambda>j l. length (src l) - j)
       (\<lambda>j. do { t \<leftarrow> byteIs j P; ret (if t then (True, j + 1) else (False, j)) })"

definition isBlank :: "byte \<Rightarrow> bool" where
  "isBlank ch \<longleftrightarrow> ch = CHR '' '' \<or> ch = CHR 0x09"

definition isDigit :: "byte \<Rightarrow> bool" where
  "isDigit ch \<longleftrightarrow> 48 \<le> byteVal ch \<and> byteVal ch \<le> (57 :: nat)"

definition isHexDigit :: "byte \<Rightarrow> bool" where
  "isHexDigit ch \<longleftrightarrow> (48 \<le> byteVal ch \<and> byteVal ch \<le> (57 :: nat)) \<or>
     (97 \<le> byteVal ch \<and> byteVal ch \<le> (102 :: nat)) \<or> (65 \<le> byteVal ch \<and> byteVal ch \<le> (70 :: nat))"

definition hexDigitValue :: "byte \<Rightarrow> nat" where
  "hexDigitValue ch =
     (if 48 \<le> byteVal ch \<and> byteVal ch \<le> (57 :: nat) then byteVal ch - 48
      else if 97 \<le> byteVal ch \<and> byteVal ch \<le> (102 :: nat) then byteVal ch - 97 + 10
      else if 65 \<le> byteVal ch \<and> byteVal ch \<le> (70 :: nat) then byteVal ch - 65 + 10
      else 0)"

definition isAlpha :: "byte \<Rightarrow> bool" where
  "isAlpha ch \<longleftrightarrow> latinLetter (byteVal ch)"

definition isIdentChar :: "byte \<Rightarrow> bool" where
  "isIdentChar ch \<longleftrightarrow> ch = CHR ''_'' \<or> ch = CHR ''$'' \<or> isAlpha ch \<or> isDigit ch"

definition isIdentStartRune :: "UnicodeTables \<Rightarrow> rune \<Rightarrow> bool" where
  "isIdentStartRune u r \<longleftrightarrow> r = byteVal (CHR ''_'') \<or> r = byteVal (CHR ''$'') \<or> IsLetter u r"

definition isIdentCharRune :: "UnicodeTables \<Rightarrow> rune \<Rightarrow> bool" where
  "isIdentCharRune u r \<longleftrightarrow>
     r = byteVal (CHR ''_'') \<or> r = byteVal (CHR ''$'') \<or> IsLetter u r \<or> IsDigit u r"

subsection \<open>The cursor\<close>

definition isImmediateGroupedBlockIntroducer :: "string \<Rightarrow> bool" where
  "isImmediateGroupedBlockIntroducer text \<longleftrightarrow> text = ''do''"

definition activeGroupedBlockContext :: "Lexer \<Rightarrow> bool" where
  "activeGroupedBlockContext l \<longleftrightarrow>
     groupedBlockContexts l \<noteq> [] \<and> parenDepth l = gb_ParenDepth (last (groupedBlockContexts l))"

text \<open>\<^verbatim>\<open>l.indentStack[len(l.indentStack)-1]\<close>\<close>

definition currentIndent :: "nat lex" where
  "currentIndent =
     State (\<lambda>l. if indentStack l = [] then (0, l\<lparr>panicked := True\<rparr>) else (last (indentStack l), l))"

definition trimFinishedGroupedBlockContexts :: "unit lex" where
  "trimFinishedGroupedBlockContexts =
     loopM (\<lambda>_ l. length (groupedBlockContexts l))
       (\<lambda>_. do {
          contexts \<leftarrow> gets groupedBlockContexts;
          if contexts = [] then ret (False, ())
          else do {
            current \<leftarrow> currentIndent;
            if current > gb_BaseIndent (last contexts) then ret (False, ())
            else do {
              modify (\<lambda>l. l\<lparr>groupedBlockContexts := butlast (groupedBlockContexts l)\<rparr>);
              ret (True, ()) } } }) ()"

definition curPos :: "Pos lex" where
  "curPos =
     gets (\<lambda>l. zeroPos\<lparr>File := filename l, Line := line l, Col := col l, Offset := int (pos l)\<rparr>)"

definition finishToken :: "Token \<Rightarrow> Token lex" where
  "finishToken tok = do { p \<leftarrow> curPos; ret (tok\<lparr>tok_Pos := WithEnd (tok_Pos tok) p\<rparr>) }"

definition mkToken :: "TokenKind \<Rightarrow> string \<Rightarrow> Pos \<Rightarrow> Token" where
  "mkToken kind text p =
     \<lparr>tok_Kind = kind, tok_Suffix = NumericSuffixNone, tok_Text = text, tok_View = None, tok_Pos = p\<rparr>"

text \<open>A token whose text is \<^verbatim>\<open>bytesToStringView(l.sourceSlice(start, ...))\<close>; an empty view is \<^verbatim>\<open>""\<close>.\<close>

definition viewToken :: "TokenKind \<Rightarrow> string \<Rightarrow> nat \<Rightarrow> Pos \<Rightarrow> Token" where
  "viewToken kind text start p =
     (mkToken kind text p)\<lparr>tok_View := (if text = [] then None else Some start)\<rparr>"

definition reportErrorAt :: "Pos \<Rightarrow> string \<Rightarrow> unit lex" where
  "reportErrorAt p msg = modify (\<lambda>l. l\<lparr>errors := errors l @ [PosString p @ '': '' @ msg]\<rparr>)"

text \<open>The recurring \<^verbatim>\<open>l.reportErrorAt(p.WithEnd(l.curPos()), ...)\<close>\<close>

definition reportSince :: "Pos \<Rightarrow> string \<Rightarrow> unit lex" where
  "reportSince p msg = do { e \<leftarrow> curPos; reportErrorAt (WithEnd p e) msg }"

definition lexErrors :: "Lexer \<Rightarrow> string list" where
  "lexErrors l = (if errors l = [] then [] else errors l)"

definition peek :: "byte lex" where
  "peek = do { p \<leftarrow> gets pos; h \<leftarrow> sourceHas p; if h then sourceByte p else ret (CHR 0x00) }"

definition peekRune :: "(rune \<times> nat) lex" where
  "peekRune = do {
     p \<leftarrow> gets pos;
     h \<leftarrow> sourceHas p;
     if \<not> h then ret (0, 0)
     else do {
       bytes \<leftarrow> runeBytes p;
       (case decodeRune bytes of (r, n) \<Rightarrow>
          if r = RuneError \<and> n = 1 then do { ch \<leftarrow> sourceByte p; ret (byteVal ch, 1) }
          else ret (r, n)) } }"

definition peekAt :: "nat \<Rightarrow> byte lex" where
  "peekAt offset = do {
     p \<leftarrow> gets pos;
     h \<leftarrow> sourceHas (p + offset);
     if h then sourceByte (p + offset) else ret (CHR 0x00) }"

definition advance :: "byte lex" where
  "advance = do {
     p \<leftarrow> gets pos;
     h \<leftarrow> sourceHas p;
     if \<not> h then ret (CHR 0x00)
     else do {
       ch \<leftarrow> sourceByte p;
       modify (\<lambda>l. l\<lparr>pos := pos l + 1\<rparr>);
       modify (\<lambda>l. if ch = CHR 0x0A then l\<lparr>line := int64 (line l + 1), col := 1\<rparr>
                   else l\<lparr>col := col l + 1\<rparr>);
       ret ch } }"

primrec advanceN :: "nat \<Rightarrow> unit lex" where
  "advanceN 0 = ret ()"
| "advanceN (Suc n) = do { _ \<leftarrow> advance; advanceN n }"

definition advanceRune :: "rune lex" where
  "advanceRune = do {
     rn \<leftarrow> peekRune;
     (case rn of (r, n) \<Rightarrow> if n = 0 then ret 0 else do { advanceN n; ret r }) }"

definition matchByte :: "byte \<Rightarrow> bool lex" where
  "matchByte expected = do {
     ch \<leftarrow> peek; if ch = expected then do { _ \<leftarrow> advance; ret True } else ret False }"

text \<open>\<^verbatim>\<open>l.sourceHas(l.pos) && P(l.peek())\<close> and \<^verbatim>\<open>for l.sourceHas(l.pos) && P(l.peek()) { l.advance() }\<close>\<close>

definition peekIs :: "(byte \<Rightarrow> bool) \<Rightarrow> bool lex" where
  "peekIs P = do {
     p \<leftarrow> gets pos; h \<leftarrow> sourceHas p; if h then do { ch \<leftarrow> peek; ret (P ch) } else ret False }"

definition skipWhile :: "(byte \<Rightarrow> bool) \<Rightarrow> unit lex" where
  "skipWhile P = whileM (peekIs P) (do { _ \<leftarrow> advance; ret () })"

definition atEnd :: "bool lex" where
  "atEnd = do { p \<leftarrow> gets pos; h \<leftarrow> sourceHas p; ret (\<not> h) }"

definition skipLineComment :: "unit lex" where
  "skipLineComment = skipWhile (\<lambda>ch. ch \<noteq> CHR 0x0A)"

definition isBlockCommentStart :: "bool lex" where
  "isBlockCommentStart = do {
     a \<leftarrow> peek;
     if a \<noteq> CHR 0x22 then ret False
     else do {
       b \<leftarrow> peekAt 1;
       if b \<noteq> CHR 0x22 then ret False else do { c \<leftarrow> peekAt 2; ret (c = CHR 0x22) } } }"

definition skipBlockComment :: "unit lex" where
  "skipBlockComment = do {
     advanceN 3;
     loopM (\<lambda>_ l. remaining l)
       (\<lambda>_. do {
          e \<leftarrow> atEnd;
          if e then ret (False, ())
          else do {
            close \<leftarrow> isBlockCommentStart;
            if close then do { advanceN 3; ret (False, ()) }
            else do { _ \<leftarrow> advance; ret (True, ()) } } }) () }"

subsection \<open>Line directives and indentation\<close>

primrec matchBytes :: "nat \<Rightarrow> byte list \<Rightarrow> bool lex" where
  "matchBytes i [] = ret True"
| "matchBytes i (c # cs) = do {
     ch \<leftarrow> sourceByte i; if ch \<noteq> c then ret False else matchBytes (i + 1) cs }"

definition scanNumber :: "nat \<Rightarrow> (int \<times> nat) lex" where
  "scanNumber start =
     loopM (\<lambda>(num, j) l. length (src l) - j)
       (\<lambda>(num, j). do {
          h \<leftarrow> sourceHas j;
          if h then do {
            ch \<leftarrow> sourceByte j;
            if isDigit ch
            then ret (True, (int64 (int64 (num * 10) + int (byteVal ch - 48)), j + 1))
            else ret (False, (num, j)) }
          else ret (False, (num, j)) }) (0, start)"

definition trimRight :: "nat \<Rightarrow> nat \<Rightarrow> nat lex" where
  "trimRight fileStart =
     loopM (\<lambda>e l. e)
       (\<lambda>e. if e > fileStart then do {
               ch \<leftarrow> sourceByte (e - 1);
               ret (if isBlank ch \<or> ch = CHR 0x0D then (True, e - 1) else (False, e)) }
             else ret (False, e))"

definition tryConsumeLineDirective :: "bool lex" where
  "tryConsumeLineDirective = do {
     p \<leftarrow> gets pos;
     let i = p + 1;
     h \<leftarrow> sourceHas (i + 4 - 1);
     if \<not> h then ret False else do {
     kw \<leftarrow> matchBytes i ''line'';
     if \<not> kw then ret False else do {
     let j = i + 4;
     blank \<leftarrow> byteIs j isBlank;
     if \<not> blank then ret False else do {
     numStart \<leftarrow> scanWhile isBlank j;
     nj \<leftarrow> scanNumber numStart;
     (case nj of (num, j) \<Rightarrow>
     if j = numStart then ret False else do {
     fileStart \<leftarrow> scanWhile isBlank j;
     j \<leftarrow> scanWhile (\<lambda>ch. ch \<noteq> CHR 0x0A) fileStart;
     fileEnd \<leftarrow> trimRight fileStart j;
     if fileEnd = fileStart then ret False else do {
     file \<leftarrow> sourceSlice fileStart fileEnd;
     nl \<leftarrow> byteIs j (\<lambda>ch. ch = CHR 0x0A);
     modify (\<lambda>l. l\<lparr>pos := (if nl then j + 1 else j), line := num, lineEpoch := lineEpoch l + 1,
       col := 1, filename := file, atLineStart := True\<rparr>);
     ret True } }) } } } }"

definition measureIndent :: "nat lex" where
  "measureIndent =
     loopM (\<lambda>_ l. remaining l)
       (\<lambda>indent. do {
          e \<leftarrow> atEnd;
          if e then ret (False, indent)
          else do {
            ch \<leftarrow> peek;
            if ch = CHR '' '' then do { _ \<leftarrow> advance; ret (True, indent + 1) }
            else if ch = CHR 0x09 then do { _ \<leftarrow> advance; ret (True, indent + 4) }
            else ret (False, indent) } }) 0"

text \<open>\<^verbatim>\<open>if l.peek() is a newline\<close>: consume it and the blank lines after it.\<close>

definition skipNewlines :: "unit lex" where
  "skipNewlines = do {
     nl \<leftarrow> peekIs (\<lambda>ch. ch = CHR 0x0A);
     if nl then do { _ \<leftarrow> advance; skipWhile (\<lambda>ch. ch = CHR 0x0A) } else ret () }"

text \<open>The loop over blank and comment lines at a line start; the second component tells a
  \<^verbatim>\<open>return\<close> from a \<^verbatim>\<open>break\<close>.\<close>

definition skipCommentLines :: "nat \<Rightarrow> (nat \<times> bool) lex" where
  "skipCommentLines indent0 =
     loopM (\<lambda>_ l. remaining l)
       (\<lambda>(indent, stop). do {
          e \<leftarrow> atEnd;
          nl \<leftarrow> peekIs (\<lambda>ch. ch = CHR 0x0A);
          if e \<or> nl then do { modify (\<lambda>l. l\<lparr>atLineStart := False\<rparr>); ret (False, (indent, True)) }
          else do {
            ch \<leftarrow> peek;
            if ch = CHR ''#'' then do {
              directive \<leftarrow> (if indent = 0 then tryConsumeLineDirective else ret False);
              if directive then do { indent' \<leftarrow> measureIndent; ret (True, (indent', False)) }
              else do {
                skipLineComment;
                skipNewlines;
                indent' \<leftarrow> measureIndent;
                ret (True, (indent', False)) } }
            else do {
              block \<leftarrow> isBlockCommentStart;
              if block then do {
                skipBlockComment;
                skipWhile isBlank;
                e \<leftarrow> atEnd;
                nl \<leftarrow> peekIs (\<lambda>ch. ch = CHR 0x0A);
                if e \<or> nl then do {
                  skipNewlines;
                  indent' \<leftarrow> measureIndent;
                  ret (True, (indent', False)) }
                else ret (False, (indent, False)) }
              else ret (False, (indent, False)) } } }) (indent0, False)"

definition pushLayout :: "TokenKind \<Rightarrow> unit lex" where
  "pushLayout kind = do {
     p \<leftarrow> curPos;
     tok \<leftarrow> finishToken (mkToken kind [] p);
     modify (\<lambda>l. l\<lparr>pendingToks := pendingToks l @ [tok]\<rparr>) }"

definition pushIndent :: "nat \<Rightarrow> unit lex" where
  "pushIndent indent = do {
     modify (\<lambda>l. l\<lparr>indentStack := indentStack l @ [indent]\<rparr>); pushLayout TOKEN_INDENT }"

definition popIndents :: "nat \<Rightarrow> unit lex" where
  "popIndents indent =
     loopM (\<lambda>_ l. length (indentStack l))
       (\<lambda>_. do {
          stack \<leftarrow> gets indentStack;
          if length stack > 1 \<and> last stack > indent then do {
            modify (\<lambda>l. l\<lparr>indentStack := butlast (indentStack l)\<rparr>);
            pushLayout TOKEN_DEDENT;
            ret (True, ()) }
          else ret (False, ()) }) ()"

text \<open>The second half of \<^verbatim>\<open>handleIndentation\<close>: compare with the layout stack.\<close>

definition applyIndent :: "nat \<Rightarrow> unit lex" where
  "applyIndent indent = do {
     current \<leftarrow> currentIndent;
     if indent > current then pushIndent indent
     else if indent < current then do {
       popIndents indent;
       top \<leftarrow> currentIndent;
       if top < indent then pushIndent indent else ret () }
     else ret () }"

definition groupedIndent :: "Lexer \<Rightarrow> nat \<Rightarrow> nat" where
  "groupedIndent l indent =
     (if activeGroupedBlockContext l then
        let ctxt = last (groupedBlockContexts l) in
        if indent \<le> gb_HeaderIndent ctxt \<and> indent > gb_BaseIndent ctxt
        then gb_BaseIndent ctxt else indent
      else indent)"

definition handleIndentation :: "unit lex" where
  "handleIndentation = do {
     indent0 \<leftarrow> measureIndent;
     r \<leftarrow> skipCommentLines indent0;
     (case r of (indent, stop) \<Rightarrow>
       if stop then ret ()
       else do {
         modify (\<lambda>l. l\<lparr>atLineStart := False\<rparr>);
         indent' \<leftarrow> gets (\<lambda>l. groupedIndent l indent);
         applyIndent indent' }) }"

end
