(* ===== verification/LexerNext.thy ===== *)
theory LexerNext
  imports LexerModel
begin

text \<open>
  Literals, identifiers and \<^verbatim>\<open>NextToken\<close>: the second half of
  \<^verbatim>\<open>lexer_lexer_to_readident.go\<close> and \<^verbatim>\<open>lexer_nexttoken_to_hexdigitvalue.go\<close>. The tail calls
  of \<^verbatim>\<open>NextToken\<close> to itself (after a comment, a suppressed newline or a continued line) are
  rounds of one loop. The Unicode tables are the argument \<open>u\<close>.
\<close>

subsection \<open>String and character literals\<close>

primrec readHexLoop :: "nat \<Rightarrow> nat \<Rightarrow> (nat \<times> bool) lex" where
  "readHexLoop 0 value = ret (value, True)"
| "readHexLoop (Suc n) value = do {
     h \<leftarrow> peekIs isHexDigit;
     if \<not> h then ret (0, False)
     else do { ch \<leftarrow> advance; readHexLoop n (value * 16 + hexDigitValue ch) } }"

definition readFixedHexDigits :: "nat \<Rightarrow> (nat \<times> bool) lex" where
  "readFixedHexDigits count = readHexLoop count 0"

text \<open>The \<^verbatim>\<open>u\<close> escape after its letter; \<open>lit\<close> names the kind of literal in the message. The
  answer is what is decoded so far and whether the escape was valid.\<close>

definition readUnicodeEscape :: "string \<Rightarrow> Pos \<Rightarrow> byte list \<Rightarrow> (byte list \<times> bool) lex" where
  "readUnicodeEscape lit escapePos decoded = do {
     vo \<leftarrow> readFixedHexDigits 4;
     (case vo of (value, valid) \<Rightarrow>
       if \<not> valid then do {
         reportSince escapePos (''invalid unicode escape in '' @ lit); ret (decoded, False) }
       else if 0xD800 \<le> value \<and> value \<le> 0xDBFF then do {
         pairPos \<leftarrow> curPos;
         a \<leftarrow> peek;
         b \<leftarrow> (if a \<noteq> CHR 0x5C then ret False else do { c \<leftarrow> peekAt 1; ret (c = CHR ''u'') });
         if \<not> b then do {
           reportSince escapePos (''invalid unicode surrogate pair in '' @ lit);
           ret (decoded, False) }
         else do {
           _ \<leftarrow> advance;
           _ \<leftarrow> advance;
           lo \<leftarrow> readFixedHexDigits 4;
           (case lo of (lowValue, lowValid) \<Rightarrow>
             if \<not> lowValid \<or> lowValue < 0xDC00 \<or> lowValue > 0xDFFF then do {
               reportSince pairPos (''invalid unicode surrogate pair in '' @ lit);
               ret (decoded, False) }
             else ret (decoded @ encodeRune (utf16DecodeRune value lowValue), True)) } }
       else if 0xDC00 \<le> value \<and> value \<le> 0xDFFF then do {
         reportSince escapePos (''invalid unicode surrogate pair in '' @ lit);
         ret (decoded, False) }
       else ret (decoded @ encodeRune value, True)) }"

text \<open>One escape after its backslash, except the newline, which ends the literal.\<close>

definition readEscape :: "bool \<Rightarrow> string \<Rightarrow> Pos \<Rightarrow> byte \<Rightarrow> byte list \<Rightarrow> (byte list \<times> bool) lex" where
  "readEscape isChar lit escapePos esc decoded =
     (let plain = (\<lambda>b. do { _ \<leftarrow> advance; ret (decoded @ [b], True) }) in
      if esc = CHR 0x5C then plain (CHR 0x5C)
      else if isChar \<and> esc = CHR 0x27 then plain (CHR 0x27)
      else if esc = CHR 0x22 then plain (CHR 0x22)
      else if esc = CHR ''n'' then plain (CHR 0x0A)
      else if esc = CHR ''r'' then plain (CHR 0x0D)
      else if esc = CHR ''t'' then plain (CHR 0x09)
      else if esc = CHR ''0'' then plain (CHR 0x00)
      else if esc = CHR ''x'' then do {
        _ \<leftarrow> advance;
        vo \<leftarrow> readFixedHexDigits 2;
        (case vo of (value, valid) \<Rightarrow>
          if \<not> valid then do {
            reportSince escapePos (''invalid hex escape in '' @ lit); ret (decoded, False) }
          else ret (decoded @ [char_of value], True)) }
      else if esc = CHR ''u'' then do { _ \<leftarrow> advance; readUnicodeEscape lit escapePos decoded }
      else do {
        reportSince escapePos
          (''invalid escape sequence '' @ [CHR 0x5C, CHR 0x5C] @ encodeRune (byteVal esc) @ '' in '' @ lit);
        _ \<leftarrow> advance;
        ret (decoded, False) })"

definition readString :: "Token lex" where
  "readString = do {
     p \<leftarrow> curPos;
     _ \<leftarrow> advance;
     r \<leftarrow> loopM (\<lambda>_ l. remaining l)
       (\<lambda>(decoded, tok). do {
          e \<leftarrow> atEnd;
          if e then ret (False, (decoded, None))
          else do {
          ch \<leftarrow> peek;
          if ch = CHR 0x22 then do {
            _ \<leftarrow> advance;
            tok \<leftarrow> finishToken (mkToken TOKEN_STRING_LIT decoded p);
            ret (False, (decoded, Some tok)) }
          else if ch = CHR 0x0A then do {
            reportSince p ''unterminated string literal'';
            tok \<leftarrow> finishToken (mkToken TOKEN_STRING_LIT decoded p);
            ret (False, (decoded, Some tok)) }
          else if ch \<noteq> CHR 0x5C then do { _ \<leftarrow> advance; ret (True, (decoded @ [ch], None)) }
          else do {
            escapePos \<leftarrow> curPos;
            _ \<leftarrow> advance;
            e \<leftarrow> atEnd;
            if e then do {
              reportSince escapePos ''unterminated escape sequence in string literal'';
              tok \<leftarrow> finishToken (mkToken TOKEN_STRING_LIT decoded p);
              ret (False, (decoded, Some tok)) }
            else do {
              esc \<leftarrow> peek;
              if esc = CHR 0x0A then do {
                reportSince p ''unterminated string literal'';
                tok \<leftarrow> finishToken (mkToken TOKEN_STRING_LIT decoded p);
                ret (False, (decoded, Some tok)) }
              else do {
                dv \<leftarrow> readEscape False ''string literal'' escapePos esc decoded;
                ret (True, (fst dv, None)) } } } } }) ([], None);
     (case r of
        (_, Some tok) \<Rightarrow> ret tok
      | (decoded, None) \<Rightarrow> do {
          reportSince p ''unterminated string literal'';
          finishToken (mkToken TOKEN_STRING_LIT decoded p) }) }"

definition readChar :: "Token lex" where
  "readChar = do {
     p \<leftarrow> curPos;
     _ \<leftarrow> advance;
     r \<leftarrow> loopM (\<lambda>_ l. remaining l)
       (\<lambda>(decoded, invalid, tok). do {
          e \<leftarrow> atEnd;
          if e then ret (False, (decoded, invalid, None))
          else do {
          ch \<leftarrow> peek;
          if ch = CHR 0x27 then do {
            _ \<leftarrow> advance;
            (if invalid then ret ()
             else if decoded = [] then reportSince p ''empty char literal''
             else if length decoded = 1 then ret ()
             else reportSince p ''char literal must decode to exactly one code unit'');
            tok \<leftarrow> finishToken (mkToken TOKEN_CHAR_LIT decoded p);
            ret (False, (decoded, invalid, Some tok)) }
          else if ch = CHR 0x0A then do {
            reportSince p ''unterminated char literal'';
            tok \<leftarrow> finishToken (mkToken TOKEN_CHAR_LIT decoded p);
            ret (False, (decoded, invalid, Some tok)) }
          else if ch \<noteq> CHR 0x5C then do { _ \<leftarrow> advance; ret (True, (decoded @ [ch], invalid, None)) }
          else do {
            escapePos \<leftarrow> curPos;
            _ \<leftarrow> advance;
            e \<leftarrow> atEnd;
            if e then do {
              reportSince escapePos ''unterminated escape sequence in char literal'';
              tok \<leftarrow> finishToken (mkToken TOKEN_CHAR_LIT decoded p);
              ret (False, (decoded, invalid, Some tok)) }
            else do {
              esc \<leftarrow> peek;
              if esc = CHR 0x0A then do {
                reportSince p ''unterminated char literal'';
                tok \<leftarrow> finishToken (mkToken TOKEN_CHAR_LIT decoded p);
                ret (False, (decoded, invalid, Some tok)) }
              else do {
                dv \<leftarrow> readEscape True ''char literal'' escapePos esc decoded;
                ret (True, (fst dv, invalid \<or> \<not> snd dv, None)) } } } } }) ([], False, None);
     (case r of
        (_, _, Some tok) \<Rightarrow> ret tok
      | (decoded, _, None) \<Rightarrow> do {
          reportSince p ''unterminated char literal'';
          finishToken (mkToken TOKEN_CHAR_LIT decoded p) }) }"

subsection \<open>Numbers\<close>

definition hasFloatSuffixAt :: "nat \<Rightarrow> bool lex" where
  "hasFloatSuffixAt offset = do {
     a \<leftarrow> peekAt offset;
     if a \<noteq> CHR ''f'' then ret False
     else do {
       b \<leftarrow> peekAt (offset + 1);
       if b \<noteq> CHR ''3'' then
         (if b \<noteq> CHR ''6'' then ret False
          else do {
            c \<leftarrow> peekAt (offset + 2);
            if c \<noteq> CHR ''4'' then ret False
            else do { d \<leftarrow> peekAt (offset + 3); ret (\<not> isIdentChar d) } })
       else do {
         c \<leftarrow> peekAt (offset + 2);
         if c \<noteq> CHR ''2'' then ret False
         else do { d \<leftarrow> peekAt (offset + 3); ret (\<not> isIdentChar d) } } } }"

definition shouldReadFloatFraction :: "bool lex" where
  "shouldReadFloatFraction = do {
     a \<leftarrow> peek;
     if a \<noteq> CHR ''.'' then ret False
     else do {
     next \<leftarrow> peekAt 1;
     if next = CHR ''.'' then ret False
     else if isDigit next \<or> next = CHR 0x00 then ret True
     else if next = CHR ''e'' \<or> next = CHR ''E'' then do {
       sign \<leftarrow> peekAt 2;
       d \<leftarrow> peekAt (if sign = CHR ''+'' \<or> sign = CHR ''-'' then 3 else 2);
       ret (isDigit d) }
     else do {
       fs \<leftarrow> hasFloatSuffixAt 1;
       if fs then ret True else ret (\<not> isIdentChar next) } } }"

definition suffixTable :: "(string \<times> NumericSuffix) list" where
  "suffixTable =
    [(''u8'', NumericSuffixU8), (''u16'', NumericSuffixU16), (''u32'', NumericSuffixU32),
     (''u64'', NumericSuffixU64), (''u'', NumericSuffixU), (''i8'', NumericSuffixI8),
     (''i16'', NumericSuffixI16), (''i32'', NumericSuffixI32), (''i64'', NumericSuffixI64),
     (''usize'', NumericSuffixUSize), (''isize'', NumericSuffixISize), (''f32'', NumericSuffixF32),
     (''f64'', NumericSuffixF64)]"

definition readTypeSuffix :: "NumericSuffix lex" where
  "readTypeSuffix = do {
     e \<leftarrow> atEnd;
     if e then ret NumericSuffixNone
     else do {
     ch \<leftarrow> peek;
     if ch \<noteq> CHR ''u'' \<and> ch \<noteq> CHR ''i'' \<and> ch \<noteq> CHR ''f'' then ret NumericSuffixNone
     else do {
     start \<leftarrow> gets pos;
     _ \<leftarrow> advance;
     skipWhile (\<lambda>ch. isDigit ch \<or> isAlpha ch);
     stop \<leftarrow> gets pos;
     suffix \<leftarrow> sourceSlice start stop;
     (case map_of suffixTable suffix of
        Some code \<Rightarrow> ret code
      | None \<Rightarrow> do {
          modify (\<lambda>l. l\<lparr>pos := start, col := col l - int (length suffix)\<rparr>);
          ret NumericSuffixNone }) } } }"

definition skipHexDigits :: "nat \<Rightarrow> unit lex" where
  "skipHexDigits start =
     loopM (\<lambda>_ l. remaining l)
       (\<lambda>_. do {
          e \<leftarrow> atEnd;
          if e then ret (False, ())
          else do {
            ch \<leftarrow> peek;
            if isHexDigit ch then do { _ \<leftarrow> advance; ret (True, ()) }
            else do {
              p \<leftarrow> gets pos;
              separator \<leftarrow>
                (if ch = CHR ''_'' \<and> p > start + 2 then do {
                   before \<leftarrow> sourceByte (p - 1);
                   if isHexDigit before then do { after \<leftarrow> peekAt 1; ret (isHexDigit after) }
                   else ret False }
                 else ret False);
              if separator then do { _ \<leftarrow> advance; ret (True, ()) } else ret (False, ()) } } }) ()"

definition readExponent :: "bool lex" where
  "readExponent = do {
     a \<leftarrow> peek;
     if a = CHR ''e'' \<or> a = CHR ''E'' then do {
       sign \<leftarrow> peekAt 1;
       d \<leftarrow> peekAt (if sign = CHR ''+'' \<or> sign = CHR ''-'' then 2 else 1);
       if isDigit d then do {
         _ \<leftarrow> advance;
         s \<leftarrow> peek;
         (if s = CHR ''+'' \<or> s = CHR ''-'' then do { _ \<leftarrow> advance; ret () } else ret ());
         skipWhile isDigit;
         ret True }
       else ret False }
     else ret False }"

definition readNumber :: "Token lex" where
  "readNumber = do {
     p \<leftarrow> curPos;
     start \<leftarrow> gets pos;
     zero \<leftarrow> peek;
     hex \<leftarrow> (if zero = CHR ''0'' then byteIs (start + 1) (\<lambda>ch. ch = CHR ''x'' \<or> ch = CHR ''X'')
             else ret False);
     if hex then do {
       advanceN 2;
       skipHexDigits start;
       stop \<leftarrow> gets pos;
       text \<leftarrow> sourceSlice start stop;
       suffix \<leftarrow> readTypeSuffix;
       finishToken ((viewToken TOKEN_HEX_LIT text start p)\<lparr>tok_Suffix := suffix\<rparr>) }
     else do {
       skipWhile isDigit;
       fraction \<leftarrow> shouldReadFloatFraction;
       (if fraction then do { _ \<leftarrow> advance; skipWhile isDigit } else ret ());
       exponent \<leftarrow> readExponent;
       stop \<leftarrow> gets pos;
       text \<leftarrow> sourceSlice start stop;
       suffix \<leftarrow> readTypeSuffix;
       let isFloat = (fraction \<or> exponent \<or> suffix = NumericSuffixF32 \<or> suffix = NumericSuffixF64);
       finishToken ((viewToken (if isFloat then TOKEN_FLOAT_LIT else TOKEN_INT_LIT) text start p)
         \<lparr>tok_Suffix := suffix\<rparr>) } }"

subsection \<open>Identifiers and interpolated strings\<close>

definition scanIdentRunes :: "UnicodeTables \<Rightarrow> nat \<Rightarrow> nat lex" where
  "scanIdentRunes u =
     loopM (\<lambda>index l. length (src l) - index)
       (\<lambda>index. do {
          h \<leftarrow> sourceHas index;
          if \<not> h then ret (False, index)
          else do {
            bytes \<leftarrow> runeBytes index;
            (case decodeRune bytes of (r, n) \<Rightarrow>
              if isIdentCharRune u r then ret (True, index + n) else ret (False, index)) } })"

definition skipBlanksAndComments :: "nat \<Rightarrow> nat lex" where
  "skipBlanksAndComments =
     loopM (\<lambda>index l. length (src l) - index)
       (\<lambda>index. do {
          h \<leftarrow> sourceHas index;
          if \<not> h then ret (False, index)
          else do {
            ch \<leftarrow> sourceByte index;
            if ch = CHR '' '' \<or> ch = CHR 0x09 \<or> ch = CHR 0x0D \<or> ch = CHR 0x0A
            then ret (True, index + 1)
            else if ch = CHR ''#'' then do {
              index' \<leftarrow> scanWhile (\<lambda>ch. ch \<noteq> CHR 0x0A) index;
              ret (True, index') }
            else ret (False, index) } })"

definition patternScrutineeFollows :: "UnicodeTables \<Rightarrow> bool lex" where
  "patternScrutineeFollows u = do {
     p \<leftarrow> gets pos;
     index \<leftarrow> skipBlanksAndComments p;
     h \<leftarrow> sourceHas index;
     if \<not> h then ret False
     else do {
     ch \<leftarrow> sourceByte index;
     dotDigit \<leftarrow> (if ch = CHR ''.'' then byteIs (index + 1) isDigit else ret False);
     if ch = CHR ''-'' \<or> ch = CHR 0x27 \<or> ch = CHR 0x22 \<or> isDigit ch \<or> dotDigit then ret True
     else do {
     bytes \<leftarrow> runeBytes index;
     (case decodeRune bytes of (r, n) \<Rightarrow>
       if \<not> isIdentStartRune u r then ret False
       else do {
         stop \<leftarrow> scanIdentRunes u (index + n);
         text \<leftarrow> sourceSlice index stop;
         let kind = LookupKeyword text;
         ret (kind = TOKEN_IDENT \<or> kind = TOKEN_TRUE \<or> kind = TOKEN_FALSE) }) } } }"

definition skipIdentRunes :: "UnicodeTables \<Rightarrow> unit lex" where
  "skipIdentRunes u =
     loopM (\<lambda>_ l. remaining l)
       (\<lambda>_. do {
          e \<leftarrow> atEnd;
          if e then ret (False, ())
          else do {
            rn \<leftarrow> peekRune;
            if \<not> isIdentCharRune u (fst rn) then ret (False, ())
            else do { _ \<leftarrow> advanceRune; ret (True, ()) } } }) ()"

definition readIdent :: "UnicodeTables \<Rightarrow> Token lex" where
  "readIdent u = do {
     p \<leftarrow> curPos;
     start \<leftarrow> gets pos;
     skipIdentRunes u;
     stop \<leftarrow> gets pos;
     text \<leftarrow> sourceSlice start stop;
     let kind = LookupKeyword text;
     modify (\<lambda>l. l\<lparr>pendingGroupedBlock :=
       (kind = TOKEN_IDENT \<and> isImmediateGroupedBlockIntroducer text)\<rparr>);
     depth \<leftarrow> gets parenDepth;
     header \<leftarrow> (if depth > 0 then
                  (if kind = TOKEN_MATCH then ret True
                   else if kind = TOKEN_IDENT \<and> text = ''when'' then patternScrutineeFollows u
                   else ret False)
                else ret False);
     (if header
      then modify (\<lambda>l. l\<lparr>pendingPatternBlocks :=
        pendingPatternBlocks l @ [\<lparr>ph_ParenDepth = parenDepth l, ph_HeadStart = pos l\<rparr>]\<rparr>)
      else ret ());
     finishToken (viewToken kind text start p) }"

text \<open>The inner loop of \<^verbatim>\<open>readFString\<close> over a string literal embedded in an expression.\<close>

definition skipEmbeddedString :: "unit lex" where
  "skipEmbeddedString =
     whileM (peekIs (\<lambda>ch. ch \<noteq> CHR 0x22 \<and> ch \<noteq> CHR 0x0A))
       (do { ch \<leftarrow> peek;
             (if ch = CHR 0x5C then do { _ \<leftarrow> advance; ret () } else ret ());
             _ \<leftarrow> advance;
             ret () })"

definition readFString :: "Token lex" where
  "readFString = do {
     p \<leftarrow> curPos;
     advanceN 2;
     start \<leftarrow> gets pos;
     r \<leftarrow> loopM (\<lambda>_ l. remaining l)
       (\<lambda>(braceDepth, tok). do {
          e \<leftarrow> atEnd;
          if e then ret (False, (braceDepth, None))
          else do {
          ch \<leftarrow> peek;
          if ch = CHR 0x0A then ret (False, (braceDepth, None))
          else if braceDepth = (0 :: nat) then
            (if ch = CHR 0x22 then do {
               stop \<leftarrow> gets pos;
               raw \<leftarrow> sourceSlice start stop;
               _ \<leftarrow> advance;
               tok \<leftarrow> finishToken (viewToken TOKEN_FSTRING_LIT raw start p);
               ret (False, (braceDepth, Some tok)) }
             else if ch = CHR 0x5C then do {
               _ \<leftarrow> advance;
               more \<leftarrow> peekIs (\<lambda>ch. ch \<noteq> CHR 0x0A);
               (if more then do { _ \<leftarrow> advance; ret () } else ret ());
               ret (True, (braceDepth, None)) }
             else if ch = CHR ''{'' then do {
               n \<leftarrow> peekAt 1;
               if n = CHR ''{'' then do { advanceN 2; ret (True, (braceDepth, None)) }
               else do { _ \<leftarrow> advance; ret (True, (braceDepth + 1, None)) } }
             else if ch = CHR ''}'' then do {
               n \<leftarrow> peekAt 1;
               if n = CHR ''}'' then do { advanceN 2; ret (True, (braceDepth, None)) }
               else do { _ \<leftarrow> advance; ret (True, (braceDepth, None)) } }
             else do { _ \<leftarrow> advance; ret (True, (braceDepth, None)) })
          else if ch = CHR ''{'' then do { _ \<leftarrow> advance; ret (True, (braceDepth + 1, None)) }
          else if ch = CHR ''}'' then do { _ \<leftarrow> advance; ret (True, (braceDepth - 1, None)) }
          else if ch = CHR 0x22 then do {
            _ \<leftarrow> advance; skipEmbeddedString; _ \<leftarrow> advance; ret (True, (braceDepth, None)) }
          else do { _ \<leftarrow> advance; ret (True, (braceDepth, None)) } } }) (0, None);
     (case r of
        (_, Some tok) \<Rightarrow> ret tok
      | (_, None) \<Rightarrow> do {
          reportSince p ''unterminated f-string literal'';
          stop \<leftarrow> gets pos;
          raw \<leftarrow> sourceSlice start stop;
          finishToken (viewToken TOKEN_FSTRING_LIT raw start p) }) }"

definition currentLineIndent :: "nat lex" where
  "currentLineIndent = do {
     p \<leftarrow> gets pos;
     start \<leftarrow> loopM (\<lambda>s l. s)
       (\<lambda>s. if s > 0 then do {
               ch \<leftarrow> sourceByte (s - 1); ret (if ch \<noteq> CHR 0x0A then (True, s - 1) else (False, s)) }
             else ret (False, s)) p;
     r \<leftarrow> loopM (\<lambda>(s, indent) l. length (src l) - s)
       (\<lambda>(s, indent). do {
          h \<leftarrow> sourceHas s;
          if \<not> h then ret (False, (s, indent))
          else do {
            ch \<leftarrow> sourceByte s;
            if ch = CHR '' '' then ret (True, (s + 1, indent + 1))
            else if ch = CHR 0x09 then ret (True, (s + 1, indent + 4))
            else ret (False, (s, indent)) } }) (start, 0);
     ret (snd r) }"

subsection \<open>NextToken\<close>

definition operatorFollows :: "nat \<Rightarrow> string \<Rightarrow> bool lex" where
  "operatorFollows i op = do {
     h \<leftarrow> sourceHas (i + length op);
     if \<not> h then ret False
     else do {
       text \<leftarrow> sourceSlice i (i + length op);
       if text \<noteq> op then ret False
       else do { ch \<leftarrow> sourceByte (i + length op); ret (isBlank ch) } } }"

primrec anyOperatorFollows :: "string list \<Rightarrow> nat \<Rightarrow> bool lex" where
  "anyOperatorFollows [] i = ret False"
| "anyOperatorFollows (op # ops) i = do {
     t \<leftarrow> operatorFollows i op; if t then ret True else anyOperatorFollows ops i }"

definition measureBlanks :: "nat \<Rightarrow> (nat \<times> nat) lex" where
  "measureBlanks start =
     loopM (\<lambda>(i, indent) l. length (src l) - i)
       (\<lambda>(i, indent). do {
          h \<leftarrow> sourceHas i;
          if \<not> h then ret (False, (i, indent))
          else do {
            ch \<leftarrow> sourceByte i;
            if ch = CHR 0x09 then ret (True, (i + 1, indent + 4))
            else if ch = CHR '' '' then ret (True, (i + 1, indent + 1))
            else ret (False, (i, indent)) } }) (start, 0)"

definition booleanContinuation :: "bool lex" where
  "booleanContinuation = do {
     p \<leftarrow> gets pos;
     r \<leftarrow> measureBlanks p;
     (case r of (i, indent) \<Rightarrow>
       if indent = 0 then ret False
       else do {
         current \<leftarrow> currentIndent;
         if indent < current then ret False
         else anyOperatorFollows
           [''and'', ''or'', ''=='', ''!='', ''<='', ''>='', ''<'', ''>''] i }) }"

definition emit :: "TokenKind \<Rightarrow> string \<Rightarrow> Pos \<Rightarrow> Token lex" where
  "emit kind text p = finishToken (mkToken kind text p)"

text \<open>\<^verbatim>\<open>if l.match(c) { return ... }\<close>, else go on.\<close>

definition orElse :: "byte \<Rightarrow> Token lex \<Rightarrow> Token lex \<Rightarrow> Token lex" where
  "orElse c yes no = do { m \<leftarrow> matchByte c; if m then yes else no }"

definition openGroup :: "TokenKind \<Rightarrow> string \<Rightarrow> Pos \<Rightarrow> Token lex" where
  "openGroup kind text p = do {
     _ \<leftarrow> advance;
     modify (\<lambda>l. l\<lparr>parenDepth := parenDepth l + 1, pendingGroupedBlock := False\<rparr>);
     emit kind text p }"

definition closeGroup :: "TokenKind \<Rightarrow> string \<Rightarrow> Pos \<Rightarrow> Token lex" where
  "closeGroup kind text p = do {
     _ \<leftarrow> advance;
     modify (\<lambda>l. l\<lparr>parenDepth := (if parenDepth l > 0 then parenDepth l - 1 else parenDepth l),
       pendingGroupedBlock := False\<rparr>);
     emit kind text p }"

definition hasScrutinee :: "nat \<Rightarrow> bool lex" where
  "hasScrutinee headStart = do {
     p \<leftarrow> gets pos;
     r \<leftarrow> loopM (\<lambda>(index, found) l. p - index)
       (\<lambda>(index, found). if index < p - 1 then do {
            ch \<leftarrow> sourceByte index;
            ret (True, (index + 1,
              found \<or> \<not> (ch = CHR '' '' \<or> ch = CHR 0x09 \<or> ch = CHR 0x0D \<or> ch = CHR 0x0A))) }
          else ret (False, (index, found))) (headStart, False);
     ret (snd r) }"

definition readColon :: "Pos \<Rightarrow> Token lex" where
  "readColon p = do {
     _ \<leftarrow> advance;
     m \<leftarrow> matchByte (CHR '':'');
     if m then do {
       modify (\<lambda>l. l\<lparr>pendingGroupedBlock := False\<rparr>); emit TOKEN_SCOPE ''::'' p }
     else do {
       blocks \<leftarrow> gets pendingPatternBlocks;
       depth \<leftarrow> gets parenDepth;
       patternBlock \<leftarrow>
         (if blocks \<noteq> [] \<and> ph_ParenDepth (last blocks) = depth then do {
            modify (\<lambda>l. l\<lparr>pendingPatternBlocks := butlast (pendingPatternBlocks l)\<rparr>);
            hasScrutinee (ph_HeadStart (last blocks)) }
          else ret False);
       grouped \<leftarrow> gets pendingGroupedBlock;
       (if (grouped \<or> patternBlock) \<and> depth > 0 then do {
          base \<leftarrow> currentIndent;
          header \<leftarrow> currentLineIndent;
          modify (\<lambda>l. l\<lparr>groupedBlockContexts := groupedBlockContexts l @
            [\<lparr>gb_ParenDepth = parenDepth l, gb_BaseIndent = base, gb_HeaderIndent = header\<rparr>]\<rparr>) }
        else ret ());
       modify (\<lambda>l. l\<lparr>pendingGroupedBlock := False\<rparr>);
       emit TOKEN_COLON '':'' p } }"

definition readDots :: "Pos \<Rightarrow> Token lex" where
  "readDots p = do {
     _ \<leftarrow> advance;
     a \<leftarrow> peek;
     if a = CHR ''.'' then do {
       b \<leftarrow> peekAt 1;
       if b = CHR ''.'' then do { advanceN 2; emit TOKEN_ELLIPSIS ''...'' p }
       else do {
         _ \<leftarrow> advance;
         orElse (CHR ''<'') (emit TOKEN_RANGE_LT ''..<'' p)
         (orElse (CHR ''>'') (emit TOKEN_RANGE_GT ''..>'' p)
         (orElse (CHR ''='') (emit TOKEN_RANGE_LE ''..='' p)
         (emit TOKEN_RANGE ''..'' p))) } }
     else emit TOKEN_DOT ''.'' p }"

text \<open>\<^verbatim>\<open>case c: l.advance(); if l.match('=') ...\<close> of the arithmetic operators.\<close>

definition opOrAssign :: "TokenKind \<Rightarrow> string \<Rightarrow> TokenKind \<Rightarrow> string \<Rightarrow> Pos \<Rightarrow> Token lex" where
  "opOrAssign kindEq textEq kind text p = do {
     _ \<leftarrow> advance; orElse (CHR ''='') (emit kindEq textEq p) (emit kind text p) }"

definition readOperator :: "byte \<Rightarrow> Token lex" where
  "readOperator ch = do {
     p \<leftarrow> curPos;
     if ch = CHR ''<'' then do {
       _ \<leftarrow> advance;
       orElse (CHR ''-'') (emit TOKEN_LARROW ''<-'' p)
       (orElse (CHR ''<'')
         (orElse (CHR ''='') (emit TOKEN_LSHIFTEQ ''<<='' p) (emit TOKEN_LSHIFT ''<<'' p))
       (orElse (CHR ''='') (emit TOKEN_LTEQ ''<='' p) (emit TOKEN_LT ''<'' p))) }
     else if ch = CHR ''>'' then do {
       _ \<leftarrow> advance;
       orElse (CHR ''>'')
         (orElse (CHR ''='') (emit TOKEN_RSHIFTEQ ''>>='' p) (emit TOKEN_RSHIFT ''>>'' p))
       (orElse (CHR ''='') (emit TOKEN_GTEQ ''>='' p) (emit TOKEN_GT ''>'' p)) }
     else if ch = CHR ''='' then do {
       _ \<leftarrow> advance;
       orElse (CHR ''>'') (emit TOKEN_FATARROW ''=>'' p)
       (orElse (CHR ''='') (emit TOKEN_EQEQ ''=='' p) (emit TOKEN_ASSIGN ''='' p)) }
     else if ch = CHR ''!'' then opOrAssign TOKEN_BANGEQ ''!='' TOKEN_BANG ''!'' p
     else if ch = CHR ''+'' then opOrAssign TOKEN_PLUSEQ ''+='' TOKEN_PLUS ''+'' p
     else if ch = CHR ''-'' then do {
       _ \<leftarrow> advance;
       orElse (CHR ''>'') (emit TOKEN_ARROW ''->'' p)
       (orElse (CHR ''='') (emit TOKEN_MINUSEQ ''-='' p) (emit TOKEN_MINUS ''-'' p)) }
     else if ch = CHR ''*'' then opOrAssign TOKEN_STAREQ ''*='' TOKEN_STAR ''*'' p
     else if ch = CHR ''/'' then opOrAssign TOKEN_SLASHEQ ''/='' TOKEN_SLASH ''/'' p
     else if ch = CHR ''%'' then opOrAssign TOKEN_PERCENTEQ ''%='' TOKEN_PERCENT ''%'' p
     else if ch = CHR ''^'' then opOrAssign TOKEN_CARETEQ ''^='' TOKEN_CARET ''^'' p
     else if ch = CHR ''|'' then do {
       _ \<leftarrow> advance;
       orElse (CHR ''>'') (emit TOKEN_PIPEGT ''|>'' p)
       (orElse (CHR ''='') (emit TOKEN_PIPEEQ ''|='' p) (emit TOKEN_PIPE ''|'' p)) }
     else if ch = CHR ''&'' then opOrAssign TOKEN_AMPEQ ''&='' TOKEN_AMPERSAND ''&'' p
     else if ch = CHR ''.'' then readDots p
     else if ch = CHR '':'' then readColon p
     else if ch = CHR '','' then do { _ \<leftarrow> advance; emit TOKEN_COMMA '','' p }
     else if ch = CHR '';'' then do { _ \<leftarrow> advance; emit TOKEN_SEMICOLON '';'' p }
     else if ch = CHR ''('' then openGroup TOKEN_LPAREN ''('' p
     else if ch = CHR '')'' then closeGroup TOKEN_RPAREN '')'' p
     else if ch = CHR ''['' then openGroup TOKEN_LBRACKET ''['' p
     else if ch = CHR '']'' then closeGroup TOKEN_RBRACKET '']'' p
     else if ch = CHR ''{'' then openGroup TOKEN_LBRACE ''{'' p
     else if ch = CHR ''}'' then closeGroup TOKEN_RBRACE ''}'' p
     else if ch = CHR ''?'' then opOrAssign TOKEN_QASSIGN ''?='' TOKEN_QUESTION ''?'' p
     else if ch = CHR ''~'' then do { _ \<leftarrow> advance; emit TOKEN_TILDE ''~'' p }
     else if ch = CHR ''@'' then do { _ \<leftarrow> advance; emit TOKEN_AT ''@'' p }
     else do { _ \<leftarrow> advance; emit TOKEN_IDENT (encodeRune (byteVal ch)) p } }"

definition trimPatternBlocks :: "Lexer \<Rightarrow> Lexer" where
  "trimPatternBlocks l =
     l\<lparr>pendingPatternBlocks :=
        rev (dropWhile (\<lambda>h. ph_ParenDepth h > parenDepth l) (rev (pendingPatternBlocks l)))\<rparr>"

definition consumeLineDirectives :: "unit lex" where
  "consumeLineDirectives =
     whileM (do { at \<leftarrow> gets atLineStart;
                  p \<leftarrow> gets pos;
                  hash \<leftarrow> (if at then byteIs p (\<lambda>ch. ch = CHR ''#'') else ret False);
                  if hash then tryConsumeLineDirective else ret False })
       (ret ())"

text \<open>One round of \<^verbatim>\<open>NextToken\<close>: a token, or \<open>None\<close> where the source calls itself.\<close>

definition takePending :: "Token lex" where
  "takePending = do {
     toks \<leftarrow> gets pendingToks;
     modify (\<lambda>l. l\<lparr>pendingToks := tl (pendingToks l)\<rparr>);
     ret (hd toks) }"

definition readNewline :: "Token option lex" where
  "readNewline = do {
     p \<leftarrow> curPos;
     _ \<leftarrow> advance;
     modify (\<lambda>l. l\<lparr>atLineStart := True\<rparr>);
     bc \<leftarrow> booleanContinuation;
     kind \<leftarrow> gets lastTokenKind;
     if bc \<or> kind = TOKEN_AND \<or> kind = TOKEN_OR then do {
       skipWhile isBlank;
       modify (\<lambda>l. l\<lparr>atLineStart := False\<rparr>);
       ret None }
     else do {
       skipWhile (\<lambda>ch. ch = CHR 0x0A);
       suppressed \<leftarrow> gets (\<lambda>l. parenDepth l > 0 \<and> \<not> activeGroupedBlockContext l);
       if suppressed then ret None
       else do { tok \<leftarrow> finishToken (mkToken TOKEN_NEWLINE [] p); ret (Some tok) } } }"

definition some :: "Token lex \<Rightarrow> Token option lex" where
  "some m = do { tok \<leftarrow> m; ret (Some tok) }"

definition readToken :: "UnicodeTables \<Rightarrow> byte \<Rightarrow> Token option lex" where
  "readToken u ch =
     (if ch = CHR 0x0A then readNewline
      else if ch = CHR ''#'' then do { skipLineComment; ret None }
      else do {
        block \<leftarrow> isBlockCommentStart;
        if block then do { skipBlockComment; ret None }
        else do {
          quote \<leftarrow> (if ch = CHR ''f'' then do { c \<leftarrow> peekAt 1; ret (c = CHR 0x22) } else ret False);
          if quote then some readFString
          else if ch = CHR 0x22 then some readString
          else if ch = CHR 0x27 then some readChar
          else do {
            number \<leftarrow> (if isDigit ch then ret True
                        else if ch = CHR ''.'' then do { d \<leftarrow> peekAt 1; ret (isDigit d) }
                        else ret False);
            if number then some readNumber
            else do {
              rn \<leftarrow> peekRune;
              if isIdentStartRune u (fst rn) then some (readIdent u)
              else some (readOperator ch) } } } })"

text \<open>Spaces, the end of the source, or one token of the line.\<close>

definition readRest :: "UnicodeTables \<Rightarrow> Token option lex" where
  "readRest u = do {
     skipWhile isBlank;
     e \<leftarrow> atEnd;
     if e then do {
       stack \<leftarrow> gets indentStack;
       p \<leftarrow> curPos;
       if length stack > 1 then do {
         modify (\<lambda>l. l\<lparr>indentStack := butlast (indentStack l)\<rparr>);
         some (emit TOKEN_DEDENT [] p) }
       else some (emit TOKEN_EOF [] p) }
     else do {
       ch \<leftarrow> peek;
       modify (\<lambda>l. if pendingGroupedBlock l \<and> ch \<noteq> CHR '':'' then l\<lparr>pendingGroupedBlock := False\<rparr> else l);
       readToken u ch } }"

definition nextStep :: "UnicodeTables \<Rightarrow> Token option lex" where
  "nextStep u = do {
     modify trimPatternBlocks;
     toks \<leftarrow> gets pendingToks;
     if toks \<noteq> [] then some takePending
     else do {
       consumeLineDirectives;
       at \<leftarrow> gets atLineStart;
       if at then do {
         modify (\<lambda>l. l\<lparr>atLineStart := False\<rparr>);
         layout \<leftarrow> gets (\<lambda>l. parenDepth l = 0 \<or> activeGroupedBlockContext l);
         if layout then do {
           handleIndentation;
           trimFinishedGroupedBlockContexts;
           toks \<leftarrow> gets pendingToks;
           if toks \<noteq> [] then some takePending else readRest u }
         else readRest u }
       else readRest u } }"

definition eofToken :: Token where
  "eofToken = mkToken TOKEN_EOF [] zeroPos"

definition NextToken :: "UnicodeTables \<Rightarrow> Token lex" where
  "NextToken u = do {
     r \<leftarrow> loopM (\<lambda>_ l. remaining l)
       (\<lambda>_. do { t \<leftarrow> nextStep u; ret (t = None, t) }) None;
     let tok = (case r of Some tok \<Rightarrow> tok | None \<Rightarrow> eofToken);
     modify (\<lambda>l. l\<lparr>lastTokenKind := tok_Kind tok\<rparr>);
     ret tok }"

subsection \<open>Tokenize\<close>

text \<open>The measure of \<^verbatim>\<open>Tokenize\<close>'s loop: the bytes left, a line start still to handle, and the
  layout tokens that are queued or will come from the indentation stack.\<close>

definition queued :: "Lexer \<Rightarrow> nat" where
  "queued l = length (pendingToks l) + length (indentStack l)"

definition workLeft :: "Lexer \<Rightarrow> nat" where
  "workLeft l = 4 * remaining l + (if atLineStart l then 3 else 0) + queued l"

definition tokenizeRound :: "UnicodeTables \<Rightarrow> Token list \<Rightarrow> (bool \<times> Token list) lex" where
  "tokenizeRound u tokens = do {
     tok \<leftarrow> NextToken u;
     ret (tok_Kind tok \<noteq> TOKEN_EOF, tokens @ [tok]) }"

definition Tokenize :: "UnicodeTables \<Rightarrow> Token list lex" where
  "Tokenize u = loopM (\<lambda>_ l. workLeft l) (tokenizeRound u) []"

end
