(* ===== verification/LexerCalculus.thy ===== *)
theory LexerCalculus
  imports LexerNext
begin

text \<open>
  A small calculus for lexer computations, with one rule per way of composing them.

  \<^item> \<open>moves b m\<close>: \<open>m\<close> never moves the cursor back and keeps the source; when \<open>b\<close> holds and
    a byte is left, it consumes one. \<open>goes\<close> is the same for the body of a loop that goes on.
  \<^item> \<open>tame k m\<close>: in a well-formed state that knows the first \<open>k\<close> bytes to exist, \<open>m\<close> does not
    panic or hang, keeps the state well formed, and depends only on the part of the source it has
    recorded as read: with any other source that agrees with it there, it does the same.
  \<^item> \<open>yields k m K Q\<close>: the result of \<open>m\<close> satisfies \<open>Q\<close> and makes its first \<open>K\<close> bytes known.
\<close>

named_theorems moves_rules "how computations move the cursor"
named_theorems tame_rules "safety and read locality of computations"

lemma run_gets [simp]: "run_state (gets f) l = (f l, l)"
  by (simp add: gets_def)

lemma run_modify [simp]: "run_state (modify f) l = ((), f l)"
  by (simp add: modify_def)

subsection \<open>Moving the cursor\<close>

definition moves :: "bool \<Rightarrow> 'a lex \<Rightarrow> bool" where
  "moves b m \<longleftrightarrow> (\<forall>l. src (snd (run_state m l)) = src l \<and> pos l \<le> pos (snd (run_state m l)) \<and>
     (b \<longrightarrow> pos l < length (src l) \<longrightarrow> pos l < pos (snd (run_state m l))))"

definition goes :: "bool \<Rightarrow> (bool \<times> 'v) lex \<Rightarrow> bool" where
  "goes b m \<longleftrightarrow> (\<forall>l. src (snd (run_state m l)) = src l \<and> pos l \<le> pos (snd (run_state m l)) \<and>
     (b \<longrightarrow> pos l < length (src l) \<longrightarrow> fst (fst (run_state m l)) \<longrightarrow> pos l < pos (snd (run_state m l))))"

lemma moves_bind [moves_rules]:
  assumes m: "moves a m" and f: "\<And>x. moves b (f x)"
  shows "moves (a \<or> b) (m \<bind> f)"
proof -
  have "src (snd (run_state (m \<bind> f) l)) = src l \<and> pos l \<le> pos (snd (run_state (m \<bind> f) l)) \<and>
      (a \<or> b \<longrightarrow> pos l < length (src l) \<longrightarrow> pos l < pos (snd (run_state (m \<bind> f) l)))" for l
  proof -
    obtain x l1 where r: "run_state m l = (x, l1)" by force
    note m = m [unfolded moves_def, rule_format, of l, unfolded r snd_conv]
    note f = f [of x, unfolded moves_def, rule_format, of l1]
    from m f show ?thesis by (auto simp: r)
  qed
  then show ?thesis unfolding moves_def by blast
qed

lemma goes_bind:
  assumes m: "moves a m" and f: "\<And>x. goes b (f x)"
  shows "goes (a \<or> b) (m \<bind> f)"
proof -
  have "src (snd (run_state (m \<bind> f) l)) = src l \<and> pos l \<le> pos (snd (run_state (m \<bind> f) l)) \<and>
      (a \<or> b \<longrightarrow> pos l < length (src l) \<longrightarrow> fst (fst (run_state (m \<bind> f) l)) \<longrightarrow>
         pos l < pos (snd (run_state (m \<bind> f) l)))" for l
  proof -
    obtain x l1 where r: "run_state m l = (x, l1)" by force
    note m = m [unfolded moves_def, rule_format, of l, unfolded r snd_conv]
    note f = f [of x, unfolded goes_def, rule_format, of l1]
    from m f show ?thesis by (auto simp: r)
  qed
  then show ?thesis unfolding goes_def by blast
qed

lemma moves_ret [moves_rules]: "moves False (ret x)"
  by (simp add: moves_def)

lemma moves_gets [moves_rules]: "moves False (gets f)"
  by (simp add: moves_def)

lemma moves_modify: "(\<And>l. src (f l) = src l \<and> pos (f l) = pos l) \<Longrightarrow> moves False (modify f)"
  by (simp add: moves_def)

lemma moves_if [moves_rules]: "moves a m \<Longrightarrow> moves b n \<Longrightarrow> moves (a \<and> b) (if c then m else n)"
  by (auto simp: moves_def)

lemma moves_prod [moves_rules]: "(\<And>x y. moves a (f x y)) \<Longrightarrow> moves a (case p of (x, y) \<Rightarrow> f x y)"
  by (cases p) simp

lemma moves_option [moves_rules]:
  "moves a m \<Longrightarrow> (\<And>x. moves b (f x)) \<Longrightarrow> moves (a \<and> b) (case p of None \<Rightarrow> m | Some x \<Rightarrow> f x)"
  by (cases p) (auto simp: moves_def)

lemma goes_stop: "goes True (ret (False, v))"
  by (simp add: goes_def)

lemma goes_ret: "goes False (ret x)"
  by (simp add: goes_def)

lemma goes_if: "goes a m \<Longrightarrow> goes b n \<Longrightarrow> goes (a \<and> b) (if c then m else n)"
  by (auto simp: goes_def)

lemma goes_prod: "(\<And>x y. goes a (f x y)) \<Longrightarrow> goes a (case p of (x, y) \<Rightarrow> f x y)"
  by (cases p) simp

lemmas goes_rules = goes_stop goes_if goes_prod goes_bind goes_ret

lemma moves_weaken: "moves b m \<Longrightarrow> b' \<longrightarrow> b \<Longrightarrow> moves b' m"
  by (auto simp: moves_def)

lemma goes_weaken: "goes b m \<Longrightarrow> b \<Longrightarrow> goes True m"
  by (simp add: goes_def)

lemma moves_some [moves_rules]: "moves b m \<Longrightarrow> moves b (some m)"
  unfolding some_def by (rule moves_weaken, rule moves_rules, assumption, rule moves_rules) simp

lemma moves_noteRead [moves_rules]: "moves False (noteRead n)"
  unfolding noteRead_def by (rule moves_modify) simp

lemma moves_reads [moves_rules]:
  "moves False (sourceHas i)" "moves False (sourceByte i)" "moves False (sourceSlice i j)"
  "moves False (runeBytes i)" "moves False currentIndent" "moves False curPos"
  by (auto simp: moves_def sourceHas_def sourceByte_def sourceSlice_def runeBytes_def
      currentIndent_def curPos_def noteRead_def)

lemma moves_byteIs [moves_rules]: "moves False (byteIs j P)"
  unfolding byteIs_def by (rule moves_weaken, (rule moves_rules)+, simp)

text \<open>What every round of a loop does to the state, the loop does.\<close>

lemma loop_rel:
  assumes "\<And>v l. R l (snd (run_state (step v) l))" and "\<And>a b c. R a b \<Longrightarrow> R b c \<Longrightarrow> R a c"
    and "\<And>a b. R a b \<Longrightarrow> R a (b\<lparr>hung := True\<rparr>)"
  shows "R l (snd (run_state (loopM meas step v) l))"
proof -
  have "R l (snd (loopL meas step v l))"
    using assms
  proof (induction meas step v l rule: loopL.induct)
    case (1 meas step v l)
    obtain again v' l' where r: "run_state (step v) l = ((again, v'), l')" by (metis prod.collapse)
    from "1.prems"(1) [of l v] r have one: "R l l'" by simp
    show ?case
    proof (cases "again \<and> meas v' l' < meas v l")
      case True
      then have "\<not> \<not> again" "meas v' l' < meas v l" by simp_all
      from "1.IH" [OF r [symmetric] refl this "1.prems"] one "1.prems"(2) True r show ?thesis
        by (subst loopL.simps) simp
    next
      case False
      with one "1.prems"(3) [OF one] r show ?thesis by (subst loopL.simps) auto
    qed
  qed
  then show ?thesis by (simp add: loopM_def)
qed

lemma moves_loop:
  assumes step: "\<And>v. goes b (step v)"
  shows "moves False (loopM meas step v)"
  unfolding moves_def
proof (intro allI conjI impI)
  fix l
  have "src (snd (run_state (loopM meas step v) l)) = src l \<and>
        pos l \<le> pos (snd (run_state (loopM meas step v) l))"
    by (rule loop_rel) (use step in \<open>auto simp: goes_def intro: order_trans\<close>)
  then show "src (snd (run_state (loopM meas step v) l)) = src l"
    "pos l \<le> pos (snd (run_state (loopM meas step v) l))" by auto
qed simp

lemma moves_while [moves_rules]:
  assumes "moves a c" and "moves b body" shows "moves False (whileM c body)"
  unfolding whileM_def
  by (rule moves_loop, (rule goes_rules assms moves_ret)+)

lemma moves_advance [moves_rules]: "moves True advance"
  by (auto simp: moves_def advance_def sourceHas_def sourceByte_def noteRead_def)

lemma moves_peeks [moves_rules]: "moves False peek" "moves False (peekAt n)" "moves False peekRune"
  "moves False (peekIs P)" "moves False atEnd" "moves False isBlockCommentStart"
  unfolding peek_def peekAt_def peekRune_def peekIs_def atEnd_def isBlockCommentStart_def
  by (rule moves_weaken, (rule moves_rules)+, simp)+

lemma moves_advanceN [moves_rules]: "moves (0 < n) (advanceN n)"
proof (induction n)
  case (Suc n)
  from moves_bind [OF moves_advance Suc.IH] show ?case by simp
qed (simp add: moves_ret)


subsection \<open>Safety and read locality\<close>

definition ok :: "Lexer \<Rightarrow> bool" where
  "ok l \<longleftrightarrow> indentStack l \<noteq> [] \<and> pos l \<le> length (src l) \<and> \<not> panicked l \<and> \<not> hung l \<and>
     (trackReads l \<longrightarrow> pos l \<le> readLimit l)"

definition known :: "nat \<Rightarrow> Lexer \<Rightarrow> bool" where
  "known k l \<longleftrightarrow> k \<le> length (src l) \<and> (trackReads l \<longrightarrow> k \<le> readLimit l)"

definition extends :: "Lexer \<Rightarrow> Lexer \<Rightarrow> bool" where
  "extends l l' \<longleftrightarrow> src l' = src l \<and> trackReads l' = trackReads l \<and> readLimit l \<le> readLimit l'"

text \<open>Two sources agree on the first \<open>n\<close> bytes, existence probes included.\<close>

definition agree_upto :: "nat \<Rightarrow> byte list \<Rightarrow> byte list \<Rightarrow> bool" where
  "agree_upto n s s' \<longleftrightarrow> take n s = take n s'"

definition tame :: "nat \<Rightarrow> 'a lex \<Rightarrow> bool" where
  "tame k m \<longleftrightarrow> (\<forall>l. ok l \<longrightarrow> known k l \<longrightarrow>
     (case run_state m l of (a, l') \<Rightarrow> ok l' \<and> extends l l' \<and>
        (trackReads l \<longrightarrow> (\<forall>s'. agree_upto (readLimit l') (src l) s' \<longrightarrow>
           run_state m (l\<lparr>src := s'\<rparr>) = (a, l'\<lparr>src := s'\<rparr>)))))"

definition yields :: "nat \<Rightarrow> 'a lex \<Rightarrow> ('a \<Rightarrow> nat) \<Rightarrow> ('a \<Rightarrow> bool) \<Rightarrow> bool" where
  "yields k m K Q \<longleftrightarrow> (\<forall>l. ok l \<longrightarrow> known k l \<longrightarrow>
     (case run_state m l of (a, l') \<Rightarrow> Q a \<and> known (K a) l'))"

lemma agree_upto_mono: "agree_upto n s s' \<Longrightarrow> m \<le> n \<Longrightarrow> agree_upto m s s'"
  unfolding agree_upto_def by (metis min.absorb1 take_take)

lemma agree_upto_length:
  assumes "agree_upto n s s'" and "i < n"
  shows "i < length s \<longleftrightarrow> i < length s'"
proof -
  from assms(1) have "length (take n s) = length (take n s')" by (simp add: agree_upto_def)
  with assms(2) show ?thesis by (auto simp: min_def split: if_splits)
qed

lemma agree_upto_nth: "agree_upto n s s' \<Longrightarrow> i < n \<Longrightarrow> s ! i = s' ! i"
  unfolding agree_upto_def by (metis nth_take)

lemma agree_upto_le: "agree_upto n s s' \<Longrightarrow> k \<le> n \<Longrightarrow> k \<le> length s \<Longrightarrow> k \<le> length s'"
  using agree_upto_length [of n s s' "k - 1"] by (cases k) auto

lemma agree_upto_slice:
  assumes "agree_upto n s s'" and "b \<le> n"
  shows "take (b - a) (drop a s) = take (b - a) (drop a s')"
proof -
  have "take b s = take b s'" using agree_upto_mono [OF assms] by (simp add: agree_upto_def)
  then show ?thesis by (metis drop_take)
qed

lemma extends_refl [simp]: "extends l l"
  by (simp add: extends_def)

lemma extends_trans: "extends a b \<Longrightarrow> extends b c \<Longrightarrow> extends a c"
  by (simp add: extends_def)

lemma known_extends: "known k l \<Longrightarrow> extends l l' \<Longrightarrow> known k l'"
  by (auto simp: known_def extends_def)

lemma known_mono: "known k l \<Longrightarrow> j \<le> k \<Longrightarrow> known j l"
  by (auto simp: known_def)

lemma ok_resource:
  assumes "ok l" "trackReads l" "agree_upto n (src l) s'" "readLimit l \<le> n"
  shows "ok (l\<lparr>src := s'\<rparr>)"
  using assms agree_upto_le [OF assms(3), of "pos l"] by (auto simp: ok_def)

lemma known_resource:
  assumes "known k l" "trackReads l" "agree_upto n (src l) s'" "readLimit l \<le> n"
  shows "known k (l\<lparr>src := s'\<rparr>)"
  using assms agree_upto_le [OF assms(3), of k] by (auto simp: known_def)

lemma tameD:
  assumes "tame k m" "ok l" "known k l" "run_state m l = (a, l')"
  shows "ok l'" "extends l l'" "known k l'"
    "trackReads l \<Longrightarrow> agree_upto (readLimit l') (src l) s' \<Longrightarrow>
       run_state m (l\<lparr>src := s'\<rparr>) = (a, l'\<lparr>src := s'\<rparr>)"
  using assms known_extends [of k l l'] unfolding tame_def by auto

lemma tameI:
  assumes "\<And>l a l'. ok l \<Longrightarrow> known k l \<Longrightarrow> run_state m l = (a, l') \<Longrightarrow> ok l' \<and> extends l l'"
    and "\<And>l a l' s'. ok l \<Longrightarrow> known k l \<Longrightarrow> run_state m l = (a, l') \<Longrightarrow> trackReads l \<Longrightarrow>
      agree_upto (readLimit l') (src l) s' \<Longrightarrow> run_state m (l\<lparr>src := s'\<rparr>) = (a, l'\<lparr>src := s'\<rparr>)"
  shows "tame k m"
  using assms unfolding tame_def by (auto split: prod.split)

lemma tame_bind_yields:
  assumes m: "tame k m" and y: "yields k m K Q"
    and f: "\<And>a. Q a \<Longrightarrow> tame (max k (K a)) (f a)"
  shows "tame k (m \<bind> f)"
proof (rule tameI)
  fix l b l2 assume l: "ok l" "known k l" and r: "run_state (m \<bind> f) l = (b, l2)"
  obtain a l1 where r1: "run_state m l = (a, l1)" by force
  with r have r2: "run_state (f a) l1 = (b, l2)" by simp
  note t1 = tameD [OF m l r1]
  from y l r1 have q: "Q a" and "known (K a) l1" unfolding yields_def by auto
  with t1(3) have kn: "known (max k (K a)) l1" by (simp add: max_def)
  note t2 = tameD [OF f [OF q] t1(1) kn r2]
  from t2 t1(2) show "ok l2 \<and> extends l l2" by (auto intro: extends_trans)
  fix s' assume tr: "trackReads l" and ag: "agree_upto (readLimit l2) (src l) s'"
  have "agree_upto (readLimit l1) (src l) s'"
    using agree_upto_mono [OF ag] t2(2) by (simp add: extends_def)
  from t1(4) [OF tr this] t2(4) tr ag t1(2) show "run_state (m \<bind> f) (l\<lparr>src := s'\<rparr>) = (b, l2\<lparr>src := s'\<rparr>)"
    by (simp add: extends_def)
qed

lemma tame_bind: "tame k m \<Longrightarrow> (\<And>a. tame k (f a)) \<Longrightarrow> tame k (m \<bind> f)"
  by (rule tame_bind_yields [where K = "\<lambda>_. 0" and Q = "\<lambda>_. True"])
    (auto simp: yields_def known_def)

lemma tame_more: "tame j m \<Longrightarrow> j \<le> k \<Longrightarrow> tame k m"
  by (rule tameI) (auto dest: tameD [of j m] intro: known_mono)

lemma tame_ret [tame_rules]: "tame k (ret x)"
  by (simp add: tame_def)

lemma tame_if: "tame k m \<Longrightarrow> tame k n \<Longrightarrow> tame k (if c then m else n)"
  by simp

lemma tame_prod: "(\<And>x y. p = (x, y) \<Longrightarrow> tame k (f x y)) \<Longrightarrow> tame k (case p of (x, y) \<Rightarrow> f x y)"
  by (cases p) simp

lemma tame_option:
  "tame k m \<Longrightarrow> (\<And>x. tame k (f x)) \<Longrightarrow> tame k (case p of None \<Rightarrow> m | Some x \<Rightarrow> f x)"
  by (cases p) auto

lemma tame_gets: "(\<And>l s. f (l\<lparr>src := s\<rparr>) = f l) \<Longrightarrow> tame k (gets f)"
  by (simp add: tame_def)

lemma tame_modify:
  assumes "\<And>l s. f (l\<lparr>src := s\<rparr>) = (f l)\<lparr>src := s\<rparr>"
    and "\<And>l. src (f l) = src l \<and> trackReads (f l) = trackReads l \<and> readLimit (f l) = readLimit l"
    and "\<And>l. ok l \<Longrightarrow> known k l \<Longrightarrow> ok (f l)"
  shows "tame k (modify f)"
  using assms by (simp add: tame_def extends_def)

lemma tame_some [tame_rules]: "tame k m \<Longrightarrow> tame k (some m)"
  unfolding some_def by (intro tame_bind tame_ret)


subsubsection \<open>The reads\<close>

lemma run_noteRead [simp]:
  "run_state (noteRead n) l = ((), if trackReads l \<and> n > readLimit l then l\<lparr>readLimit := n\<rparr> else l)"
  by (simp add: noteRead_def)

lemma tame_noteRead [tame_rules]: "tame k (noteRead n)"
  by (auto simp: tame_def ok_def extends_def)

text \<open>A read that notes what it looks at, then looks.\<close>

lemma tame_read:
  assumes "\<And>l. known k l \<Longrightarrow> (trackReads l \<longrightarrow> n \<le> readLimit l) \<Longrightarrow> \<exists>a. f l = (a, l)"
    and "\<And>l s'. known k l \<Longrightarrow> n \<le> readLimit l \<Longrightarrow> trackReads l \<Longrightarrow>
      agree_upto (readLimit l) (src l) s' \<Longrightarrow> fst (f (l\<lparr>src := s'\<rparr>)) = fst (f l)"
  shows "tame k (noteRead n \<bind> (\<lambda>_. State f))"
proof (rule tameI)
  fix l a l' assume l: "ok l" "known k l" and r: "run_state (noteRead n \<bind> (\<lambda>_. State f)) l = (a, l')"
  define l1 where "l1 = snd (run_state (noteRead n) l)"
  have l1: "ok l1" "extends l l1" "known k l1" "trackReads l1 \<longrightarrow> n \<le> readLimit l1"
    using l by (auto simp: l1_def ok_def extends_def known_def)
  from assms(1) [OF l1(3,4)] r have fl: "f l1 = (a, l1)" "l' = l1" by (auto simp: l1_def)
  with l1 show "ok l' \<and> extends l l'" by simp
  fix s' assume tr: "trackReads l" and ag: "agree_upto (readLimit l') (src l) s'"
  have tr1: "trackReads l1" and nr: "n \<le> readLimit l1" and src1: "src l1 = src l"
    using l1 tr by (auto simp: extends_def)
  have "known k (l1\<lparr>src := s'\<rparr>)"
    by (rule known_resource [OF l1(3) tr1]) (use ag fl src1 in auto)
  from assms(1) [OF this] nr have "\<exists>a. f (l1\<lparr>src := s'\<rparr>) = (a, l1\<lparr>src := s'\<rparr>)" by simp
  moreover have "fst (f (l1\<lparr>src := s'\<rparr>)) = fst (f l1)"
    by (rule assms(2) [OF l1(3) nr tr1]) (use ag fl src1 in auto)
  ultimately have "f (l1\<lparr>src := s'\<rparr>) = (a, l1\<lparr>src := s'\<rparr>)" using fl by auto
  moreover have "snd (run_state (noteRead n) (l\<lparr>src := s'\<rparr>)) = l1\<lparr>src := s'\<rparr>" by (simp add: l1_def)
  ultimately show "run_state (noteRead n \<bind> (\<lambda>_. State f)) (l\<lparr>src := s'\<rparr>) = (a, l'\<lparr>src := s'\<rparr>)"
    using fl by (simp split: if_splits)
qed

lemma tame_sourceHas [tame_rules]: "tame k (sourceHas i)"
  unfolding sourceHas_def gets_def
  by (rule tame_read) (auto dest: agree_upto_length [of _ _ _ i])

lemma tame_sourceByte: "i < k \<Longrightarrow> tame k (sourceByte i)"
  unfolding sourceByte_def
proof (rule tame_read)
  fix l s' assume "i < k" "known k l" "i + 1 \<le> readLimit l" "agree_upto (readLimit l) (src l) s'"
  with agree_upto_length [of "readLimit l" "src l" s' i] agree_upto_nth [of "readLimit l" "src l" s' i]
  show "fst (if i < length (src (l\<lparr>src := s'\<rparr>)) then (src (l\<lparr>src := s'\<rparr>) ! i, l\<lparr>src := s'\<rparr>)
       else (CHR 0x00, l\<lparr>src := s'\<rparr>\<lparr>panicked := True\<rparr>)) =
      fst (if i < length (src l) then (src l ! i, l) else (CHR 0x00, l\<lparr>panicked := True\<rparr>))" by simp
qed (auto simp: known_def)

lemma tame_sourceSlice: "a \<le> b \<Longrightarrow> b \<le> k \<Longrightarrow> tame k (sourceSlice a b)"
  unfolding sourceSlice_def
proof (rule tame_read)
  fix l s' assume ab: "a \<le> b" "b \<le> k" "known k l" and r: "b \<le> readLimit l"
    and ag: "agree_upto (readLimit l) (src l) s'"
  from ab have "b \<le> length (src l)" by (simp add: known_def)
  with agree_upto_le [OF ag r] agree_upto_slice [OF ag r, of a] ab
  show "fst (if a \<le> b \<and> b \<le> length (src (l\<lparr>src := s'\<rparr>))
        then (take (b - a) (drop a (src (l\<lparr>src := s'\<rparr>))), l\<lparr>src := s'\<rparr>)
        else ([], l\<lparr>src := s'\<rparr>\<lparr>panicked := True\<rparr>)) =
      fst (if a \<le> b \<and> b \<le> length (src l) then (take (b - a) (drop a (src l)), l)
        else ([], l\<lparr>panicked := True\<rparr>))" by simp
qed (auto simp: known_def)

lemma rune_slice: "i \<le> length s \<Longrightarrow> take (min (length s) (i + UTFMax) - i) (drop i s) = take UTFMax (drop i s)"
  by (auto simp: min_def)

lemma tame_runeBytes: "i \<le> k \<Longrightarrow> tame k (runeBytes i)"
  unfolding runeBytes_def
proof (rule tame_read)
  fix l s' assume ik: "i \<le> k" "known k l" and r: "i + UTFMax \<le> readLimit l"
    and ag: "agree_upto (readLimit l) (src l) s'"
  from ik have i: "i \<le> length (src l)" by (simp add: known_def)
  moreover have "i \<le> length s'" by (rule agree_upto_le [OF ag _ i]) (use r in simp)
  ultimately show "fst (if i \<le> length (src (l\<lparr>src := s'\<rparr>))
        then (take (min (length (src (l\<lparr>src := s'\<rparr>))) (i + UTFMax) - i) (drop i (src (l\<lparr>src := s'\<rparr>))), l\<lparr>src := s'\<rparr>)
        else ([], l\<lparr>src := s'\<rparr>\<lparr>panicked := True\<rparr>)) =
      fst (if i \<le> length (src l)
        then (take (min (length (src l)) (i + UTFMax) - i) (drop i (src l)), l)
        else ([], l\<lparr>panicked := True\<rparr>))"
    using agree_upto_slice [OF ag r, of i] by (simp add: rune_slice)
qed (auto simp: known_def)

lemma tame_has:
  assumes "tame (max k (i + 1)) t" and "tame k f"
  shows "tame k (sourceHas i \<bind> (\<lambda>h. if h then t else f))"
proof (rule tame_bind_yields [OF tame_sourceHas, where K = "\<lambda>h. if h then i + 1 else 0" and Q = "\<lambda>_. True"])
  show "yields k (sourceHas i) (\<lambda>h. if h then i + 1 else 0) (\<lambda>_. True)"
    by (auto simp: yields_def sourceHas_def known_def)
qed (use assms in simp)

lemma tame_has_not:
  assumes "tame (max k (i + 1)) t" and "tame k f"
  shows "tame k (sourceHas i \<bind> (\<lambda>h. if \<not> h then f else t))"
proof -
  have "(\<lambda>h. if \<not> h then f else t) = (\<lambda>h. if h then t else f)" by auto
  with tame_has [OF assms] show ?thesis by simp
qed

lemma tame_pos:
  assumes "\<And>p. tame (max k p) (f p)"
  shows "tame k (gets pos \<bind> f)"
  by (rule tame_bind_yields [where K = "\<lambda>p. p" and Q = "\<lambda>_. True"])
    (use assms in \<open>auto simp: yields_def ok_def known_def intro: tame_gets\<close>)

lemma tame_curPos [tame_rules]: "tame k curPos"
  unfolding curPos_def by (rule tame_gets) simp

lemma tame_finishToken [tame_rules]: "tame k (finishToken t)"
  unfolding finishToken_def by (intro tame_bind tame_rules)

lemma tame_emit [tame_rules]: "tame k (emit a b c)"
  unfolding emit_def by (rule tame_rules)

lemma tame_report [tame_rules]: "tame k (reportErrorAt p m)" "tame k (reportSince p m)"
proof -
  show r: "tame k (reportErrorAt p m)" for p m
    unfolding reportErrorAt_def by (rule tame_modify) (auto simp: ok_def)
  show "tame k (reportSince p m)"
    unfolding reportSince_def by (intro tame_bind tame_rules r)
qed

lemma tame_currentIndent [tame_rules]: "tame k currentIndent"
  by (auto simp: tame_def currentIndent_def ok_def)

subsubsection \<open>Loops\<close>

text \<open>A loop keeps what its rounds keep, when the measure goes down in every round that
  goes on: the invariant \<open>J\<close> of the local variables, the bytes \<open>K\<close> they make known, a
  property \<open>I\<close> of the state that does not speak of the source, and read locality.\<close>

lemma loop_local:
  assumes step: "\<And>v l again v' l'. J v \<Longrightarrow> ok l \<Longrightarrow> known (max k (K v)) l \<Longrightarrow> I l \<Longrightarrow>
      run_state (step v) l = ((again, v'), l') \<Longrightarrow>
      ok l' \<and> extends l l' \<and> I l' \<and> J v' \<and> known (K v') l' \<and> (again \<longrightarrow> meas v' l' < meas v l) \<and>
      (trackReads l \<longrightarrow> (\<forall>s'. agree_upto (readLimit l') (src l) s' \<longrightarrow>
         run_state (step v) (l\<lparr>src := s'\<rparr>) = ((again, v'), l'\<lparr>src := s'\<rparr>)))"
    and I: "\<And>l s. I (l\<lparr>src := s\<rparr>) = I l"
    and run: "loopL meas step v l = (w, l')" and start: "J v" "ok l" "known (max k (K v)) l" "I l"
  shows "ok l' \<and> extends l l' \<and> J w \<and> known (K w) l' \<and>
      (trackReads l \<longrightarrow> (\<forall>s'. agree_upto (readLimit l') (src l) s' \<longrightarrow>
         loopL meas step v (l\<lparr>src := s'\<rparr>) = (w, l'\<lparr>src := s'\<rparr>)))"
  using run start
proof (induction "meas v l" arbitrary: v l rule: less_induct)
  case less
  obtain again v1 l1 where r: "run_state (step v) l = ((again, v1), l1)" by (metis prod.collapse)
  note st = step [OF less.prems(2-5) r]
  then have t: "ok l1" "extends l l1" "I l1" "J v1" "known (K v1) l1" by auto
  have loc: "run_state (step v) (l\<lparr>src := s'\<rparr>) = ((again, v1), l1\<lparr>src := s'\<rparr>)"
    if "trackReads l" "agree_upto (readLimit l1) (src l) s'" for s'
    using st that by blast
  show ?case
  proof (cases again)
    case True
    with st have d: "meas v1 l1 < meas v l" by simp
    have lp: "loopL meas step v1 l1 = (w, l')"
      using less.prems(1) True d r by (subst (asm) loopL.simps) simp
    have kn: "known (max k (K v1)) l1"
      using known_mono [OF known_extends [OF less.prems(4) t(2)], of k] t(5) by (simp add: max_def)
    note ih = less.hyps [OF d lp t(4,1) kn t(3)]
    have "loopL meas step v (l\<lparr>src := s'\<rparr>) = (w, l'\<lparr>src := s'\<rparr>)"
      if tr: "trackReads l" and ag: "agree_upto (readLimit l') (src l) s'" for s'
    proof -
      have rl: "readLimit l1 \<le> readLimit l'" "src l1 = src l" "trackReads l1" "readLimit l \<le> readLimit l1"
        using ih t(2) tr by (auto simp: extends_def)
      note r' = loc [OF tr agree_upto_mono [OF ag rl(1)]]
      have "ok (l\<lparr>src := s'\<rparr>)" "known (max k (K v)) (l\<lparr>src := s'\<rparr>)" "I (l\<lparr>src := s'\<rparr>)"
        using ok_resource [OF less.prems(3) tr ag] known_resource [OF less.prems(4) tr ag] rl I less.prems(5) by auto
      from step [OF less.prems(2) this r'] True
      have "meas v1 (l1\<lparr>src := s'\<rparr>) < meas v (l\<lparr>src := s'\<rparr>)" by simp
      moreover have "loopL meas step v1 (l1\<lparr>src := s'\<rparr>) = (w, l'\<lparr>src := s'\<rparr>)"
        using ih ag rl by simp
      ultimately show ?thesis using r' True by (subst loopL.simps) simp
    qed
    with ih t(2) show ?thesis by (auto intro: extends_trans)
  next
    case False
    with less.prems(1) r have w: "w = v1" "l' = l1" by (auto simp: loopL.simps)
    have "loopL meas step v (l\<lparr>src := s'\<rparr>) = (w, l'\<lparr>src := s'\<rparr>)"
      if "trackReads l" and "agree_upto (readLimit l') (src l) s'" for s'
      using loc [OF that(1)] that(2) w False by (subst loopL.simps) simp
    with t w show ?thesis by auto
  qed
qed

lemma loop_tame:
  assumes step: "\<And>v. J v \<Longrightarrow> tame (max k (K v)) (step v)"
    and inv: "\<And>v. J v \<Longrightarrow> yields (max k (K v)) (step v) (\<lambda>r. K (snd r)) (\<lambda>r. J (snd r))"
    and down: "\<And>v l v' l'. J v \<Longrightarrow> ok l \<Longrightarrow> known (max k (K v)) l \<Longrightarrow>
      run_state (step v) l = ((True, v'), l') \<Longrightarrow> meas v' l' < meas v l"
    and start: "J v" "K v \<le> k"
  shows "tame k (loopM meas step v) \<and> yields k (loopM meas step v) K J"
proof -
  have one: "ok l' \<and> extends l l' \<and> True \<and> J v' \<and> known (K v') l' \<and> (again \<longrightarrow> meas v' l' < meas v l) \<and>
      (trackReads l \<longrightarrow> (\<forall>s'. agree_upto (readLimit l') (src l) s' \<longrightarrow>
         run_state (step v) (l\<lparr>src := s'\<rparr>) = ((again, v'), l'\<lparr>src := s'\<rparr>)))"
    if a: "J v" "ok l" "known (max k (K v)) l" "True" and r: "run_state (step v) l = ((again, v'), l')"
    for v l again v' l'
  proof -
    note t = tameD [OF step [OF a(1)] a(2,3) r]
    have y: "J v'" "known (K v') l'"
      using inv [OF a(1), unfolded yields_def, rule_format, OF a(2,3)] unfolding r by auto
    have "again \<longrightarrow> meas v' l' < meas v l" using down [OF a(1-3)] r by simp
    with t y show ?thesis by blast
  qed
  have kn: "known (max k (K v)) l" if "known k l" for l using that start(2) by (simp add: max_def)
  have main: "ok l' \<and> extends l l' \<and> J w \<and> known (K w) l' \<and>
      (trackReads l \<longrightarrow> (\<forall>s'. agree_upto (readLimit l') (src l) s' \<longrightarrow>
         run_state (loopM meas step v) (l\<lparr>src := s'\<rparr>) = (w, l'\<lparr>src := s'\<rparr>)))"
    if "run_state (loopM meas step v) l = (w, l')" "ok l" "known k l" for l w l'
    unfolding loopM_def state.sel
  proof (rule loop_local [where I = "\<lambda>_. True" and k = k])
    show "loopL meas step v l = (w, l')" using that(1) by (simp add: loopM_def)
  qed (fact one, rule refl, fact start(1), fact that(2), rule kn, fact that(3), rule TrueI)
  have "tame k (loopM meas step v)"
  proof (rule tameI)
    fix l w l' assume l: "ok l" "known k l" and r: "run_state (loopM meas step v) l = (w, l')"
    from main [OF r l] show "ok l' \<and> extends l l'" by blast
    fix s' assume "trackReads l" "agree_upto (readLimit l') (src l) s'"
    with main [OF r l] show "run_state (loopM meas step v) (l\<lparr>src := s'\<rparr>) = (w, l'\<lparr>src := s'\<rparr>)" by blast
  qed
  moreover have "yields k (loopM meas step v) K J"
    unfolding yields_def
  proof (intro allI impI)
    fix l assume l: "ok l" "known k l"
    obtain w l' where r: "run_state (loopM meas step v) l = (w, l')" by force
    from main [OF r l] show "case run_state (loopM meas step v) l of (a, l') \<Rightarrow> J a \<and> known (K a) l'"
      unfolding r by simp
  qed
  ultimately show ?thesis ..
qed

text \<open>The common case: a loop over the cursor, with no demands on its local variables.\<close>

lemma tame_loop:
  assumes step: "\<And>v. tame k (step v)"
    and down: "\<And>v. goes True (step v)"
    and here: "\<And>v l. remaining l = 0 \<Longrightarrow> \<not> fst (fst (run_state (step v) l))"
  shows "tame k (loopM (\<lambda>_ l. remaining l) step v)"
proof -
  have "remaining l' < remaining l" if r: "run_state (step v) l = ((True, v'), l')" for v l v' l'
  proof -
    from here [of l v] r have "0 < remaining l" by auto
    then have "pos l < length (src l)" by (simp add: remaining_def)
    with down [of v] r have "pos l < pos l'" "src l' = src l" unfolding goes_def by (metis fst_conv snd_conv)+
    with \<open>pos l < length (src l)\<close> show ?thesis by (simp add: remaining_def)
  qed
  then show ?thesis
    using loop_tame [of "\<lambda>_. True" k "\<lambda>_. 0" step "\<lambda>_ l. remaining l" v] step
    by (auto simp: yields_def known_def)
qed

end
