(* ===== verification/LexerSafe.thy ===== *)
theory LexerSafe
  imports LexerCalculus
begin

text \<open>
  Every method of the lexer moves forward, never panics from a well-formed state, and depends
  only on the bytes it recorded as read. One fact per method, by the rules of
  \<open>LexerCalculus\<close>.
\<close>

subsection \<open>Closed forms of the elementary reads\<close>

definition noted :: "nat \<Rightarrow> Lexer \<Rightarrow> Lexer" where
  "noted n l = (if trackReads l \<and> n > readLimit l then l\<lparr>readLimit := n\<rparr> else l)"

lemma noted_sel [simp]:
  "src (noted n l) = src l" "pos (noted n l) = pos l" "trackReads (noted n l) = trackReads l"
  "panicked (noted n l) = panicked l" "hung (noted n l) = hung l" "indentStack (noted n l) = indentStack l"
  "pendingToks (noted n l) = pendingToks l" "atLineStart (noted n l) = atLineStart l"
  "errors (noted n l) = errors l" "line (noted n l) = line l" "col (noted n l) = col l"
  "filename (noted n l) = filename l" "parenDepth (noted n l) = parenDepth l"
  "groupedBlockContexts (noted n l) = groupedBlockContexts l"
  "pendingPatternBlocks (noted n l) = pendingPatternBlocks l"
  "pendingGroupedBlock (noted n l) = pendingGroupedBlock l" "lastTokenKind (noted n l) = lastTokenKind l"
  "readLimit (noted n l) = (if trackReads l then max n (readLimit l) else readLimit l)"
  by (auto simp: noted_def)

lemma noted_noted [simp]: "noted m (noted n l) = noted (max m n) l"
  by (auto simp: noted_def max_def)

lemma known_noted: "known k (noted n l) \<longleftrightarrow> k \<le> length (src l) \<and> (trackReads l \<longrightarrow> k \<le> n \<or> k \<le> readLimit l)"
  by (auto simp: known_def)

lemma run_sourceHas [simp]: "run_state (sourceHas i) l = (i < length (src l), noted (i + 1) l)"
  by (simp add: sourceHas_def noted_def)

lemma run_sourceByte [simp]:
  "i < length (src l) \<Longrightarrow> run_state (sourceByte i) l = (src l ! i, noted (i + 1) l)"
  by (simp add: sourceByte_def noted_def)

lemma run_byteIs [simp]:
  "run_state (byteIs j P) l = (j < length (src l) \<and> P (src l ! j), noted (j + 1) l)"
  by (simp add: byteIs_def)

lemma run_atEnd [simp]: "run_state atEnd l = (length (src l) \<le> pos l, noted (pos l + 1) l)"
  by (auto simp: atEnd_def)

lemma run_peek [simp]:
  "run_state peek l = (if pos l < length (src l) then src l ! pos l else CHR 0x00, noted (pos l + 1) l)"
  by (simp add: peek_def)

lemma run_peekIs [simp]:
  "run_state (peekIs P) l = (pos l < length (src l) \<and> P (src l ! pos l), noted (pos l + 1) l)"
  by (simp add: peekIs_def)

subsection \<open>The end of the source stops a loop\<close>

definition stopsAtEnd :: "(bool \<times> 'v) lex \<Rightarrow> bool" where
  "stopsAtEnd m \<longleftrightarrow> (\<forall>l. remaining l = 0 \<longrightarrow> \<not> fst (fst (run_state m l)))"

lemma stopsAtEnd_atEnd: "stopsAtEnd (atEnd \<bind> (\<lambda>e. if e then ret (False, v) else m))"
  by (simp add: stopsAtEnd_def remaining_def)

lemma stopsAtEnd_while:
  "stopsAtEnd (peekIs P \<bind> (\<lambda>t. if t then m else ret (False, v)))"
  by (simp add: stopsAtEnd_def remaining_def)

lemma stopsAtEnd_prod: "(\<And>x y. stopsAtEnd (f x y)) \<Longrightarrow> stopsAtEnd (case p of (x, y) \<Rightarrow> f x y)"
  by (cases p) simp

lemmas stops_rules = stopsAtEnd_atEnd stopsAtEnd_while stopsAtEnd_prod

lemma tame_cursor_loop:
  assumes "\<And>v. tame k (step v)" and "\<And>v. goes True (step v)" and "\<And>v. stopsAtEnd (step v)"
  shows "tame k (loopM (\<lambda>_ l. remaining l) step v)"
  by (rule tame_loop [OF assms(1,2)]) (use assms(3) in \<open>auto simp: stopsAtEnd_def\<close>)

lemmas tame_first = tame_has tame_has_not tame_pos tame_sourceByte tame_sourceSlice tame_runeBytes

lemmas tame_last = tame_if tame_prod tame_option tame_bind

subsection \<open>The cursor\<close>

lemma tame_byteIs [tame_rules]: "tame k (byteIs j P)"
  unfolding byteIs_def by (rule tame_first tame_rules tame_last | simp)+

lemma tame_peek [tame_rules]: "tame k peek" "tame k (peekAt n)"
  unfolding peek_def peekAt_def by (rule tame_first tame_rules tame_last | simp)+

lemma tame_peekRune [tame_rules]: "tame k peekRune"
  unfolding peekRune_def by (rule tame_first tame_rules tame_last | simp)+

lemma tame_peekIs [tame_rules]: "tame k (peekIs P)" "tame k atEnd"
  unfolding peekIs_def atEnd_def by (rule tame_first tame_rules tame_last | simp)+

text \<open>The cursor after the byte \<open>ch\<close>.\<close>

definition stepped :: "byte \<Rightarrow> Lexer \<Rightarrow> Lexer" where
  "stepped ch l = (if ch = CHR 0x0A then l\<lparr>pos := pos l + 1, line := int64 (line l + 1), col := 1\<rparr>
                   else l\<lparr>pos := pos l + 1, col := col l + 1\<rparr>)"

lemma run_advance [simp]:
  "run_state advance l =
     (if pos l < length (src l) then (src l ! pos l, stepped (src l ! pos l) (noted (pos l + 1) l))
      else (CHR 0x00, noted (pos l + 1) l))"
  by (auto simp: advance_def stepped_def)

lemma stepped_sel [simp]:
  "src (stepped ch l) = src l" "pos (stepped ch l) = pos l + 1" "trackReads (stepped ch l) = trackReads l"
  "readLimit (stepped ch l) = readLimit l" "panicked (stepped ch l) = panicked l" "hung (stepped ch l) = hung l"
  "indentStack (stepped ch l) = indentStack l" "pendingToks (stepped ch l) = pendingToks l"
  "atLineStart (stepped ch l) = atLineStart l" "errors (stepped ch l) = errors l"
  "filename (stepped ch l) = filename l" "parenDepth (stepped ch l) = parenDepth l"
  by (auto simp: stepped_def)

lemma noted_resource [simp]: "noted n (l\<lparr>src := s\<rparr>) = (noted n l)\<lparr>src := s\<rparr>"
  by (simp add: noted_def)

lemma stepped_resource [simp]: "stepped ch (l\<lparr>src := s\<rparr>) = (stepped ch l)\<lparr>src := s\<rparr>"
  by (simp add: stepped_def)

lemma tame_advance [tame_rules]: "tame k advance"
proof (rule tameI)
  fix l a l' assume l: "ok l" "known k l" and r: "run_state advance l = (a, l')"
  show "ok l' \<and> extends l l'" using l r by (auto simp: ok_def extends_def split: if_splits)
  fix s' assume tr: "trackReads l" and ag: "agree_upto (readLimit l') (src l) s'"
  have "pos l < readLimit l'" using r tr by (auto split: if_splits)
  with agree_upto_length [OF ag] agree_upto_nth [OF ag]
  have "(pos l < length s') = (pos l < length (src l))" "s' ! pos l = src l ! pos l" by auto
  with r show "run_state advance (l\<lparr>src := s'\<rparr>) = (a, l'\<lparr>src := s'\<rparr>)" by (auto split: if_splits)
qed

lemma tame_advanceN [tame_rules]: "tame k (advanceN n)"
  by (induction n) (auto intro: tame_rules tame_bind)

lemma tame_advanceRune [tame_rules]: "tame k advanceRune"
  unfolding advanceRune_def by (rule tame_first tame_rules tame_last | simp)+

lemma tame_matchByte [tame_rules]: "tame k (matchByte c)"
  unfolding matchByte_def by (rule tame_first tame_rules tame_last | simp)+

lemma tame_orElse [tame_rules]: "tame k a \<Longrightarrow> tame k b \<Longrightarrow> tame k (orElse c a b)"
  unfolding orElse_def by (rule tame_first tame_rules tame_last | assumption)+

lemma moves_matchByte [moves_rules]: "moves False (matchByte c)"
  unfolding matchByte_def by (rule moves_weaken, (rule moves_rules)+, simp)

lemma moves_finish [moves_rules]: "moves False (finishToken t)" "moves False (emit a b c)"
  "moves False (reportErrorAt p m)" "moves False (reportSince p m)"
  by (auto simp: moves_def emit_def finishToken_def reportErrorAt_def reportSince_def curPos_def)

lemma moves_orElse [moves_rules]: "moves a m \<Longrightarrow> moves b n \<Longrightarrow> moves False (orElse c m n)"
  unfolding orElse_def by (rule moves_weaken, (rule moves_rules | assumption)+, simp)

text \<open>\<^verbatim>\<open>advanceRune\<close> consumes the whole rune it peeked at.\<close>

lemma moves_advanceRune [moves_rules]: "moves True advanceRune"
proof -
  have pos: "0 < snd (fst (run_state peekRune l))" if "pos l < length (src l)" for l
  proof -
    let ?b = "take (min (length (src l)) (pos l + UTFMax) - pos l) (drop (pos l) (src l))"
    have "?b \<noteq> []" using that by (simp add: UTFMax_def)
    from decodeRune_size(3) [OF this] that show ?thesis
      by (auto simp: peekRune_def runeBytes_def split: prod.split)
  qed
  have pk: "moves False peekRune" by (rule moves_rules)
  have "pos l < pos (snd (run_state advanceRune l))" if l: "pos l < length (src l)" for l
  proof -
    obtain r n l1 where r: "run_state peekRune l = ((r, n), l1)" by (metis prod.collapse)
    from pos [OF l] r have "0 < n" by simp
    from r pk l have "pos l \<le> pos l1" "src l1 = src l" unfolding moves_def by (metis snd_conv)+
    with \<open>0 < n\<close> moves_advanceN [of n] l show ?thesis
      unfolding advanceRune_def moves_def
      by (auto simp: r split: prod.split) (metis le_less_trans not_le_imp_less order_less_le_trans snd_conv)
  qed
  moreover have any: "moves False (advanceN n)" for n
    by (rule moves_weaken [OF moves_advanceN]) simp
  have "moves False advanceRune"
    unfolding advanceRune_def by (rule moves_weaken, (rule any moves_rules)+, simp)
  ultimately show ?thesis by (auto simp: moves_def)
qed

lemma skipWhile_tame [tame_rules]: "tame k (skipWhile P)"
  unfolding skipWhile_def whileM_def
  by (rule tame_cursor_loop, (rule tame_first tame_rules tame_last)+,
      rule goes_weaken, (rule goes_rules moves_rules)+, simp, (rule stops_rules)+)

lemma moves_skipWhile [moves_rules]: "moves False (skipWhile P)"
  unfolding skipWhile_def by (rule moves_rules)+

lemma moves_skipLineComment [moves_rules]: "moves False skipLineComment"
  unfolding skipLineComment_def by (rule moves_rules)

lemma tame_skipLineComment [tame_rules]: "tame k skipLineComment"
  unfolding skipLineComment_def by (rule tame_rules)

lemma tame_isBlockCommentStart [tame_rules]: "tame k isBlockCommentStart"
  unfolding isBlockCommentStart_def by (rule tame_first tame_rules tame_last | simp)+

lemma tame_skipBlockComment [tame_rules]: "tame k skipBlockComment"
  unfolding skipBlockComment_def
  by (rule tame_bind, rule tame_rules, rule tame_cursor_loop, (rule tame_first tame_rules tame_last)+,
      rule goes_weaken, (rule goes_rules moves_rules)+, simp, (rule stops_rules)+)

lemma moves_skipBlockComment [moves_rules]: "moves True skipBlockComment"
  unfolding skipBlockComment_def
  by (rule moves_weaken, (rule moves_rules moves_loop goes_rules)+, simp)


subsection \<open>Scans that only look\<close>

lemma scanWhile_spec:
  assumes "j \<le> k"
  shows "tame k (scanWhile P j) \<and> yields k (scanWhile P j) (\<lambda>j'. j') (\<lambda>j'. j \<le> j')"
  unfolding scanWhile_def
proof (rule loop_tame)
  fix v assume "j \<le> v"
  show "tame (max k v) (byteIs v P \<bind> (\<lambda>t. ret (if t then (True, v + 1) else (False, v))))"
    by (rule tame_rules tame_last)+
  show "yields (max k v) (byteIs v P \<bind> (\<lambda>t. ret (if t then (True, v + 1) else (False, v))))
      (\<lambda>r. snd r) (\<lambda>r. j \<le> snd r)"
    using \<open>j \<le> v\<close> by (auto simp: yields_def known_def split: if_splits)
qed (use assms in \<open>auto split: if_splits\<close>)

text \<open>Running a scan, then a continuation that may use the bytes scanned.\<close>

lemma tame_scan:
  assumes "j \<le> k" and "\<And>j'. j \<le> j' \<Longrightarrow> tame (max k j') (f j')"
  shows "tame k (scanWhile P j \<bind> f)"
  using tame_bind_yields [OF conjunct1 [OF scanWhile_spec] conjunct2 [OF scanWhile_spec]] assms by blast

lemma scanNumber_spec:
  assumes "j \<le> k"
  shows "tame k (scanNumber j) \<and> yields k (scanNumber j) snd (\<lambda>r. j \<le> snd r)"
  unfolding scanNumber_def
proof (rule loop_tame)
  fix v :: "int \<times> nat" assume v: "j \<le> snd v"
  let ?step = "case v of (num, j) \<Rightarrow> sourceHas j \<bind> (\<lambda>h. if h then sourceByte j \<bind> (\<lambda>ch. if isDigit ch
     then ret (True, (int64 (int64 (num * 10) + int (byteVal ch - 48)), j + 1)) else ret (False, (num, j)))
     else ret (False, (num, j)))"
  show "tame (max k (snd v)) ?step" by (cases v) (simp, (rule tame_first tame_rules tame_last | simp)+)
  show "yields (max k (snd v)) ?step (\<lambda>r. snd (snd r)) (\<lambda>r. j \<le> snd (snd r))"
    using v by (cases v) (auto simp: yields_def known_def)
  fix l v' l' assume "run_state ?step l = ((True, v'), l')"
  then show "(case v' of (num, j) \<Rightarrow> \<lambda>l. length (src l) - j) l' < (case v of (num, j) \<Rightarrow> \<lambda>l. length (src l) - j) l"
    by (cases v) (auto split: if_splits)
qed (use assms in auto)

lemma trimRight_spec:
  assumes "a \<le> e" "e \<le> k"
  shows "tame k (trimRight a e) \<and> yields k (trimRight a e) (\<lambda>e'. e') (\<lambda>e'. a \<le> e' \<and> e' \<le> k)"
  unfolding trimRight_def
proof (rule loop_tame)
  fix v assume v: "a \<le> v \<and> v \<le> k"
  let ?step = "if a < v then sourceByte (v - 1) \<bind> (\<lambda>ch. ret (if isBlank ch \<or> ch = CHR 0x0D then (True, v - 1) else (False, v)))
     else ret (False, v)"
  show "tame (max k v) ?step" using v by (auto intro!: tame_bind tame_sourceByte tame_rules)
  show "yields (max k v) ?step (\<lambda>r. snd r) (\<lambda>r. a \<le> snd r \<and> snd r \<le> k)"
    using v by (auto simp: yields_def known_def split: if_splits)
  fix l v' l' assume "known (max k v) l" "run_state ?step l = ((True, v'), l')"
  then show "v' < v" using v by (auto simp: known_def split: if_splits)
qed (use assms in auto)

lemma tame_matchBytes: "i + length cs \<le> k \<Longrightarrow> tame k (matchBytes i cs)"
  by (induction cs arbitrary: i) (auto intro!: tame_bind tame_if tame_sourceByte tame_rules)

lemma tame_bind_spec:
  "tame k m \<and> yields k m K Q \<Longrightarrow> (\<And>a. Q a \<Longrightarrow> tame (max k (K a)) (f a)) \<Longrightarrow> tame k (m \<bind> f)"
  using tame_bind_yields by blast

text \<open>Moving the cursor to a place already seen.\<close>

lemma tame_jump:
  assumes "j \<le> k"
  shows "tame k (modify (\<lambda>l. l\<lparr>pos := j, line := a, lineEpoch := lineEpoch l + 1, col := b, filename := c,
    atLineStart := d\<rparr>))"
  by (rule tame_modify) (use assms in \<open>auto simp: ok_def known_def\<close>)


lemma byteIs_spec: "tame k (byteIs j P) \<and> yields k (byteIs j P) (\<lambda>b. if b then j + 1 else 0) (\<lambda>_. True)"
  by (auto simp: yields_def known_def intro: tame_rules)

lemma tame_tryConsumeLineDirective [tame_rules]: "tame k tryConsumeLineDirective"
proof -
  have fin: "tame k (byteIs j (\<lambda>ch. ch = CHR 0x0A) \<bind> (\<lambda>nl. modify (\<lambda>l. l\<lparr>pos := (if nl then j + 1 else j),
      line := num, lineEpoch := lineEpoch l + 1, col := 1, filename := name, atLineStart := True\<rparr>) \<bind>
      (\<lambda>_. ret True)))" if "j \<le> k" for k j num name
    by (rule tame_bind_spec [OF byteIs_spec], rule tame_bind, rule tame_jump, use that in simp, rule tame_rules)
  have forget: "tame k m \<and> yields k m K Q \<Longrightarrow> (\<And>a. Q a \<Longrightarrow> tame (K a) (f a)) \<Longrightarrow> tame k (m \<bind> f)"
    for k K Q and m :: "'x lex" and f :: "'x \<Rightarrow> bool lex"
    using tame_bind_spec [of k m K Q f] tame_more by (metis max.cobounded2)
  have has: "tame (i + 1) t \<Longrightarrow> tame 0 f \<Longrightarrow> tame 0 (sourceHas i \<bind> (\<lambda>h. if \<not> h then f else t))"
    for i and t f :: "bool lex"
    using tame_has_not [of 0 i t f] by simp
  have forgetn: "(\<And>n j'. j \<le> j' \<Longrightarrow> tame j' (f (n, j'))) \<Longrightarrow> tame j (scanNumber j \<bind> f)"
    for j and f :: "int \<times> nat \<Rightarrow> bool lex"
    by (rule forget [OF scanNumber_spec]) auto
  have "tame 0 tryConsumeLineDirective"
    unfolding tryConsumeLineDirective_def Let_def
    apply (rule tame_bind, rule tame_gets, simp, rule has)
     apply (rule tame_bind, rule tame_matchBytes, simp)
     apply (rule tame_if, rule tame_rules, rule tame_bind, rule tame_rules, rule tame_if, rule tame_rules)
     apply (rule forget [OF scanWhile_spec], simp)
     apply (rule forgetn, simp only: prod.case, rule tame_if, rule tame_rules)
     apply (rule forget [OF scanWhile_spec], rule order_refl)
     apply (rule forget [OF scanWhile_spec], rule order_refl)
     apply (rule tame_bind_spec [OF trimRight_spec], assumption, rule order_refl)
     apply (rule tame_if, rule tame_rules)
     apply (rule tame_bind, rule tame_sourceSlice, simp, simp)
     apply (rule fin, simp)
    apply (rule tame_rules)
    done
  then show ?thesis by (rule tame_more) simp
qed

subsection \<open>Looking without moving\<close>

definition still :: "'a lex \<Rightarrow> bool" where
  "still m \<longleftrightarrow> (\<forall>l. src (snd (run_state m l)) = src l \<and> pos (snd (run_state m l)) = pos l)"

named_theorems still_rules "computations that leave the cursor where it is"

lemma still_bind [still_rules]:
  assumes "still m" and "\<And>a. still (f a)" shows "still (m \<bind> f)"
  unfolding still_def
proof
  fix l
  obtain a l1 where r: "run_state m l = (a, l1)" by force
  with assms(1) [unfolded still_def, rule_format, of l] assms(2) [of a, unfolded still_def, rule_format, of l1]
  show "src (snd (run_state (m \<bind> f) l)) = src l \<and> pos (snd (run_state (m \<bind> f) l)) = pos l" by simp
qed

lemma still_basic [still_rules]: "still (ret x)" "still (gets f)" "still (noteRead n)" "still (sourceHas i)"
  "still (sourceByte i)" "still (sourceSlice i j)" "still (runeBytes i)" "still currentIndent" "still curPos"
  "still (byteIs j P)" "still peek" "still (peekIs P)" "still atEnd"
  by (auto simp: still_def sourceByte_def sourceSlice_def runeBytes_def currentIndent_def curPos_def)

lemma still_modify: "(\<And>l. src (f l) = src l \<and> pos (f l) = pos l) \<Longrightarrow> still (modify f)"
  by (simp add: still_def)

lemma still_if [still_rules]: "still m \<Longrightarrow> still n \<Longrightarrow> still (if c then m else n)"
  by simp

lemma still_prod [still_rules]: "(\<And>x y. still (f x y)) \<Longrightarrow> still (case p of (x, y) \<Rightarrow> f x y)"
  by (cases p) simp

lemma still_loop [still_rules]:
  assumes "\<And>v. still (step v)" shows "still (loopM meas step v)"
  unfolding still_def
proof
  fix l
  show "src (snd (run_state (loopM meas step v) l)) = src l \<and> pos (snd (run_state (loopM meas step v) l)) = pos l"
    by (rule loop_rel) (use assms in \<open>auto simp: still_def\<close>)
qed

lemma still_moves: "still m \<Longrightarrow> moves False m"
  by (simp add: still_def moves_def)

lemma still_scans [still_rules]: "still (scanWhile P j)" "still (scanNumber j)" "still (trimRight a e)"
  "still (matchBytes i cs)"
proof -
  show "still (scanWhile P j)" "still (scanNumber j)" "still (trimRight a e)"
    unfolding scanWhile_def scanNumber_def trimRight_def by (rule still_rules)+
  show "still (matchBytes i cs)" by (induction cs arbitrary: i) (auto intro!: still_rules)
qed

text \<open>A loop's local variables follow any reflexive order its rounds follow.\<close>

lemma loop_value:
  assumes "\<And>v l. R v (snd (fst (run_state (step v) l)))" and "\<And>a b c. R a b \<Longrightarrow> R b c \<Longrightarrow> R a c"
  shows "R v (fst (run_state (loopM meas step v) l))"
proof -
  have "R v (fst (loopL meas step v l))"
    using assms
  proof (induction meas step v l rule: loopL.induct)
    case (1 meas step v l)
    obtain again v' l' where r: "run_state (step v) l = ((again, v'), l')" by (metis prod.collapse)
    from "1.prems"(1) [of v l] r have one: "R v v'" by simp
    show ?case
    proof (cases "again \<and> meas v' l' < meas v l")
      case True
      then have "\<not> \<not> again" "meas v' l' < meas v l" by simp_all
      from "1.IH" [OF r [symmetric] refl this "1.prems"] one "1.prems"(2) True r show ?thesis
        by (subst loopL.simps) simp
    next
      case False
      with one r show ?thesis by (subst loopL.simps) auto
    qed
  qed
  then show ?thesis by (simp add: loopM_def)
qed

lemma scanWhile_ge: "j \<le> fst (run_state (scanWhile P j) l)"
  unfolding scanWhile_def by (rule loop_value) (auto split: if_splits)

lemma scanNumber_ge: "j \<le> snd (fst (run_state (scanNumber j) l))"
proof -
  have "snd (0 :: int, j) \<le> snd (fst (run_state (scanNumber j) l))"
    unfolding scanNumber_def
    by (rule loop_value [where R = "\<lambda>a b. snd a \<le> snd b"]) (auto split: prod.split)
  then show ?thesis by simp
qed

definition directive :: "nat \<Rightarrow> bool lex \<Rightarrow> bool" where
  "directive p m \<longleftrightarrow> (\<forall>l. pos l = p \<longrightarrow> src (snd (run_state m l)) = src l \<and>
     (if fst (run_state m l) then p < pos (snd (run_state m l)) else pos (snd (run_state m l)) = p))"

lemma directive_no: "directive p (ret False)"
  by (simp add: directive_def)

lemma directive_bind:
  assumes m: "still m" and V: "\<And>l. V (fst (run_state m l))" and f: "\<And>a. V a \<Longrightarrow> directive p (f a)"
  shows "directive p (m \<bind> f)"
  unfolding directive_def
proof (intro allI impI)
  fix l :: Lexer assume "pos l = p"
  obtain a l1 where r: "run_state m l = (a, l1)" by force
  with V [of l] have "V a" by simp
  with r m [unfolded still_def, rule_format, of l] f [of a, unfolded directive_def, rule_format, of l1] \<open>pos l = p\<close>
  show "src (snd (run_state (m \<bind> f) l)) = src l \<and> (if fst (run_state (m \<bind> f) l)
     then p < pos (snd (run_state (m \<bind> f) l)) else pos (snd (run_state (m \<bind> f) l)) = p)" by simp
qed

lemmas directive_skip = directive_bind [where V = "\<lambda>_. True", OF _ TrueI]

lemma directive_scan: "(\<And>j'. j \<le> j' \<Longrightarrow> directive p (f j')) \<Longrightarrow> directive p (scanWhile P j \<bind> f)"
  by (rule directive_bind [where V = "\<lambda>j'. j \<le> j'"]) (auto intro: still_rules scanWhile_ge)

lemma directive_number:
  "(\<And>n j'. j \<le> j' \<Longrightarrow> directive p (f (n, j'))) \<Longrightarrow> directive p (scanNumber j \<bind> f)"
  by (rule directive_bind [where V = "\<lambda>r. j \<le> snd r"]) (auto intro: still_rules scanNumber_ge)

lemma directive_if: "directive p m \<Longrightarrow> directive p n \<Longrightarrow> directive p (if c then m else n)"
  by simp

lemma directive_tryConsume: "directive p tryConsumeLineDirective"
proof -
  have gp: "directive p (f p) \<Longrightarrow> directive p (gets pos \<bind> f)" for f by (simp add: directive_def)
  show ?thesis
    unfolding tryConsumeLineDirective_def Let_def
    apply (rule gp, rule directive_skip, rule still_rules, rule directive_if, rule directive_no)
    apply (rule directive_skip, rule still_rules, rule directive_if, rule directive_no)
    apply (rule directive_skip, rule still_rules, rule directive_if, rule directive_no)
    apply (rule directive_scan, rule directive_number, simp only: prod.case, rule directive_if, rule directive_no)
    apply (rule directive_scan, rule directive_scan)
    apply (rule directive_skip, rule still_rules, rule directive_if, rule directive_no)
    apply (rule directive_skip, rule still_rules)
    apply (rule directive_skip, rule still_rules)
    apply (auto simp: directive_def)
    done
qed

lemma moves_tryConsume [moves_rules]: "moves False tryConsumeLineDirective"
  unfolding moves_def
proof (intro allI conjI impI)
  fix l
  from directive_tryConsume [of "pos l"]
  have "src (snd (run_state tryConsumeLineDirective l)) = src l \<and> (if fst (run_state tryConsumeLineDirective l)
     then pos l < pos (snd (run_state tryConsumeLineDirective l)) else pos (snd (run_state tryConsumeLineDirective l)) = pos l)"
    unfolding directive_def by blast
  then show "src (snd (run_state tryConsumeLineDirective l)) = src l"
    "pos l \<le> pos (snd (run_state tryConsumeLineDirective l))" by (auto split: if_splits)
qed simp

end
