(* ===== verification/LexerSafeNext.thy ===== *)
theory LexerSafeNext
  imports LexerSafe
begin

text \<open>
  The facts of \<open>LexerSafe\<close> for indentation, literals, identifiers, operators and
  \<^verbatim>\<open>NextToken\<close>.
\<close>

subsection \<open>Indentation\<close>

lemma tame_measureIndent [tame_rules]: "tame k measureIndent"
  unfolding measureIndent_def
  by (rule tame_cursor_loop, (rule tame_first tame_rules tame_last)+,
      rule goes_weaken, (rule goes_rules moves_rules)+, simp, (rule stops_rules)+)

lemma moves_measureIndent [moves_rules]: "moves False measureIndent"
  unfolding measureIndent_def by (rule moves_loop, (rule goes_rules moves_rules)+)

lemma tame_skipNewlines [tame_rules]: "tame k skipNewlines"
  unfolding skipNewlines_def by (rule tame_first tame_rules tame_last)+

lemma moves_skipNewlines [moves_rules]: "moves False skipNewlines"
  unfolding skipNewlines_def by (rule moves_weaken, (rule moves_rules)+, simp)

lemma tame_flag [tame_rules]: "tame k (modify (\<lambda>l. l\<lparr>atLineStart := b\<rparr>))"
  by (rule tame_modify) (auto simp: ok_def)

lemma moves_flag [moves_rules]: "moves False (modify (\<lambda>l. l\<lparr>atLineStart := b\<rparr>))"
  by (rule moves_modify) simp

text \<open>A comment line is consumed: its \<^verbatim>\<open>#\<close> is not a newline.\<close>

lemma skipWhile_first:
  assumes "pos l < length (src l)" and "P (src l ! pos l)"
  shows "pos l < pos (snd (run_state (skipWhile P) l))"
proof -
  let ?c = "peekIs P" and ?b = "advance \<bind> (\<lambda>_. ret ())"
  let ?step = "\<lambda>_ :: unit. ?c \<bind> (\<lambda>t. if t then ?b \<bind> (\<lambda>_. ret (True, ())) else ret (False, ()))"
  let ?l1 = "stepped (src l ! pos l) (noted (pos l + 1) l)"
  have "run_state (?step ()) l = ((True, ()), ?l1)" using assms by simp
  moreover have "remaining ?l1 < remaining l" using assms by (simp add: remaining_def)
  ultimately have "loopL (\<lambda>_. remaining) ?step () l = loopL (\<lambda>_. remaining) ?step () ?l1"
    by (subst loopL.simps) simp
  moreover have "pos ?l1 \<le> pos (snd (run_state (skipWhile P) ?l1))"
    using moves_skipWhile [of P] unfolding moves_def by blast
  ultimately show ?thesis by (simp add: skipWhile_def whileM_def loopM_def)
qed

text \<open>Computations that consume a byte when the next one is \<open>c\<close>.\<close>

definition eatsAt :: "byte \<Rightarrow> 'a lex \<Rightarrow> bool" where
  "eatsAt c m \<longleftrightarrow> moves False m \<and>
     (\<forall>l. pos l < length (src l) \<longrightarrow> src l ! pos l = c \<longrightarrow> pos l < pos (snd (run_state m l)))"

lemma moves_eatsAt: "moves b m \<Longrightarrow> b \<Longrightarrow> eatsAt c m"
  by (simp add: moves_def eatsAt_def)

lemma eatsAt_bind:
  assumes m: "eatsAt c m" and f: "\<And>a. moves False (f a)" shows "eatsAt c (m \<bind> f)"
proof -
  have "pos l < pos (snd (run_state (m \<bind> f) l))" if l: "pos l < length (src l)" "src l ! pos l = c" for l
  proof -
    obtain a l1 where r: "run_state m l = (a, l1)" by force
    with m l have "pos l < pos l1" by (auto simp: eatsAt_def)
    also have "\<dots> \<le> pos (snd (run_state (f a) l1))" using f unfolding moves_def by blast
    finally show ?thesis by (simp add: r)
  qed
  moreover have "moves False (m \<bind> f)"
    using moves_bind [of False m False f] m f by (simp add: eatsAt_def)
  ultimately show ?thesis by (simp add: eatsAt_def)
qed

lemma eatsAt_skipWhile: "P c \<Longrightarrow> eatsAt c (skipWhile P)"
  unfolding eatsAt_def using moves_skipWhile skipWhile_first by metis

lemma eatsAt_comment: "eatsAt (CHR ''#'') skipLineComment"
  unfolding skipLineComment_def by (rule eatsAt_skipWhile) simp

lemma eatsAt_directive:
  assumes A: "moves False A" and B: "eatsAt c B"
  shows "eatsAt c ((if z then tryConsumeLineDirective else ret False) \<bind> (\<lambda>d. if d then A else B))"
proof -
  have "pos l < pos (snd (run_state ((if z then tryConsumeLineDirective else ret False) \<bind> (\<lambda>d. if d then A else B)) l))"
    if l: "pos l < length (src l)" "src l ! pos l = c" for l
  proof -
    obtain d l1 where r: "run_state (if z then tryConsumeLineDirective else ret False) l = (d, l1)" by force
    have d: "src l1 = src l" "if d then pos l < pos l1 else pos l1 = pos l"
      using directive_tryConsume [of "pos l"] r unfolding directive_def by (auto split: if_splits)
    show ?thesis
    proof (cases d)
      case True
      with d A have "pos l < pos (snd (run_state A l1))" unfolding moves_def by (auto intro: order_less_le_trans)
      with True r show ?thesis by simp
    next
      case False
      with d l B have "pos l < pos (snd (run_state B l1))" unfolding eatsAt_def by metis
      with False r show ?thesis by simp
    qed
  qed
  moreover have B': "moves False B" using B by (simp add: eatsAt_def)
  have "moves False ((if z then tryConsumeLineDirective else ret False) \<bind> (\<lambda>d. if d then A else B))"
    by (rule moves_weaken, (rule A B' moves_rules)+, simp)
  ultimately show ?thesis by (simp add: eatsAt_def)
qed

text \<open>Peeking at a byte, then consuming it.\<close>

lemma goes_peek:
  assumes A: "eatsAt c A" and B: "goes True B"
  shows "goes True (peek \<bind> (\<lambda>ch. if ch = c then A else B))"
proof -
  have "src (snd (run_state A l)) = src l \<and> pos l \<le> pos (snd (run_state A l))" for l
    using A by (simp add: eatsAt_def moves_def)
  moreover have "pos l < pos (snd (run_state A (noted n l)))" if "pos l < length (src l)" "src l ! pos l = c" for l n
    using A that unfolding eatsAt_def by (metis noted_sel(1,2))
  ultimately show ?thesis using B unfolding goes_def
    by (auto simp: split: if_splits) (metis noted_sel(1,2))+
qed

lemma tame_skipCommentLines [tame_rules]: "tame k (skipCommentLines i)"
  unfolding skipCommentLines_def
  apply (rule tame_loop)
    apply (rule tame_first tame_rules tame_last)+
   apply (rule goes_prod, rule goes_weaken, rule goes_bind, rule moves_rules, rule goes_bind, rule moves_rules)
    apply (rule goes_if, rule goes_bind, rule moves_rules, rule goes_stop, rule goes_peek)
     apply (rule eatsAt_directive, rule moves_weaken, (rule moves_rules)+, simp)
     apply (rule eatsAt_bind, rule eatsAt_comment, rule moves_weaken, (rule moves_rules)+, simp)
    apply (rule goes_weaken, (rule goes_rules moves_rules)+, simp)
   apply simp
  apply (auto simp: remaining_def split: prod.splits)
  done


lemma moves_skipCommentLines [moves_rules]: "moves False (skipCommentLines i)"
proof -
  have "moves False (modify (\<lambda>l. l\<lparr>atLineStart := False\<rparr>))" by (rule moves_rules)
  then show ?thesis
    unfolding skipCommentLines_def by - (rule moves_loop, (rule goes_rules moves_rules)+)
qed

text \<open>A computation that does not look at the source at all.\<close>

lemma tame_blind:
  assumes "\<And>l s. run_state m (l\<lparr>src := s\<rparr>) = apsnd (\<lambda>l'. l'\<lparr>src := s\<rparr>) (run_state m l)"
    and "\<And>l. ok l \<Longrightarrow> ok (snd (run_state m l)) \<and> extends l (snd (run_state m l))"
  shows "tame k m"
proof (rule tameI)
  fix l a l' s' assume "ok l" and r: "run_state m l = (a, l')"
  with assms(2) [of l] show "ok l' \<and> extends l l'" by simp
  from r show "run_state m (l\<lparr>src := s'\<rparr>) = (a, l'\<lparr>src := s'\<rparr>)" by (simp add: assms(1))
qed

lemma run_pushLayout: "run_state (pushLayout kind) l =
  ((), l\<lparr>pendingToks := pendingToks l @ [fst (run_state (curPos \<bind> (\<lambda>p. finishToken (mkToken kind [] p))) l)]\<rparr>)"
  by (simp add: pushLayout_def finishToken_def curPos_def)

lemma tame_pushLayout [tame_rules]: "tame k (pushLayout kind)"
  by (rule tame_blind) (simp_all add: run_pushLayout finishToken_def curPos_def ok_def extends_def)

lemma still_pushLayout [still_rules]: "still (pushLayout kind)"
  by (simp add: still_def run_pushLayout)

lemma tame_pushIndent [tame_rules]: "tame k (pushIndent i)"
  unfolding pushIndent_def
  by (rule tame_bind, rule tame_modify) (auto simp: ok_def intro: tame_rules)

lemma still_pushIndent [still_rules]: "still (pushIndent i)"
  unfolding pushIndent_def by (rule still_bind, rule still_modify, simp, rule still_rules)

lemma popIndents_spec: "tame k (popIndents i) \<and> still (popIndents i)"
proof
  let ?step = "\<lambda>_ :: unit. gets indentStack \<bind> (\<lambda>stack. if length stack > 1 \<and> last stack > i then
      modify (\<lambda>l. l\<lparr>indentStack := butlast (indentStack l)\<rparr>) \<bind> (\<lambda>_. pushLayout TOKEN_DEDENT \<bind> (\<lambda>_. ret (True, ())))
      else ret (False, ()))"
  show "tame k (popIndents i)"
    unfolding popIndents_def
  proof (rule conjunct1 [OF loop_tame [where J = "\<lambda>_. True" and K = "\<lambda>_. 0"]])
    fix v :: unit
    show "tame (max k 0) (?step v)"
    proof (rule tame_blind)
      show "ok l \<Longrightarrow> ok (snd (run_state (?step v) l)) \<and> extends l (snd (run_state (?step v) l))" for l
        by (cases "indentStack l") (auto simp: run_pushLayout ok_def extends_def)
    qed (simp add: run_pushLayout finishToken_def curPos_def)
    fix l v' l' assume "run_state (?step v) l = ((True, v'), l')"
    then show "length (indentStack l') < length (indentStack l)" by (auto simp: run_pushLayout split: if_splits)
  qed (auto simp: yields_def known_def)
  show "still (popIndents i)"
    unfolding popIndents_def by (rule still_rules still_modify | simp)+
qed

lemma tame_applyIndent [tame_rules]: "tame k (applyIndent i)"
  unfolding applyIndent_def
  by (rule conjunct1 [OF popIndents_spec] tame_rules tame_last)+

lemma still_applyIndent [still_rules]: "still (applyIndent i)"
  unfolding applyIndent_def by (rule conjunct2 [OF popIndents_spec] still_rules)+

lemma tame_handleIndentation [tame_rules]: "tame k handleIndentation"
proof -
  have "groupedIndent (l\<lparr>src := s\<rparr>) i = groupedIndent l i" for l s i
    by (simp add: groupedIndent_def activeGroupedBlockContext_def)
  then have g: "tame k (gets (\<lambda>l. groupedIndent l i))" for k i by (rule tame_gets)
  show ?thesis unfolding handleIndentation_def by (rule g tame_rules tame_last)+
qed

lemma moves_handleIndentation [moves_rules]: "moves False handleIndentation"
  unfolding handleIndentation_def
  by (rule moves_weaken, (rule moves_rules still_moves still_applyIndent)+, simp)

lemma trimFinished_spec: "tame k trimFinishedGroupedBlockContexts \<and> still trimFinishedGroupedBlockContexts"
proof
  let ?step = "\<lambda>_ :: unit. gets groupedBlockContexts \<bind> (\<lambda>contexts. if contexts = [] then ret (False, ())
      else currentIndent \<bind> (\<lambda>current. if current > gb_BaseIndent (last contexts) then ret (False, ())
      else modify (\<lambda>l. l\<lparr>groupedBlockContexts := butlast (groupedBlockContexts l)\<rparr>) \<bind> (\<lambda>_. ret (True, ()))))"
  show "tame k trimFinishedGroupedBlockContexts"
    unfolding trimFinishedGroupedBlockContexts_def
  proof (rule conjunct1 [OF loop_tame [where J = "\<lambda>_. True" and K = "\<lambda>_. 0"]])
    fix v :: unit
    show "tame (max k 0) (?step v)"
      by (rule tame_blind) (auto simp: currentIndent_def ok_def extends_def)
    fix l v' l' assume "run_state (?step v) l = ((True, v'), l')"
    then show "length (groupedBlockContexts l') < length (groupedBlockContexts l)"
      by (auto simp: currentIndent_def split: if_splits)
  qed (auto simp: yields_def known_def)
  show "still trimFinishedGroupedBlockContexts"
    unfolding trimFinishedGroupedBlockContexts_def by (rule still_rules still_modify | simp)+
qed


subsection \<open>Literals\<close>

lemma tame_readHexLoop [tame_rules]: "tame k (readHexLoop n v)"
proof (induction n arbitrary: v)
  case (Suc n)
  show ?case unfolding readHexLoop.simps by (rule Suc.IH tame_rules tame_last)+
qed (simp add: tame_rules)

lemma moves_readHexLoop [moves_rules]: "moves False (readHexLoop n v)"
proof (induction n arbitrary: v)
  case (Suc n)
  show ?case unfolding readHexLoop.simps by (rule moves_weaken, (rule Suc.IH moves_rules)+, simp)
qed (simp add: moves_rules)

lemma tame_readFixedHexDigits [tame_rules]: "tame k (readFixedHexDigits n)"
  unfolding readFixedHexDigits_def by (rule tame_rules)

lemma moves_readFixedHexDigits [moves_rules]: "moves False (readFixedHexDigits n)"
  unfolding readFixedHexDigits_def by (rule moves_rules)

lemma tame_readUnicodeEscape [tame_rules]: "tame k (readUnicodeEscape lit p d)"
  unfolding readUnicodeEscape_def by (rule tame_rules tame_last)+

lemma moves_readUnicodeEscape [moves_rules]: "moves False (readUnicodeEscape lit p d)"
  unfolding readUnicodeEscape_def by (rule moves_weaken, (rule moves_rules)+, simp)

lemma tame_readEscape [tame_rules]: "tame k (readEscape c lit p e d)"
  unfolding readEscape_def Let_def by (rule tame_rules tame_last)+

lemma moves_readEscape [moves_rules]: "moves False (readEscape c lit p e d)"
  unfolding readEscape_def Let_def by (rule moves_weaken, (rule moves_rules)+, simp)

lemma tame_readString [tame_rules]: "tame k readString"
  unfolding readString_def
  by (rule tame_bind, rule tame_rules, rule tame_bind, rule tame_rules, rule tame_bind, rule tame_cursor_loop,
      (rule tame_rules tame_last)+, rule goes_weaken, (rule goes_rules moves_rules)+, simp, (rule stops_rules)+,
      (rule tame_rules tame_last)+)

lemma moves_readString [moves_rules]: "moves True readString"
  unfolding readString_def
  by (rule moves_weaken, (rule moves_rules moves_loop goes_rules)+, simp)

lemma tame_readChar [tame_rules]: "tame k readChar"
  unfolding readChar_def
  by (rule tame_bind, rule tame_rules, rule tame_bind, rule tame_rules, rule tame_bind, rule tame_cursor_loop,
      (rule tame_rules tame_last)+, rule goes_weaken, (rule goes_rules moves_rules)+, simp, (rule stops_rules)+,
      (rule tame_rules tame_last)+)

lemma moves_readChar [moves_rules]: "moves True readChar"
  unfolding readChar_def
  by (rule moves_weaken, (rule moves_rules moves_loop goes_rules)+, simp)

lemma tame_floats [tame_rules]: "tame k (hasFloatSuffixAt n)" "tame k shouldReadFloatFraction"
proof -
  show h: "tame k (hasFloatSuffixAt n)" for n unfolding hasFloatSuffixAt_def by (rule tame_rules tame_last)+
  show "tame k shouldReadFloatFraction" unfolding shouldReadFloatFraction_def by (rule h tame_rules tame_last)+
qed

lemma moves_floats [moves_rules]: "moves False (hasFloatSuffixAt n)" "moves False shouldReadFloatFraction"
proof -
  show h: "moves False (hasFloatSuffixAt n)" for n
    unfolding hasFloatSuffixAt_def by (rule moves_weaken, (rule moves_rules)+, simp)
  show "moves False shouldReadFloatFraction"
    unfolding shouldReadFloatFraction_def by (rule moves_weaken, (rule h moves_rules)+, simp)
qed

text \<open>Computations that stay at or after \<open>p\<close>; one of them goes back to it.\<close>

definition stays :: "nat \<Rightarrow> 'a lex \<Rightarrow> bool" where
  "stays p m \<longleftrightarrow> (\<forall>l. p \<le> pos l \<longrightarrow> src (snd (run_state m l)) = src l \<and> p \<le> pos (snd (run_state m l)))"

lemma stays_moves: "moves False m \<Longrightarrow> stays p m"
  unfolding moves_def stays_def using order_trans by blast

lemma stays_bind: "stays p m \<Longrightarrow> (\<And>a. stays p (f a)) \<Longrightarrow> stays p (m \<bind> f)"
  unfolding stays_def by (auto split: prod.split)

lemma moves_stays: "(\<And>p. stays p (f p)) \<Longrightarrow> moves False (gets pos \<bind> f)"
  by (auto simp: moves_def stays_def)

lemma moves_readTypeSuffix [moves_rules]: "moves False readTypeSuffix"
proof -
  have rewind: "stays p (modify (\<lambda>l. l\<lparr>pos := p, col := c l\<rparr>))" for p c by (simp add: stays_def)
  have case_opt: "stays p m \<Longrightarrow> (\<And>x. stays p (f x)) \<Longrightarrow> stays p (case o' of None \<Rightarrow> m | Some x \<Rightarrow> f x)"
    for p o' and m :: "'x lex" and f :: "'y \<Rightarrow> 'x lex" by (cases o') auto
  have main: "moves False (gets pos \<bind> (\<lambda>start. advance \<bind> (\<lambda>_. skipWhile (\<lambda>ch. isDigit ch \<or> isAlpha ch) \<bind> (\<lambda>_.
      gets pos \<bind> (\<lambda>stop. sourceSlice start stop \<bind> (\<lambda>suffix. case map_of suffixTable suffix of
        Some code \<Rightarrow> ret code
      | None \<Rightarrow> modify (\<lambda>l. l\<lparr>pos := start, col := col l - int (length suffix)\<rparr>) \<bind>
          (\<lambda>_. ret NumericSuffixNone)))))))"
    apply (rule moves_stays, rule stays_bind, rule stays_moves, rule moves_weaken [OF moves_advance], simp)
    apply (rule stays_bind, rule stays_moves, rule moves_rules)+
    apply (rule case_opt, rule stays_bind, rule rewind, (rule stays_moves, rule moves_rules)+)
    done
  show ?thesis
    unfolding readTypeSuffix_def by (rule moves_weaken, (rule main moves_rules)+, simp)
qed

text \<open>As \<open>tame\<close>, for states whose cursor is at \<open>lo\<close> or later: what a reader that started
  at \<open>lo\<close> may slice.\<close>

definition span :: "nat \<Rightarrow> nat \<Rightarrow> 'a lex \<Rightarrow> bool" where
  "span lo k m \<longleftrightarrow> (\<forall>l. ok l \<longrightarrow> known k l \<longrightarrow> lo \<le> pos l \<longrightarrow>
     (case run_state m l of (a, l') \<Rightarrow> ok l' \<and> extends l l' \<and>
        (trackReads l \<longrightarrow> (\<forall>s'. agree_upto (readLimit l') (src l) s' \<longrightarrow>
           run_state m (l\<lparr>src := s'\<rparr>) = (a, l'\<lparr>src := s'\<rparr>)))))"

lemma span_tame: "tame k m \<Longrightarrow> span lo k m"
  by (simp add: tame_def span_def)

lemma tame_span: "span 0 k m \<Longrightarrow> tame k m"
  by (simp add: tame_def span_def)

lemma spanD:
  assumes "span lo k m" "ok l" "known k l" "lo \<le> pos l" "run_state m l = (a, l')"
  shows "ok l'" "extends l l'" "known k l'"
    "trackReads l \<Longrightarrow> agree_upto (readLimit l') (src l) s' \<Longrightarrow>
       run_state m (l\<lparr>src := s'\<rparr>) = (a, l'\<lparr>src := s'\<rparr>)"
  using assms known_extends [of k l l'] unfolding span_def by auto

lemma spanI:
  assumes "\<And>l a l'. ok l \<Longrightarrow> known k l \<Longrightarrow> lo \<le> pos l \<Longrightarrow> run_state m l = (a, l') \<Longrightarrow> ok l' \<and> extends l l'"
    and "\<And>l a l' s'. ok l \<Longrightarrow> known k l \<Longrightarrow> lo \<le> pos l \<Longrightarrow> run_state m l = (a, l') \<Longrightarrow> trackReads l \<Longrightarrow>
      agree_upto (readLimit l') (src l) s' \<Longrightarrow> run_state m (l\<lparr>src := s'\<rparr>) = (a, l'\<lparr>src := s'\<rparr>)"
  shows "span lo k m"
  using assms unfolding span_def by (auto split: prod.split)

lemma span_seq:
  assumes m: "span lo k m" and mv: "moves b m" and f: "\<And>a. span lo k (f a)"
  shows "span lo k (m \<bind> f)"
proof (rule spanI)
  fix l c l2 assume l: "ok l" "known k l" "lo \<le> pos l" and r: "run_state (m \<bind> f) l = (c, l2)"
  obtain a l1 where r1: "run_state m l = (a, l1)" by force
  with r have r2: "run_state (f a) l1 = (c, l2)" by simp
  note t1 = spanD [OF m l r1]
  have "pos l \<le> pos l1" using mv r1 unfolding moves_def by (metis snd_conv)
  with l(3) have "lo \<le> pos l1" by simp
  note t2 = spanD [OF f t1(1,3) this r2]
  from t2 t1(2) show "ok l2 \<and> extends l l2" by (auto intro: extends_trans)
  fix s' assume tr: "trackReads l" and ag: "agree_upto (readLimit l2) (src l) s'"
  have "agree_upto (readLimit l1) (src l) s'"
    using agree_upto_mono [OF ag] t2(2) by (simp add: extends_def)
  from t1(4) [OF tr this] t2(4) tr ag t1(2) show "run_state (m \<bind> f) (l\<lparr>src := s'\<rparr>) = (c, l2\<lparr>src := s'\<rparr>)"
    by (simp add: extends_def)
qed

lemmas span_bind = span_seq [OF span_tame]

lemma span_start: "(\<And>p. span p (max k p) (f p)) \<Longrightarrow> tame k (gets pos \<bind> f)"
  unfolding span_def tame_def by (auto simp: ok_def known_def)

lemma span_stop: "(\<And>q. lo \<le> q \<Longrightarrow> tame (max k q) (f q)) \<Longrightarrow> span lo k (gets pos \<bind> f)"
  unfolding span_def tame_def by (auto simp: ok_def known_def)

lemma tame_readTypeSuffix [tame_rules]: "tame k readTypeSuffix"
proof -
  have rewind: "start \<le> k \<Longrightarrow> tame k (modify (\<lambda>l. l\<lparr>pos := start, col := c l\<rparr>))" if "\<And>l s. c (l\<lparr>src := s\<rparr>) = c l" for start c k
    by (rule tame_modify) (use that in \<open>auto simp: ok_def known_def\<close>)
  have "tame k (gets pos \<bind> (\<lambda>start. advance \<bind> (\<lambda>_. skipWhile (\<lambda>ch. isDigit ch \<or> isAlpha ch) \<bind> (\<lambda>_.
      gets pos \<bind> (\<lambda>stop. sourceSlice start stop \<bind> (\<lambda>suffix. case map_of suffixTable suffix of
        Some code \<Rightarrow> ret code
      | None \<Rightarrow> modify (\<lambda>l. l\<lparr>pos := start, col := col l - int (length suffix)\<rparr>) \<bind>
          (\<lambda>_. ret NumericSuffixNone)))))))" for k
    apply (rule span_start, rule span_bind, rule tame_rules, rule moves_rules, rule span_bind, rule tame_rules, rule moves_rules)
    apply (rule span_stop, rule tame_bind, rule tame_sourceSlice, simp, simp)
    apply (rule tame_option, rule tame_bind, rule rewind, simp, simp, (rule tame_rules)+)
    done
  then show ?thesis unfolding readTypeSuffix_def by - (rule tame_rules tame_if | assumption | rule tame_bind)+
qed


lemma tame_skipHexDigits [tame_rules]: "tame k (skipHexDigits start)"
proof -
  have sep: "tame k (gets pos \<bind> (\<lambda>p. (if ch = CHR ''_'' \<and> p > start + 2 then
        sourceByte (p - 1) \<bind> (\<lambda>before. if isHexDigit before then peekAt 1 \<bind> (\<lambda>after. ret (isHexDigit after))
          else ret False) else ret False) \<bind> f))" if f: "\<And>k b. tame k (f b)" for f :: "bool \<Rightarrow> (bool \<times> unit) lex" and k ch
  proof (rule tame_pos)
    fix p
    have "tame (max k p) (sourceByte (p - 1))" if "p > start + 2" by (rule tame_sourceByte) (use that in simp)
    then show "tame (max k p) ((if ch = CHR ''_'' \<and> p > start + 2 then
        sourceByte (p - 1) \<bind> (\<lambda>before. if isHexDigit before then peekAt 1 \<bind> (\<lambda>after. ret (isHexDigit after))
          else ret False) else ret False) \<bind> f)"
      by (auto intro!: tame_bind f tame_rules)
  qed
  show ?thesis
    unfolding skipHexDigits_def
    by (rule tame_cursor_loop, (rule sep tame_rules tame_last)+,
        rule goes_weaken, (rule goes_rules moves_rules)+, simp, (rule stops_rules)+)
qed

lemma moves_skipHexDigits [moves_rules]: "moves False (skipHexDigits start)"
  unfolding skipHexDigits_def by (rule moves_loop, (rule goes_rules moves_rules)+)

lemma tame_readExponent [tame_rules]: "tame k readExponent"
  unfolding readExponent_def by (rule tame_rules tame_last)+

lemma moves_readExponent [moves_rules]: "moves False readExponent"
  unfolding readExponent_def by (rule moves_weaken, (rule moves_rules)+, simp)

lemma tame_span_end: "lo \<le> k \<Longrightarrow> (\<And>text k. tame k (f text)) \<Longrightarrow>
  span lo k (gets pos \<bind> (\<lambda>stop. sourceSlice lo stop \<bind> f))"
  by (rule span_stop, rule tame_bind, rule tame_sourceSlice, simp, simp)

lemma span_if: "span lo k m \<Longrightarrow> span lo k n \<Longrightarrow> span lo k (if c then m else n)"
  by simp

lemma tame_readNumber [tame_rules]: "tame k readNumber"
  unfolding readNumber_def Let_def
  apply (rule tame_bind, rule tame_rules, rule span_start)
  apply (rule span_bind, rule tame_rules, rule moves_rules, rule span_bind, (rule tame_rules tame_last)+, (rule moves_rules)+)
  apply (rule span_if)
   apply (rule span_bind, rule tame_rules, rule moves_rules, rule span_bind, rule tame_rules, rule moves_rules)
   apply (rule tame_span_end, simp, (rule tame_rules tame_last)+)
  apply (rule span_bind, rule tame_rules, rule moves_rules, rule span_bind, rule tame_rules, rule moves_rules)
  apply (rule span_bind, (rule tame_rules tame_last)+, (rule moves_rules)+)
  apply (rule span_bind, rule tame_rules, rule moves_rules)
  apply (rule tame_span_end, simp, (rule tame_rules tame_last)+)
  done

end
