(* ===== verification/LexerSafeIdent.thy ===== *)
theory LexerSafeIdent
  imports LexerSafeNext
begin

text \<open>
  The facts of \<open>LexerSafe\<close> for identifiers, interpolated strings, operators and
  \<^verbatim>\<open>NextToken\<close> itself.
\<close>

subsection \<open>Scanning runes by index\<close>

lemma run_runeBytes [simp]:
  "i \<le> length (src l) \<Longrightarrow> run_state (runeBytes i) l = (take UTFMax (drop i (src l)), noted (i + UTFMax) l)"
  by (simp add: runeBytes_def noted_def rune_slice)

lemma tame_runeDecode:
  assumes i: "i \<le> k" and f: "\<And>r n. tame (max k (i + n)) (f r n)"
  shows "tame k (runeBytes i \<bind> (\<lambda>bytes. case decodeRune bytes of (r, n) \<Rightarrow> f r n))"
proof (rule tame_bind_yields [OF tame_runeBytes [OF i], where K = "\<lambda>bytes. i + snd (decodeRune bytes)" and Q = "\<lambda>_. True"])
  show "yields k (runeBytes i) (\<lambda>bytes. i + snd (decodeRune bytes)) (\<lambda>_. True)"
    unfolding yields_def
  proof (intro allI impI)
    fix l assume "known k l"
    with i have l: "i \<le> length (src l)" by (simp add: known_def)
    let ?b = "take UTFMax (drop i (src l))"
    from decodeRune_size(1) [of ?b] l decodeRune_size(2) [of ?b]
    show "case run_state (runeBytes i) l of (a, l') \<Rightarrow> True \<and> known (i + snd (decodeRune a)) l'"
      by (auto simp: known_def UTFMax_def)
  qed
  show "tame (max k (i + snd (decodeRune a))) (case decodeRune a of (r, n) \<Rightarrow> f r n)" for a
    using f [of "snd (decodeRune a)" "fst (decodeRune a)"] by (simp add: case_prod_beta)
qed

lemma scanIdentRunes_spec:
  assumes "j \<le> k"
  shows "tame k (scanIdentRunes u j) \<and> yields k (scanIdentRunes u j) (\<lambda>j'. j') (\<lambda>j'. j \<le> j')"
  unfolding scanIdentRunes_def
proof (rule loop_tame)
  let ?step = "\<lambda>index. sourceHas index \<bind> (\<lambda>h. if \<not> h then ret (False, index)
      else runeBytes index \<bind> (\<lambda>bytes. case decodeRune bytes of (r, n) \<Rightarrow>
        if isIdentCharRune u r then ret (True, index + n) else ret (False, index)))"
  fix v assume v: "j \<le> v"
  show "tame (max k v) (?step v)"
    by (rule tame_has_not, rule tame_runeDecode, simp, (rule tame_rules tame_last)+)
  have size: "v + snd (decodeRune (take UTFMax (drop v (src l)))) \<le> length (src l)"
    "snd (decodeRune (take UTFMax (drop v (src l)))) \<le> 4"
    "0 < snd (decodeRune (take UTFMax (drop v (src l))))" if "v < length (src l)" for l :: Lexer
    using decodeRune_size [of "take UTFMax (drop v (src l))"] that by (auto simp: UTFMax_def)
  show "yields (max k v) (?step v) (\<lambda>r. snd r) (\<lambda>r. j \<le> snd r)"
    unfolding yields_def
  proof (intro allI impI)
    fix l assume "known (max k v) l"
    with v size [of l] show "case run_state (?step v) l of (a, l') \<Rightarrow> j \<le> snd a \<and> known (snd a) l'"
      by (auto simp: known_def UTFMax_def split: prod.splits)
  qed
  fix l v' l' assume r: "run_state (?step v) l = ((True, v'), l')"
  then have "v < length (src l)" by (auto split: if_splits)
  with r size [of l] show "length (src l') - v' < length (src l) - v"
    by (auto split: prod.splits if_splits)
qed (use assms in auto)

lemma scanWhile_first:
  assumes "j < length (src l)" "P (src l ! j)"
  shows "j < fst (run_state (scanWhile P j) l)"
proof -
  let ?l1 = "noted (j + 1) l"
  have "run_state (scanWhile P j) l = run_state (scanWhile P (j + 1)) ?l1"
    unfolding scanWhile_def loopM_def using assms by (simp, subst loopL.simps, auto)
  with scanWhile_ge [of "j + 1" P ?l1] show ?thesis by simp
qed

lemma skipBlanksAndComments_spec:
  assumes "j \<le> k"
  shows "tame k (skipBlanksAndComments j) \<and> yields k (skipBlanksAndComments j) (\<lambda>j'. j') (\<lambda>j'. j \<le> j')"
  unfolding skipBlanksAndComments_def
proof (rule loop_tame)
  let ?nl = "\<lambda>ch. ch \<noteq> CHR 0x0A"
  let ?step = "\<lambda>index. sourceHas index \<bind> (\<lambda>h. if \<not> h then ret (False, index)
      else sourceByte index \<bind> (\<lambda>ch. if ch = CHR '' '' \<or> ch = CHR 0x09 \<or> ch = CHR 0x0D \<or> ch = CHR 0x0A
        then ret (True, index + 1)
        else if ch = CHR ''#'' then scanWhile ?nl index \<bind> (\<lambda>index'. ret (True, index'))
        else ret (False, index)))"
  fix v assume v: "j \<le> v"
  have scan: "tame k (scanWhile ?nl v)" if "v \<le> k" for k using scanWhile_spec [OF that] by blast
  show "tame (max k v) (?step v)"
    by (rule tame_has_not, rule tame_bind, rule tame_sourceByte, simp, rule tame_if, rule tame_rules, rule tame_if,
        rule tame_bind, rule scan, simp, (rule tame_rules)+)
  show "yields (max k v) (?step v) (\<lambda>r. snd r) (\<lambda>r. j \<le> snd r)"
    unfolding yields_def
  proof (intro allI impI)
    fix l assume "ok l" and l: "known (max k v) l"
    then have ok1: "ok (noted (Suc v) l)" "known v (noted (Suc v) l)" by (auto simp: ok_def known_def)
    obtain b l2 where b: "run_state (scanWhile ?nl v) (noted (Suc v) l) = (b, l2)" by force
    have y: "yields v (scanWhile ?nl v) (\<lambda>j'. j') (\<lambda>j'. v \<le> j')" using scanWhile_spec [of v v] by blast
    from y [unfolded yields_def, rule_format, OF ok1, unfolded b] have bk: "v \<le> b" "known b l2" by auto
    let ?ch = "src l ! v"
    have run: "run_state (?step v) l =
        (if \<not> v < length (src l) then ((False, v), noted (v + 1) l)
         else if ?ch = CHR '' '' \<or> ?ch = CHR 0x09 \<or> ?ch = CHR 0x0D \<or> ?ch = CHR 0x0A then ((True, v + 1), noted (v + 1) l)
         else if ?ch = CHR ''#'' then ((True, b), l2) else ((False, v), noted (v + 1) l))"
      by (simp add: b)
    show "case run_state (?step v) l of (a, l') \<Rightarrow> j \<le> snd a \<and> known (snd a) l'"
    proof (cases "v < length (src l)")
      case False
      with v l show ?thesis unfolding run by (auto simp: known_def)
    next
      case True
      have "known (v + 1) (noted (v + 1) l)" "known v (noted (v + 1) l)" using True by (auto simp: known_def)
      with True v bk show ?thesis unfolding run by simp
    qed
  qed
  fix l v' l' assume r: "run_state (?step v) l = ((True, v'), l')"
  then have lt: "v < length (src l)" by (auto split: if_splits)
  have "src l' = src l"
  proof -
    have "still (?step v)" by (rule still_rules)+
    then have "src (snd (run_state (?step v) l)) = src l" unfolding still_def by blast
    then show ?thesis unfolding r by simp
  qed
  moreover have "v < v'"
  proof (cases "src l ! v = CHR ''#''")
    case True
    obtain b l2 where b: "run_state (scanWhile ?nl v) (noted (Suc v) l) = (b, l2)" by force
    with lt True scanWhile_first [of v "noted (Suc v) l" ?nl] have "v < b" by simp
    with r lt True b show ?thesis by simp
  next
    case False
    with r lt show ?thesis by (simp split: if_splits)
  qed
  ultimately show "length (src l') - v' < length (src l) - v" using lt by simp
qed (use assms in auto)

lemma tame_patternScrutineeFollows [tame_rules]: "tame k (patternScrutineeFollows u)"
  unfolding patternScrutineeFollows_def Let_def
  apply (rule tame_pos, rule tame_bind_spec [OF skipBlanksAndComments_spec], simp, rule tame_has_not)
   apply (rule tame_bind, rule tame_sourceByte, simp, rule tame_bind, (rule tame_rules tame_if)+)
   apply (rule tame_runeDecode, simp, rule tame_if, rule tame_rules)
   apply (rule tame_bind_spec [OF scanIdentRunes_spec], simp, rule tame_bind, rule tame_sourceSlice, simp, simp, (rule tame_rules)+)
  done

lemma still_patternScrutineeFollows [still_rules]: "still (patternScrutineeFollows u)"
  unfolding patternScrutineeFollows_def skipBlanksAndComments_def scanIdentRunes_def Let_def
  by (rule still_rules)+

lemma moves_patternScrutineeFollows [moves_rules]: "moves False (patternScrutineeFollows u)"
  by (rule still_moves) (rule still_rules)

lemma tame_skipIdentRunes [tame_rules]: "tame k (skipIdentRunes u)"
  unfolding skipIdentRunes_def
  by (rule tame_cursor_loop, (rule tame_rules tame_last)+,
      rule goes_weaken, (rule goes_rules moves_rules)+, simp, (rule stops_rules)+)

lemma moves_skipIdentRunes [moves_rules]: "moves False (skipIdentRunes u)"
  unfolding skipIdentRunes_def by (rule moves_loop, (rule goes_rules moves_rules)+)


lemma tame_readIdent [tame_rules]: "tame k (readIdent u)"
proof -
  have flag: "tame k (modify (\<lambda>l. l\<lparr>pendingGroupedBlock := b\<rparr>))" for k b
    by (rule tame_modify) (auto simp: ok_def)
  have hdr: "tame k (modify (\<lambda>l. l\<lparr>pendingPatternBlocks :=
      pendingPatternBlocks l @ [\<lparr>ph_ParenDepth = parenDepth l, ph_HeadStart = pos l\<rparr>]\<rparr>))" for k
    by (rule tame_modify) (auto simp: ok_def)
  have depth: "tame k (gets parenDepth)" for k by (rule tame_gets) simp
  show ?thesis
    unfolding readIdent_def Let_def
    by (rule tame_bind, rule tame_rules, rule span_start, rule span_bind, rule tame_rules, rule moves_rules,
        rule tame_span_end, simp, (rule flag hdr depth tame_rules tame_last)+)
qed

lemma moves_readIdent: "moves False (readIdent u)"
proof -
  have f: "moves False (modify (\<lambda>l. l\<lparr>pendingGroupedBlock := b\<rparr>))"
    "moves False (modify (\<lambda>l. l\<lparr>pendingPatternBlocks := g l\<rparr>))" for b g
    by (auto intro!: moves_modify)
  show ?thesis
    unfolding readIdent_def Let_def by (rule moves_weaken, (rule f moves_rules)+, simp)
qed

subsection \<open>Interpolated strings\<close>

lemma span_cursor_loop:
  assumes step: "\<And>v. span lo k (step v)" and down: "\<And>v. goes True (step v)"
    and stops: "\<And>v. stopsAtEnd (step v)"
  shows "span lo k (loopM (\<lambda>_ l. remaining l) step v)"
proof -
  have one: "ok l' \<and> extends l l' \<and> lo \<le> pos l' \<and> True \<and> known 0 l' \<and> (again \<longrightarrow> remaining l' < remaining l) \<and>
      (trackReads l \<longrightarrow> (\<forall>s'. agree_upto (readLimit l') (src l) s' \<longrightarrow>
         run_state (step v) (l\<lparr>src := s'\<rparr>) = ((again, v'), l'\<lparr>src := s'\<rparr>)))"
    if a: "True" "ok l" "known (max k 0) l" "lo \<le> pos l" and r: "run_state (step v) l = ((again, v'), l')"
    for v l again v' l'
  proof -
    from a(3) have "known k l" by simp
    note t = spanD [OF step a(2) this a(4) r]
    have g: "src l' = src l" "pos l \<le> pos l'" "pos l < length (src l) \<longrightarrow> again \<longrightarrow> pos l < pos l'"
      using down [of v] unfolding goes_def by (metis r fst_conv snd_conv)+
    have "remaining l = 0 \<longrightarrow> \<not> again" using stops [of v] unfolding stopsAtEnd_def by (metis r fst_conv)
    with g have "again \<longrightarrow> remaining l' < remaining l" by (auto simp: remaining_def)
    with t g a(4) show ?thesis by (auto simp: known_def)
  qed
  have main: "ok l' \<and> extends l l' \<and> True \<and> known 0 l' \<and>
      (trackReads l \<longrightarrow> (\<forall>s'. agree_upto (readLimit l') (src l) s' \<longrightarrow>
         loopL (\<lambda>_ l. remaining l) step v (l\<lparr>src := s'\<rparr>) = (w, l'\<lparr>src := s'\<rparr>)))"
    if "loopL (\<lambda>_ l. remaining l) step v l = (w, l')" "ok l" "known k l" "lo \<le> pos l" for l w l'
  proof (rule loop_local [where I = "\<lambda>l. lo \<le> pos l" and k = k and K = "\<lambda>_. 0" and J = "\<lambda>_. True"])
    show "known (max k 0) l" using that(3) by simp
  qed (fact one, simp, fact that(1), rule TrueI, fact that(2), fact that(4))
  show ?thesis
  proof (rule spanI)
    fix l w l' assume l: "ok l" "known k l" "lo \<le> pos l"
      and r: "run_state (loopM (\<lambda>_ l. remaining l) step v) l = (w, l')"
    from r have r: "loopL (\<lambda>_ l. remaining l) step v l = (w, l')" by (simp add: loopM_def)
    from main [OF r l] show "ok l' \<and> extends l l'" by blast
    fix s' assume "trackReads l" "agree_upto (readLimit l') (src l) s'"
    with main [OF r l] show "run_state (loopM (\<lambda>_ l. remaining l) step v) (l\<lparr>src := s'\<rparr>) = (w, l'\<lparr>src := s'\<rparr>)"
      by (simp add: loopM_def)
  qed
qed

lemma tame_skipEmbeddedString [tame_rules]: "tame k skipEmbeddedString"
  unfolding skipEmbeddedString_def whileM_def
  by (rule tame_cursor_loop, (rule tame_rules tame_last)+,
      rule goes_weaken, (rule goes_rules moves_rules)+, simp, (rule stops_rules)+)

lemma moves_skipEmbeddedString [moves_rules]: "moves False skipEmbeddedString"
  unfolding skipEmbeddedString_def by (rule moves_rules)+

lemma span_prod: "(\<And>x y. span lo k (f x y)) \<Longrightarrow> span lo k (case p of (x, y) \<Rightarrow> f x y)"
  by (cases p) simp

lemma span_option:
  "span lo k m \<Longrightarrow> (\<And>x. span lo k (f x)) \<Longrightarrow> span lo k (case p of None \<Rightarrow> m | Some x \<Rightarrow> f x)"
  by (cases p) auto


lemma tame_readFString [tame_rules]: "tame k readFString"
  unfolding readFString_def
  apply (rule tame_bind, rule tame_rules, rule tame_bind, rule tame_rules, rule span_start)
  apply (rule span_seq, rule span_cursor_loop, rule span_prod)
      apply (rule span_bind, rule tame_rules, rule moves_rules, rule span_if, rule span_tame, rule tame_rules)
      apply (rule span_bind, rule tame_rules, rule moves_rules, rule span_if, rule span_tame, rule tame_rules)
      apply (rule span_if, rule span_if, rule tame_span_end, simp, (rule tame_rules tame_last)+)
      apply (rule span_tame, (rule tame_rules tame_last)+)+
     apply (rule goes_weaken, (rule goes_rules moves_rules)+, simp)
    apply (rule stops_rules)+
   apply (rule moves_loop, (rule goes_rules moves_rules)+)
  apply (rule span_prod, rule span_option)
   apply (rule span_bind, rule tame_rules, rule moves_rules, rule tame_span_end, simp, (rule tame_rules tame_last)+)
  apply (rule span_tame, rule tame_rules)
  done

lemma moves_readFString [moves_rules]: "moves True readFString"
  unfolding readFString_def
  by (rule moves_weaken, (rule moves_rules moves_loop goes_rules)+, simp)

subsection \<open>Layout questions\<close>

lemma tame_currentLineIndent [tame_rules]: "tame k currentLineIndent"
proof -
  let ?bstep = "\<lambda>s. if 0 < s then sourceByte (s - 1) \<bind> (\<lambda>ch. ret (if ch \<noteq> CHR 0x0A then (True, s - 1) else (False, s)))
     else ret (False, s)"
  let ?fstep = "\<lambda>(s, indent :: nat). sourceHas s \<bind> (\<lambda>h. if \<not> h then ret (False, (s, indent)) else sourceByte s \<bind> (\<lambda>ch.
      if ch = CHR '' '' then ret (True, (s + 1, indent + 1))
      else if ch = CHR 0x09 then ret (True, (s + 1, indent + 4)) else ret (False, (s, indent))))"
  have b: "tame k (loopM (\<lambda>s l. s) ?bstep p)" if "p \<le> k" for p k
  proof (rule conjunct1 [OF loop_tame [where J = "\<lambda>s. s \<le> k" and K = "\<lambda>_. 0"]])
    fix v assume v: "v \<le> k"
    show "tame (max k 0) (?bstep v)" using v by (auto intro!: tame_bind tame_sourceByte tame_rules)
    show "yields (max k 0) (?bstep v) (\<lambda>r. 0) (\<lambda>r. snd r \<le> k)"
      using v by (auto simp: yields_def known_def split: if_splits)
    fix l v' l' assume "known (max k 0) l" "run_state (?bstep v) l = ((True, v'), l')"
    then show "v' < v" using v by (auto simp: known_def split: if_splits)
  qed (use that in auto)
  have f: "tame k (loopM (\<lambda>(s, indent) l. length (src l) - s) ?fstep v)" for v k
  proof (rule conjunct1 [OF loop_tame [where J = "\<lambda>_. True" and K = "\<lambda>_. 0"]])
    fix w :: "nat \<times> nat"
    show "tame (max k 0) (?fstep w)" by (cases w) (simp, (rule tame_first tame_rules tame_last | simp)+)
    fix l v' l' assume "run_state (?fstep w) l = ((True, v'), l')"
    then show "(case v' of (s, indent) \<Rightarrow> \<lambda>l. length (src l) - s) l' < (case w of (s, indent) \<Rightarrow> \<lambda>l. length (src l) - s) l"
      by (cases w) (auto split: if_splits)
  qed (auto simp: yields_def known_def)
  show ?thesis
    unfolding currentLineIndent_def
    by (rule tame_pos, rule tame_bind, rule b, simp, rule tame_bind, rule f, rule tame_rules)
qed

lemma still_currentLineIndent [still_rules]: "still currentLineIndent"
  unfolding currentLineIndent_def by (rule still_rules)+

lemma tame_operatorFollows [tame_rules]: "tame k (operatorFollows i op)"
  unfolding operatorFollows_def
  by (rule tame_has_not, rule tame_bind, rule tame_sourceSlice, simp, simp, rule tame_if, rule tame_rules,
      rule tame_bind, rule tame_sourceByte, simp, (rule tame_rules)+)

lemma still_operatorFollows [still_rules]: "still (operatorFollows i op)"
  unfolding operatorFollows_def by (rule still_rules)+

lemma tame_anyOperatorFollows [tame_rules]: "tame k (anyOperatorFollows ops i)"
  by (induction ops) (simp_all add: tame_rules tame_last)

lemma still_anyOperatorFollows [still_rules]: "still (anyOperatorFollows ops i)"
  by (induction ops) (auto intro!: still_rules)

lemma tame_measureBlanks [tame_rules]: "tame k (measureBlanks i)"
proof -
  let ?step = "\<lambda>(i, indent :: nat). sourceHas i \<bind> (\<lambda>h. if \<not> h then ret (False, (i, indent)) else sourceByte i \<bind> (\<lambda>ch.
      if ch = CHR 0x09 then ret (True, (i + 1, indent + 4))
      else if ch = CHR '' '' then ret (True, (i + 1, indent + 1)) else ret (False, (i, indent))))"
  show ?thesis
    unfolding measureBlanks_def
  proof (rule conjunct1 [OF loop_tame [where J = "\<lambda>_. True" and K = "\<lambda>_. 0"]])
    fix w :: "nat \<times> nat"
    show "tame (max k 0) (?step w)" by (cases w) (simp, (rule tame_first tame_rules tame_last | simp)+)
    fix l v' l' assume "run_state (?step w) l = ((True, v'), l')"
    then show "(case v' of (i, indent) \<Rightarrow> \<lambda>l. length (src l) - i) l' < (case w of (i, indent) \<Rightarrow> \<lambda>l. length (src l) - i) l"
      by (cases w) (auto split: if_splits)
  qed (auto simp: yields_def known_def)
qed

lemma still_measureBlanks [still_rules]: "still (measureBlanks i)"
  unfolding measureBlanks_def by (rule still_rules)+

lemma tame_booleanContinuation [tame_rules]: "tame k booleanContinuation"
  unfolding booleanContinuation_def
  by (rule tame_bind, rule tame_gets, simp, (rule tame_rules tame_last)+)

lemma still_booleanContinuation [still_rules]: "still booleanContinuation"
  unfolding booleanContinuation_def by (rule still_rules)+

lemma moves_booleanContinuation [moves_rules]: "moves False booleanContinuation" "moves False currentLineIndent"
  by (rule still_moves, rule still_rules)+

lemma tame_hasScrutinee [tame_rules]: "tame k (hasScrutinee h)"
  unfolding hasScrutinee_def
proof (rule tame_pos, rule tame_bind)
  fix p
  let ?step = "\<lambda>(index, found). if index < p - 1 then sourceByte index \<bind> (\<lambda>ch. ret (True, (index + 1,
      found \<or> \<not> (ch = CHR '' '' \<or> ch = CHR 0x09 \<or> ch = CHR 0x0D \<or> ch = CHR 0x0A)))) else ret (False, (index, found))"
  show "tame (max k p) (loopM (\<lambda>(index, found) l. p - index) ?step (h, False))"
  proof (rule conjunct1 [OF loop_tame [where J = "\<lambda>_. True" and K = "\<lambda>_. 0"]])
    fix w :: "nat \<times> bool"
    show "tame (max (max k p) 0) (?step w)"
      by (cases w) (auto intro!: tame_bind tame_sourceByte tame_rules)
    fix l v' l' assume "known (max (max k p) 0) l" "run_state (?step w) l = ((True, v'), l')"
    then show "(case v' of (index, found) \<Rightarrow> \<lambda>l. p - index) l' < (case w of (index, found) \<Rightarrow> \<lambda>l. p - index) l"
      by (cases w) (auto simp: known_def split: if_splits)
  qed (auto simp: yields_def known_def)
qed (rule tame_rules)

lemma still_hasScrutinee [still_rules]: "still (hasScrutinee h)"
  unfolding hasScrutinee_def by (rule still_rules)+

lemma moves_hasScrutinee [moves_rules]: "moves False (hasScrutinee h)"
  by (rule still_moves, rule still_rules)

end
