(* ===== verification/LexerSafeToken.thy ===== *)
theory LexerSafeToken
  imports LexerSafeIdent
begin

text \<open>
  Operators and \<^verbatim>\<open>NextToken\<close>: safety, read locality and progress. From a well-formed lexer
  \<^verbatim>\<open>NextToken\<close> never panics, always ends, and depends on no byte beyond its read limit.
\<close>

subsection \<open>Operators\<close>

lemma tame_groups [tame_rules]: "tame k (openGroup a b p)" "tame k (closeGroup a b p)"
proof -
  have m: "tame k (modify (\<lambda>l. l\<lparr>parenDepth := f (parenDepth l), pendingGroupedBlock := b\<rparr>))" for f k b
    by (rule tame_modify) (auto simp: ok_def)
  show "tame k (openGroup a b p)" "tame k (closeGroup a b p)"
    unfolding openGroup_def closeGroup_def by (rule m tame_rules tame_last)+
qed

lemma moves_groups [moves_rules]: "moves True (openGroup a b p)" "moves True (closeGroup a b p)"
proof -
  have m: "moves False (modify (\<lambda>l. l\<lparr>parenDepth := f (parenDepth l), pendingGroupedBlock := b\<rparr>))" for f b
    by (rule moves_modify) simp
  show "moves True (openGroup a b p)" "moves True (closeGroup a b p)"
    unfolding openGroup_def closeGroup_def by (rule moves_weaken, (rule m moves_rules)+, simp)+
qed

lemma tame_pending: "tame k (modify (\<lambda>l. l\<lparr>pendingGroupedBlock := b\<rparr>))"
  "tame k (modify (\<lambda>l. l\<lparr>pendingPatternBlocks := butlast (pendingPatternBlocks l)\<rparr>))"
  "tame k (modify (\<lambda>l. l\<lparr>groupedBlockContexts := groupedBlockContexts l @
            [\<lparr>gb_ParenDepth = parenDepth l, gb_BaseIndent = x, gb_HeaderIndent = y\<rparr>]\<rparr>))"
  "tame k (gets pendingPatternBlocks)" "tame k (gets parenDepth)" "tame k (gets pendingGroupedBlock)"
  by (auto simp: ok_def intro!: tame_modify tame_gets)

lemma moves_pending: "moves False (modify (\<lambda>l. l\<lparr>pendingGroupedBlock := b\<rparr>))"
  "moves False (modify (\<lambda>l. l\<lparr>pendingPatternBlocks := f l\<rparr>))"
  "moves False (modify (\<lambda>l. l\<lparr>groupedBlockContexts := g l\<rparr>))"
  by (auto intro!: moves_modify)

lemma tame_readColon [tame_rules]: "tame k (readColon p)"
  unfolding readColon_def by (rule tame_pending tame_rules tame_last)+

lemma moves_readColon [moves_rules]: "moves True (readColon p)"
  unfolding readColon_def by (rule moves_weaken, (rule moves_pending moves_rules)+, simp)

lemma tame_readDots [tame_rules]: "tame k (readDots p)"
  unfolding readDots_def by (rule tame_rules tame_last)+

lemma moves_readDots [moves_rules]: "moves True (readDots p)"
  unfolding readDots_def by (rule moves_weaken, (rule moves_rules)+, simp)

lemma tame_opOrAssign [tame_rules]: "tame k (opOrAssign a b c d p)"
  unfolding opOrAssign_def by (rule tame_rules tame_last)+

lemma moves_opOrAssign [moves_rules]: "moves True (opOrAssign a b c d p)"
  unfolding opOrAssign_def by (rule moves_weaken, (rule moves_rules)+, simp)

lemma tame_readOperator [tame_rules]: "tame k (readOperator ch)"
  unfolding readOperator_def by (rule tame_rules tame_last)+

lemma moves_readOperator [moves_rules]: "moves True (readOperator ch)"
  unfolding readOperator_def by (rule moves_weaken, (rule moves_rules)+, simp)

subsection \<open>One round of NextToken\<close>

lemma tame_readNewline [tame_rules]: "tame k readNewline"
proof -
  have g: "tame k (gets lastTokenKind)" "tame k (gets (\<lambda>l. parenDepth l > 0 \<and> \<not> activeGroupedBlockContext l))" for k
    by (auto intro!: tame_gets simp: activeGroupedBlockContext_def)
  show ?thesis unfolding readNewline_def by (rule g tame_rules tame_last)+
qed

lemma moves_readNewline [moves_rules]: "moves True readNewline"
  unfolding readNewline_def by (rule moves_weaken, (rule moves_rules)+, simp)

lemma tame_readToken [tame_rules]: "tame k (readToken u ch)"
  unfolding readToken_def by (rule tame_rules tame_last)+

lemma moves_readNumber: "moves False readNumber"
  unfolding readNumber_def Let_def by (rule moves_weaken, (rule moves_rules)+, simp)

lemma moves_readToken: "moves False (readToken u ch)"
  unfolding readToken_def
  by (rule moves_weaken, (rule moves_readNumber moves_readIdent moves_rules)+, simp)

lemma tame_readRest [tame_rules]: "tame k (readRest u)"
proof -
  have g: "tame k (modify (\<lambda>l. if pendingGroupedBlock l \<and> ch \<noteq> CHR '':'' then l\<lparr>pendingGroupedBlock := False\<rparr> else l))" for k ch
    by (rule tame_modify) (auto simp: ok_def)
  have e: "tame k (gets indentStack \<bind> (\<lambda>stack. curPos \<bind> (\<lambda>p. if length stack > 1 then
       modify (\<lambda>l. l\<lparr>indentStack := butlast (indentStack l)\<rparr>) \<bind> (\<lambda>_. some (emit TOKEN_DEDENT [] p))
       else some (emit TOKEN_EOF [] p))))" (is "tame k ?m") for k
  proof (rule tame_blind)
    show "ok l \<Longrightarrow> ok (snd (run_state ?m l)) \<and> extends l (snd (run_state ?m l))" for l
      by (cases "indentStack l") (auto simp: curPos_def some_def emit_def finishToken_def ok_def extends_def)
  qed (simp add: curPos_def some_def emit_def finishToken_def)
  show ?thesis unfolding readRest_def by (rule g e tame_rules tame_last)+
qed

lemma moves_readRest: "moves False (readRest u)"
proof -
  have g: "moves False (modify (\<lambda>l. if pendingGroupedBlock l \<and> ch \<noteq> CHR '':'' then l\<lparr>pendingGroupedBlock := False\<rparr> else l))"
    "moves False (modify (\<lambda>l. l\<lparr>indentStack := butlast (indentStack l)\<rparr>))" for ch
    by (auto intro!: moves_modify)
  show ?thesis unfolding readRest_def by (rule moves_weaken, (rule g moves_readToken moves_rules)+, simp)
qed

lemma run_bind_eq: "run_state m l = (a, l1) \<Longrightarrow> run_state (m \<bind> f) l = run_state (f a) l1"
  by simp

lemma consumeLineDirectives_spec: "tame k consumeLineDirectives \<and> moves False consumeLineDirectives"
proof
  let ?c = "gets atLineStart \<bind> (\<lambda>at. gets pos \<bind> (\<lambda>p. (if at then byteIs p (\<lambda>ch. ch = CHR ''#'') else ret False) \<bind>
      (\<lambda>hash. if hash then tryConsumeLineDirective else ret False)))"
  have at: "tame k (gets atLineStart)" "tame k (gets pos)" for k by (auto intro!: tame_gets)
  have c: "tame k ?c" for k by (rule at tame_rules tame_last)+
  have pc: "src l' = src l \<and> (if t then pos l < pos l' else pos l' = pos l) \<and> (t \<longrightarrow> pos l < length (src l))"
    if "run_state ?c l = (t, l')" for l t l'
  proof (cases "atLineStart l \<and> pos l < length (src l) \<and> src l ! pos l = CHR ''#''")
    case True
    with that have r: "run_state tryConsumeLineDirective (noted (Suc (pos l)) l) = (t, l')" by simp
    from directive_tryConsume [of "pos l", unfolded directive_def, rule_format, of "noted (Suc (pos l)) l", unfolded r] True
    show ?thesis by (cases t) simp_all
  next
    case False
    with that show ?thesis by (auto split: if_splits)
  qed
  let ?step = "\<lambda>_ :: unit. ?c \<bind> (\<lambda>t. if t then ret () \<bind> (\<lambda>_. ret (True, ())) else ret (False, ()))"
  have ps: "src l' = src l \<and> pos l \<le> pos l' \<and> (again \<longrightarrow> pos l < length (src l) \<and> pos l < pos l')"
    if "run_state (?step v) l = ((again, w), l')" for v w :: unit and l again l'
  proof -
    obtain t l1 where t: "run_state ?c l = (t, l1)" by force
    have "run_state (?step v) l = ((t, ()), l1)" by (cases t) (simp_all only: run_bind_eq [OF t], simp_all)
    with that have "t = again" "l1 = l'" by auto
    with pc [OF t] show ?thesis by (auto split: if_splits)
  qed
  show "tame k consumeLineDirectives"
    unfolding consumeLineDirectives_def whileM_def
  proof (rule conjunct1 [OF loop_tame [where J = "\<lambda>_. True" and K = "\<lambda>_. 0"]])
    show "tame (max k 0) (?step v)" for v :: unit by (rule c tame_rules tame_if tame_bind)+
    fix v v' :: unit and l l' assume "run_state (?step v) l = ((True, v'), l')"
    from ps [OF this] show "remaining l' < remaining l" by (auto simp: remaining_def intro: diff_less_mono2)
  qed (auto simp: yields_def known_def)
  have "goes False (?step v)" for v :: unit
    unfolding goes_def using ps by (metis prod.collapse)
  then show "moves False consumeLineDirectives"
    unfolding consumeLineDirectives_def whileM_def by (rule moves_loop)
qed


subsection \<open>Every token but layout and the end consumes a byte\<close>

lemma skipWhile_none:
  assumes "\<not> (pos l < length (src l) \<and> P (src l ! pos l))"
  shows "run_state (skipWhile P) l = ((), noted (Suc (pos l)) l)"
  using assms unfolding skipWhile_def whileM_def loopM_def by (simp, subst loopL.simps) auto

lemma run_bind_eats:
  assumes "run_state m l = (a, l1)" "pos l < pos l1" "moves b (f a)"
  shows "pos l < pos (snd (run_state (m \<bind> f) l))"
proof -
  have "pos l1 \<le> pos (snd (run_state (f a) l1))" using assms(3) unfolding moves_def by blast
  with assms(1,2) show ?thesis by simp
qed

lemma run_peekAt [simp]: "run_state (peekAt n) l =
  (if pos l + n < length (src l) then src l ! (pos l + n) else CHR 0x00, noted (pos l + n + 1) l)"
  by (simp add: peekAt_def)

lemma isDigit_dot: "\<not> isDigit (CHR ''.'')"
  by (simp add: isDigit_def)

lemma readNumber_eats:
  assumes l: "pos l < length (src l)"
    and d: "isDigit (src l ! pos l) \<or>
      (src l ! pos l = CHR ''.'' \<and> pos l + 1 < length (src l) \<and> isDigit (src l ! (pos l + 1)))"
  shows "pos l < pos (snd (run_state readNumber l))"
proof -
  define tail where "tail start p = (\<lambda>fraction. (if fraction then advance \<bind> (\<lambda>_. skipWhile isDigit) else ret ()) \<bind> (\<lambda>_.
      readExponent \<bind> (\<lambda>exponent. gets pos \<bind> (\<lambda>stop. sourceSlice start stop \<bind> (\<lambda>text. readTypeSuffix \<bind> (\<lambda>suffix.
      finishToken ((viewToken (if fraction \<or> exponent \<or> suffix = NumericSuffixF32 \<or> suffix = NumericSuffixF64
        then TOKEN_FLOAT_LIT else TOKEN_INT_LIT) text start p)\<lparr>tok_Suffix := suffix\<rparr>)))))))" for start p
  define hexTail where "hexTail start p = (skipHexDigits start \<bind> (\<lambda>_. gets pos \<bind> (\<lambda>stop. sourceSlice start stop \<bind>
      (\<lambda>text. readTypeSuffix \<bind> (\<lambda>suffix. finishToken ((viewToken TOKEN_HEX_LIT text start p)\<lparr>tok_Suffix := suffix\<rparr>))))))" for start p
  have mt: "moves False (tail start p fraction)" "moves False (hexTail start p)" for start p fraction
    unfolding tail_def hexTail_def by (rule moves_weaken, (rule moves_rules)+, simp)+
  obtain p where p: "run_state curPos l = (p, l)" by (simp add: curPos_def)
  obtain hex l1 where hex: "run_state (if src l ! pos l = CHR ''0'' then byteIs (pos l + 1) (\<lambda>ch. ch = CHR ''x'' \<or> ch = CHR ''X'')
      else ret False) (noted (Suc (pos l)) l) = (hex, l1)" by force
  have l1: "pos l1 = pos l" "src l1 = src l" using hex by (auto split: if_splits)
  have run: "run_state readNumber l = run_state (if hex then advanceN 2 \<bind> (\<lambda>_. hexTail (pos l) p)
      else skipWhile isDigit \<bind> (\<lambda>_. shouldReadFloatFraction \<bind> tail (pos l) p)) l1"
    using hex l p by (simp add: readNumber_def Let_def tail_def hexTail_def del: advanceN.simps)
  show ?thesis
  proof (cases hex)
    case True
    have "moves True (advanceN 2 \<bind> (\<lambda>_. hexTail (pos l) p))"
      by (rule moves_weaken, rule moves_bind, rule moves_rules, rule mt, simp)
    with True run l l1 show ?thesis unfolding moves_def by metis
  next
    case nohex: False
    have ms: "moves False (shouldReadFloatFraction \<bind> tail (pos l) p)"
      by (rule moves_weaken, rule moves_bind, rule moves_rules, rule mt, simp)
    show ?thesis
    proof (cases "isDigit (src l ! pos l)")
      case True
      obtain l2 where sk: "run_state (skipWhile isDigit) l1 = ((), l2)" by (metis old.unit.exhaust prod.exhaust)
      have "pos l1 < pos l2" using skipWhile_first [of l1 isDigit] True l l1 sk by simp
      from run_bind_eats [OF sk this ms] run nohex l1 show ?thesis by simp
    next
      case False
      with d have dot: "src l ! pos l = CHR ''.''" "pos l + 1 < length (src l)" "isDigit (src l ! (pos l + 1))" by auto
      have sk: "run_state (skipWhile isDigit) l1 = ((), noted (Suc (pos l1)) l1)"
        by (rule skipWhile_none) (use False l1 in simp)
      let ?l2 = "noted (Suc (pos l1)) l1"
      have ne: "src l ! (pos l + 1) \<noteq> CHR ''.''" using dot(3) isDigit_dot by metis
      obtain l3 where f: "run_state shouldReadFloatFraction ?l2 = (True, l3)" and l3: "pos l3 = pos l" "src l3 = src l"
        using dot l1 l ne by (simp add: shouldReadFloatFraction_def)
      have "moves True (tail (pos l) p True)"
        unfolding tail_def by (simp, rule moves_weaken, (rule moves_rules)+, simp)
      with l l3 have "pos l < pos (snd (run_state (tail (pos l) p True) l3))" unfolding moves_def by metis
      with run nohex sk f show ?thesis by simp
    qed
  qed
qed

lemma peekRune_noted: "fst (run_state peekRune (noted n l)) = fst (run_state peekRune l)"
  by (auto simp: peekRune_def split: prod.split)

lemma isIdentStart_char: "isIdentStartRune u r \<Longrightarrow> isIdentCharRune u r"
  by (auto simp: isIdentStartRune_def isIdentCharRune_def)

lemma skipIdentRunes_eats:
  assumes l: "pos l < length (src l)" and r: "isIdentCharRune u (fst (fst (run_state peekRune l)))"
  shows "pos l < pos (snd (run_state (skipIdentRunes u) l))"
proof -
  let ?step = "\<lambda>_ :: unit. atEnd \<bind> (\<lambda>e. if e then ret (False, ()) else peekRune \<bind> (\<lambda>rn.
     if \<not> isIdentCharRune u (fst rn) then ret (False, ()) else advanceRune \<bind> (\<lambda>_. ret (True, ()))))"
  obtain rn l1 where pk: "run_state peekRune (noted (Suc (pos l)) l) = (rn, l1)"
    by (cases "run_state peekRune (noted (Suc (pos l)) l)")
  with peekRune_noted [of "Suc (pos l)" l] r have id: "isIdentCharRune u (fst rn)" by simp
  have "moves False peekRune" by (rule moves_rules)
  with pk have l1: "pos l \<le> pos l1" "src l1 = src l" unfolding moves_def by (metis noted_sel(1,2) snd_conv)+
  obtain a l2 where ad: "run_state advanceRune l1 = (a, l2)" by force
  have "pos l < pos l2" "src l2 = src l"
    using moves_advanceRune ad l1 l unfolding moves_def by (metis snd_conv le_less_trans linorder_not_le order_less_le_trans)+
  have st: "run_state (?step ()) l = ((True, ()), l2)" using l pk id ad by simp
  have "remaining l2 < remaining l" using \<open>pos l < pos l2\<close> \<open>src l2 = src l\<close> l by (simp add: remaining_def)
  with st have "run_state (skipIdentRunes u) l = run_state (skipIdentRunes u) l2"
    unfolding skipIdentRunes_def loopM_def by (simp, subst loopL.simps) simp
  moreover have "pos l2 \<le> pos (snd (run_state (skipIdentRunes u) l2))"
    using moves_skipIdentRunes unfolding moves_def by blast
  ultimately show ?thesis using \<open>pos l < pos l2\<close> by simp
qed

end
