(* ===== verification/LexerProgress.thy ===== *)
theory LexerProgress
  imports LexerSafeToken
begin

text \<open>
  Progress: every round of \<^verbatim>\<open>NextToken\<close> that has a byte to look at consumes one, so the calls
  of \<^verbatim>\<open>NextToken\<close> to itself end; and \<^verbatim>\<open>NextToken\<close> as a whole is safe and read-local.
\<close>

lemma still_peekRune [still_rules]: "still peekRune"
  unfolding peekRune_def by (rule still_rules)+

lemma still_peekAt [still_rules]: "still (peekAt n)"
  unfolding peekAt_def by (rule still_rules)+

lemma still_isBlockCommentStart [still_rules]: "still isBlockCommentStart"
  unfolding isBlockCommentStart_def by (rule still_rules)+

lemma stillD: "still m \<Longrightarrow> run_state m l = (a, l') \<Longrightarrow> src l' = src l \<and> pos l' = pos l"
  unfolding still_def by (metis snd_conv)

text \<open>Consuming a byte at a given state.\<close>

definition eats :: "'a lex \<Rightarrow> Lexer \<Rightarrow> bool" where
  "eats m l \<longleftrightarrow> pos l < pos (snd (run_state m l))"

lemma eats_moves: "moves True m \<Longrightarrow> pos l < length (src l) \<Longrightarrow> eats m l"
  by (simp add: moves_def eats_def)

lemma eats_bind: "eats m l \<Longrightarrow> (\<And>a. moves False (f a)) \<Longrightarrow> eats (m \<bind> f) l"
  unfolding eats_def by (cases "run_state m l") (rule run_bind_eats, auto)

lemma eats_some: "eats m l \<Longrightarrow> eats (some m) l"
  unfolding some_def by (rule eats_bind) (auto intro: moves_ret)

lemma eats_after:
  assumes "still m" "\<And>a l'. run_state m l = (a, l') \<Longrightarrow> src l' = src l \<Longrightarrow> pos l' = pos l \<Longrightarrow> eats (f a) l'"
  shows "eats (m \<bind> f) l"
proof -
  obtain a l' where r: "run_state m l = (a, l')" by force
  from stillD [OF assms(1) r] assms(2) [OF r] show ?thesis by (simp add: eats_def r)
qed

lemma eats_gets: "run_state m l = (a, l) \<Longrightarrow> eats (f a) l \<Longrightarrow> eats (m \<bind> f) l"
  by (simp add: eats_def)

lemma run_curPos: "run_state curPos l = (fst (run_state curPos l), l)"
  by (simp add: curPos_def)

lemma eats_if: "(c \<Longrightarrow> eats m l) \<Longrightarrow> (\<not> c \<Longrightarrow> eats n l) \<Longrightarrow> eats (if c then m else n) l"
  by simp

lemma eats_peeked:
  assumes "\<And>rn l'. src l' = src l \<Longrightarrow> pos l' = pos l \<Longrightarrow> fst (run_state peekRune l') = rn \<Longrightarrow> eats (f rn) l'"
  shows "eats (peekRune \<bind> f) l"
proof (rule eats_after [OF still_peekRune])
  fix rn l' assume r: "run_state peekRune l = (rn, l')" and s: "src l' = src l" "pos l' = pos l"
  have "fst (run_state peekRune l') = fst (run_state peekRune l)"
    using s by (simp add: peekRune_def split: prod.split)
  with r s show "eats (f rn) l'" by (intro assms) auto
qed

lemma eats_readIdent:
  assumes "pos l < length (src l)" and "isIdentStartRune u (fst (fst (run_state peekRune l)))"
  shows "eats (readIdent u) l"
proof -
  have f: "moves False (modify (\<lambda>l. l\<lparr>pendingGroupedBlock := b\<rparr>))"
    "moves False (modify (\<lambda>l. l\<lparr>pendingPatternBlocks := g l\<rparr>))" for b g
    by (auto intro!: moves_modify)
  have sk: "eats (skipIdentRunes u) l"
    unfolding eats_def by (rule skipIdentRunes_eats [OF assms(1) isIdentStart_char [OF assms(2)]])
  show ?thesis
    unfolding readIdent_def Let_def
    apply (rule eats_gets [OF run_curPos], rule eats_gets [OF run_gets], rule eats_bind [OF sk])
    apply (rule moves_weaken, (rule f moves_rules)+, simp)
    done
qed

lemma readToken_eats:
  assumes l: "pos l < length (src l)" and ch: "src l ! pos l = ch"
  shows "eats (readToken u ch) l"
  unfolding readToken_def
proof (intro eats_if)
  show "eats readNewline l" by (rule eats_moves [OF moves_readNewline l])
next
  assume "ch = CHR ''#''"
  then have "eats skipLineComment l" using eatsAt_comment l ch unfolding eatsAt_def eats_def by blast
  then show "eats (skipLineComment \<bind> (\<lambda>_. ret None)) l" by (rule eats_bind) (rule moves_rules)
next
  let ?quote = "if ch = CHR ''f'' then peekAt 1 \<bind> (\<lambda>c. ret (c = CHR 0x22)) else ret False"
  let ?number = "if isDigit ch then ret True else if ch = CHR ''.'' then peekAt 1 \<bind> (\<lambda>d. ret (isDigit d)) else ret False"
  let ?word = "peekRune \<bind> (\<lambda>rn. if isIdentStartRune u (fst rn) then some (readIdent u) else some (readOperator ch))"
  have word: "eats ?word l'" if "src l' = src l" "pos l' = pos l" for l'
    by (rule eats_peeked, rule eats_if; rule eats_some)
      (use l that in \<open>auto intro: eats_readIdent eats_moves [OF moves_readOperator]\<close>)
  have number: "eats (?number \<bind> (\<lambda>number. if number then some readNumber else ?word)) l'"
    if s: "src l' = src l" "pos l' = pos l" for l'
  proof (rule eats_after)
    show "still ?number" by (rule still_rules)+
    fix a l'' assume r: "run_state ?number l' = (a, l'')" and s': "src l'' = src l'" "pos l'' = pos l'"
    have "eats readNumber l''" if a
      unfolding eats_def by (rule readNumber_eats) (use r s s' l ch that in \<open>auto simp: isDigit_def split: if_splits\<close>)
    then show "eats (if a then some readNumber else ?word) l''"
      using word [of l''] s s' by (auto intro: eats_some)
  qed
  have quote: "eats (?quote \<bind> (\<lambda>quote. if quote then some readFString else if ch = CHR 0x22 then some readString
      else if ch = CHR 0x27 then some readChar else ?number \<bind> (\<lambda>number. if number then some readNumber else ?word))) l'"
    if "src l' = src l" "pos l' = pos l" for l'
  proof (rule eats_after)
    show "still ?quote" by (rule still_rules)+
  qed (intro eats_if eats_some number eats_moves moves_rules; use l that in simp)
  show "eats (isBlockCommentStart \<bind> (\<lambda>block. if block then skipBlockComment \<bind> (\<lambda>_. ret None) else
      ?quote \<bind> (\<lambda>quote. if quote then some readFString else if ch = CHR 0x22 then some readString
      else if ch = CHR 0x27 then some readChar else ?number \<bind> (\<lambda>number. if number then some readNumber else ?word)))) l"
  proof (rule eats_after [OF still_isBlockCommentStart])
    fix a and l' :: Lexer assume s: "src l' = src l" "pos l' = pos l"
    then have "eats (skipBlockComment \<bind> (\<lambda>_. ret (None :: Token option))) l'"
      using l by (intro eats_bind eats_moves moves_rules) simp
    with quote [OF s] show "eats (if a then skipBlockComment \<bind> (\<lambda>_. ret None) else
      ?quote \<bind> (\<lambda>quote. if quote then some readFString else if ch = CHR 0x22 then some readString
      else if ch = CHR 0x27 then some readChar else ?number \<bind> (\<lambda>number. if number then some readNumber else ?word))) l'"
      by simp
  qed
qed

text \<open>Rounds that yield no token consume a byte.\<close>

definition noneEats :: "'a option lex \<Rightarrow> bool" where
  "noneEats m \<longleftrightarrow> moves False m \<and>
     (\<forall>l l'. run_state m l = (None, l') \<longrightarrow> pos l < length (src l) \<and> pos l < pos l')"

lemma noneEats_bind:
  assumes m: "moves False m" and f: "\<And>a. noneEats (f a)" shows "noneEats (m \<bind> f)"
proof -
  have "pos l < length (src l) \<and> pos l < pos l'" if "run_state (m \<bind> f) l = (None, l')" for l l'
  proof -
    obtain a l1 where r: "run_state m l = (a, l1)" by force
    have "src l1 = src l" "pos l \<le> pos l1" using m r unfolding moves_def by (metis snd_conv)+
    moreover have "run_state (f a) l1 = (None, l')" using that r by simp
    then have "pos l1 < length (src l1) \<and> pos l1 < pos l'" using f [of a] unfolding noneEats_def by blast
    ultimately show ?thesis by auto
  qed
  moreover have "moves False (m \<bind> f)"
    using moves_bind [OF m, of False f] f by (simp add: noneEats_def)
  ultimately show ?thesis by (simp add: noneEats_def)
qed

lemma noneEats_some: "moves b m \<Longrightarrow> noneEats (some m)"
  unfolding noneEats_def by (auto intro: moves_weaken moves_rules simp: some_def split: prod.splits)

lemma noneEats_if: "noneEats m \<Longrightarrow> noneEats n \<Longrightarrow> noneEats (if c then m else n)"
  by simp

lemmas noneEats_rules = noneEats_if noneEats_some noneEats_bind

lemma noneEats_readRest: "noneEats (readRest u)"
proof -
  have g: "moves False (modify (\<lambda>l. if pendingGroupedBlock l \<and> ch \<noteq> CHR '':'' then l\<lparr>pendingGroupedBlock := False\<rparr> else l))"
    "moves False (modify (\<lambda>l. l\<lparr>indentStack := butlast (indentStack l)\<rparr>))" for ch
    by (auto intro!: moves_modify)
  let ?tok = "peek \<bind> (\<lambda>ch. modify (\<lambda>l. if pendingGroupedBlock l \<and> ch \<noteq> CHR '':''
      then l\<lparr>pendingGroupedBlock := False\<rparr> else l) \<bind> (\<lambda>_. readToken u ch))"
  let ?fin = "gets indentStack \<bind> (\<lambda>stack. curPos \<bind> (\<lambda>p. if length stack > 1 then
       modify (\<lambda>l. l\<lparr>indentStack := butlast (indentStack l)\<rparr>) \<bind> (\<lambda>_. some (emit TOKEN_DEDENT [] p))
       else some (emit TOKEN_EOF [] p)))"
  have e: "noneEats ?fin" by (rule g noneEats_rules moves_rules)+
  have mt: "moves False ?tok"
    by (rule moves_weaken, (rule g moves_readToken moves_rules)+, simp)
  have t: "eats ?tok l" if l: "pos l < length (src l)" for l
  proof (rule eats_after)
    show "still peek" by (rule still_rules)
    fix ch l1 assume r: "run_state peek l = (ch, l1)" and s: "src l1 = src l" "pos l1 = pos l"
    show "eats (modify (\<lambda>l. if pendingGroupedBlock l \<and> ch \<noteq> CHR '':'' then l\<lparr>pendingGroupedBlock := False\<rparr> else l) \<bind>
        (\<lambda>_. readToken u ch)) l1"
      by (rule eats_after [OF still_modify], simp, rule readToken_eats) (use l r s in auto)
  qed
  have "noneEats (atEnd \<bind> (\<lambda>e. if e then ?fin else ?tok))" (is "noneEats ?m")
  proof -
    have "pos l < length (src l) \<and> pos l < pos l'" if run: "run_state ?m l = (None, l')" for l l'
    proof (cases "pos l < length (src l)")
      case True
      from run True have "run_state ?tok (noted (pos l + 1) l) = (None, l')" by simp
      with t [of "noted (pos l + 1) l"] True show ?thesis unfolding eats_def by simp
    next
      case False
      with run have "run_state ?fin (noted (pos l + 1) l) = (None, l')" by simp
      with e have "pos (noted (pos l + 1) l) < length (src (noted (pos l + 1) l))" unfolding noneEats_def by blast
      with False show ?thesis by simp
    qed
    moreover have "moves False ?m"
      using moves_bind [of False atEnd False "\<lambda>e. if e then ?fin else ?tok"] e mt moves_peeks
      by (simp add: noneEats_def)
    ultimately show ?thesis by (simp add: noneEats_def)
  qed
  then show ?thesis
    unfolding readRest_def by (rule noneEats_bind [rotated]) (rule moves_rules)
qed

subsection \<open>NextToken\<close>

lemma tame_takePending [tame_rules]: "tame k takePending"
  unfolding takePending_def
  by (rule tame_blind) (auto simp: ok_def extends_def)

lemma moves_takePending [moves_rules]: "moves False takePending"
  by (simp add: moves_def takePending_def)

lemmas consume_rules = conjunct1 [OF consumeLineDirectives_spec] conjunct1 [OF trimFinished_spec]

lemmas consume_moves = conjunct2 [OF consumeLineDirectives_spec] still_moves [OF conjunct2 [OF trimFinished_spec]]

lemma tame_nextStep [tame_rules]: "tame k (nextStep u)"
proof -
  have t: "tame k (modify trimPatternBlocks)" "tame k (gets pendingToks)" "tame k (gets atLineStart)"
    "tame k (gets (\<lambda>l. parenDepth l = 0 \<or> activeGroupedBlockContext l))" for k
    by (auto intro!: tame_modify tame_gets simp: trimPatternBlocks_def ok_def activeGroupedBlockContext_def)
  show ?thesis
    unfolding nextStep_def by (rule t consume_rules tame_rules tame_last)+
qed

lemma noneEats_nextStep: "noneEats (nextStep u)"
proof -
  have t: "moves False (modify trimPatternBlocks)" "moves False (modify (\<lambda>l. l\<lparr>atLineStart := False\<rparr>))"
    by (auto intro!: moves_modify simp: trimPatternBlocks_def)
  show ?thesis
    unfolding nextStep_def
    by (rule noneEats_readRest noneEats_if noneEats_some noneEats_bind t consume_moves moves_rules)+
qed

lemma nextStep_moves: "run_state (nextStep u) l = (t, l') \<Longrightarrow> src l' = src l \<and> pos l \<le> pos l'"
  using noneEats_nextStep [of u] unfolding noneEats_def moves_def by (metis snd_conv)

lemma nextStep_none:
  "run_state (nextStep u) l = (None, l') \<Longrightarrow> pos l < length (src l) \<and> pos l < pos l' \<and> remaining l' < remaining l"
  using noneEats_nextStep [of u] nextStep_moves [of u l None l'] unfolding noneEats_def remaining_def
  by (metis diff_less_mono2)

text \<open>The loop of \<^verbatim>\<open>NextToken\<close> over its calls to itself always ends with a token.\<close>

definition nextLoop :: "UnicodeTables \<Rightarrow> Token option \<Rightarrow> (bool \<times> Token option) lex" where
  "nextLoop u = (\<lambda>_. nextStep u \<bind> (\<lambda>t. ret (t = None, t)))"

lemma run_nextLoop: "run_state (nextLoop u v) l = (case run_state (nextStep u) l of (t, l') \<Rightarrow> ((t = None, t), l'))"
  by (simp add: nextLoop_def split: prod.split)

lemma next_rounds:
  assumes "loopL (\<lambda>_ l. remaining l) (nextLoop u) v l = (t, l')"
  shows "t \<noteq> None" and "\<lbrakk>\<And>l t l'. run_state (nextStep u) l = (t, l') \<Longrightarrow> P l \<Longrightarrow> (case t of None \<Rightarrow> P l' | Some tok \<Rightarrow> Q tok l')\<rbrakk>
    \<Longrightarrow> P l \<Longrightarrow> Q (the t) l'"
  using assms
proof (induction "remaining l" arbitrary: v l rule: less_induct)
  case less
  obtain t1 l1 where r: "run_state (nextStep u) l = (t1, l1)" by force
  {
    case 1
    show ?case
    proof (cases t1)
      case None
      from nextStep_none [OF r [unfolded None]] have d: "remaining l1 < remaining l" by simp
      with 1 r None have "loopL (\<lambda>_ l. remaining l) (nextLoop u) None l1 = (t, l')"
        by (subst (asm) loopL.simps) (simp add: run_nextLoop)
      from less(1) [OF d this] show ?thesis .
    next
      case (Some tok)
      with 1 r show ?thesis by (subst (asm) loopL.simps) (auto simp add: run_nextLoop)
    qed
  next
    case 2
    show ?case
    proof (cases t1)
      case None
      from nextStep_none [OF r [unfolded None]] have d: "remaining l1 < remaining l" by simp
      with 2(3) r None have lp: "loopL (\<lambda>_ l. remaining l) (nextLoop u) None l1 = (t, l')"
        by (subst (asm) loopL.simps) (simp add: run_nextLoop)
      have "P l1" using 2(1) [OF r 2(2)] None by simp
      from less(2) [OF d 2(1) this lp] show ?thesis by simp
    next
      case (Some tok)
      have "(t, l') = (t1, l1)" using 2(3) r Some by (subst (asm) loopL.simps) (simp add: run_nextLoop)
      with 2(1) [OF r 2(2)] Some show ?thesis by simp
    qed
  }
qed

lemma tame_NextToken [tame_rules]: "tame k (NextToken u)"
proof -
  have l: "tame k (loopM (\<lambda>_ l. remaining l) (nextLoop u) None)"
  proof (rule conjunct1 [OF loop_tame [where J = "\<lambda>_. True" and K = "\<lambda>_. 0"]])
    show "tame (max k 0) (nextLoop u v)" for v unfolding nextLoop_def by (rule tame_rules tame_bind)+
    fix v v' l l' assume "run_state (nextLoop u v) l = ((True, v'), l')"
    then have "run_state (nextStep u) l = (None, l')" by (auto simp: run_nextLoop split: prod.splits)
    from nextStep_none [OF this] show "remaining l' < remaining l" by simp
  qed (auto simp: yields_def known_def)
  have m: "tame k (modify (\<lambda>l. l\<lparr>lastTokenKind := x\<rparr>))" for x
    by (rule tame_modify) (auto simp: ok_def)
  show ?thesis
    unfolding NextToken_def nextLoop_def [symmetric] Let_def by (rule l m tame_rules tame_bind)+
qed

text \<open>What every round keeps and what the last one gives is what \<^verbatim>\<open>NextToken\<close> gives.\<close>

lemma NextToken_rounds:
  assumes run: "run_state (NextToken u) l = (tok, l')"
    and step: "\<And>l t l'. run_state (nextStep u) l = (t, l') \<Longrightarrow> P l \<Longrightarrow> (case t of None \<Rightarrow> P l' | Some tok \<Rightarrow> Q tok l')"
    and start: "P l"
  shows "\<exists>l1. l' = l1\<lparr>lastTokenKind := tok_Kind tok\<rparr> \<and> Q tok l1"
proof -
  obtain t l1 where lp: "loopL (\<lambda>_ l. remaining l) (nextLoop u) None l = (t, l1)" by force
  from next_rounds(1) [OF lp] obtain tok' where t: "t = Some tok'" by auto
  with run lp have "tok = tok'" "l' = l1\<lparr>lastTokenKind := tok_Kind tok\<rparr>"
    by (auto simp: NextToken_def nextLoop_def [symmetric] loopM_def)
  moreover from next_rounds(2) [where P = P and Q = Q, OF lp step start] t have "Q tok' l1" by simp
  ultimately show ?thesis by blast
qed

end
