(* ===== verification/LexerLayout.thy ===== *)
theory LexerLayout
  imports LexerProgress
begin

text \<open>
  The layout part of the lexer state: what every computation keeps of the indentation stack,
  the queue of layout tokens and the line-start flag, and which kinds of token it can yield.
\<close>

subsection \<open>Keeping a part of the state, yielding values of a kind\<close>

text \<open>A part \<open>f\<close> of the state that does not show the flag of a hanging loop.\<close>

definition apart :: "(Lexer \<Rightarrow> 'b) \<Rightarrow> bool" where
  "apart f \<longleftrightarrow> (\<forall>l. f (l\<lparr>hung := True\<rparr>) = f l)"

definition keeps :: "(Lexer \<Rightarrow> 'b) \<Rightarrow> 'a lex \<Rightarrow> bool" where
  "keeps f m \<longleftrightarrow> (apart f \<longrightarrow> (\<forall>l. f (snd (run_state m l)) = f l))"

definition gives :: "('a \<Rightarrow> bool) \<Rightarrow> 'a lex \<Rightarrow> bool" where
  "gives Q m \<longleftrightarrow> (\<forall>l. Q (fst (run_state m l)))"

named_theorems keeps_rules "computations that keep the layout state"
named_theorems gives_rules "kinds of the tokens computations yield"

lemma keeps_bind [keeps_rules]: "keeps f m \<Longrightarrow> (\<And>a. keeps f (g a)) \<Longrightarrow> keeps f (m \<bind> g)"
  by (simp add: keeps_def split: prod.split) (metis snd_conv)

lemma keeps_basic [keeps_rules]: "keeps f (ret x)" "keeps f (gets h)"
  by (simp_all add: keeps_def)

lemma keeps_modify: "(\<And>l. f (h l) = f l) \<Longrightarrow> keeps f (modify h)"
  by (simp add: keeps_def)

lemma keeps_if [keeps_rules]: "keeps f m \<Longrightarrow> keeps f n \<Longrightarrow> keeps f (if c then m else n)"
  by simp

lemma keeps_prod [keeps_rules]: "(\<And>x y. keeps f (g x y)) \<Longrightarrow> keeps f (case p of (x, y) \<Rightarrow> g x y)"
  by (cases p) simp

lemma keeps_option [keeps_rules]:
  "keeps f m \<Longrightarrow> (\<And>x. keeps f (g x)) \<Longrightarrow> keeps f (case p of None \<Rightarrow> m | Some x \<Rightarrow> g x)"
  by (cases p) auto

lemma keeps_loop [keeps_rules]: "(\<And>v. keeps f (step v)) \<Longrightarrow> keeps f (loopM meas step v)"
  unfolding keeps_def by (intro impI allI loop_rel [where R = "\<lambda>l l'. f l' = f l"]) (auto simp: apart_def)

lemma keeps_while [keeps_rules]: "keeps f c \<Longrightarrow> keeps f b \<Longrightarrow> keeps f (whileM c b)"
  unfolding whileM_def by (intro keeps_rules)

lemma keeps_some [keeps_rules]: "keeps f m \<Longrightarrow> keeps f (some m)"
  unfolding some_def by (intro keeps_rules)

lemma keepsD: "keeps f m \<Longrightarrow> run_state m l = (a, l') \<Longrightarrow> apart f \<Longrightarrow> f l' = f l"
  unfolding keeps_def by (metis snd_conv)

lemma gives_bind: "(\<And>a. gives Q (g a)) \<Longrightarrow> gives Q (m \<bind> g)"
  by (simp add: gives_def split: prod.split)

lemma gives_then: "gives J m \<Longrightarrow> (\<And>a. J a \<Longrightarrow> gives Q (g a)) \<Longrightarrow> gives Q (m \<bind> g)"
  by (simp add: gives_def split: prod.split) (metis fst_conv)

lemma gives_ret: "Q x \<Longrightarrow> gives Q (ret x)"
  by (simp add: gives_def)

lemma gives_if [gives_rules]: "gives Q m \<Longrightarrow> gives Q n \<Longrightarrow> gives Q (if c then m else n)"
  by simp

lemma gives_prod [gives_rules]: "(\<And>x y. gives Q (g x y)) \<Longrightarrow> gives Q (case p of (x, y) \<Rightarrow> g x y)"
  by (cases p) simp

lemma gives_loop:
  assumes "\<And>v. J v \<Longrightarrow> gives (\<lambda>r. J (snd r)) (step v)" and "J v"
  shows "gives J (loopM meas step v)"
  unfolding gives_def
proof
  fix l
  have "J v \<longrightarrow> J (fst (run_state (loopM meas step v) l))"
    by (rule loop_value [where R = "\<lambda>a b. J a \<longrightarrow> J b"]) (use assms(1) in \<open>auto simp: gives_def\<close>)
  with assms(2) show "J (fst (run_state (loopM meas step v) l))" by blast
qed

lemma givesD: "gives Q m \<Longrightarrow> run_state m l = (a, l') \<Longrightarrow> Q a"
  unfolding gives_def by (metis fst_conv)

subsection \<open>What computations keep of the layout\<close>

definition layout :: "Lexer \<Rightarrow> nat list \<times> Token list \<times> bool" where
  "layout l = (indentStack l, pendingToks l, atLineStart l)"

definition queues :: "Lexer \<Rightarrow> nat list \<times> Token list" where
  "queues l = (indentStack l, pendingToks l)"

lemma apart_layout: "apart layout" and apart_queues: "apart queues"
  by (simp_all add: apart_def layout_def queues_def)

lemmas keeps_layoutD = keepsD [OF _ _ apart_layout]
lemmas keeps_queuesD = keepsD [OF _ _ apart_queues]

lemma keeps_queues: "keeps layout m \<Longrightarrow> keeps queues m"
  by (simp add: keeps_def apart_layout) (simp add: layout_def queues_def)

lemma layout_noted [simp]: "layout (noted n l) = layout l" "layout (stepped ch l) = layout l"
  by (simp_all add: layout_def noted_def stepped_def)

lemma keeps_reads [keeps_rules]:
  "keeps layout (noteRead n)" "keeps layout (sourceHas i)" "keeps layout (sourceByte i)"
  "keeps layout (sourceSlice i j)" "keeps layout (runeBytes i)" "keeps layout (byteIs j P)"
  "keeps layout curPos" "keeps layout currentIndent" "keeps layout atEnd" "keeps layout peek"
  "keeps layout (peekIs P)" "keeps layout (peekAt n)" "keeps layout (finishToken t)"
  "keeps layout (emit a b c)" "keeps layout advance" "keeps layout (reportErrorAt p s)"
  by (auto simp: keeps_def layout_def noteRead_def sourceHas_def sourceByte_def sourceSlice_def runeBytes_def
      byteIs_def curPos_def currentIndent_def atEnd_def peek_def peekIs_def peekAt_def finishToken_def
      emit_def advance_def reportErrorAt_def)

lemma keeps_moves [keeps_rules]: "keeps layout (advanceN n)"
  by (induction n) (auto intro: keeps_rules)

lemma keeps_helpers [keeps_rules]:
  "keeps layout (reportSince p s)" "keeps layout peekRune" "keeps layout advanceRune"
  "keeps layout (matchByte c)" "keeps layout (skipWhile P)" "keeps layout skipLineComment"
  "keeps layout isBlockCommentStart" "keeps layout skipBlockComment" "keeps layout measureIndent"
  "keeps layout skipNewlines" "keeps layout (scanWhile P j)" "keeps layout (scanNumber j)"
  "keeps layout (trimRight a e)"
  unfolding reportSince_def peekRune_def advanceRune_def matchByte_def skipWhile_def skipLineComment_def
    isBlockCommentStart_def skipBlockComment_def measureIndent_def skipNewlines_def scanWhile_def
    scanNumber_def trimRight_def
  by (rule keeps_rules)+

lemma keeps_readHexLoop [keeps_rules]: "keeps layout (readHexLoop n v)"
  by (induction n arbitrary: v) (auto intro: keeps_rules)

lemma keeps_matchBytes [keeps_rules]: "keeps layout (matchBytes i cs)"
  by (induction cs arbitrary: i) (auto intro!: keeps_rules)

lemma keeps_literals [keeps_rules]: "keeps layout (readFixedHexDigits n)"
  "keeps layout (readUnicodeEscape lit p d)" "keeps layout (readEscape c lit p e d)"
  "keeps layout readString" "keeps layout readChar"
  unfolding readFixedHexDigits_def readUnicodeEscape_def readEscape_def readString_def readChar_def Let_def
  by (rule keeps_rules)+

lemma keeps_numbers [keeps_rules]: "keeps layout (hasFloatSuffixAt n)" "keeps layout shouldReadFloatFraction"
  "keeps layout readTypeSuffix" "keeps layout (skipHexDigits start)" "keeps layout readExponent" "keeps layout readNumber"
proof -
  have p: "keeps layout (modify (\<lambda>l. l\<lparr>pos := h l\<rparr>))" "keeps layout (modify (\<lambda>l. l\<lparr>pos := h l, col := i l\<rparr>))" for h i
    by (auto intro!: keeps_modify simp: layout_def)
  show "keeps layout (hasFloatSuffixAt n)" "keeps layout shouldReadFloatFraction"
    "keeps layout readTypeSuffix" "keeps layout (skipHexDigits start)" "keeps layout readExponent" "keeps layout readNumber"
    unfolding hasFloatSuffixAt_def shouldReadFloatFraction_def readTypeSuffix_def skipHexDigits_def readExponent_def
      readNumber_def Let_def
    by (rule p keeps_rules)+
qed

lemma keeps_scans [keeps_rules]: "keeps layout (scanIdentRunes u i)" "keeps layout (skipBlanksAndComments i)"
  "keeps layout (patternScrutineeFollows u)" "keeps layout (skipIdentRunes u)" "keeps layout skipEmbeddedString"
  "keeps layout readFString" "keeps layout currentLineIndent" "keeps layout (operatorFollows i op)"
  "keeps layout (measureBlanks i)" "keeps layout (hasScrutinee h)"
  unfolding scanIdentRunes_def skipBlanksAndComments_def patternScrutineeFollows_def skipIdentRunes_def
    skipEmbeddedString_def readFString_def currentLineIndent_def operatorFollows_def measureBlanks_def
    hasScrutinee_def Let_def
  by (rule keeps_rules)+

lemma keeps_anyOperator [keeps_rules]: "keeps layout (anyOperatorFollows ops i)"
  by (induction ops) (auto intro!: keeps_rules)

lemma keeps_fields: "keeps layout (modify (\<lambda>l. l\<lparr>pendingGroupedBlock := b l\<rparr>))"
  "keeps layout (modify (\<lambda>l. l\<lparr>pendingPatternBlocks := c l\<rparr>))"
  "keeps layout (modify (\<lambda>l. l\<lparr>groupedBlockContexts := d l\<rparr>))"
  "keeps layout (modify (\<lambda>l. l\<lparr>parenDepth := e l, pendingGroupedBlock := b l\<rparr>))"
  by (auto intro!: keeps_modify simp: layout_def)

lemma keeps_tokens [keeps_rules]: "keeps layout booleanContinuation" "keeps layout (readIdent u)"
  unfolding booleanContinuation_def readIdent_def Let_def
  by (rule keeps_fields keeps_rules)+

lemma keeps_orElse [keeps_rules]: "keeps layout m \<Longrightarrow> keeps layout n \<Longrightarrow> keeps layout (orElse ch m n)"
  unfolding orElse_def by (intro keeps_rules)

lemma keeps_readOperator [keeps_rules]: "keeps layout (readOperator ch)"
  unfolding readOperator_def opOrAssign_def readDots_def readColon_def openGroup_def closeGroup_def
  by (rule keeps_fields keeps_rules)+

lemma keeps_trims [keeps_rules]: "keeps layout (modify trimPatternBlocks)" "keeps layout trimFinishedGroupedBlockContexts"
proof -
  show "keeps layout (modify trimPatternBlocks)"
    by (rule keeps_modify) (simp add: layout_def trimPatternBlocks_def)
  show "keeps layout trimFinishedGroupedBlockContexts"
    unfolding trimFinishedGroupedBlockContexts_def by (rule keeps_fields keeps_rules)+
qed

lemma keeps_queues_directive: "keeps queues tryConsumeLineDirective"
proof -
  have m: "keeps queues (modify (\<lambda>l. l\<lparr>pos := a l, line := b l, lineEpoch := c l, col := d l, filename := e l, atLineStart := f l\<rparr>))"
    for a b c d e f by (rule keeps_modify) (simp add: queues_def)
  show ?thesis
    unfolding tryConsumeLineDirective_def Let_def
    by (rule m keeps_rules keeps_rules [THEN keeps_queues])+
qed

subsection \<open>The kinds of the tokens\<close>

definition layoutKind :: "TokenKind \<Rightarrow> bool" where
  "layoutKind k \<longleftrightarrow> k = TOKEN_INDENT \<or> k = TOKEN_DEDENT \<or> k = TOKEN_EOF"

abbreviation plain :: "Token \<Rightarrow> bool" where
  "plain t \<equiv> \<not> layoutKind (tok_Kind t)"

lemma tok_Kind_mk [simp]: "tok_Kind (mkToken k text p) = k" "tok_Kind (viewToken k text start p) = k"
  by (simp_all add: mkToken_def viewToken_def)

lemma finishToken_kind: "gives (\<lambda>t'. tok_Kind t' = tok_Kind t) (finishToken t)"
  by (simp add: gives_def finishToken_def curPos_def)

lemma gives_finish: "plain t \<Longrightarrow> gives plain (finishToken t)"
  using finishToken_kind [of t] by (simp add: gives_def)

lemma gives_emit: "\<not> layoutKind k \<Longrightarrow> gives plain (emit k text p)"
  unfolding emit_def by (rule gives_finish) simp

lemma gives_orElse: "gives Q m \<Longrightarrow> gives Q n \<Longrightarrow> gives Q (orElse c m n)"
  unfolding orElse_def by (intro gives_bind gives_if)

lemma gives_readOperator: "gives plain (readOperator ch)"
  unfolding readOperator_def opOrAssign_def readDots_def readColon_def openGroup_def closeGroup_def
  by (rule gives_emit gives_orElse gives_if gives_bind | simp add: layoutKind_def; fail)+

lemma keyword_kinds: "\<forall>e \<in> set keywordTable. \<not> layoutKind (snd e)"
  by (simp add: keywordTable_def layoutKind_def)

lemma LookupKeyword_plain: "\<not> layoutKind (LookupKeyword text)"
proof (cases "map_of keywordTable text")
  case None
  then show ?thesis by (simp add: LookupKeyword_def layoutKind_def)
next
  case (Some k)
  with map_of_SomeD [OF Some] keyword_kinds show ?thesis by (auto simp: LookupKeyword_def)
qed

lemma gives_readIdent: "gives plain (readIdent u)"
  unfolding readIdent_def Let_def
  by (rule gives_bind)+ (rule gives_finish, simp add: LookupKeyword_plain)

lemma gives_readNumber: "gives plain (readNumber)"
  unfolding readNumber_def Let_def
  by (rule gives_finish gives_if gives_bind | simp add: layoutKind_def; fail)+

text \<open>A literal's loop ends with a token of its kind or with none.\<close>

abbreviation noLayout :: "Token option \<Rightarrow> bool" where
  "noLayout t \<equiv> (case t of None \<Rightarrow> True | Some tok \<Rightarrow> plain tok)"

lemma literal_plain [simp]: "\<not> layoutKind TOKEN_STRING_LIT" "\<not> layoutKind TOKEN_CHAR_LIT"
  "\<not> layoutKind TOKEN_FSTRING_LIT"
  by (simp_all add: layoutKind_def)

lemma gives_readString: "gives plain readString"
  unfolding readString_def
  apply (rule gives_bind, rule gives_bind)
  apply (rule gives_then [where J = "\<lambda>(_, t). noLayout t"])
   apply (rule gives_loop)
    apply (rule gives_prod)
    apply (rule gives_ret gives_if gives_then [OF gives_finish] gives_bind | simp add: layoutKind_def; fail)+
   apply simp
  apply (auto split: option.splits intro!: gives_ret gives_bind gives_finish)
  done

lemma gives_readChar: "gives plain readChar"
  unfolding readChar_def
  apply (rule gives_bind, rule gives_bind)
  apply (rule gives_then [where J = "\<lambda>(_, _, t). noLayout t"])
   apply (rule gives_loop)
    apply (rule gives_prod, rule gives_prod)
    apply (rule gives_ret gives_if gives_then [OF gives_finish] gives_bind | simp add: layoutKind_def; fail)+
   apply simp
  apply (auto split: option.splits intro!: gives_ret gives_bind gives_finish)
  done

lemma gives_readFString: "gives plain readFString"
  unfolding readFString_def
  apply (rule gives_bind, rule gives_bind, rule gives_bind)
  apply (rule gives_then [where J = "\<lambda>(_, t). noLayout t"])
   apply (rule gives_loop)
    apply (rule gives_prod)
    apply (rule gives_ret gives_if gives_then [OF gives_finish] gives_bind | simp add: layoutKind_def; fail)+
   apply simp
  apply (auto split: option.splits intro!: gives_ret gives_bind gives_finish)
  done

lemma gives_some: "gives plain m \<Longrightarrow> gives noLayout (some m)"
  unfolding some_def by (rule gives_then) (assumption, rule gives_ret, simp)

lemma gives_readToken: "gives noLayout (readToken u ch)"
  unfolding readToken_def readNewline_def
  by (rule gives_ret gives_if gives_then [OF gives_finish] gives_some gives_readFString gives_readString gives_readChar
      gives_readNumber gives_readIdent gives_readOperator gives_bind | simp add: layoutKind_def; fail)+

end
