(* ===== verification/LexerTokenize.thy ===== *)
theory LexerTokenize
  imports LexerLayout
begin

text \<open>
  \<^verbatim>\<open>Tokenize\<close>, and the layout discipline of the token stream: blocks open and close in a
  balanced way, the indentation stack is strictly increasing, and the stream ends.
\<close>

subsection \<open>Block structure of a token stream\<close>

text \<open>Reading a stream with \<open>d\<close> blocks open: the number of blocks open afterwards, or \<open>None\<close>
  when a block is closed that was never opened.\<close>

fun opens :: "nat \<Rightarrow> Token list \<Rightarrow> nat option" where
  "opens d [] = Some d"
| "opens d (t # ts) =
     (if tok_Kind t = TOKEN_INDENT then opens (d + 1) ts
      else if tok_Kind t = TOKEN_DEDENT then (if d = 0 then None else opens (d - 1) ts)
      else opens d ts)"

lemma opens_append: "opens d (ts @ us) = (case opens d ts of None \<Rightarrow> None | Some e \<Rightarrow> opens e us)"
  by (induction d ts rule: opens.induct) auto

definition stackOk :: "nat list \<Rightarrow> bool" where
  "stackOk stack \<longleftrightarrow> stack \<noteq> [] \<and> hd stack = 0 \<and> sorted_wrt (<) stack"

lemma stackOk_push: "stackOk stack \<Longrightarrow> last stack < i \<Longrightarrow> stackOk (stack @ [i])"
  by (cases stack rule: rev_cases) (auto simp: stackOk_def sorted_wrt_append hd_append intro: less_trans)

lemma stackOk_pop: "stackOk stack \<Longrightarrow> length stack > 1 \<Longrightarrow> stackOk (butlast stack)"
  by (cases stack rule: rev_cases) (auto simp: stackOk_def sorted_wrt_append)

text \<open>The layout invariant, \<open>d\<close> blocks being open in the tokens already given out.\<close>

definition layoutOk :: "nat \<Rightarrow> Lexer \<Rightarrow> bool" where
  "layoutOk d l \<longleftrightarrow> stackOk (indentStack l) \<and> opens d (pendingToks l) = Some (length (indentStack l) - 1) \<and>
     (\<forall>t \<in> set (pendingToks l). (tok_Kind t = TOKEN_INDENT \<or> tok_Kind t = TOKEN_DEDENT) \<and> tok_View t = None)"

lemma layoutOk_queues: "queues l' = queues l \<Longrightarrow> layoutOk d l' = layoutOk d l"
  by (simp add: layoutOk_def queues_def)

lemma queued_queues: "queues l' = queues l \<Longrightarrow> queued l' = queued l"
  by (simp add: queued_def queues_def)

lemma layoutOk_new: "layoutOk 0 (lexNew name source)"
  by (simp add: layoutOk_def lexNew_def stackOk_def)

subsection \<open>Indentation\<close>

lemma run_pushLayout_kind:
  "\<exists>tok. run_state (pushLayout kind) l = ((), l\<lparr>pendingToks := pendingToks l @ [tok]\<rparr>) \<and>
     tok_Kind tok = kind \<and> tok_View tok = None"
  by (rule exI, rule conjI, rule run_pushLayout, simp add: finishToken_def curPos_def mkToken_def)

lemma run_currentIndent: "run_state currentIndent l = (last (indentStack l), l)" if "indentStack l \<noteq> []"
  using that by (simp add: currentIndent_def)

lemma pushIndent_layout:
  assumes "layoutOk d l" "last (indentStack l) < i" "run_state (pushIndent i) l = (u, l')"
  shows "layoutOk d l' \<and> queued l' = queued l + 2 \<and> atLineStart l' = atLineStart l"
proof -
  obtain tok where t: "run_state (pushLayout TOKEN_INDENT) (l\<lparr>indentStack := indentStack l @ [i]\<rparr>) =
      ((), l\<lparr>indentStack := indentStack l @ [i], pendingToks := pendingToks l @ [tok]\<rparr>)" "tok_Kind tok = TOKEN_INDENT" "tok_View tok = None"
    using run_pushLayout_kind [of TOKEN_INDENT "l\<lparr>indentStack := indentStack l @ [i]\<rparr>"] by auto
  with assms(3) have l': "l' = l\<lparr>indentStack := indentStack l @ [i], pendingToks := pendingToks l @ [tok]\<rparr>"
    by (simp add: pushIndent_def)
  from assms(1) have "indentStack l \<noteq> []" by (simp add: layoutOk_def stackOk_def)
  with assms t(2,3) show ?thesis
    by (auto simp: l' layoutOk_def queued_def opens_append stackOk_push)
qed

text \<open>One round of \<^verbatim>\<open>popIndents\<close>.\<close>

lemma popIndents_layout:
  assumes "layoutOk d l" "run_state (popIndents i) l = (u, l')"
  shows "layoutOk d l' \<and> queued l' = queued l \<and> atLineStart l' = atLineStart l"
proof -
  let ?step = "\<lambda>_ :: unit. gets indentStack \<bind> (\<lambda>stack. if length stack > 1 \<and> last stack > i then
      modify (\<lambda>l. l\<lparr>indentStack := butlast (indentStack l)\<rparr>) \<bind> (\<lambda>_. pushLayout TOKEN_DEDENT \<bind> (\<lambda>_. ret (True, ())))
      else ret (False, ()))"
  let ?R = "\<lambda>l l'. layoutOk d l \<longrightarrow> (layoutOk d l' \<and> queued l' = queued l \<and> atLineStart l' = atLineStart l)"
  have "?R l (snd (run_state (loopM (\<lambda>_ l. length (indentStack l)) ?step ()) l))"
  proof (rule loop_rel [where R = ?R])
    show "?R l (snd (run_state (?step v) l))" for v :: unit and l :: Lexer
    proof
      assume ok: "layoutOk d l"
      show "layoutOk d (snd (run_state (?step v) l)) \<and> queued (snd (run_state (?step v) l)) = queued l \<and>
          atLineStart (snd (run_state (?step v) l)) = atLineStart l"
      proof (cases "length (indentStack l) > 1 \<and> last (indentStack l) > i")
        case True
        obtain tok where t: "run_state (pushLayout TOKEN_DEDENT) (l\<lparr>indentStack := butlast (indentStack l)\<rparr>) =
            ((), l\<lparr>indentStack := butlast (indentStack l), pendingToks := pendingToks l @ [tok]\<rparr>)" "tok_Kind tok = TOKEN_DEDENT" "tok_View tok = None"
          using run_pushLayout_kind [of TOKEN_DEDENT "l\<lparr>indentStack := butlast (indentStack l)\<rparr>"] by auto
        with True have "snd (run_state (?step v) l) = l\<lparr>indentStack := butlast (indentStack l), pendingToks := pendingToks l @ [tok]\<rparr>"
          by simp
        with ok True t(2,3) show ?thesis
          by (auto simp: layoutOk_def queued_def opens_append stackOk_pop)
      qed (use ok in auto)
    qed
  next
    show "?R a (b\<lparr>hung := True\<rparr>)" if "?R a b" for a b :: Lexer
      using that by (simp add: layoutOk_queues [of "b\<lparr>hung := True\<rparr>" b] queues_def queued_def)
  qed auto
  with assms show ?thesis by (simp add: popIndents_def)
qed

lemma applyIndent_layout:
  assumes ok: "layoutOk d l" and run: "run_state (applyIndent i) l = (u, l')"
  shows "layoutOk d l' \<and> queued l' \<le> queued l + 2 \<and> atLineStart l' = atLineStart l"
proof -
  have ne: "indentStack l \<noteq> []" using ok by (simp add: layoutOk_def stackOk_def)
  consider "last (indentStack l) < i" | "last (indentStack l) = i" | "i < last (indentStack l)" by linarith
  then show ?thesis
  proof cases
    case 1
    with run ne have "run_state (pushIndent i) l = (u, l')" by (simp add: applyIndent_def run_currentIndent)
    from pushIndent_layout [OF ok 1 this] show ?thesis by simp
  next
    case 2
    with run ne ok show ?thesis by (simp add: applyIndent_def run_currentIndent)
  next
    case 3
    obtain l1 where pop: "run_state (popIndents i) l = ((), l1)" by (metis old.unit.exhaust prod.exhaust)
    note p = popIndents_layout [OF ok pop]
    then have ne1: "indentStack l1 \<noteq> []" by (simp add: layoutOk_def stackOk_def)
    show ?thesis
    proof (cases "last (indentStack l1) < i")
      case True
      with 3 run ne ne1 pop have "run_state (pushIndent i) l1 = (u, l')" by (simp add: applyIndent_def run_currentIndent)
      from pushIndent_layout [OF _ True this] p show ?thesis by auto
    next
      case False
      with 3 run ne ne1 pop p show ?thesis by (simp add: applyIndent_def run_currentIndent)
    qed
  qed
qed

lemma skipCommentLines_keeps: "keeps queues (skipCommentLines i)"
proof -
  have f: "keeps queues (modify (\<lambda>l. l\<lparr>atLineStart := b\<rparr>))" for b
    by (rule keeps_modify) (simp add: queues_def)
  show ?thesis
    unfolding skipCommentLines_def
    by (rule f keeps_queues_directive keeps_rules keeps_rules [THEN keeps_queues])+
qed

lemma run_split: "run_state (m \<bind> f) l = (b, l2) \<Longrightarrow> \<exists>a l1. run_state m l = (a, l1) \<and> run_state (f a) l1 = (b, l2)"
  by (cases "run_state m l") auto

definition ends :: "('a \<Rightarrow> Lexer \<Rightarrow> bool) \<Rightarrow> 'a lex \<Rightarrow> bool" where
  "ends R m \<longleftrightarrow> (\<forall>l. R (fst (run_state m l)) (snd (run_state m l)))"

lemma ends_bind: "(\<And>a. ends R (f a)) \<Longrightarrow> ends R (m \<bind> f)"
  by (simp add: ends_def split: prod.split)

lemma ends_if: "ends R m \<Longrightarrow> ends R n \<Longrightarrow> ends R (if c then m else n)"
  by simp

lemma ends_prod: "(\<And>x y. ends R (f x y)) \<Longrightarrow> ends R (case p of (x, y) \<Rightarrow> f x y)"
  by (cases p) simp

lemma ends_ret: "(\<And>l. R x l) \<Longrightarrow> ends R (ret x)"
  by (simp add: ends_def)

lemma ends_loop:
  assumes "\<And>v. ends (\<lambda>r. R (snd r)) (step v)" and flag: "\<And>v l. R v l \<Longrightarrow> R v (l\<lparr>hung := True\<rparr>)"
  shows "ends R (loopM meas step v)"
proof -
  have "R (fst (loopL meas step v l)) (snd (loopL meas step v l))" for l
    using assms(1)
  proof (induction meas step v l rule: loopL.induct)
    case (1 meas step v l)
    obtain again v' l' where r: "run_state (step v) l = ((again, v'), l')" by (metis prod.collapse)
    from "1.prems" [of v] r have one: "R v' l'" unfolding ends_def by (metis fst_conv snd_conv)
    show ?case
    proof (cases "again \<and> meas v' l' < meas v l")
      case True
      then have "\<not> \<not> again" "meas v' l' < meas v l" by simp_all
      from "1.IH" [OF r [symmetric] refl this "1.prems"] True r show ?thesis
        by (subst (1 2) loopL.simps) simp
    next
      case False
      with one flag [OF one] r show ?thesis by (subst (1 2) loopL.simps) auto
    qed
  qed
  then show ?thesis by (simp add: ends_def loopM_def)
qed

text \<open>The loop over comment lines returns early only after clearing the line-start flag.\<close>

lemma skipCommentLines_flag:
  assumes "run_state (skipCommentLines i) l = ((j, True), l')" shows "\<not> atLineStart l'"
proof -
  have stop: "ends (\<lambda>r l. snd (snd r) \<longrightarrow> \<not> atLineStart l) (modify (\<lambda>l. l\<lparr>atLineStart := False\<rparr>) \<bind> (\<lambda>_. ret (b, (j, True))))"
    for b and j :: nat by (simp add: ends_def)
  have "ends (\<lambda>r l. snd r \<longrightarrow> \<not> atLineStart l) (skipCommentLines i)"
    unfolding skipCommentLines_def
    by (rule ends_loop, rule ends_prod) (rule stop ends_if ends_bind | rule ends_ret, simp | simp)+
  with assms show ?thesis unfolding ends_def by (metis fst_conv snd_conv)
qed

lemma handleIndentation_layout:
  assumes ok: "layoutOk d l" and run: "run_state handleIndentation l = (u, l')"
  shows "layoutOk d l' \<and> queued l' \<le> queued l + 2 \<and> \<not> atLineStart l'"
proof -
  obtain i l1 where r1: "run_state measureIndent l = (i, l1)" by force
  obtain j stop l2 where r2: "run_state (skipCommentLines i) l1 = ((j, stop), l2)" by (metis prod.collapse)
  have q1: "queues l1 = queues l" by (rule keeps_queuesD [OF _ r1]) (rule keeps_rules [THEN keeps_queues])
  have q2: "queues l2 = queues l" using keeps_queuesD [OF skipCommentLines_keeps r2] q1 by simp
  from q2 have ok2: "layoutOk d l2" "queued l2 = queued l" using ok layoutOk_queues queued_queues by metis+
  show ?thesis
  proof (cases stop)
    case True
    with run r1 r2 have "l' = l2" by (simp add: handleIndentation_def)
    with ok2 skipCommentLines_flag r2 True show ?thesis by auto
  next
    case False
    let ?l3 = "l2\<lparr>atLineStart := False\<rparr>"
    have q3: "queues ?l3 = queues l2" by (simp add: queues_def)
    from False run r1 r2 have "run_state (applyIndent (groupedIndent ?l3 j)) ?l3 = (u, l')"
      by (simp add: handleIndentation_def)
    from applyIndent_layout [OF _ this, of d] ok2 layoutOk_queues [OF q3] queued_queues [OF q3]
    show ?thesis by auto
  qed
qed

subsection \<open>One token\<close>

definition atEof :: "Lexer \<Rightarrow> bool" where
  "atEof l \<longleftrightarrow> pendingToks l = [] \<and> indentStack l = [0] \<and> length (src l) \<le> pos l"

definition outcome :: "nat \<Rightarrow> Token option \<Rightarrow> nat \<Rightarrow> Lexer \<Rightarrow> bool" where
  "outcome d t w l \<longleftrightarrow> (case t of
      None \<Rightarrow> layoutOk d l \<and> workLeft l < w
    | Some tok \<Rightarrow> if tok_Kind tok = TOKEN_EOF then d = 0 \<and> atEof l
        else \<exists>e. opens d [tok] = Some e \<and> layoutOk e l \<and> workLeft l < w)"

lemma outcome_mono: "outcome d t v l \<Longrightarrow> v \<le> w \<Longrightarrow> outcome d t w l"
  by (auto simp: outcome_def split: option.splits if_splits)

lemma outcome_plain:
  assumes "noLayout t" "layoutOk d l" "workLeft l < w" shows "outcome d t w l"
  using assms by (auto simp: outcome_def layoutKind_def split: option.splits)

lemma outcome_pending:
  assumes ok: "layoutOk d l" and run: "run_state (some takePending) l = (t, l')" and ne: "pendingToks l \<noteq> []"
  shows "outcome d t (workLeft l) l'"
proof -
  obtain tok ts where p: "pendingToks l = tok # ts" using ne by (cases "pendingToks l") auto
  have r: "t = Some tok" "l' = l\<lparr>pendingToks := ts\<rparr>" using run p by (auto simp: some_def takePending_def)
  have "tok_Kind tok = TOKEN_INDENT \<or> tok_Kind tok = TOKEN_DEDENT" using ok p by (auto simp: layoutOk_def)
  moreover have "workLeft l' < workLeft l" by (simp add: r p workLeft_def queued_def remaining_def)
  ultimately show ?thesis using ok by (auto simp: outcome_def r p layoutOk_def split: if_splits)
qed

lemma keeps_readToken: "keeps queues (readToken u ch)"
proof -
  have f: "keeps queues (modify (\<lambda>l. l\<lparr>atLineStart := b\<rparr>))" for b
    by (rule keeps_modify) (simp add: queues_def)
  show ?thesis
    unfolding readToken_def readNewline_def
    by (rule f keeps_rules keeps_rules [THEN keeps_queues])+
qed

lemma readToken_outcome:
  assumes l: "pos l < length (src l)" "src l ! pos l = ch" and ok: "layoutOk d l"
    and run: "run_state (readToken u ch) l = (t, l')"
  shows "outcome d t (workLeft l) l'"
proof (rule outcome_plain)
  show "noLayout t" by (rule givesD [OF gives_readToken run])
  have q: "queues l' = queues l" by (rule keeps_queuesD [OF keeps_readToken run])
  with ok show "layoutOk d l'" using layoutOk_queues by blast
  have "src l' = src l" using moves_readToken [of u ch] run unfolding moves_def by (metis snd_conv)
  moreover have "pos l < pos l'" using readToken_eats [OF l, of u] run by (simp add: eats_def)
  ultimately show "workLeft l' < workLeft l"
    using l(1) queued_queues [OF q] by (auto simp: workLeft_def remaining_def)
qed

lemma endRest_outcome:
  assumes ok: "layoutOk d l" and p: "pendingToks l = []" and e: "length (src l) \<le> pos l"
    and run: "run_state (gets indentStack \<bind> (\<lambda>stack. curPos \<bind> (\<lambda>p. if length stack > 1 then
       modify (\<lambda>l. l\<lparr>indentStack := butlast (indentStack l)\<rparr>) \<bind> (\<lambda>_. some (emit TOKEN_DEDENT [] p))
       else some (emit TOKEN_EOF [] p)))) l = (t, l')"
  shows "outcome d t (workLeft l) l'"
proof (cases "length (indentStack l) > 1")
  case True
  with run obtain tok where "t = Some tok" "tok_Kind tok = TOKEN_DEDENT" and l': "l' = l\<lparr>indentStack := butlast (indentStack l)\<rparr>"
    by (auto simp: some_def emit_def finishToken_def curPos_def)
  with ok p True show ?thesis
    by (auto simp: outcome_def layoutOk_def stackOk_pop workLeft_def queued_def remaining_def)
next
  case False
  with run obtain tok where "t = Some tok" "tok_Kind tok = TOKEN_EOF" and l': "l' = l"
    by (auto simp: some_def emit_def finishToken_def curPos_def)
  moreover have "indentStack l = [0]" "d = 0" using ok p False
    by (cases "indentStack l"; auto simp: layoutOk_def stackOk_def)+
  ultimately show ?thesis using p e by (simp add: outcome_def atEof_def)
qed

lemma workLeft_moves:
  assumes "layout l' = layout l" "src l' = src l" "pos l \<le> pos l'"
  shows "workLeft l' \<le> workLeft l"
  using assms by (auto simp: workLeft_def layout_def queued_def remaining_def intro: diff_le_mono2)

lemma layoutOk_layout: "layout l' = layout l \<Longrightarrow> layoutOk d l' = layoutOk d l"
  by (rule layoutOk_queues) (simp add: layout_def queues_def)

lemma readRest_outcome:
  assumes ok: "layoutOk d l" and p: "pendingToks l = []" and run: "run_state (readRest u) l = (t, l')"
  shows "outcome d t (workLeft l) l'"
proof -
  obtain l1 where r1: "run_state (skipWhile isBlank) l = ((), l1)" by (metis old.unit.exhaust prod.exhaust)
  have y1: "layout l1 = layout l" by (rule keeps_layoutD [OF _ r1]) (rule keeps_rules)
  have s1: "src l1 = src l" "pos l \<le> pos l1" using moves_skipWhile [of isBlank] r1 unfolding moves_def by (metis snd_conv)+
  let ?l2 = "noted (Suc (pos l1)) l1"
  have y2: "layout ?l2 = layout l" using y1 by simp
  have ok2: "layoutOk d ?l2" "pendingToks ?l2 = []"
    using ok layoutOk_layout [OF y2] p y1 by (simp_all add: layout_def)
  have w2: "workLeft ?l2 \<le> workLeft l" by (rule workLeft_moves) (use s1 y2 in auto)
  show ?thesis
  proof (cases "length (src l1) \<le> pos l1")
    case True
    have "outcome d t (workLeft ?l2) l'"
      by (rule endRest_outcome [OF ok2]) (use True r1 run in \<open>simp_all add: readRest_def\<close>)
    with w2 show ?thesis by (rule outcome_mono [rotated])
  next
    case False
    let ?ch = "src l1 ! pos l1"
    let ?l3 = "if pendingGroupedBlock ?l2 \<and> ?ch \<noteq> CHR '':'' then ?l2\<lparr>pendingGroupedBlock := False\<rparr> else ?l2"
    have y3: "layout ?l3 = layout ?l2" by (simp add: layout_def)
    have rt: "run_state (readToken u ?ch) ?l3 = (t, l')" using False r1 run by (simp add: readRest_def)
    have "outcome d t (workLeft ?l3) l'"
      by (rule readToken_outcome [OF _ _ _ rt]) (use False ok2 layoutOk_layout [OF y3] in auto)
    moreover have "workLeft ?l3 \<le> workLeft ?l2" by (rule workLeft_moves) (use y3 in auto)
    ultimately show ?thesis using w2 by (meson outcome_mono order_trans)
  qed
qed

lemma consumeLineDirectives_keeps: "keeps queues consumeLineDirectives"
  unfolding consumeLineDirectives_def
  by (rule keeps_queues_directive keeps_rules keeps_rules [THEN keeps_queues])+

lemma consumeLineDirectives_flag:
  assumes "run_state consumeLineDirectives l = (v, l')" shows "atLineStart l' \<longrightarrow> atLineStart l"
proof -
  let ?c = "gets atLineStart \<bind> (\<lambda>at. gets pos \<bind> (\<lambda>p. (if at then byteIs p (\<lambda>ch. ch = CHR ''#'') else ret False) \<bind>
      (\<lambda>hash. if hash then tryConsumeLineDirective else ret False)))"
  let ?step = "\<lambda>_ :: unit. ?c \<bind> (\<lambda>t. if t then ret () \<bind> (\<lambda>_. ret (True, ())) else ret (False, ()))"
  let ?R = "\<lambda>l l'. atLineStart l' \<longrightarrow> atLineStart l"
  have "?R l (snd (run_state (loopM (\<lambda>_ l. remaining l) ?step ()) l))"
  proof (rule loop_rel [where R = ?R])
    show "?R l (snd (run_state (?step v) l))" for v :: unit and l :: Lexer
      by (cases "atLineStart l") (simp_all del: run_byteIs)
  qed auto
  with assms show ?thesis by (simp add: consumeLineDirectives_def whileM_def)
qed

lemma workLeft_queues:
  assumes "queues l' = queues l" "src l' = src l" "pos l \<le> pos l'" "atLineStart l' \<longrightarrow> atLineStart l"
  shows "workLeft l' \<le> workLeft l"
proof -
  have "remaining l' \<le> remaining l" using assms by (simp add: remaining_def diff_le_mono2)
  with queued_queues [OF assms(1)] assms(4) show ?thesis by (auto simp: workLeft_def)
qed

text \<open>The part of a round after the line directives.\<close>

definition lineStep :: "UnicodeTables \<Rightarrow> Token option lex" where
  "lineStep u = handleIndentation \<bind> (\<lambda>_. trimFinishedGroupedBlockContexts \<bind> (\<lambda>_. gets pendingToks \<bind> (\<lambda>toks.
     if toks \<noteq> [] then some takePending else readRest u)))"

lemma lineStep_outcome:
  assumes ok: "layoutOk d l" and f: "\<not> atLineStart l" and run: "run_state (lineStep u) l = (t, l')"
  shows "outcome d t (workLeft l + 2) l'"
proof -
  obtain l1 where r1: "run_state handleIndentation l = ((), l1)" by (metis old.unit.exhaust prod.exhaust)
  obtain l2 where r2: "run_state trimFinishedGroupedBlockContexts l1 = ((), l2)" by (metis old.unit.exhaust prod.exhaust)
  note h = handleIndentation_layout [OF ok r1]
  have s1: "src l1 = src l" "pos l \<le> pos l1"
    using moves_handleIndentation r1 unfolding moves_def by (metis snd_conv)+
  have w1: "workLeft l1 \<le> workLeft l + 2"
    using h s1 diff_le_mono2 [OF s1(2), of "length (src l)"] by (simp add: workLeft_def remaining_def f)
  have y: "layout l2 = layout l1" by (rule keeps_layoutD [OF _ r2]) (rule keeps_rules)
  have s2: "src l2 = src l1" "pos l2 = pos l1" using stillD [OF conjunct2 [OF trimFinished_spec] r2] by auto
  have w2: "workLeft l2 \<le> workLeft l + 2" using workLeft_moves [OF y] s2 w1 by simp
  have ok2: "layoutOk d l2" using layoutOk_layout [OF y] h by simp
  have "outcome d t (workLeft l2) l'"
  proof (cases "pendingToks l2 = []")
    case True
    with run r1 r2 have "run_state (readRest u) l2 = (t, l')" by (simp add: lineStep_def)
    then show ?thesis by (rule readRest_outcome [OF ok2 True])
  next
    case False
    with run r1 r2 have "run_state (some takePending) l2 = (t, l')" by (simp add: lineStep_def)
    then show ?thesis by (rule outcome_pending [OF ok2 _ False])
  qed
  then show ?thesis using w2 by (rule outcome_mono)
qed

lemma nextStep_lineStep: "nextStep u = modify trimPatternBlocks \<bind> (\<lambda>_. gets pendingToks \<bind> (\<lambda>toks.
    if toks \<noteq> [] then some takePending
    else consumeLineDirectives \<bind> (\<lambda>_. gets atLineStart \<bind> (\<lambda>at. if at
      then modify (\<lambda>l. l\<lparr>atLineStart := False\<rparr>) \<bind> (\<lambda>_. gets (\<lambda>l. parenDepth l = 0 \<or> activeGroupedBlockContext l) \<bind>
        (\<lambda>layout. if layout then lineStep u else readRest u))
      else readRest u))))"
  unfolding nextStep_def lineStep_def by (rule refl)

lemma nextStep_outcome:
  assumes ok: "layoutOk d l" and run: "run_state (nextStep u) l = (t, l')"
  shows "outcome d t (workLeft l) l'"
proof -
  define l0 where "l0 = trimPatternBlocks l"
  have y0: "layout l0 = layout l" "src l0 = src l" "pos l0 = pos l"
    by (simp_all add: l0_def trimPatternBlocks_def layout_def)
  have ok0: "layoutOk d l0" and w0: "workLeft l0 \<le> workLeft l"
    using layoutOk_layout [OF y0(1)] ok workLeft_moves y0 by auto
  show ?thesis
  proof (cases "pendingToks l0 = []")
    case False
    with run have "run_state (some takePending) l0 = (t, l')" by (simp add: nextStep_lineStep l0_def)
    from outcome_pending [OF ok0 this False] w0 show ?thesis by (rule outcome_mono)
  next
    case p: True
    obtain l1 where r1: "run_state consumeLineDirectives l0 = ((), l1)" by (metis old.unit.exhaust prod.exhaust)
    have q1: "queues l1 = queues l0" by (rule keeps_queuesD [OF consumeLineDirectives_keeps r1])
    have s1: "src l1 = src l0" "pos l0 \<le> pos l1"
      using conjunct2 [OF consumeLineDirectives_spec] r1 unfolding moves_def by (metis snd_conv)+
    have w1: "workLeft l1 \<le> workLeft l"
      using workLeft_queues [OF q1 s1 consumeLineDirectives_flag [OF r1]] w0 by simp
    have ok1: "layoutOk d l1" "pendingToks l1 = []" using layoutOk_queues [OF q1] ok0 q1 p by (simp_all add: queues_def)
    let ?l2 = "l1\<lparr>atLineStart := False\<rparr>"
    have q2: "queues ?l2 = queues l1" by (simp add: queues_def)
    have ok2: "layoutOk d ?l2" "pendingToks ?l2 = []" using layoutOk_queues [OF q2] ok1 by simp_all
    have w2: "workLeft ?l2 + (if atLineStart l1 then 3 else 0) = workLeft l1"
      using queued_queues [OF q2] by (simp add: workLeft_def remaining_def)
    consider "\<not> atLineStart l1" "run_state (readRest u) l1 = (t, l')"
      | "run_state (readRest u) ?l2 = (t, l')"
      | "atLineStart l1" "run_state (lineStep u) ?l2 = (t, l')"
      using run p r1 by (auto simp: nextStep_lineStep l0_def split: if_splits)
    then have "outcome d t (workLeft l1) l'"
    proof cases
      case 1 show ?thesis by (rule readRest_outcome [OF ok1 1(2)])
    next
      case 2 show ?thesis by (rule outcome_mono [OF readRest_outcome [OF ok2 2]]) (use w2 in simp)
    next
      case 3 show ?thesis by (rule outcome_mono [OF lineStep_outcome [OF ok2(1) _ 3(2)]]) (use w2 3(1) in auto)
    qed
    then show ?thesis using w1 by (rule outcome_mono)
  qed
qed

text \<open>One token: the blocks it opens or closes, and that it is work done.\<close>

lemma NextToken_outcome:
  assumes ok: "layoutOk d l" and run: "run_state (NextToken u) l = (tok, l')"
  shows "outcome d (Some tok) (workLeft l) l'"
proof -
  have step: "case t of None \<Rightarrow> layoutOk d l2 \<and> workLeft l2 \<le> workLeft l
      | Some tok \<Rightarrow> outcome d (Some tok) (workLeft l) l2"
    if "run_state (nextStep u) l1 = (t, l2)" "layoutOk d l1 \<and> workLeft l1 \<le> workLeft l" for l1 t l2
  proof (cases t)
    case None
    with nextStep_outcome [of d l1 u t l2] that show ?thesis by (simp add: outcome_def)
  next
    case (Some tok)
    with nextStep_outcome [of d l1 u t l2] that have "outcome d (Some tok) (workLeft l1) l2" by simp
    with that Some show ?thesis by (auto intro: outcome_mono)
  qed
  have "\<exists>l1. l' = l1\<lparr>lastTokenKind := tok_Kind tok\<rparr> \<and> outcome d (Some tok) (workLeft l) l1"
    by (rule NextToken_rounds [where P = "\<lambda>l1. layoutOk d l1 \<and> workLeft l1 \<le> workLeft l", OF run])
      (rule step, use ok in auto)
  then obtain l1 where l1: "l' = l1\<lparr>lastTokenKind := tok_Kind tok\<rparr>" "outcome d (Some tok) (workLeft l) l1" by blast
  have "layoutOk e l' = layoutOk e l1" "workLeft l' = workLeft l1" "atEof l' = atEof l1" for e
    by (simp_all add: l1(1) layoutOk_def workLeft_def queued_def remaining_def atEof_def)
  with l1(2) show ?thesis by (simp add: outcome_def del: opens.simps)
qed

subsection \<open>Tokenize\<close>

lemma run_tokenizeRound: "run_state (tokenizeRound u toks) l =
    (case run_state (NextToken u) l of (tok, l') \<Rightarrow> ((tok_Kind tok \<noteq> TOKEN_EOF, toks @ [tok]), l'))"
  by (simp add: tokenizeRound_def split: prod.split)

text \<open>The stream \<open>toks\<close> given out by calls of \<^verbatim>\<open>NextToken\<close> that take \<open>l\<close> to \<open>l'\<close>.\<close>

inductive streams :: "UnicodeTables \<Rightarrow> Lexer \<Rightarrow> Token list \<Rightarrow> Lexer \<Rightarrow> bool" for u where
  eof: "run_state (NextToken u) l = (tok, l') \<Longrightarrow> tok_Kind tok = TOKEN_EOF \<Longrightarrow> streams u l [tok] l'"
| more: "run_state (NextToken u) l = (tok, l1) \<Longrightarrow> tok_Kind tok \<noteq> TOKEN_EOF \<Longrightarrow> streams u l1 toks l' \<Longrightarrow>
    streams u l (tok # toks) l'"

lemma tokenize_loop:
  assumes "layoutOk d l"
  shows "\<exists>rest l'. loopL (\<lambda>_ l. workLeft l) (tokenizeRound u) toks l = (toks @ rest, l') \<and> streams u l rest l'"
  using assms
proof (induction "workLeft l" arbitrary: d toks l rule: less_induct)
  case less
  obtain tok l1 where r: "run_state (NextToken u) l = (tok, l1)" by force
  note o = NextToken_outcome [OF less.prems r]
  show ?case
  proof (cases "tok_Kind tok = TOKEN_EOF")
    case True
    with r have "loopL (\<lambda>_ l. workLeft l) (tokenizeRound u) toks l = (toks @ [tok], l1)"
      by (subst loopL.simps) (simp add: run_tokenizeRound)
    with streams.eof [OF r True] show ?thesis by blast
  next
    case False
    with o obtain e where e: "layoutOk e l1" "workLeft l1 < workLeft l" by (auto simp: outcome_def)
    from less.hyps [OF e(2,1), of "toks @ [tok]"] obtain rest l'
      where i: "loopL (\<lambda>_ l. workLeft l) (tokenizeRound u) (toks @ [tok]) l1 = (toks @ [tok] @ rest, l')" "streams u l1 rest l'"
      by auto
    with r False e(2) have "loopL (\<lambda>_ l. workLeft l) (tokenizeRound u) toks l = (toks @ tok # rest, l')"
      by (subst loopL.simps) (simp add: run_tokenizeRound)
    with streams.more [OF r False i(2)] show ?thesis by blast
  qed
qed

lemma Tokenize_streams:
  assumes "layoutOk d l" and "run_state (Tokenize u) l = (toks, l')"
  shows "streams u l toks l'"
  using tokenize_loop [OF assms(1), of u "[]"] assms(2) by (auto simp: Tokenize_def loopM_def)

text \<open>A stream closes every block it finds open, and ends at the end of the source.\<close>

lemma streams_layout:
  assumes "streams u l toks l'" and "layoutOk d l"
  shows "opens d toks = Some 0 \<and> atEof l' \<and> tok_Kind (last toks) = TOKEN_EOF \<and>
    (\<forall>t \<in> set (butlast toks). tok_Kind t \<noteq> TOKEN_EOF) \<and> toks \<noteq> []"
  using assms
proof (induction arbitrary: d rule: streams.induct)
  case (eof l tok l')
  from NextToken_outcome [OF eof(3,1)] eof(2) show ?case by (simp add: outcome_def)
next
  case (more l tok l1 toks l')
  from NextToken_outcome [OF more(5,1)] more(2) obtain e where e: "opens d [tok] = Some e" "layoutOk e l1"
    by (auto simp: outcome_def)
  from more.IH [OF e(2)] e(1) more(2) show ?case by (auto split: if_splits)
qed

lemma streams_ok: "streams u l toks l' \<Longrightarrow> ok l \<Longrightarrow> ok l' \<and> extends l l'"
proof (induction rule: streams.induct)
  case (eof l tok l')
  from tameD [OF tame_NextToken [of 0] eof(3) _ eof(1)] show ?case by (simp add: known_def)
next
  case (more l tok l1 toks l')
  from tameD(1,2) [OF tame_NextToken [of 0] more(5) _ more(1)] more.IH
  show ?case by (auto simp: known_def intro: extends_trans)
qed

subsection \<open>Histories of one lexer\<close>

text \<open>The lexer after giving out \<open>toks\<close>.\<close>

inductive lexReach :: "UnicodeTables \<Rightarrow> Lexer \<Rightarrow> Token list \<Rightarrow> Lexer \<Rightarrow> bool" for u l0 where
  init: "lexReach u l0 [] l0"
| token: "lexReach u l0 toks l \<Longrightarrow> run_state (NextToken u) l = (tok, l') \<Longrightarrow> lexReach u l0 (toks @ [tok]) l'"

inductive_cases lexReach_snoc: "lexReach u l0 (toks @ [tok]) l'"

lemma layoutOk_eof: "atEof l \<Longrightarrow> layoutOk 0 l"
  by (simp add: atEof_def layoutOk_def stackOk_def)

lemma NextToken_opens:
  assumes "layoutOk d l" "run_state (NextToken u) l = (tok, l')"
  shows "\<exists>e. opens d [tok] = Some e \<and> layoutOk e l'"
  using NextToken_outcome [OF assms] layoutOk_eof by (auto simp: outcome_def split: if_splits)

lemma lexReach_inv:
  assumes "lexReach u l0 toks l" and "ok l0" "layoutOk 0 l0"
  shows "ok l \<and> extends l0 l \<and> (\<exists>d. opens 0 toks = Some d \<and> layoutOk d l)"
  using assms
proof (induction rule: lexReach.induct)
  case (token toks l tok l')
  then obtain d where l: "ok l" "extends l0 l" "opens 0 toks = Some d" "layoutOk d l" by blast
  have kn: "known 0 l" by (simp add: known_def)
  note t = tameD [OF tame_NextToken l(1) kn token(2)]
  from NextToken_opens [OF l(4) token(2)] t(1,2) l(2,3) show ?case
    by (auto simp: opens_append simp del: opens.simps intro: extends_trans)
qed simp

lemma lexReach_append:
  assumes "lexReach u l toks2 l'" and "lexReach u l0 toks1 l"
  shows "lexReach u l0 (toks1 @ toks2) l'"
  using assms
proof (induction rule: lexReach.induct)
  case (token toks l1 tok l2)
  from lexReach.token [OF token.IH [OF token.prems] token(2)] show ?case by simp
qed simp

lemma streams_reach: "streams u l toks l' \<Longrightarrow> lexReach u l toks l'"
proof (induction rule: streams.induct)
  case (eof l tok l')
  from lexReach.token [OF lexReach.init eof(1)] show ?case by simp
next
  case (more l tok l1 toks l')
  from lexReach_append [OF more.IH lexReach.token [OF lexReach.init more(1)]] show ?case by simp
qed

text \<open>A history depends on no byte beyond its read limit.\<close>

lemma lexReach_local:
  assumes "lexReach u l0 toks l" and "ok l0" "layoutOk 0 l0" "trackReads l0" "agree_upto (readLimit l) (src l0) s"
  shows "lexReach u (l0\<lparr>src := s\<rparr>) toks (l\<lparr>src := s\<rparr>)"
  using assms
proof (induction rule: lexReach.induct)
  case init
  show ?case by (rule lexReach.init)
next
  case (token toks l tok l')
  have i: "ok l" "extends l0 l" using lexReach_inv [OF token(1)] token.prems by auto
  have kn: "known 0 l" by (simp add: known_def)
  note t = tameD [OF tame_NextToken i(1) kn token(2)]
  have ag: "agree_upto (readLimit l) (src l0) s"
    using token.prems(4) t(2) by (auto simp: extends_def intro: agree_upto_mono)
  have "run_state (NextToken u) (l\<lparr>src := s\<rparr>) = (tok, l'\<lparr>src := s\<rparr>)"
    by (rule t(4)) (use token.prems i(2) in \<open>auto simp: extends_def\<close>)
  with token.IH [OF token.prems(1-3) ag] show ?case by (rule lexReach.token)
qed

end
