(* ===== verification/IncSource.thy ===== *)
theory IncSource
  imports LexerNext
begin

text \<open>
  Incremental tokenisation: \<^verbatim>\<open>compiler/src/lexer/incremental_source.go\<close> and
  \<^verbatim>\<open>incremental_suffix.go\<close>. A revision of a source keeps its tokens and checkpoints of the
  lexer; the next revision resumes from the last checkpoint whose reads are unchanged, and may
  copy the tail of the old tokens when the lexers agree inside an identical suffix.

  An index or view that Go would refuse makes the computation \<open>None\<close>, and so does a round of a
  token loop that leaves as much to lex as it found, which stands for a loop that may run forever;
  the proofs show that a result is always \<open>Some\<close>. The sizes of Go's data
  types are the argument \<open>sz\<close>. The capacities of token slices have no effect on values and are
  left out; the capacity of the checkpoint slice is accounted for by the code and is kept.
\<close>

definition sourceCheckpointStride :: nat where
  "sourceCheckpointStride = 256"

definition sourceCheckpointLimit :: nat where
  "sourceCheckpointLimit = 4096"

definition sourceCheckpointBytes :: nat where
  "sourceCheckpointBytes = 16777216"

definition sourceCheckpointSpacing :: "nat \<Rightarrow> nat" where
  "sourceCheckpointSpacing sourceBytes =
     max sourceCheckpointStride (1 + (max 0 (sourceBytes - 1)) div sourceCheckpointLimit)"

text \<open>\<^verbatim>\<open>unsafe.Sizeof\<close> of the types whose storage is accounted for.\<close>

record Sizes =
  sizeCheckpoint :: nat
  sizeInt :: nat
  sizeToken :: nat
  sizePatternHeader :: nat
  sizeBlockContext :: nat
  sizeString :: nat
  sizeLineEpoch :: nat
  sizeSourceTokens :: nat

record sourceCheckpoint =
  cp_count :: nat
  cp_required :: nat
  cp_state :: Lexer

record sourceLineEpoch =
  le_token :: nat
  le_epoch :: nat

record SourceTokens =
  st_filename :: string
  st_source :: "byte list"
  st_tokens :: "Token list"
  st_errors :: "string list"
  st_checkpoints :: "sourceCheckpoint list"
  st_checkpointCap :: nat
  st_reused :: nat
  st_checkpointBytes :: nat
  st_lineEpochs :: "sourceLineEpoch list"
  st_suffixReused :: nat

definition CopyTokens :: "SourceTokens \<Rightarrow> Token list" where
  "CopyTokens s = [] @ st_tokens s"

definition CopyErrors :: "SourceTokens \<Rightarrow> string list" where
  "CopyErrors s = [] @ st_errors s"

definition ReusedTokens :: "SourceTokens \<Rightarrow> nat" where
  "ReusedTokens s = st_reused s"

definition SuffixReusedTokens :: "SourceTokens \<Rightarrow> nat" where
  "SuffixReusedTokens s = st_suffixReused s"

definition BorrowReadOnlyTokens :: "SourceTokens \<Rightarrow> Token list" where
  "BorrowReadOnlyTokens s = st_tokens s"

subsection \<open>Moving views to another source\<close>

text \<open>The address test of the source: a text is a view of \<open>old\<close> when it is stored at an offset
  inside it.\<close>

definition rebaseSourceString :: "nat option \<Rightarrow> string \<Rightarrow> byte list \<Rightarrow> byte list \<Rightarrow> string option" where
  "rebaseSourceString view value old new =
     (if value = [] \<or> old = [] then Some value
      else case view of
        None \<Rightarrow> Some value
      | Some offset \<Rightarrow>
          if offset \<ge> length old then Some value
          else if length value > length old - offset \<or> offset > length new \<or> length value > length new - offset
          then None
          else Some (take (length value) (drop offset new)))"

definition rebaseToken :: "Token \<Rightarrow> byte list \<Rightarrow> byte list \<Rightarrow> Token option" where
  "rebaseToken token old new = do {
     text \<leftarrow> rebaseSourceString (tok_View token) (tok_Text token) old new;
     file \<leftarrow> rebaseSourceString None (File (tok_Pos token)) old new;
     Some (token\<lparr>tok_Text := text, tok_Pos := (tok_Pos token)\<lparr>File := file\<rparr>\<rparr>) }"

primrec mapOption :: "('a \<Rightarrow> 'b option) \<Rightarrow> 'a list \<Rightarrow> 'b list option" where
  "mapOption f [] = Some []"
| "mapOption f (x # xs) = do { y \<leftarrow> f x; ys \<leftarrow> mapOption f xs; Some (y # ys) }"

definition cloneLexerState :: "Lexer \<Rightarrow> byte list \<Rightarrow> byte list \<Rightarrow> Lexer option" where
  "cloneLexerState state old new = do {
     file \<leftarrow> rebaseSourceString None (filename state) old new;
     toks \<leftarrow> mapOption (\<lambda>t. rebaseToken t old new) (pendingToks state);
     errs \<leftarrow> mapOption (\<lambda>e. rebaseSourceString None e old new) (errors state);
     Some (state\<lparr>src := new, filename := file, pendingToks := toks, errors := errs\<rparr>) }"

subsection \<open>Accounting for checkpoints\<close>

definition addSlice :: "nat \<Rightarrow> nat \<Rightarrow> nat \<Rightarrow> nat \<Rightarrow> nat option" where
  "addSlice limit count item used =
     (if count > (limit - used) div item then None else Some (used + count * item))"

definition addText :: "nat \<Rightarrow> string \<Rightarrow> nat \<Rightarrow> nat option" where
  "addText limit text used = (if length text > limit - used then None else Some (used + length text))"

primrec addAll :: "('a \<Rightarrow> nat \<Rightarrow> nat option) \<Rightarrow> 'a list \<Rightarrow> nat \<Rightarrow> nat option" where
  "addAll f [] used = Some used"
| "addAll f (x # xs) used = do { used \<leftarrow> f x used; addAll f xs used }"

definition checkpointStorageBytes :: "Sizes \<Rightarrow> Lexer \<Rightarrow> nat \<Rightarrow> nat option" where
  "checkpointStorageBytes sz state limit =
     (let used = sizeCheckpoint sz in
      if used > limit then None
      else do {
        used \<leftarrow> addSlice limit (length (indentStack state)) (sizeInt sz) used;
        used \<leftarrow> addSlice limit (length (pendingToks state)) (sizeToken sz) used;
        used \<leftarrow> addSlice limit (length (pendingPatternBlocks state)) (sizePatternHeader sz) used;
        used \<leftarrow> addSlice limit (length (groupedBlockContexts state)) (sizeBlockContext sz) used;
        used \<leftarrow> addSlice limit (length (errors state)) (sizeString sz) used;
        used \<leftarrow> addText limit (filename state) used;
        used \<leftarrow> addAll (\<lambda>token used. do {
                    used \<leftarrow> addText limit (tok_Text token) used;
                    addText limit (File (tok_Pos token)) used }) (pendingToks state) used;
        addAll (addText limit) (errors state) used })"

definition grownCapacity :: "SourceTokens \<Rightarrow> nat" where
  "grownCapacity s =
     (if st_checkpointCap s = length (st_checkpoints s)
      then min sourceCheckpointLimit (max 4 (st_checkpointCap s * 2))
      else st_checkpointCap s)"

text \<open>The answer is whether the checkpoint was added, and the new state.\<close>

definition addCheckpoint ::
  "Sizes \<Rightarrow> Lexer \<Rightarrow> byte list \<Rightarrow> byte list \<Rightarrow> nat \<Rightarrow> nat \<Rightarrow> SourceTokens \<Rightarrow> (bool \<times> SourceTokens) option" where
  "addCheckpoint sz state old new count required s =
     (if length (st_checkpoints s) \<ge> sourceCheckpointLimit then Some (False, s)
      else case checkpointStorageBytes sz state sourceCheckpointBytes of
        None \<Rightarrow> Some (False, s)
      | Some cost \<Rightarrow>
          let header = sizeCheckpoint sz;
              payload = cost - header;
              capacity = grownCapacity s;
              growth = (capacity - st_checkpointCap s) * header;
              room = sourceCheckpointBytes - st_checkpointBytes s
          in if growth > room \<or> payload > room - growth then Some (False, s)
             else do {
               clone \<leftarrow> cloneLexerState state old new;
               Some (True, s\<lparr>st_checkpointCap := capacity,
                 st_checkpoints := st_checkpoints s @
                   [\<lparr>cp_count = count, cp_required = required, cp_state = clone\<rparr>],
                 st_checkpointBytes := st_checkpointBytes s + (payload + growth)\<rparr>) })"

subsection \<open>Line epochs\<close>

definition noteLineEpoch :: "nat \<Rightarrow> nat \<Rightarrow> SourceTokens \<Rightarrow> SourceTokens" where
  "noteLineEpoch token epoch s =
     (let lastEpoch = (if st_lineEpochs s \<noteq> [] then le_epoch (last (st_lineEpochs s)) else 0) in
      if lastEpoch \<noteq> epoch
      then s\<lparr>st_lineEpochs := st_lineEpochs s @ [\<lparr>le_token = token, le_epoch = epoch\<rparr>]\<rparr>
      else s)"

text \<open>Go's \<^verbatim>\<open>sort.Search\<close>: the least index at which the predicate holds, by bisection.\<close>

function searchBetween :: "(nat \<Rightarrow> bool) \<Rightarrow> nat \<Rightarrow> nat \<Rightarrow> nat" where
  "searchBetween f i j =
     (if i < j then
        (let h = (i + j) div 2 in
         if \<not> f h then searchBetween f (h + 1) j else searchBetween f i h)
      else i)"
  by pat_completeness auto
termination by (relation "measure (\<lambda>(f, i, j). j - i)") auto

declare searchBetween.simps [simp del]

definition sortSearch :: "nat \<Rightarrow> (nat \<Rightarrow> bool) \<Rightarrow> nat" where
  "sortSearch n f = searchBetween f 0 n"

definition epochAt :: "nat \<Rightarrow> SourceTokens \<Rightarrow> nat" where
  "epochAt token s =
     (let index = sortSearch (length (st_lineEpochs s)) (\<lambda>i. le_token (st_lineEpochs s ! i) > token) in
      if index = 0 then 0 else le_epoch (st_lineEpochs s ! (index - 1)))"

subsection \<open>The builder\<close>

record sourceTokenBuilder =
  sb_out :: SourceTokens
  sb_prefix :: "Token list"
  sb_oldSource :: "byte list"

definition builderCount :: "sourceTokenBuilder \<Rightarrow> nat" where
  "builderCount b = length (sb_prefix b) + length (st_tokens (sb_out b))"

definition materialize :: "sourceTokenBuilder \<Rightarrow> sourceTokenBuilder option" where
  "materialize b = do {
     toks \<leftarrow> mapOption (\<lambda>t. rebaseToken t (sb_oldSource b) (st_source (sb_out b))) (sb_prefix b);
     Some (b\<lparr>sb_out := (sb_out b)\<lparr>st_tokens := toks @ st_tokens (sb_out b)\<rparr>,
       sb_prefix := [], sb_oldSource := []\<rparr>) }"

subsection \<open>Convergence inside a common suffix\<close>

record sourceConvergence =
  cv_old :: SourceTokens
  cv_delta :: int
  cv_candidate :: nat
  cv_tailStart :: nat

fun commonPrefix :: "byte list \<Rightarrow> byte list \<Rightarrow> nat" where
  "commonPrefix (x # xs) (y # ys) = (if x = y then commonPrefix xs ys + 1 else 0)"
| "commonPrefix _ _ = 0"

definition commonSuffix :: "byte list \<Rightarrow> byte list \<Rightarrow> nat" where
  "commonSuffix a b = commonPrefix (rev a) (rev b)"

definition newSourceConvergence :: "SourceTokens \<Rightarrow> SourceTokens \<Rightarrow> sourceConvergence option" where
  "newSourceConvergence old current =
     (if st_filename old \<noteq> st_filename current \<or> st_errors old \<noteq> [] \<or> st_checkpoints old = [] then None
      else
        let common = commonSuffix (st_source old) (st_source current) in
        if common = 0 then None
        else
          let start = length (st_source old) - common;
              index = sortSearch (length (st_checkpoints old))
                        (\<lambda>i. pos (cp_state (st_checkpoints old ! i)) \<ge> start)
          in if index = length (st_checkpoints old) then None
             else Some \<lparr>cv_old = old,
               cv_delta = int (length (st_source current)) - int (length (st_source old)),
               cv_candidate = index, cv_tailStart = start\<rparr>)"

definition compatibleConvergence :: "Lexer \<Rightarrow> Lexer \<Rightarrow> bool" where
  "compatibleConvergence old current \<longleftrightarrow>
     trackReads old \<and> trackReads current \<and> filename old = filename current \<and> col old = col current \<and>
     atLineStart old = atLineStart current \<and> lastTokenKind old = lastTokenKind current \<and>
     parenDepth old = 0 \<and> parenDepth current = 0 \<and>
     \<not> pendingGroupedBlock old \<and> \<not> pendingGroupedBlock current \<and>
     pendingToks old = [] \<and> pendingToks current = [] \<and>
     pendingPatternBlocks old = [] \<and> pendingPatternBlocks current = [] \<and>
     groupedBlockContexts old = [] \<and> groupedBlockContexts current = [] \<and>
     errors old = [] \<and> errors current = [] \<and> indentStack old = indentStack current"

text \<open>\<^verbatim>\<open>bytes.LastIndexByte(source[:p], '\n') + 1\<close>\<close>

definition lineStartOf :: "byte list \<Rightarrow> nat \<Rightarrow> nat" where
  "lineStartOf source p = p - length (takeWhile (\<lambda>ch. ch \<noteq> CHR 0x0A) (rev (take p source)))"

text \<open>The interned file names of the copier are copies of equal strings and are left out.\<close>

record sourceTailCopier =
  tc_old :: "byte list"
  tc_new :: "byte list"
  tc_offsetDelta :: int
  tc_lineDelta :: int
  tc_epochDelta :: int
  tc_baseEpoch :: nat
  tc_baseOffset :: nat

text \<open>The text and the place it is stored at.\<close>

definition copierText :: "sourceTailCopier \<Rightarrow> nat option \<Rightarrow> string \<Rightarrow> (string \<times> nat option) option" where
  "copierText c view value =
     (if value = [] \<or> tc_old c = [] then Some (value, view)
      else case view of
        None \<Rightarrow> Some (value, None)
      | Some offset \<Rightarrow>
          if offset \<ge> length (tc_old c) then Some (value, view)
          else
            let shifted = int offset + tc_offsetDelta c in
            if offset < tc_baseOffset c \<or> shifted < 0 \<or> length value > length (tc_old c) - offset \<or>
               int (length value) > int (length (tc_new c)) - shifted \<or> shifted > int (length (tc_new c))
            then None
            else Some (take (length value) (drop (nat shifted) (tc_new c)), Some (nat shifted)))"

definition copierToken :: "sourceTailCopier \<Rightarrow> Token \<Rightarrow> nat \<Rightarrow> Token option" where
  "copierToken c token epoch =
     (case copierText c (tok_View token) (tok_Text token) of
        None \<Rightarrow> None
      | Some (text, view) \<Rightarrow>
          let token = token\<lparr>tok_Text := text, tok_View := view\<rparr>; p = tok_Pos token;
              lines = (if epoch = tc_baseEpoch c then tc_lineDelta c else 0)
          in if IsZero p then Some token
             else
               let p' = p\<lparr>Offset := Offset p + tc_offsetDelta c, Line := Line p + lines\<rparr> in
               Some (token\<lparr>tok_Pos :=
                 (if EndLine p' \<noteq> 0 \<or> EndCol p' \<noteq> 0 \<or> EndOffset p' \<noteq> 0
                  then p'\<lparr>EndOffset := EndOffset p' + tc_offsetDelta c, EndLine := EndLine p' + lines\<rparr>
                  else p')\<rparr>))"

definition copierHeader :: "sourceTailCopier \<Rightarrow> groupedPatternHeader \<Rightarrow> groupedPatternHeader option" where
  "copierHeader c h =
     (if ph_HeadStart h < tc_baseOffset c then None
      else Some (h\<lparr>ph_HeadStart := nat (int (ph_HeadStart h) + tc_offsetDelta c)\<rparr>))"

definition copierState :: "sourceTailCopier \<Rightarrow> Lexer \<Rightarrow> nat \<Rightarrow> Lexer option" where
  "copierState c old required = do {
     headers \<leftarrow> mapOption (copierHeader c) (pendingPatternBlocks old);
     toks \<leftarrow> mapOption (\<lambda>t. copierToken c t (lineEpoch old)) (pendingToks old);
     Some (old\<lparr>src := tc_new c,
       pos := nat (int (pos old) + tc_offsetDelta c),
       readLimit := nat (max (int required) (int (readLimit old) + tc_offsetDelta c)),
       line := (if lineEpoch old = tc_baseEpoch c then line old + tc_lineDelta c else line old),
       lineEpoch := nat (int (lineEpoch old) + tc_epochDelta c),
       pendingPatternBlocks := headers,
       pendingToks := toks\<rparr>) }"

fun advanceEpoch :: "sourceLineEpoch list \<Rightarrow> nat \<Rightarrow> nat \<Rightarrow> sourceLineEpoch list \<times> nat" where
  "advanceEpoch [] epoch index = ([], epoch)"
| "advanceEpoch (e # es) epoch index =
     (if le_token e \<le> index then advanceEpoch es (le_epoch e) index else (e # es, epoch))"

text \<open>The loop over the old tokens from \<open>index\<close> on; \<open>None\<close> when a token cannot be moved.\<close>

fun copyTail ::
  "sourceTailCopier \<Rightarrow> Token list \<Rightarrow> nat \<Rightarrow> sourceLineEpoch list \<Rightarrow> nat \<Rightarrow> SourceTokens \<Rightarrow> SourceTokens option" where
  "copyTail c [] index es epoch out = Some out"
| "copyTail c (t # ts) index es epoch out =
     (case advanceEpoch es epoch index of (es', epoch') \<Rightarrow>
        case copierToken c t epoch' of
          None \<Rightarrow> None
        | Some token \<Rightarrow>
            let out1 = noteLineEpoch (length (st_tokens out)) (nat (int epoch' + tc_epochDelta c)) out in
            copyTail c ts (index + 1) es' epoch' (out1\<lparr>st_tokens := st_tokens out1 @ [token]\<rparr>))"

text \<open>The loop over the checkpoints after the boundary; it stops at the first that is refused.\<close>

fun copyCheckpoints ::
  "Sizes \<Rightarrow> sourceTailCopier \<Rightarrow> Lexer \<Rightarrow> nat \<Rightarrow> nat \<Rightarrow> sourceCheckpoint list \<Rightarrow> SourceTokens \<Rightarrow> SourceTokens option" where
  "copyCheckpoints sz c current start cpCount [] out = Some out"
| "copyCheckpoints sz c current start cpCount (old # olds) out =
     (if cp_count old \<le> cpCount then copyCheckpoints sz c current start cpCount olds out
      else case copierState c (cp_state old) (readLimit current) of
        None \<Rightarrow> Some out
      | Some state \<Rightarrow> do {
          r \<leftarrow> addCheckpoint sz state (st_source out) (st_source out) (start + cp_count old - cpCount) (readLimit state) out;
          (case r of (added, out1) \<Rightarrow>
             if added then copyCheckpoints sz c current start cpCount olds out1 else Some out1) })"

definition copySuffix ::
  "Sizes \<Rightarrow> sourceConvergence \<Rightarrow> sourceTokenBuilder \<Rightarrow> Lexer \<Rightarrow> sourceCheckpoint \<Rightarrow> (bool \<times> sourceTokenBuilder) option" where
  "copySuffix sz cv builder current cp =
     (let old = cv_old cv;
          copier = \<lparr>tc_old = st_source old, tc_new = st_source (sb_out builder), tc_offsetDelta = cv_delta cv,
                    tc_lineDelta = line current - line (cp_state cp),
                    tc_epochDelta = int (lineEpoch current) - int (lineEpoch (cp_state cp)),
                    tc_baseEpoch = lineEpoch (cp_state cp), tc_baseOffset = pos (cp_state cp)\<rparr>;
          start = builderCount builder
      in do {
        b \<leftarrow> materialize builder;
        let out = sb_out b;
        let epochIndex = sortSearch (length (st_lineEpochs old)) (\<lambda>i. le_token (st_lineEpochs old ! i) > cp_count cp);
        let epoch = epochAt (cp_count cp) old;
        (case copyTail copier (drop (cp_count cp) (st_tokens old)) (cp_count cp)
                (drop epochIndex (st_lineEpochs old)) epoch out of
           None \<Rightarrow> Some (False, b)
         | Some out1 \<Rightarrow> do {
             r \<leftarrow> addCheckpoint sz current (st_source out1) (st_source out1) start (readLimit current) out1;
             out2 \<leftarrow> copyCheckpoints sz copier current start (cp_count cp) (st_checkpoints old) (snd r);
             Some (True, b\<lparr>sb_out := out2\<lparr>st_suffixReused := length (st_tokens old) - cp_count cp\<rparr>\<rparr>) }) })"

text \<open>The two loops of \<^verbatim>\<open>replay\<close> over the old checkpoints.\<close>

fun skipCandidates :: "sourceCheckpoint list \<Rightarrow> int \<Rightarrow> nat \<Rightarrow> nat \<Rightarrow> nat" where
  "skipCandidates [] delta p index = index"
| "skipCandidates (cp # cps) delta p index =
     (if int (pos (cp_state cp)) + delta < int p then skipCandidates cps delta p (index + 1) else index)"

definition certifies :: "sourceConvergence \<Rightarrow> SourceTokens \<Rightarrow> Lexer \<Rightarrow> sourceCheckpoint \<Rightarrow> bool" where
  "certifies cv out current cp \<longleftrightarrow>
     \<not> (length (st_tokens (cv_old cv)) - cp_count cp < sourceCheckpointStride \<or>
        \<not> compatibleConvergence (cp_state cp) current) \<and>
     (let oldLine = lineStartOf (st_source (cv_old cv)) (pos (cp_state cp));
          newLine = lineStartOf (st_source out) (pos current)
      in \<not> (oldLine < cv_tailStart cv \<or> int newLine \<noteq> int oldLine + cv_delta cv))"

fun findCandidate :: "sourceConvergence \<Rightarrow> SourceTokens \<Rightarrow> Lexer \<Rightarrow> sourceCheckpoint list \<Rightarrow> sourceCheckpoint option" where
  "findCandidate cv out current [] = None"
| "findCandidate cv out current (cp # cps) =
     (if int (pos (cp_state cp)) + cv_delta cv \<noteq> int (pos current) then None
      else if certifies cv out current cp then Some cp
      else findCandidate cv out current cps)"

definition replay ::
  "Sizes \<Rightarrow> sourceConvergence \<Rightarrow> sourceTokenBuilder \<Rightarrow> Lexer \<Rightarrow> (bool \<times> sourceConvergence \<times> sourceTokenBuilder) option" where
  "replay sz cv builder current =
     (let checkpoints = st_checkpoints (cv_old cv);
          candidate = skipCandidates (drop (cv_candidate cv) checkpoints) (cv_delta cv) (pos current) (cv_candidate cv);
          cv1 = cv\<lparr>cv_candidate := candidate\<rparr>
      in case findCandidate cv1 (sb_out builder) current (drop candidate checkpoints) of
           None \<Rightarrow> Some (False, cv1, builder)
         | Some cp \<Rightarrow> do {
             r \<leftarrow> copySuffix sz cv1 builder current cp;
             Some (fst r, cv1, snd r) })"

subsection \<open>TokenizeSource\<close>

definition emptySource :: "string \<Rightarrow> byte list \<Rightarrow> SourceTokens" where
  "emptySource name source =
     \<lparr>st_filename = name, st_source = source, st_tokens = [], st_errors = [], st_checkpoints = [],
      st_checkpointCap = 0, st_reused = 0, st_checkpointBytes = 0, st_lineEpochs = [], st_suffixReused = 0\<rparr>"

definition trackedLexer :: "string \<Rightarrow> byte list \<Rightarrow> Lexer" where
  "trackedLexer name source = (lexNew name source)\<lparr>trackReads := True\<rparr>"

definition dueCheckpoint :: "nat \<Rightarrow> SourceTokens \<Rightarrow> bool" where
  "dueCheckpoint count s \<longleftrightarrow>
     count mod sourceCheckpointSpacing (length (st_source s)) = 0 \<and>
     length (st_checkpoints s) < sourceCheckpointLimit"

text \<open>The loop of \<^verbatim>\<open>tokenizeFreshSource\<close>.\<close>

function freshLoop :: "UnicodeTables \<Rightarrow> Sizes \<Rightarrow> Lexer \<Rightarrow> SourceTokens \<Rightarrow> (Lexer \<times> SourceTokens) option" where
  "freshLoop u sz l result =
     (case run_state (NextToken u) l of (token, l1) \<Rightarrow>
        let result = noteLineEpoch (length (st_tokens result)) (lineEpoch l1) result;
            result = result\<lparr>st_tokens := st_tokens result @ [token]\<rparr>
        in if tok_Kind token = TOKEN_EOF then Some (l1, result)
           else if workLeft l1 \<ge> workLeft l then None
           else do {
             result \<leftarrow> (if dueCheckpoint (length (st_tokens result)) result
                       then map_option snd (addCheckpoint sz l1 (st_source result) (st_source result)
                              (length (st_tokens result)) (readLimit l1) result)
                       else Some result);
             freshLoop u sz l1 result })"
  by pat_completeness auto
termination by (relation "measure (\<lambda>(u, sz, l, result). workLeft l)") auto

declare freshLoop.simps [simp del]

definition tokenizeFreshSource :: "UnicodeTables \<Rightarrow> Sizes \<Rightarrow> SourceTokens \<Rightarrow> Lexer \<Rightarrow> SourceTokens option" where
  "tokenizeFreshSource u sz result l = do {
     r \<leftarrow> freshLoop u sz l result;
     Some ((snd r)\<lparr>st_errors := lexErrors (fst r)\<rparr>) }"

text \<open>The checkpoint to resume from: the first with the greatest count among those whose reads
  lie in the common prefix.\<close>

definition chooseCheckpoint :: "nat \<Rightarrow> sourceCheckpoint list \<Rightarrow> sourceCheckpoint option" where
  "chooseCheckpoint common cps =
     foldl (\<lambda>best candidate.
       if cp_required candidate \<le> common \<and>
          (case best of None \<Rightarrow> True | Some b \<Rightarrow> cp_count candidate > cp_count b)
       then Some candidate else best) None cps"

fun copyPrefixCheckpoints ::
  "Sizes \<Rightarrow> byte list \<Rightarrow> nat \<Rightarrow> sourceCheckpoint list \<Rightarrow> SourceTokens \<Rightarrow> SourceTokens option" where
  "copyPrefixCheckpoints sz oldSource count [] result = Some result"
| "copyPrefixCheckpoints sz oldSource count (old # olds) result =
     (if cp_count old > count then Some result
      else do {
        r \<leftarrow> addCheckpoint sz (cp_state old) oldSource (st_source result) (cp_count old) (cp_required old) result;
        (case r of (added, result1) \<Rightarrow>
           if added then copyPrefixCheckpoints sz oldSource count olds result1 else Some result1) })"

text \<open>The loop of \<^verbatim>\<open>TokenizeSource\<close>.\<close>

function sourceLoop ::
  "UnicodeTables \<Rightarrow> Sizes \<Rightarrow> sourceConvergence option \<Rightarrow> Lexer \<Rightarrow> nat \<Rightarrow> sourceTokenBuilder \<Rightarrow>
     (Lexer \<times> sourceTokenBuilder) option" where
  "sourceLoop u sz cv l count builder =
     (case run_state (NextToken u) l of (token, l1) \<Rightarrow>
        let out = noteLineEpoch count (lineEpoch l1) (sb_out builder);
            out = out\<lparr>st_tokens := st_tokens out @ [token]\<rparr>;
            builder = builder\<lparr>sb_out := out\<rparr>;
            count = count + 1
        in if tok_Kind token = TOKEN_EOF then Some (l1, builder)
           else if workLeft l1 \<ge> workLeft l then None
           else do {
             r \<leftarrow> (case cv of
                     None \<Rightarrow> Some (False, cv, builder)
                   | Some c \<Rightarrow> map_option (\<lambda>(done, c', b'). (done, Some c', b')) (replay sz c builder l1));
             (case r of (done, cv, builder) \<Rightarrow>
                if done then Some (l1, builder)
                else do {
                  out \<leftarrow> (if dueCheckpoint count (sb_out builder)
                         then map_option snd (addCheckpoint sz l1 (st_source (sb_out builder))
                                (st_source (sb_out builder)) count (readLimit l1) (sb_out builder))
                         else Some (sb_out builder));
                  sourceLoop u sz cv l1 count (builder\<lparr>sb_out := out\<rparr>) }) })"
  by pat_completeness auto
termination by (relation "measure (\<lambda>(u, sz, cv, l, count, builder). workLeft l)") auto

declare sourceLoop.simps [simp del]

text \<open>Resuming: the builder, the lexer and the checkpoints of the reused prefix.\<close>

definition resumeFrom ::
  "Sizes \<Rightarrow> SourceTokens \<Rightarrow> SourceTokens \<Rightarrow> sourceCheckpoint \<Rightarrow> (Lexer \<times> sourceTokenBuilder) option" where
  "resumeFrom sz previous result checkpoint = do {
     state \<leftarrow> cloneLexerState (cp_state checkpoint) (st_source previous) (st_source result);
     result \<leftarrow> copyPrefixCheckpoints sz (st_source previous) (cp_count checkpoint) (st_checkpoints previous)
       (result\<lparr>st_lineEpochs := takeWhile (\<lambda>e. le_token e < cp_count checkpoint) (st_lineEpochs previous),
         st_reused := cp_count checkpoint\<rparr>);
     Some (state, \<lparr>sb_out = result, sb_prefix = take (cp_count checkpoint) (st_tokens previous),
       sb_oldSource = st_source previous\<rparr>) }"

text \<open>The part of \<^verbatim>\<open>TokenizeSource\<close> after the choice of the checkpoint.\<close>

definition tokenizeFrom ::
  "UnicodeTables \<Rightarrow> Sizes \<Rightarrow> SourceTokens \<Rightarrow> sourceCheckpoint option \<Rightarrow> Lexer \<Rightarrow> sourceTokenBuilder \<Rightarrow> SourceTokens option" where
  "tokenizeFrom u sz previous checkpoint l builder = do {
     let cv = (if (case checkpoint of None \<Rightarrow> True
                   | Some cp \<Rightarrow> length (st_tokens previous) - cp_count cp \<ge> sourceCheckpointStride)
               then newSourceConvergence previous (sb_out builder) else None);
     let deferTokens = (cv \<noteq> None \<and> length (st_tokens previous) > 8 * sourceCheckpointStride);
     b \<leftarrow> (if checkpoint \<noteq> None \<and> \<not> deferTokens then materialize builder else Some builder);
     e \<leftarrow> sourceLoop u sz cv l (builderCount b) b;
     fin \<leftarrow> materialize (snd e);
     Some ((sb_out fin)\<lparr>st_errors := lexErrors (fst e)\<rparr>) }"

definition TokenizeSource ::
  "UnicodeTables \<Rightarrow> Sizes \<Rightarrow> string \<Rightarrow> byte list \<Rightarrow> SourceTokens option \<Rightarrow> SourceTokens option" where
  "TokenizeSource u sz name source prev =
     (let result = emptySource name source; l = trackedLexer name source in
      case prev of
        None \<Rightarrow> tokenizeFreshSource u sz result l
      | Some previous \<Rightarrow>
          if st_filename previous \<noteq> name then tokenizeFreshSource u sz result l
          else
            let checkpoint = chooseCheckpoint (commonPrefix (st_source previous) source) (st_checkpoints previous) in
            do {
              r \<leftarrow> (case checkpoint of
                      None \<Rightarrow> Some (l, \<lparr>sb_out = result, sb_prefix = [], sb_oldSource = []\<rparr>)
                    | Some cp \<Rightarrow> resumeFrom sz previous result cp);
              tokenizeFrom u sz previous checkpoint (fst r) (snd r) })"

subsection \<open>Comparing token streams\<close>

text \<open>Go's \<^verbatim>\<open>==\<close> on tokens compares the texts, not where they are stored.\<close>

definition sameToken :: "Token \<Rightarrow> Token \<Rightarrow> bool" where
  "sameToken a b \<longleftrightarrow> tok_Kind a = tok_Kind b \<and> tok_Suffix a = tok_Suffix b \<and> tok_Text a = tok_Text b \<and>
     tok_Pos a = tok_Pos b"

fun matchingFrom :: "Token list \<Rightarrow> Token list \<Rightarrow> nat" where
  "matchingFrom (a # as) (b # bs) = (if \<not> sameToken a b then 0 else matchingFrom as bs + 1)"
| "matchingFrom _ _ = 0"

definition MatchingTokenPrefix :: "SourceTokens option \<Rightarrow> Token list \<Rightarrow> nat" where
  "MatchingTokenPrefix s tokens = (case s of None \<Rightarrow> 0 | Some st \<Rightarrow> matchingFrom (st_tokens st) tokens)"

definition MatchingTokenSuffix :: "SourceTokens option \<Rightarrow> Token list \<Rightarrow> nat" where
  "MatchingTokenSuffix s tokens =
     (case s of
        None \<Rightarrow> 0
      | Some st \<Rightarrow>
          if length (st_tokens st) \<noteq> length tokens then 0
          else matchingFrom (rev (st_tokens st)) (rev tokens))"

subsection \<open>Retained bytes\<close>

text \<open>The capacities Go reports for the slices, at least their lengths.\<close>

record Caps =
  capSource :: "byte list \<Rightarrow> nat"
  capTokens :: "Token list \<Rightarrow> nat"
  capErrors :: "string list \<Rightarrow> nat"
  capLineEpochs :: "sourceLineEpoch list \<Rightarrow> nat"
  capInts :: "nat list \<Rightarrow> nat"
  capHeaders :: "groupedPatternHeader list \<Rightarrow> nat"
  capContexts :: "groupedBlockContext list \<Rightarrow> nat"

definition addBytes :: "int \<Rightarrow> nat \<Rightarrow> int \<Rightarrow> int option" where
  "addBytes limit n used = (if int n > limit - used then None else Some (used + int n))"

text \<open>\<^verbatim>\<open>cap(xs) > (limit-size)/item || !add(cap(xs)*item)\<close>\<close>

definition addItems :: "int \<Rightarrow> nat \<Rightarrow> nat \<Rightarrow> int \<Rightarrow> int option" where
  "addItems limit count item used =
     (if int count > (limit - used) div int item then None else addBytes limit (count * item) used)"

primrec addEach :: "('a \<Rightarrow> int \<Rightarrow> int option) \<Rightarrow> 'a list \<Rightarrow> int \<Rightarrow> int option" where
  "addEach f [] used = Some used"
| "addEach f (x # xs) used = do { used \<leftarrow> f x used; addEach f xs used }"

definition tokenBytes :: "Sizes \<Rightarrow> Caps \<Rightarrow> int \<Rightarrow> Token list \<Rightarrow> int \<Rightarrow> int option" where
  "tokenBytes sz caps limit tokens used = do {
     used \<leftarrow> addItems limit (capTokens caps tokens) (sizeToken sz) used;
     addEach (\<lambda>t used. do {
       used \<leftarrow> addBytes limit (length (tok_Text t)) used;
       addBytes limit (length (File (tok_Pos t))) used }) tokens used }"

definition errorBytes :: "Sizes \<Rightarrow> Caps \<Rightarrow> int \<Rightarrow> string list \<Rightarrow> int \<Rightarrow> int option" where
  "errorBytes sz caps limit errs used = do {
     used \<leftarrow> addItems limit (capErrors caps errs) (sizeString sz) used;
     addEach (\<lambda>e. addBytes limit (length e)) errs used }"

definition checkpointBytesOf :: "Sizes \<Rightarrow> Caps \<Rightarrow> int \<Rightarrow> sourceCheckpoint \<Rightarrow> int \<Rightarrow> int option" where
  "checkpointBytesOf sz caps limit c used =
     (let l = cp_state c in do {
        used \<leftarrow> addBytes limit (length (filename l)) used;
        used \<leftarrow> addBytes limit (capInts caps (indentStack l) * sizeInt sz) used;
        used \<leftarrow> addBytes limit (capHeaders caps (pendingPatternBlocks l) * sizePatternHeader sz) used;
        used \<leftarrow> addBytes limit (capContexts caps (groupedBlockContexts l) * sizeBlockContext sz) used;
        used \<leftarrow> tokenBytes sz caps limit (pendingToks l) used;
        errorBytes sz caps limit (errors l) used })"

definition RetainedBytes :: "Sizes \<Rightarrow> Caps \<Rightarrow> int \<Rightarrow> SourceTokens \<Rightarrow> int option" where
  "RetainedBytes sz caps limit s = do {
     used \<leftarrow> addBytes limit (sizeSourceTokens sz) 0;
     used \<leftarrow> addBytes limit (length (st_filename s)) used;
     used \<leftarrow> addBytes limit (capSource caps (st_source s)) used;
     used \<leftarrow> addItems limit (capLineEpochs caps (st_lineEpochs s)) (sizeLineEpoch sz) used;
     used \<leftarrow> tokenBytes sz caps limit (st_tokens s) used;
     used \<leftarrow> errorBytes sz caps limit (st_errors s) used;
     used \<leftarrow> addItems limit (st_checkpointCap s) (sizeCheckpoint sz) used;
     addEach (checkpointBytesOf sz caps limit) (st_checkpoints s) used }"

end
