(* ===== verification/LexerProps.thy ===== *)
theory LexerProps
  imports LexerTokenize IncSource "HOL-Library.Code_Target_Nat"
begin

text \<open>
  The promises of the lexer (\<^verbatim>\<open>compiler/src/lexer\<close>), each with a witness on a concrete source
  where it has hypotheses: it ends, never reads outside its source, keeps the block structure of
  its tokens balanced, and depends on no byte beyond its read limit.
\<close>

subsection \<open>Sources for the witnesses\<close>

definition asciiTables :: UnicodeTables where
  "asciiTables = \<lparr>wideLetter = (\<lambda>_. False), wideDigit = (\<lambda>_. False)\<rparr>"

definition demoSource :: "byte list" where
  "demoSource = ''if x:'' @ [CHR 0x0A] @ ''  y'' @ [CHR 0x0A]"

definition otherSource :: "byte list" where
  "otherSource = ''if x:'' @ [CHR 0x0A] @ ''return''"

lemma ok_new: "ok (lexNew name source)" "ok (trackedLexer name source)"
  by (simp_all add: ok_def lexNew_def trackedLexer_def)

lemma layoutOk_tracked: "layoutOk 0 (trackedLexer name source)"
  by (simp add: layoutOk_def trackedLexer_def lexNew_def stackOk_def)

lemma new_sel [simp]: "src (lexNew name source) = source" "src (trackedLexer name source) = source"
  "trackReads (trackedLexer name source)" "readLimit (trackedLexer name source) = 0"
  "(trackedLexer name source)\<lparr>src := source'\<rparr> = trackedLexer name source'"
  by (simp_all add: lexNew_def trackedLexer_def)

primrec takeTokens :: "UnicodeTables \<Rightarrow> nat \<Rightarrow> Lexer \<Rightarrow> Token list \<times> Lexer" where
  "takeTokens u 0 l = ([], l)"
| "takeTokens u (Suc n) l =
     (case takeTokens u n l of (toks, l1) \<Rightarrow>
        case run_state (NextToken u) l1 of (tok, l2) \<Rightarrow> (toks @ [tok], l2))"

lemma takeTokens_reach: "lexReach u l (fst (takeTokens u n l)) (snd (takeTokens u n l))"
  by (induction n) (auto intro: lexReach.intros split: prod.split)

subsection \<open>Tokenize\<close>

text \<open>
  Claim C11. \<^verbatim>\<open>Tokenize\<close> returns on every source, valid or not: no loop, the outer one and those of
  \<^verbatim>\<open>NextToken\<close> and of every scanner, ever goes into another round without having brought its measure
  down (\<open>hung\<close> would be set), so each ends by its own condition. It makes no read outside the source
  (Go would panic; \<open>panicked\<close>), leaves no byte unread, and gives exactly one end-of-file token, the
  last one.
\<close>

theorem tokenize_total:
  "case run_state (Tokenize u) (lexNew name source) of (toks, l) \<Rightarrow>
     \<not> hung l \<and> \<not> panicked l \<and> src l = source \<and> pos l = length source \<and> toks \<noteq> [] \<and>
     tok_Kind (last toks) = TOKEN_EOF \<and> TOKEN_EOF \<notin> tok_Kind ` set (butlast toks)"
proof -
  obtain toks l where r: "run_state (Tokenize u) (lexNew name source) = (toks, l)" by force
  note s = Tokenize_streams [OF layoutOk_new r]
  from streams_layout [OF s layoutOk_new] streams_ok [OF s ok_new(1)] show ?thesis
    by (auto simp: r ok_def extends_def atEof_def)
qed

text \<open>
  Claim C13. The layout tokens of \<^verbatim>\<open>Tokenize\<close> form blocks: no prefix of the stream closes a block
  that is not open, every block is closed at the end, and the indentation stack is back to its
  bottom.
\<close>

theorem tokenize_blocks_balance:
  "case run_state (Tokenize u) (lexNew name source) of (toks, l) \<Rightarrow>
     opens 0 (take k toks) \<noteq> None \<and> opens 0 toks = Some 0 \<and> indentStack l = [0] \<and> pendingToks l = []"
proof -
  obtain toks l where r: "run_state (Tokenize u) (lexNew name source) = (toks, l)" by force
  note s = streams_layout [OF Tokenize_streams [OF layoutOk_new r] layoutOk_new]
  then have "opens 0 (take k toks) \<noteq> None"
    using opens_append [of 0 "take k toks" "drop k toks"] by (auto split: option.splits)
  with s r show ?thesis by (simp add: atEof_def)
qed

text \<open>
  Claim C17. After any number of calls of \<^verbatim>\<open>NextToken\<close>, also past the end of file, the lexer has
  not panicked and no loop has hung, its cursor is inside the source, its indentation stack starts with 0 and is
  strictly increasing, and the blocks open in the tokens given out and queued are exactly the
  levels of the stack above 0.
\<close>

theorem lexer_state_invariant:
  assumes "lexReach u (lexNew name source) toks l"
  shows "\<not> panicked l \<and> \<not> hung l \<and> src l = source \<and> pos l \<le> length source \<and> hd (indentStack l) = 0 \<and>
    sorted_wrt (<) (indentStack l) \<and> opens 0 (toks @ pendingToks l) = Some (length (indentStack l) - 1)"
  using lexReach_inv [OF assms ok_new(1) layoutOk_new]
  by (auto simp: ok_def extends_def layoutOk_def stackOk_def opens_append)

theorem lexer_state_invariant_witness:
  "\<exists>toks l. lexReach asciiTables (lexNew ''a.elisa'' demoSource) toks l \<and> length (indentStack l) = 2 \<and>
     opens 0 (toks @ pendingToks l) = Some 1"
proof -
  let ?r = "takeTokens asciiTables 5 (lexNew ''a.elisa'' demoSource)"
  have "length (indentStack (snd ?r)) = 2" by code_simp
  with lexer_state_invariant [OF takeTokens_reach] show ?thesis
    by (intro exI [of _ "fst ?r"] exI [of _ "snd ?r"]) (auto intro: takeTokens_reach)
qed

text \<open>
  Claim C15. Read locality, on which checkpoint reuse rests: the tokens given out and the state
  reached are the same on every other source that agrees with this one on the bytes below the
  read limit, where a failed probe for a byte counts as a read.
\<close>

theorem checkpoint_depends_on_read_prefix:
  assumes "lexReach u (trackedLexer name source) toks l"
    and "take (readLimit l) source' = take (readLimit l) source"
  shows "lexReach u (trackedLexer name source') toks (l\<lparr>src := source'\<rparr>)"
  using lexReach_local [OF assms(1) ok_new(2) layoutOk_tracked] assms(2)
  by (simp add: agree_upto_def)

theorem checkpoint_depends_on_read_prefix_witness:
  "\<exists>toks l. lexReach asciiTables (trackedLexer ''a.elisa'' demoSource) toks l \<and>
     lexReach asciiTables (trackedLexer ''a.elisa'' otherSource) toks (l\<lparr>src := otherSource\<rparr>)"
proof -
  let ?r = "takeTokens asciiTables 1 (trackedLexer ''a.elisa'' demoSource)"
  have "take (readLimit (snd ?r)) otherSource = take (readLimit (snd ?r)) demoSource" by code_simp
  from checkpoint_depends_on_read_prefix [OF takeTokens_reach this] show ?thesis
    using takeTokens_reach by blast
qed

end
