(* ===== verification/LexParity.thy ===== *)
theory LexParity
  imports ElisaPrelude
begin

text \<open>
  The parity source recorder of \<^verbatim>\<open>compiler/src/lexer/parity_source_record.go\<close>: the sources of
  lexed files, kept until every enabled recorder has taken its copy. The mutex serialises the calls,
  so each is a function of the map; a nil map is the empty one. \<^verbatim>\<open>os.Getenv\<close> is a parameter
  \<open>getenv\<close>, and \<open>enabled\<close> is the package variable \<^verbatim>\<open>parityRecordEnabled\<close>, read once at start.
\<close>

record paritySourceEntry =
  ps_source :: string
  ps_consumers :: nat

type_synonym paritySources = "(string, paritySourceEntry) gomap"

definition semanticParity :: string where
  "semanticParity = ''ELISA_SEMANTIC_INTERNAL_PARITY_OUT''"

definition backendParity :: string where
  "backendParity = ''ELISA_BACKEND_PARITY_OUT''"

definition parityRecordEnabled :: "(string \<Rightarrow> string) \<Rightarrow> bool" where
  "parityRecordEnabled getenv \<longleftrightarrow> getenv semanticParity \<noteq> [] \<or> getenv backendParity \<noteq> []"

definition paritySourceConsumerCount :: "(string \<Rightarrow> string) \<Rightarrow> nat" where
  "paritySourceConsumerCount getenv =
     (if getenv semanticParity \<noteq> [] then 1 else 0) + (if getenv backendParity \<noteq> [] then 1 else 0)"

definition recordParitySource :: "bool \<Rightarrow> (string \<Rightarrow> string) \<Rightarrow> paritySources \<Rightarrow> string \<Rightarrow> string \<Rightarrow> paritySources" where
  "recordParitySource enabled getenv sources filename src =
     (if \<not> enabled then sources
      else let consumers = paritySourceConsumerCount getenv in
        if consumers = 0 then sources
        else AList.update filename \<lparr>ps_source = src, ps_consumers = consumers\<rparr> sources)"

definition ParitySourceFor :: "bool \<Rightarrow> paritySources \<Rightarrow> string \<Rightarrow> string \<times> bool" where
  "ParitySourceFor enabled sources filename =
     (if \<not> enabled then ([], False)
      else case map_of sources filename of None \<Rightarrow> ([], False) | Some entry \<Rightarrow> (ps_source entry, True))"

definition ConsumeParitySource :: "bool \<Rightarrow> paritySources \<Rightarrow> string \<Rightarrow> (string \<times> bool) \<times> paritySources" where
  "ConsumeParitySource enabled sources filename =
     (if \<not> enabled then (([], False), sources)
      else case map_of sources filename of
        None \<Rightarrow> (([], False), sources)
      | Some entry \<Rightarrow>
          ((ps_source entry, True),
           if ps_consumers entry \<le> 1 then AList.delete filename sources
           else AList.update filename (entry\<lparr>ps_consumers := ps_consumers entry - 1\<rparr>) sources))"

definition DropParitySource :: "bool \<Rightarrow> paritySources \<Rightarrow> string \<Rightarrow> paritySources" where
  "DropParitySource enabled sources filename = (if \<not> enabled then sources else AList.delete filename sources)"

subsection \<open>Every recorder gets its copy\<close>

text \<open>The answers of \<open>n\<close> calls of \<^verbatim>\<open>ConsumeParitySource\<close>, and the map behind them.\<close>

fun consumes :: "bool \<Rightarrow> nat \<Rightarrow> paritySources \<Rightarrow> string \<Rightarrow> (string \<times> bool) list \<times> paritySources" where
  "consumes enabled 0 sources filename = ([], sources)"
| "consumes enabled (Suc n) sources filename =
     (case ConsumeParitySource enabled sources filename of (ans, sources') \<Rightarrow>
      case consumes enabled n sources' filename of (rest, final) \<Rightarrow> (ans # rest, final))"

lemma consumes_absent:
  "map_of sources filename = None \<Longrightarrow> consumes True n sources filename = (replicate n ([], False), sources)"
  by (induction n) (simp_all add: ConsumeParitySource_def)

lemma consumes_entry:
  "map_of sources filename = Some \<lparr>ps_source = src, ps_consumers = Suc k\<rparr> \<Longrightarrow>
   \<exists>final. consumes True (Suc k + extra) sources filename = (replicate (Suc k) (src, True) @ replicate extra ([], False), final) \<and>
     map_of final = (map_of sources)(filename := None)"
proof (induction k arbitrary: sources)
  case 0
  let ?next = "AList.delete filename sources"
  have "map_of ?next filename = None" by simp
  from consumes_absent [OF this] 0 show ?case by (simp add: ConsumeParitySource_def fun_eq_iff)
next
  case (Suc k)
  let ?next = "AList.update filename \<lparr>ps_source = src, ps_consumers = Suc k\<rparr> sources"
  have "map_of ?next filename = Some \<lparr>ps_source = src, ps_consumers = Suc k\<rparr>" by simp
  from Suc.IH [OF this] obtain final where
    f: "consumes True (Suc k + extra) ?next filename = (replicate (Suc k) (src, True) @ replicate extra ([], False), final)"
    "map_of final = (map_of ?next)(filename := None)" by blast
  have "ConsumeParitySource True sources filename = ((src, True), ?next)"
    using Suc.prems by (simp add: ConsumeParitySource_def)
  with f show ?case by (intro exI [of _ final]) (simp add: fun_eq_iff)
qed

text \<open>
  Claim C38. A recorded source is handed out exactly once per enabled parity recorder and then
  released: after lexing a file, as many \<^verbatim>\<open>ConsumeParitySource\<close> calls as recorders are enabled
  return its latest source, every later one reports that there is none, the map no longer holds it, and
  the sources of other files are untouched.
\<close>

theorem parity_source_consumed_once_each:
  assumes "paritySourceConsumerCount getenv = n" and "0 < n"
  shows "\<exists>final. consumes True (n + extra) (recordParitySource True getenv sources filename src) filename =
      (replicate n (src, True) @ replicate extra ([], False), final) \<and> map_of final = (map_of sources)(filename := None)"
proof -
  obtain k where k: "n = Suc k" using assms(2) by (cases n) auto
  let ?rec = "recordParitySource True getenv sources filename src"
  have rec: "map_of ?rec = (map_of sources)(filename \<mapsto> \<lparr>ps_source = src, ps_consumers = Suc k\<rparr>)"
    using assms k by (simp add: recordParitySource_def Let_def)
  from consumes_entry [of ?rec filename src k extra] rec show ?thesis by (auto simp: k)
qed

theorem parity_source_consumed_once_each_witness:
  "\<exists>final. consumes True 3 (recordParitySource True (\<lambda>_. ''out'') [] ''f'' ''text'') ''f'' =
     ([(''text'', True), (''text'', True), ([], False)], final) \<and> map_of final ''f'' = None"
proof -
  have n: "paritySourceConsumerCount (\<lambda>_. ''out'') = 2" by code_simp
  from parity_source_consumed_once_each [OF n, of 1 "[]" "''f''" "''text''"] show ?thesis
    by (auto simp: numeral_2_eq_2 numeral_3_eq_3)
qed

end
