(* ===== verification/LexTokenProps.thy ===== *)
theory LexTokenProps
  imports LexToken LexParity "HOL-Library.Code_Target_Nat"
begin

text \<open>
  Facts about \<^verbatim>\<open>compiler/src/lexer/token.go\<close>: the keyword and name tables agree, and a
  position at offset zero loses its byte range.
\<close>

subsection \<open>Keywords\<close>

lemma keyword_table_names:
  "list_all (\<lambda>(w, k). k \<noteq> TOKEN_IDENT \<and> LookupKeyword (TokenName k) = k \<and>
     (TokenName k = w \<or> w \<in> {''size_of'', ''align_of'', ''offset_of''})) keywordTable"
  by code_simp

text \<open>
  Claim C39. The keyword table and the name table agree: an identifier is reserved exactly when it does
  not lex as an identifier, the name of its token is a keyword for the same token, and it is the
  identifier itself but for the three spellings with an underscore, \<^verbatim>\<open>size_of\<close>, \<^verbatim>\<open>align_of\<close>
  and \<^verbatim>\<open>offset_of\<close>.
\<close>

theorem keyword_roundtrip:
  "(IsReservedWord ident \<longleftrightarrow> LookupKeyword ident \<noteq> TOKEN_IDENT) \<and>
   (IsReservedWord ident \<longrightarrow> LookupKeyword (TokenName (LookupKeyword ident)) = LookupKeyword ident \<and>
      (TokenName (LookupKeyword ident) = ident \<or> ident \<in> {''size_of'', ''align_of'', ''offset_of''}))"
proof (cases "map_of keywordTable ident")
  case (Some k)
  then have "(ident, k) \<in> set keywordTable" by (rule map_of_SomeD)
  with keyword_table_names have "k \<noteq> TOKEN_IDENT \<and> LookupKeyword (TokenName k) = k \<and>
     (TokenName k = ident \<or> ident \<in> {''size_of'', ''align_of'', ''offset_of''})" unfolding list_all_iff by blast
  moreover have "LookupKeyword ident = k" "IsReservedWord ident" using Some by (simp_all add: IsReservedWord_def LookupKeyword_def)
  ultimately show ?thesis by simp
qed (simp add: IsReservedWord_def LookupKeyword_def)

theorem keyword_roundtrip_witness: "TokenName (LookupKeyword ''while'') = ''while''"
proof -
  have "IsReservedWord ''while''" by code_simp
  with keyword_roundtrip [of "''while''"] show ?thesis by simp
qed

subsection \<open>Positions\<close>

text \<open>Offset zero counts as unknown: whatever end it gets, a position at the first byte of a source
  has an empty byte range, while its line and column stay where they were.\<close>

lemma range_at_first_byte_is_empty:
  assumes "Offset p = 0" and "Line p \<noteq> 0" and "Col p \<noteq> 0"
  shows "Offset (WithEnd p lim) = EndOffset (WithEnd p lim) \<and> Line (WithEnd p lim) = Line p \<and> Col (WithEnd p lim) = Col p"
proof -
  have "\<not> IsZero p" using assms(2) by (simp add: IsZero_def)
  with assms show ?thesis by (cases p) (simp add: WithEnd_def Let_def)
qed

end
