(* ===== verification/LexerViews.thy ===== *)
theory LexerViews
  imports LexerTokenize
begin

text \<open>
  Token texts that are views of the source: the bytes they point at are bytes the lexer has
  recorded as read, and they spell the text.
\<close>

subsection \<open>Computations only add to what has been read\<close>

definition grows :: "'a lex \<Rightarrow> bool" where
  "grows m \<longleftrightarrow> (\<forall>l. extends l (snd (run_state m l)))"

named_theorems grows_rules "computations that keep the source and raise the read limit"

lemma grows_bind [grows_rules]: "grows m \<Longrightarrow> (\<And>a. grows (f a)) \<Longrightarrow> grows (m \<bind> f)"
  unfolding grows_def by (auto split: prod.split) (metis extends_trans snd_conv)

lemma grows_basic [grows_rules]: "grows (ret x)" "grows (gets h)"
  by (simp_all add: grows_def)

lemma grows_modify: "(\<And>l. src (h l) = src l \<and> trackReads (h l) = trackReads l \<and> readLimit (h l) = readLimit l) \<Longrightarrow> grows (modify h)"
  by (simp add: grows_def extends_def)

lemma grows_if [grows_rules]: "grows m \<Longrightarrow> grows n \<Longrightarrow> grows (if c then m else n)"
  by simp

lemma grows_prod [grows_rules]: "(\<And>x y. grows (f x y)) \<Longrightarrow> grows (case p of (x, y) \<Rightarrow> f x y)"
  by (cases p) simp

lemma grows_option [grows_rules]: "grows m \<Longrightarrow> (\<And>x. grows (f x)) \<Longrightarrow> grows (case p of None \<Rightarrow> m | Some x \<Rightarrow> f x)"
  by (cases p) auto

lemma grows_loop [grows_rules]: "(\<And>v. grows (step v)) \<Longrightarrow> grows (loopM meas step v)"
  unfolding grows_def by (intro allI loop_rel [where R = extends]) (auto intro: extends_trans simp: extends_def)

lemma grows_while [grows_rules]: "grows c \<Longrightarrow> grows b \<Longrightarrow> grows (whileM c b)"
  unfolding whileM_def by (intro grows_rules)

lemma extends_noted [simp]: "extends l (noted n l)" "extends l (stepped ch l)"
  by (auto simp: extends_def noted_def stepped_def)

lemma grows_reads [grows_rules]:
  "grows (noteRead n)" "grows (sourceHas i)" "grows (sourceByte i)" "grows (sourceSlice i j)" "grows (runeBytes i)"
  "grows (byteIs j P)" "grows curPos" "grows currentIndent" "grows atEnd" "grows peek" "grows (peekIs P)"
  "grows (peekAt n)" "grows (finishToken t)" "grows (emit a b c)" "grows advance" "grows (reportErrorAt p s)"
  by (auto simp: grows_def extends_def noteRead_def sourceHas_def sourceByte_def sourceSlice_def runeBytes_def
      byteIs_def curPos_def currentIndent_def atEnd_def peek_def peekIs_def peekAt_def finishToken_def
      emit_def advance_def reportErrorAt_def)

lemma grows_advanceN [grows_rules]: "grows (advanceN n)"
  by (induction n) (auto intro: grows_rules)

lemma grows_helpers [grows_rules]:
  "grows (reportSince p s)" "grows peekRune" "grows advanceRune" "grows (skipWhile P)" "grows (scanWhile P j)"
  unfolding reportSince_def peekRune_def advanceRune_def skipWhile_def scanWhile_def
  by (rule grows_rules)+

lemma grows_suffix [grows_rules]: "grows readTypeSuffix" "grows (scanIdentRunes u i)" "grows (skipBlanksAndComments i)"
  "grows (patternScrutineeFollows u)"
proof -
  have p: "grows (modify (\<lambda>l. l\<lparr>pos := h l, col := i l\<rparr>))" for h i
    by (rule grows_modify) simp
  show "grows readTypeSuffix" "grows (scanIdentRunes u i)" "grows (skipBlanksAndComments i)" "grows (patternScrutineeFollows u)"
    unfolding readTypeSuffix_def scanIdentRunes_def skipBlanksAndComments_def patternScrutineeFollows_def Let_def
    by (rule p grows_rules)+
qed

subsection \<open>Views\<close>

definition sees :: "nat \<Rightarrow> string \<Rightarrow> Lexer \<Rightarrow> bool" where
  "sees start text l \<longleftrightarrow> take (length text) (drop start (src l)) = text \<and>
     (text \<noteq> [] \<longrightarrow> start + length text \<le> length (src l) \<and> (trackReads l \<longrightarrow> start + length text \<le> readLimit l))"

definition viewOk :: "Token \<Rightarrow> Lexer \<Rightarrow> bool" where
  "viewOk t l \<longleftrightarrow> (case tok_View t of None \<Rightarrow> True | Some start \<Rightarrow> tok_Text t \<noteq> [] \<and> sees start (tok_Text t) l)"

lemma sees_extends: "sees start text l \<Longrightarrow> extends l l' \<Longrightarrow> sees start text l'"
  by (auto simp: sees_def extends_def)

lemma viewOk_extends: "viewOk t l \<Longrightarrow> extends l l' \<Longrightarrow> viewOk t l'"
  by (auto simp: viewOk_def intro: sees_extends split: option.splits)

text \<open>Computations that start where a slice has been seen, or end with a token that is a view.\<close>

definition fromView :: "nat \<Rightarrow> string \<Rightarrow> ('a \<Rightarrow> Lexer \<Rightarrow> bool) \<Rightarrow> 'a lex \<Rightarrow> bool" where
  "fromView start text R m \<longleftrightarrow> (\<forall>l. sees start text l \<longrightarrow> R (fst (run_state m l)) (snd (run_state m l)))"

lemma fromView_bind: "grows m \<Longrightarrow> (\<And>a. fromView start text R (f a)) \<Longrightarrow> fromView start text R (m \<bind> f)"
  unfolding fromView_def grows_def by (auto split: prod.split) (metis sees_extends snd_conv)

lemma fromView_if: "fromView start text R m \<Longrightarrow> fromView start text R n \<Longrightarrow> fromView start text R (if c then m else n)"
  by simp

lemma fromView_finish:
  assumes "\<And>l tok. viewOk tok l \<Longrightarrow> Q tok l"
    and "tok_View t = (if text = [] then None else Some start)" and "tok_Text t = text"
  shows "fromView start text Q (finishToken t)"
  using assms by (auto simp: fromView_def viewOk_def finishToken_def curPos_def)

lemma ends_slice: "(\<And>text. fromView start text R (f text)) \<Longrightarrow> ends R (sourceSlice start stop \<bind> f)"
proof -
  assume f: "\<And>text. fromView start text R (f text)"
  have "R (fst (run_state (sourceSlice start stop \<bind> f) l)) (snd (run_state (sourceSlice start stop \<bind> f) l))" for l
  proof -
    obtain seen l1 where r: "run_state (sourceSlice start stop) l = (seen, l1)" by force
    have "sees start seen l1" using r by (auto simp: sourceSlice_def sees_def split: if_splits)
    with f [of seen] r show ?thesis by (simp add: fromView_def)
  qed
  then show ?thesis by (simp add: ends_def)
qed

lemma ends_finish: "tok_View t = None \<Longrightarrow> ends viewOk (finishToken t)"
  by (simp add: ends_def viewOk_def finishToken_def curPos_def)

lemma mk_view [simp]: "tok_View (mkToken k text p) = None" "tok_Text (mkToken k text p) = text"
  "tok_View (viewToken k text start p) = (if text = [] then None else Some start)" "tok_Text (viewToken k text start p) = text"
  by (simp_all add: mkToken_def viewToken_def)

lemma ends_orElse: "ends R m \<Longrightarrow> ends R n \<Longrightarrow> ends R (orElse c m n)"
  unfolding orElse_def by (intro ends_bind ends_if)

lemma view_readOperator: "ends viewOk (readOperator ch)"
  unfolding readOperator_def opOrAssign_def readDots_def readColon_def openGroup_def closeGroup_def emit_def
  by (rule ends_finish ends_orElse ends_if ends_bind | simp; fail)+

lemma view_readIdent: "ends viewOk (readIdent u)"
proof -
  have f: "grows (modify (\<lambda>l. l\<lparr>pendingGroupedBlock := b l\<rparr>))" "grows (modify (\<lambda>l. l\<lparr>pendingPatternBlocks := c l\<rparr>))" for b c
    by (auto intro!: grows_modify)
  show ?thesis
    unfolding readIdent_def Let_def
    by (rule ends_slice | rule ends_bind)+
      (rule fromView_bind fromView_finish f grows_rules | simp; fail)+
qed

lemma view_readNumber: "ends viewOk readNumber"
  unfolding readNumber_def Let_def
  by (rule ends_slice fromView_bind fromView_finish ends_if ends_bind grows_rules | simp; fail)+

text \<open>The loops of the literals end with such a token or with none.\<close>

definition optView :: "Token option \<Rightarrow> Lexer \<Rightarrow> bool" where
  "optView t l \<longleftrightarrow> (case t of None \<Rightarrow> True | Some tok \<Rightarrow> viewOk tok l)"

lemma ends_then:
  assumes "ends J m" "\<And>a l. J a l \<Longrightarrow> R (fst (run_state (f a) l)) (snd (run_state (f a) l))" shows "ends R (m \<bind> f)"
  using assms unfolding ends_def by (auto split: prod.split) (metis fst_conv snd_conv)

lemma optView_hung [simp]: "optView t (l\<lparr>hung := b\<rparr>) = optView t l"
  by (simp add: optView_def viewOk_def sees_def split: option.split)

lemma optView_simps [simp]: "optView None l" "optView (Some tok) l = viewOk tok l"
  by (simp_all add: optView_def)

lemma ends_finish_opt:
  assumes "ends viewOk (finishToken t)" "\<And>tok l. viewOk tok l \<Longrightarrow> R (g tok) l" shows "ends R (finishToken t \<bind> (\<lambda>tok. ret (g tok)))"
  by (rule ends_then [OF assms(1)]) (simp add: assms(2))

lemmas ends_lit = ends_finish_opt [OF ends_finish]

lemma view_readString: "ends viewOk readString"
  unfolding readString_def
  apply (rule ends_bind, rule ends_bind)
  apply (rule ends_then [where J = "\<lambda>r l. optView (snd r) l"])
   apply (rule ends_loop, rule ends_prod)
   apply (rule ends_lit ends_if ends_bind | rule ends_ret, simp; fail | simp; fail)+
  apply (auto simp: finishToken_def curPos_def viewOk_def split: prod.split option.splits)
  done

lemma view_readChar: "ends viewOk readChar"
  unfolding readChar_def
  apply (rule ends_bind, rule ends_bind)
  apply (rule ends_then [where J = "\<lambda>r l. optView (snd (snd r)) l"])
   apply (rule ends_loop, rule ends_prod, rule ends_prod)
   apply (rule ends_lit ends_if ends_bind | rule ends_ret, simp; fail | simp; fail)+
  apply (auto simp: finishToken_def curPos_def viewOk_def split: prod.split option.splits)
  done

lemma fromView_ret: "fromView start text R m \<Longrightarrow> (\<And>a l. R a l \<Longrightarrow> Q (g a) l) \<Longrightarrow> fromView start text Q (m \<bind> (\<lambda>a. ret (g a)))"
  unfolding fromView_def by (simp add: split_beta)

lemma view_readFString: "ends viewOk readFString"
proof -
  have rest: "ends viewOk (reportSince p ''unterminated f-string literal'' \<bind> (\<lambda>_. gets pos \<bind> (\<lambda>stop.
      sourceSlice start stop \<bind> (\<lambda>raw. finishToken (viewToken TOKEN_FSTRING_LIT raw start p)))))" for p start
    by (rule ends_slice fromView_finish ends_bind | simp; fail)+
  show ?thesis
    unfolding readFString_def
    apply (rule ends_bind, rule ends_bind, rule ends_bind)
    apply (rule ends_then [where J = "\<lambda>r l. optView (snd r) l"])
     apply (rule ends_loop, rule ends_prod)
     apply (rule ends_slice fromView_ret fromView_bind ends_if ends_bind grows_rules | rule fromView_finish [where Q = viewOk]
       | rule ends_ret, simp; fail | simp; fail)+
    apply (use rest in \<open>auto simp: ends_def split: prod.split option.splits\<close>)
    done
qed

lemma ends_some: "ends viewOk m \<Longrightarrow> ends optView (some m)"
  unfolding some_def by (rule ends_then) auto

lemma view_readToken: "ends optView (readToken u ch)"
  unfolding readToken_def readNewline_def
  by (rule ends_lit ends_if ends_some view_readFString view_readString view_readChar view_readNumber view_readIdent
      view_readOperator ends_bind | rule ends_ret, simp; fail | simp; fail)+

lemma view_readRest: "ends optView (readRest u)"
  unfolding readRest_def emit_def
  by (rule view_readToken ends_some ends_finish ends_if ends_bind | simp; fail)+

subsection \<open>Views of the tokens given out\<close>

lemma view_takePending:
  assumes "layoutOk d l" "pendingToks l \<noteq> []" "run_state (some takePending) l = (t, l')"
  shows "optView t l'"
proof -
  have "hd (pendingToks l) \<in> set (pendingToks l)" using assms(2) by simp
  with assms(1) have "tok_View (hd (pendingToks l)) = None" by (auto simp: layoutOk_def)
  with assms(3) show ?thesis by (auto simp: some_def takePending_def viewOk_def)
qed

lemma endsD: "ends R m \<Longrightarrow> run_state m l = (a, l') \<Longrightarrow> R a l'"
  unfolding ends_def by (metis fst_conv snd_conv)

lemma view_lineStep:
  assumes ok: "layoutOk d l" and run: "run_state (lineStep u) l = (t, l')"
  shows "optView t l'"
proof -
  obtain l1 where r1: "run_state handleIndentation l = ((), l1)" by (metis old.unit.exhaust prod.exhaust)
  obtain l2 where r2: "run_state trimFinishedGroupedBlockContexts l1 = ((), l2)" by (metis old.unit.exhaust prod.exhaust)
  have y: "layout l2 = layout l1" by (rule keeps_layoutD [OF _ r2]) (rule keeps_rules)
  have ok2: "layoutOk d l2" using layoutOk_layout [OF y] handleIndentation_layout [OF ok r1] by simp
  show ?thesis
  proof (cases "pendingToks l2 = []")
    case True
    with run r1 r2 have "run_state (readRest u) l2 = (t, l')" by (simp add: lineStep_def)
    then show ?thesis by (rule endsD [OF view_readRest])
  next
    case False
    with run r1 r2 have "run_state (some takePending) l2 = (t, l')" by (simp add: lineStep_def)
    then show ?thesis by (rule view_takePending [OF ok2 False])
  qed
qed

lemma view_nextStep:
  assumes ok: "layoutOk d l" and run: "run_state (nextStep u) l = (t, l')"
  shows "optView t l'"
proof -
  define l0 where "l0 = trimPatternBlocks l"
  have y0: "layout l0 = layout l" by (simp add: l0_def trimPatternBlocks_def layout_def)
  have ok0: "layoutOk d l0" using layoutOk_layout [OF y0] ok by simp
  show ?thesis
  proof (cases "pendingToks l0 = []")
    case False
    with run have "run_state (some takePending) l0 = (t, l')" by (simp add: nextStep_lineStep l0_def)
    then show ?thesis by (rule view_takePending [OF ok0 False])
  next
    case p: True
    obtain l1 where r1: "run_state consumeLineDirectives l0 = ((), l1)" by (metis old.unit.exhaust prod.exhaust)
    have q1: "queues l1 = queues l0" by (rule keeps_queuesD [OF consumeLineDirectives_keeps r1])
    let ?l2 = "l1\<lparr>atLineStart := False\<rparr>"
    have q2: "queues ?l2 = queues l0" using q1 by (simp add: queues_def)
    have ok2: "layoutOk d ?l2" using layoutOk_queues [OF q2] ok0 by simp
    consider "run_state (readRest u) l1 = (t, l')" | "run_state (readRest u) ?l2 = (t, l')"
      | "run_state (lineStep u) ?l2 = (t, l')"
      using run p r1 by (auto simp: nextStep_lineStep l0_def split: if_splits)
    then show ?thesis by cases (auto intro: endsD [OF view_readRest] view_lineStep [OF ok2])
  qed
qed

lemma view_NextToken:
  assumes ok: "layoutOk d l" and run: "run_state (NextToken u) l = (tok, l')"
  shows "viewOk tok l'"
proof -
  have step: "case t of None \<Rightarrow> layoutOk d l2 | Some tok \<Rightarrow> viewOk tok l2"
    if "run_state (nextStep u) l1 = (t, l2)" "layoutOk d l1" for l1 t l2
    using nextStep_outcome [OF that(2,1)] view_nextStep [OF that(2,1)] by (cases t) (auto simp: outcome_def)
  have "\<exists>l1. l' = l1\<lparr>lastTokenKind := tok_Kind tok\<rparr> \<and> viewOk tok l1"
    by (rule NextToken_rounds [where P = "layoutOk d", OF run]) (rule step, use ok in auto)
  then show ?thesis by (auto simp: viewOk_def sees_def split: option.split)
qed

lemma lexReach_views:
  assumes "lexReach u l0 toks l" and "ok l0" "layoutOk 0 l0"
  shows "\<forall>t \<in> set toks. viewOk t l"
  using assms
proof (induction rule: lexReach.induct)
  case (token toks l tok l')
  from lexReach_inv [OF token(1) token.prems] obtain d where l: "ok l" "layoutOk d l" by blast
  have kn: "known 0 l" by (simp add: known_def)
  have ex: "extends l l'" using tameD [OF tame_NextToken l(1) kn token(2)] by simp
  with token.IH [OF token.prems] view_NextToken [OF l(2) token(2)] show ?case by (auto intro: viewOk_extends)
qed simp

end
