(* ===== verification/IncSourceProofs.thy ===== *)
theory IncSourceProofs
  imports IncSource LexerViews
begin

text \<open>
  Why resuming is transparent: a checkpoint is a state the lexer of the new source reaches too,
  when its reads lie in the common prefix, and the texts of the reused tokens are the same bytes.
\<close>

subsection \<open>Bisection and common prefixes\<close>

lemma searchBetween_bounds: "i \<le> j \<Longrightarrow> i \<le> searchBetween f i j \<and> searchBetween f i j \<le> j"
proof (induction f i j rule: searchBetween.induct)
  case (1 f i j)
  show ?case
  proof (cases "i < j")
    case True
    let ?h = "(i + j) div 2"
    have h: "i \<le> ?h" "?h < j" using True by auto
    show ?thesis
    proof (cases "f ?h")
      case True
      with 1(2) [OF \<open>i < j\<close> refl] h show ?thesis by (subst (1 2) searchBetween.simps) (auto simp: Let_def)
    next
      case False
      with 1(1) [OF \<open>i < j\<close> refl] h show ?thesis by (subst (1 2) searchBetween.simps) (auto simp: Let_def)
    qed
  next
    case False
    with "1.prems" show ?thesis by (subst (1 2) searchBetween.simps) simp
  qed
qed

lemma commonPrefix_take: "take (commonPrefix a b) a = take (commonPrefix a b) b"
  by (induction a b rule: commonPrefix.induct) auto

lemma commonPrefix_le: "commonPrefix a b \<le> length a" "commonPrefix a b \<le> length b"
  by (induction a b rule: commonPrefix.induct) auto

lemma take_below: "take n a = take n b \<Longrightarrow> m \<le> n \<Longrightarrow> take m a = take m b"
  by (metis min.absorb1 take_take)

subsection \<open>Moving views\<close>

text \<open>The text of a token, if it is a view, lies in the first \<open>n\<close> bytes of the source.\<close>

definition viewBelow :: "nat \<Rightarrow> byte list \<Rightarrow> Token \<Rightarrow> bool" where
  "viewBelow n source t \<longleftrightarrow> (case tok_View t of None \<Rightarrow> True | Some start \<Rightarrow>
     start + length (tok_Text t) \<le> n \<and> start + length (tok_Text t) \<le> length source \<and>
     take (length (tok_Text t)) (drop start source) = tok_Text t)"

lemma rebase_own [simp]: "rebaseSourceString None value old new = Some value"
  by (simp add: rebaseSourceString_def)

lemma rebaseToken_below:
  assumes v: "viewBelow n old t" and eq: "take n old = take n new"
  shows "rebaseToken t old new = Some t"
proof -
  have "rebaseSourceString (tok_View t) (tok_Text t) old new = Some (tok_Text t)"
  proof (cases "tok_View t")
    case (Some start)
    let ?n = "start + length (tok_Text t)"
    from v Some have b: "?n \<le> n" "?n \<le> length old" "take (length (tok_Text t)) (drop start old) = tok_Text t"
      by (auto simp: viewBelow_def)
    have e: "take ?n old = take ?n new" using take_below [OF eq b(1)] .
    have len: "?n \<le> length new" using b(2) arg_cong [OF e, of length] by simp
    have "take (length (tok_Text t)) (drop start new) = drop start (take ?n new)" by (simp add: drop_take)
    also have "\<dots> = tok_Text t" using b(3) by (simp add: e [symmetric] drop_take)
    finally show ?thesis using Some b len by (auto simp: rebaseSourceString_def)
  qed simp
  then show ?thesis by (simp add: rebaseToken_def)
qed

lemma mapOption_same: "(\<And>x. x \<in> set xs \<Longrightarrow> f x = Some x) \<Longrightarrow> mapOption f xs = Some xs"
  by (induction xs) auto

lemma cloneLexerState_same:
  assumes "\<forall>t \<in> set (pendingToks state). tok_View t = None"
  shows "cloneLexerState state old new = Some (state\<lparr>src := new\<rparr>)"
proof -
  have "mapOption (\<lambda>t. rebaseToken t old new) (pendingToks state) = Some (pendingToks state)"
    by (rule mapOption_same) (use assms in \<open>auto intro!: rebaseToken_below [of 0] simp: viewBelow_def\<close>)
  moreover have "mapOption (\<lambda>e. rebaseSourceString None e old new) (errors state) = Some (errors state)"
    by (rule mapOption_same) simp
  ultimately show ?thesis by (simp add: cloneLexerState_def)
qed

subsection \<open>Checkpoints\<close>

definition ownPending :: "Lexer \<Rightarrow> bool" where
  "ownPending l \<longleftrightarrow> (\<forall>t \<in> set (pendingToks l). tok_View t = None)"

lemma layoutOk_own: "layoutOk d l \<Longrightarrow> ownPending l"
  by (simp add: layoutOk_def ownPending_def)

text \<open>What \<^verbatim>\<open>addCheckpoint\<close> leaves alone.\<close>

definition sameRevision :: "SourceTokens \<Rightarrow> SourceTokens \<Rightarrow> bool" where
  "sameRevision s s' \<longleftrightarrow> st_filename s' = st_filename s \<and> st_source s' = st_source s \<and> st_tokens s' = st_tokens s \<and>
     st_suffixReused s' = st_suffixReused s"

lemma sameRevision_refl [simp]: "sameRevision s s"
  by (simp add: sameRevision_def)

lemma sameRevision_trans: "sameRevision a b \<Longrightarrow> sameRevision b c \<Longrightarrow> sameRevision a c"
  by (simp add: sameRevision_def)

lemma addCheckpoint_effect:
  assumes "ownPending state"
  shows "\<exists>added s'. addCheckpoint sz state old new count required s = Some (added, s') \<and> sameRevision s s' \<and>
    st_lineEpochs s' = st_lineEpochs s \<and> st_reused s' = st_reused s \<and>
    set (st_checkpoints s') \<subseteq> insert \<lparr>cp_count = count, cp_required = required, cp_state = state\<lparr>src := new\<rparr>\<rparr> (set (st_checkpoints s))"
  using assms cloneLexerState_same [of state old new]
  by (auto simp: addCheckpoint_def ownPending_def sameRevision_def Let_def split: option.split)

lemma noteLineEpoch_same [simp]:
  "sameRevision s (noteLineEpoch t e s)" "st_checkpoints (noteLineEpoch t e s) = st_checkpoints s"
  "st_tokens (noteLineEpoch t e s) = st_tokens s" "st_source (noteLineEpoch t e s) = st_source s"
  "st_filename (noteLineEpoch t e s) = st_filename s" "st_suffixReused (noteLineEpoch t e s) = st_suffixReused s"
  by (simp_all add: noteLineEpoch_def sameRevision_def Let_def)

text \<open>A checkpoint is a state the lexer of this revision passes through.\<close>

definition cpOk :: "UnicodeTables \<Rightarrow> string \<Rightarrow> byte list \<Rightarrow> Token list \<Rightarrow> sourceCheckpoint \<Rightarrow> bool" where
  "cpOk u name source toks cp \<longleftrightarrow> cp_count cp \<le> length toks \<and>
     lexReach u (trackedLexer name source) (take (cp_count cp) toks) (cp_state cp) \<and>
     TOKEN_EOF \<notin> tok_Kind ` set (take (cp_count cp) toks) \<and> readLimit (cp_state cp) \<le> cp_required cp"

definition srcOk :: "UnicodeTables \<Rightarrow> SourceTokens \<Rightarrow> bool" where
  "srcOk u s \<longleftrightarrow> (\<exists>l. streams u (trackedLexer (st_filename s) (st_source s)) (st_tokens s) l \<and> st_errors s = errors l) \<and>
     (\<forall>cp \<in> set (st_checkpoints s). cpOk u (st_filename s) (st_source s) (st_tokens s) cp)"

lemma cpOk_append: "cpOk u name source toks cp \<Longrightarrow> cpOk u name source (toks @ later) cp"
  by (simp add: cpOk_def)

lemma trackedLexer_sel [simp]: "src (trackedLexer name source) = source" "trackReads (trackedLexer name source)"
  "readLimit (trackedLexer name source) = 0" "(trackedLexer name source)\<lparr>src := source'\<rparr> = trackedLexer name source'"
  by (simp_all add: lexNew_def trackedLexer_def)

lemma tracked_ok: "ok (trackedLexer name source)" "layoutOk 0 (trackedLexer name source)"
  by (simp_all add: ok_def lexNew_def trackedLexer_def layoutOk_def stackOk_def)

lemma tracked_inv:
  assumes "lexReach u (trackedLexer name source) toks l"
  shows "ok l" "src l = source" "trackReads l" "\<exists>d. opens 0 toks = Some d \<and> layoutOk d l" "ownPending l"
    "\<forall>t \<in> set toks. viewBelow (readLimit l) source t"
proof -
  note i = lexReach_inv [OF assms tracked_ok]
  from i show "ok l" "src l = source" "trackReads l" "\<exists>d. opens 0 toks = Some d \<and> layoutOk d l" "ownPending l"
    by (auto simp: extends_def intro: layoutOk_own)
  with lexReach_views [OF assms tracked_ok] show "\<forall>t \<in> set toks. viewBelow (readLimit l) source t"
    by (auto simp: viewOk_def viewBelow_def sees_def split: option.splits)
qed

lemma streams_iff: "streams u l toks l' \<longleftrightarrow> (case run_state (NextToken u) l of (tok, l1) \<Rightarrow>
    if tok_Kind tok = TOKEN_EOF then toks = [tok] \<and> l' = l1 else (\<exists>ts. toks = tok # ts \<and> streams u l1 ts l'))"
  by (subst streams.simps) (auto split: prod.split)

lemma streams_unique: "streams u l a l1 \<Longrightarrow> streams u l b l2 \<Longrightarrow> a = b \<and> l1 = l2"
proof (induction arbitrary: b l2 rule: streams.induct)
  case (eof l tok l')
  then show ?case by (simp add: streams_iff [of u l b])
next
  case (more l tok l1 toks l')
  from more(5) more(1,2) obtain ts where "b = tok # ts" "streams u l1 ts l2" by (auto simp: streams_iff [of u l b])
  with more.IH [of ts l2] show ?case by simp
qed

lemma reach_streams:
  assumes "lexReach u l0 pre l" "TOKEN_EOF \<notin> tok_Kind ` set pre" "streams u l rest l'"
  shows "streams u l0 (pre @ rest) l'"
  using assms
proof (induction arbitrary: rest rule: lexReach.induct)
  case (token toks l tok l1)
  have "streams u l (tok # rest) l'" by (rule streams.more) (use token in auto)
  from token.IH [OF _ this] token.prems show ?case by simp
qed simp

lemma tracked_streams: "\<exists>toks l. streams u (trackedLexer name source) toks l"
  using tokenize_loop [OF tracked_ok(2), of u "[]"] by blast

subsection \<open>The fresh loop\<close>

definition cpsOk :: "UnicodeTables \<Rightarrow> Token list \<Rightarrow> SourceTokens \<Rightarrow> bool" where
  "cpsOk u toks s \<longleftrightarrow> (\<forall>cp \<in> set (st_checkpoints s). cpOk u (st_filename s) (st_source s) toks cp)"

lemma cpsOk_append: "cpsOk u toks s \<Longrightarrow> cpsOk u (toks @ later) s"
  by (auto simp: cpsOk_def intro: cpOk_append)

lemma cpsOk_cong: "st_checkpoints s' = st_checkpoints s \<Longrightarrow> st_filename s' = st_filename s \<Longrightarrow> st_source s' = st_source s \<Longrightarrow>
    cpsOk u toks s' = cpsOk u toks s"
  by (simp add: cpsOk_def)

text \<open>A checkpoint taken where the lexer stands.\<close>

lemma addCheckpoint_here:
  assumes r: "lexReach u (trackedLexer (st_filename s) (st_source s)) toks l" and e: "TOKEN_EOF \<notin> tok_Kind ` set toks"
    and ok: "cpsOk u toks s" and c: "count = length toks"
  shows "\<exists>added s'. addCheckpoint sz l (st_source s) (st_source s) count (readLimit l) s = Some (added, s') \<and>
    sameRevision s s' \<and> cpsOk u toks s'"
proof -
  note i = tracked_inv [OF r]
  let ?cp = "\<lparr>cp_count = count, cp_required = readLimit l, cp_state = l\<lparr>src := st_source s\<rparr>\<rparr>"
  have same: "l\<lparr>src := st_source s\<rparr> = l" using i(2) by simp
  have cp: "cpOk u (st_filename s) (st_source s) toks ?cp" using r e c by (simp add: cpOk_def same)
  from addCheckpoint_effect [OF i(5), of sz "st_source s" "st_source s" count "readLimit l" s] obtain added s' where
    a: "addCheckpoint sz l (st_source s) (st_source s) count (readLimit l) s = Some (added, s')" "sameRevision s s'"
       "set (st_checkpoints s') \<subseteq> insert ?cp (set (st_checkpoints s))" by auto
  have "cpsOk u toks s'" using ok cp a(2,3) by (auto simp: cpsOk_def sameRevision_def)
  with a(1,2) show ?thesis by blast
qed

text \<open>The checkpoint step of both loops.\<close>

lemma dueStep:
  assumes r: "lexReach u (trackedLexer (st_filename s) (st_source s)) toks l" and e: "TOKEN_EOF \<notin> tok_Kind ` set toks"
    and ok: "cpsOk u toks s" and c: "count = length toks"
  shows "\<exists>s'. (if due then map_option snd (addCheckpoint sz l (st_source s) (st_source s) count (readLimit l) s) else Some s) = Some s' \<and>
    sameRevision s s' \<and> cpsOk u toks s'"
  using addCheckpoint_here [OF r e ok c, of sz] ok by (cases due) auto

lemma next_reach:
  assumes r: "lexReach u (trackedLexer name source) toks l" and n: "run_state (NextToken u) l = (tok, l1)"
  shows "lexReach u (trackedLexer name source) (toks @ [tok]) l1"
    "tok_Kind tok \<noteq> TOKEN_EOF \<Longrightarrow> workLeft l1 < workLeft l"
proof -
  show "lexReach u (trackedLexer name source) (toks @ [tok]) l1" by (rule lexReach.token [OF r n])
  from tracked_inv(4) [OF r] obtain d where "layoutOk d l" by blast
  from NextToken_outcome [OF this n] show "workLeft l1 < workLeft l" if "tok_Kind tok \<noteq> TOKEN_EOF"
    using that by (auto simp: outcome_def)
qed

lemma freshLoop_streams:
  assumes "lexReach u (trackedLexer (st_filename s) (st_source s)) (st_tokens s) l"
    and "TOKEN_EOF \<notin> tok_Kind ` set (st_tokens s)" and "cpsOk u (st_tokens s) s"
  shows "\<exists>l' s' rest. freshLoop u sz l s = Some (l', s') \<and> streams u l rest l' \<and> st_tokens s' = st_tokens s @ rest \<and>
    st_filename s' = st_filename s \<and> st_source s' = st_source s \<and> st_suffixReused s' = st_suffixReused s \<and> cpsOk u (st_tokens s') s'"
  using assms
proof (induction "workLeft l" arbitrary: l s rule: less_induct)
  case less
  obtain tok l1 where n: "run_state (NextToken u) l = (tok, l1)" by force
  note r1 = next_reach [OF less.prems(1) n]
  define s1 where "s1 = (noteLineEpoch (length (st_tokens s)) (lineEpoch l1) s)\<lparr>st_tokens := st_tokens s @ [tok]\<rparr>"
  have s1: "st_tokens s1 = st_tokens s @ [tok]" "st_filename s1 = st_filename s" "st_source s1 = st_source s"
    "st_suffixReused s1 = st_suffixReused s" "st_checkpoints s1 = st_checkpoints s" by (simp_all add: s1_def)
  have ok1: "cpsOk u (st_tokens s1) s1"
    using cpsOk_append [OF less.prems(3), of "[tok]"] by (simp add: s1 cpsOk_cong [of s1 s])
  show ?case
  proof (cases "tok_Kind tok = TOKEN_EOF")
    case True
    then have "freshLoop u sz l s = Some (l1, s1)" by (subst freshLoop.simps) (simp add: n s1_def)
    with streams.eof [OF n True] s1 ok1 show ?thesis by (intro exI [of _ l1] exI [of _ s1] exI [of _ "[tok]"]) simp
  next
    case False
    have e1: "TOKEN_EOF \<notin> tok_Kind ` set (st_tokens s1)" using False less.prems(2) by (simp add: s1)
    have r2: "lexReach u (trackedLexer (st_filename s1) (st_source s1)) (st_tokens s1) l1" using r1(1) by (simp add: s1)
    obtain s2 where s2: "(if dueCheckpoint (length (st_tokens s1)) s1 then map_option snd
        (addCheckpoint sz l1 (st_source s1) (st_source s1) (length (st_tokens s1)) (readLimit l1) s1) else Some s1) = Some s2"
      "sameRevision s1 s2" "cpsOk u (st_tokens s1) s2" using dueStep [OF r2 e1 ok1 refl, of "dueCheckpoint (length (st_tokens s1)) s1" sz] by blast
    have t2: "st_tokens s2 = st_tokens s1" "st_filename s2 = st_filename s1" "st_source s2 = st_source s1" "st_suffixReused s2 = st_suffixReused s1"
      using s2(2) by (simp_all add: sameRevision_def)
    have step: "freshLoop u sz l s = freshLoop u sz l1 s2"
      using s2(1) False r1(2) by (subst freshLoop.simps) (auto simp: n s1_def Let_def split: if_splits)
    have "\<exists>l' s' rest. freshLoop u sz l1 s2 = Some (l', s') \<and> streams u l1 rest l' \<and> st_tokens s' = st_tokens s2 @ rest \<and>
        st_filename s' = st_filename s2 \<and> st_source s' = st_source s2 \<and> st_suffixReused s' = st_suffixReused s2 \<and> cpsOk u (st_tokens s') s'"
      by (rule less.hyps) (use r1(2) False r2 e1 s2 t2 in auto)
    then obtain l' s' rest where i: "freshLoop u sz l1 s2 = Some (l', s')" "streams u l1 rest l'" "st_tokens s' = st_tokens s2 @ rest"
        "st_filename s' = st_filename s2" "st_source s' = st_source s2" "st_suffixReused s' = st_suffixReused s2" "cpsOk u (st_tokens s') s'" by blast
    from streams.more [OF n False i(2)] i step t2 s1 show ?thesis
      by (intro exI [of _ l'] exI [of _ s'] exI [of _ "tok # rest"]) simp
  qed
qed

lemma fresh_ok:
  assumes "streams u (trackedLexer name source) toks l"
  shows "\<exists>r. TokenizeSource u sz name source None = Some r \<and> st_tokens r = toks \<and> st_errors r = errors l \<and> srcOk u r \<and>
    st_filename r = name \<and> st_source r = source \<and> st_suffixReused r = 0"
proof -
  let ?s = "emptySource name source"
  obtain l' s' rest where f: "freshLoop u sz (trackedLexer name source) ?s = Some (l', s')"
      "streams u (trackedLexer name source) rest l'" "st_tokens s' = st_tokens ?s @ rest" "st_filename s' = st_filename ?s"
      "st_source s' = st_source ?s" "st_suffixReused s' = st_suffixReused ?s" "cpsOk u (st_tokens s') s'"
    using freshLoop_streams [of u ?s "trackedLexer name source" sz] lexReach.init by (auto simp: emptySource_def cpsOk_def)
  from streams_unique [OF assms f(2)] have "rest = toks" "l' = l" by simp_all
  with f show ?thesis
    by (auto simp: TokenizeSource_def tokenizeFreshSource_def srcOk_def cpsOk_def emptySource_def lexErrors_def)
qed

subsection \<open>The builder\<close>

definition bTokens :: "sourceTokenBuilder \<Rightarrow> Token list" where
  "bTokens b = sb_prefix b @ st_tokens (sb_out b)"

definition prefixOk :: "sourceTokenBuilder \<Rightarrow> bool" where
  "prefixOk b \<longleftrightarrow> (\<forall>t \<in> set (sb_prefix b). rebaseToken t (sb_oldSource b) (st_source (sb_out b)) = Some t)"

lemma materialize_eq:
  "prefixOk b \<Longrightarrow> materialize b = Some (b\<lparr>sb_out := (sb_out b)\<lparr>st_tokens := bTokens b\<rparr>, sb_prefix := [], sb_oldSource := []\<rparr>)"
  by (simp add: materialize_def prefixOk_def bTokens_def mapOption_same)

lemma builderCount_tokens: "builderCount b = length (bTokens b)"
  by (simp add: builderCount_def bTokens_def)

subsection \<open>Copying a suffix never fails on valid checkpoints\<close>

lemma copyTail_same:
  "copyTail c ts index es epoch out = Some out' \<Longrightarrow>
     st_source out' = st_source out \<and> st_filename out' = st_filename out \<and> st_checkpoints out' = st_checkpoints out"
  by (induction c ts index es epoch out rule: copyTail.induct) (auto simp: Let_def split: prod.splits option.splits)

lemma copierToken_own: "tok_View t = None \<Longrightarrow> copierToken c t e = Some t' \<Longrightarrow> tok_View t' = None"
  by (auto simp: copierToken_def copierText_def Let_def split: if_splits)

lemma mapOption_all:
  assumes "mapOption f xs = Some ys" "\<And>x y. x \<in> set xs \<Longrightarrow> f x = Some y \<Longrightarrow> P y" shows "\<forall>y \<in> set ys. P y"
  using assms
proof (induction xs arbitrary: ys)
  case (Cons x xs)
  from Cons.prems(1) obtain y ys' where y: "f x = Some y" "mapOption f xs = Some ys'" "ys = y # ys'"
    by (auto simp: bind_eq_Some_conv)
  have "P y" by (rule Cons.prems(2) [OF _ y(1)]) simp
  moreover have "\<forall>z \<in> set ys'. P z" by (rule Cons.IH [OF y(2)]) (use Cons.prems(2) in auto)
  ultimately show ?case using y(3) by simp
qed simp

lemma copierState_own:
  assumes "copierState c old required = Some state" "ownPending old" shows "ownPending state"
proof -
  from assms(1) obtain toks where t: "mapOption (\<lambda>t. copierToken c t (lineEpoch old)) (pendingToks old) = Some toks"
    "pendingToks state = toks" by (auto simp: copierState_def bind_eq_Some_conv)
  have "\<forall>t \<in> set toks. tok_View t = None"
    by (rule mapOption_all [OF t(1)]) (use assms(2) in \<open>auto simp: ownPending_def intro: copierToken_own\<close>)
  with t(2) show ?thesis by (simp add: ownPending_def)
qed

lemma copyCheckpoints_total:
  assumes "\<forall>cp \<in> set olds. ownPending (cp_state cp)"
  shows "\<exists>out'. copyCheckpoints sz c current start n olds out = Some out' \<and> sameRevision out out'"
  using assms
proof (induction olds arbitrary: out)
  case (Cons old olds)
  show ?case
  proof (cases "cp_count old \<le> n")
    case True
    with Cons show ?thesis by simp
  next
    case False
    show ?thesis
    proof (cases "copierState c (cp_state old) (readLimit current)")
      case None
      with False show ?thesis by simp
    next
      case (Some state)
      have "ownPending state" by (rule copierState_own [OF Some]) (use Cons.prems in simp)
      from addCheckpoint_effect [OF this, of sz "st_source out" "st_source out" "start + cp_count old - n" "readLimit state" out]
      obtain added out1 where a: "addCheckpoint sz state (st_source out) (st_source out) (start + cp_count old - n) (readLimit state) out =
          Some (added, out1)" "sameRevision out out1" by auto
      from Cons.IH [of out1] Cons.prems obtain out2 where
        "copyCheckpoints sz c current start n olds out1 = Some out2" "sameRevision out1 out2" by auto
      with a False Some show ?thesis by (cases added) (auto intro: sameRevision_trans)
    qed
  qed
qed simp

lemma copySuffix_total:
  assumes p: "prefixOk b" and own: "ownPending current" "\<forall>cp \<in> set (st_checkpoints (cv_old cv)). ownPending (cp_state cp)"
  shows "\<exists>moved b'. copySuffix sz cv b current cp = Some (moved, b') \<and> st_source (sb_out b') = st_source (sb_out b) \<and>
    st_filename (sb_out b') = st_filename (sb_out b) \<and> sb_prefix b' = [] \<and>
    (if moved then st_suffixReused (sb_out b') = length (st_tokens (cv_old cv)) - cp_count cp
     else sb_out b' = (sb_out b)\<lparr>st_tokens := bTokens b\<rparr>)"
proof -
  let ?c = "\<lparr>tc_old = st_source (cv_old cv), tc_new = st_source (sb_out b), tc_offsetDelta = cv_delta cv,
     tc_lineDelta = line current - line (cp_state cp), tc_epochDelta = int (lineEpoch current) - int (lineEpoch (cp_state cp)),
     tc_baseEpoch = lineEpoch (cp_state cp), tc_baseOffset = pos (cp_state cp)\<rparr>"
  let ?m = "b\<lparr>sb_out := (sb_out b)\<lparr>st_tokens := bTokens b\<rparr>, sb_prefix := [], sb_oldSource := []\<rparr>"
  let ?es = "drop (sortSearch (length (st_lineEpochs (cv_old cv))) (\<lambda>i. le_token (st_lineEpochs (cv_old cv) ! i) > cp_count cp))
      (st_lineEpochs (cv_old cv))"
  let ?tail = "copyTail ?c (drop (cp_count cp) (st_tokens (cv_old cv))) (cp_count cp) ?es (epochAt (cp_count cp) (cv_old cv)) (sb_out ?m)"
  show ?thesis
  proof (cases ?tail)
    case None
    then have "copySuffix sz cv b current cp = Some (False, ?m)"
      using materialize_eq [OF p] by (simp add: copySuffix_def Let_def)
    then show ?thesis by (intro exI [of _ False] exI [of _ ?m]) simp
  next
    case (Some out1)
    have s1: "st_source out1 = st_source (sb_out b)" "st_filename out1 = st_filename (sb_out b)"
      using copyTail_same [OF Some] by simp_all
    from addCheckpoint_effect [OF own(1), of sz "st_source out1" "st_source out1" "builderCount b" "readLimit current" out1]
    obtain added out2 where a: "addCheckpoint sz current (st_source out1) (st_source out1) (builderCount b) (readLimit current) out1 =
        Some (added, out2)" "sameRevision out1 out2" by auto
    from copyCheckpoints_total [OF own(2), of sz ?c current "builderCount b" "cp_count cp" out2]
    obtain out3 where c: "copyCheckpoints sz ?c current (builderCount b) (cp_count cp) (st_checkpoints (cv_old cv)) out2 = Some out3"
      "sameRevision out2 out3" by blast
    have "copySuffix sz cv b current cp = Some (True, ?m\<lparr>sb_out := out3\<lparr>st_suffixReused := length (st_tokens (cv_old cv)) - cp_count cp\<rparr>\<rparr>)"
      using materialize_eq [OF p] Some a(1) c(1) by (simp add: copySuffix_def Let_def)
    with s1 a(2) c(2) show ?thesis by (auto simp: sameRevision_def)
  qed
qed

lemma findCandidate_certified:
  "findCandidate cv out current cps = Some cp \<Longrightarrow> cp \<in> set cps \<and> certifies cv out current cp"
  by (induction cv out current cps rule: findCandidate.induct) (auto split: if_splits)

lemma replay_total:
  assumes p: "prefixOk b" and own: "ownPending current" "\<forall>cp \<in> set (st_checkpoints (cv_old cv)). ownPending (cp_state cp)"
    and z: "st_suffixReused (sb_out b) = 0"
  shows "\<exists>moved cv' b'. replay sz cv b current = Some (moved, cv', b') \<and> cv_old cv' = cv_old cv \<and>
    st_source (sb_out b') = st_source (sb_out b) \<and> st_filename (sb_out b') = st_filename (sb_out b) \<and> prefixOk b' \<and>
    (if moved then st_suffixReused (sb_out b') > 0
     else st_suffixReused (sb_out b') = 0 \<and> bTokens b' = bTokens b \<and> st_checkpoints (sb_out b') = st_checkpoints (sb_out b))"
proof -
  let ?cps = "st_checkpoints (cv_old cv)"
  let ?i = "skipCandidates (drop (cv_candidate cv) ?cps) (cv_delta cv) (pos current) (cv_candidate cv)"
  let ?cv = "cv\<lparr>cv_candidate := ?i\<rparr>"
  show ?thesis
  proof (cases "findCandidate ?cv (sb_out b) current (drop ?i ?cps)")
    case None
    then have "replay sz cv b current = Some (False, ?cv, b)" by (simp add: replay_def Let_def)
    with p z show ?thesis by (intro exI [of _ False] exI [of _ ?cv] exI [of _ b]) simp
  next
    case (Some cp)
    from findCandidate_certified [OF Some] have "\<not> length (st_tokens (cv_old cv)) - cp_count cp < sourceCheckpointStride"
      by (simp add: certifies_def)
    then have pos: "length (st_tokens (cv_old cv)) - cp_count cp > 0" by (simp add: sourceCheckpointStride_def)
    obtain moved b' where c: "copySuffix sz ?cv b current cp = Some (moved, b')" "st_source (sb_out b') = st_source (sb_out b)"
        "st_filename (sb_out b') = st_filename (sb_out b)" "sb_prefix b' = []"
        "if moved then st_suffixReused (sb_out b') = length (st_tokens (cv_old cv)) - cp_count cp
         else sb_out b' = (sb_out b)\<lparr>st_tokens := bTokens b\<rparr>"
      using copySuffix_total [OF p own(1), of ?cv sz cp] own(2) by auto
    from Some c(1) have "replay sz cv b current = Some (moved, ?cv, b')" by (simp add: replay_def Let_def)
    with c pos z show ?thesis by (cases moved) (auto simp: prefixOk_def bTokens_def)
  qed
qed

subsection \<open>The loop of TokenizeSource\<close>

definition cvOwn :: "sourceConvergence option \<Rightarrow> bool" where
  "cvOwn cv \<longleftrightarrow> (\<forall>c. cv = Some c \<longrightarrow> (\<forall>cp \<in> set (st_checkpoints (cv_old c)). ownPending (cp_state cp)))"

text \<open>One round's look for a place to converge.\<close>

lemma converge_total:
  assumes "prefixOk b" "ownPending l" "cvOwn cv" "st_suffixReused (sb_out b) = 0"
  shows "\<exists>moved cv' b'. (case cv of None \<Rightarrow> Some (False, cv, b)
      | Some c \<Rightarrow> map_option (\<lambda>(d, c', b'). (d, Some c', b')) (replay sz c b l)) = Some (moved, cv', b') \<and> cvOwn cv' \<and>
    st_source (sb_out b') = st_source (sb_out b) \<and> st_filename (sb_out b') = st_filename (sb_out b) \<and> prefixOk b' \<and>
    (if moved then st_suffixReused (sb_out b') > 0
     else st_suffixReused (sb_out b') = 0 \<and> bTokens b' = bTokens b \<and> st_checkpoints (sb_out b') = st_checkpoints (sb_out b))"
proof (cases cv)
  case None
  with assms show ?thesis by (intro exI [of _ False] exI [of _ cv] exI [of _ b]) simp
next
  case (Some c)
  obtain moved cv' b' where r: "replay sz c b l = Some (moved, cv', b')" "cv_old cv' = cv_old c" and
    b': "st_source (sb_out b') = st_source (sb_out b) \<and> st_filename (sb_out b') = st_filename (sb_out b) \<and> prefixOk b' \<and>
    (if moved then st_suffixReused (sb_out b') > 0
     else st_suffixReused (sb_out b') = 0 \<and> bTokens b' = bTokens b \<and> st_checkpoints (sb_out b') = st_checkpoints (sb_out b))"
    using replay_total [OF assms(1,2) _ assms(4), of c sz] assms(3) Some by (auto simp: cvOwn_def)
  have own: "cvOwn (Some cv')" using assms(3) Some r(2) by (simp add: cvOwn_def)
  show ?thesis
    by (rule exI [of _ moved], rule exI [of _ "Some cv'"], rule exI [of _ b']) (use Some r(1) own b' in simp)
qed

lemma sourceLoop_streams:
  assumes "lexReach u (trackedLexer (st_filename (sb_out b)) (st_source (sb_out b))) (bTokens b) l"
    and "TOKEN_EOF \<notin> tok_Kind ` set (bTokens b)" and "cpsOk u (bTokens b) (sb_out b)" and "prefixOk b"
    and "cvOwn cv" and "st_suffixReused (sb_out b) = 0" and "count = length (bTokens b)"
  shows "\<exists>l' b'. sourceLoop u sz cv l count b = Some (l', b') \<and> prefixOk b' \<and>
    st_source (sb_out b') = st_source (sb_out b) \<and> st_filename (sb_out b') = st_filename (sb_out b) \<and>
    (st_suffixReused (sb_out b') = 0 \<longrightarrow>
      (\<exists>rest. streams u l rest l' \<and> bTokens b' = bTokens b @ rest) \<and> cpsOk u (bTokens b') (sb_out b'))"
  using assms
proof (induction "workLeft l" arbitrary: l b cv count rule: less_induct)
  case less
  obtain tok l1 where n: "run_state (NextToken u) l = (tok, l1)" by force
  note r1 = next_reach [OF less.prems(1) n]
  define b1 where "b1 = b\<lparr>sb_out := (noteLineEpoch count (lineEpoch l1) (sb_out b))
      \<lparr>st_tokens := st_tokens (noteLineEpoch count (lineEpoch l1) (sb_out b)) @ [tok]\<rparr>\<rparr>"
  have b1: "bTokens b1 = bTokens b @ [tok]" "st_filename (sb_out b1) = st_filename (sb_out b)"
    "st_source (sb_out b1) = st_source (sb_out b)" "st_suffixReused (sb_out b1) = 0"
    "st_checkpoints (sb_out b1) = st_checkpoints (sb_out b)" "prefixOk b1"
    using less.prems(4,6) by (simp_all add: b1_def bTokens_def prefixOk_def)
  have ok1: "cpsOk u (bTokens b1) (sb_out b1)"
    using cpsOk_append [OF less.prems(3), of "[tok]"] by (simp add: b1 cpsOk_cong [of "sb_out b1" "sb_out b"])
  show ?case
  proof (cases "tok_Kind tok = TOKEN_EOF")
    case True
    then have "sourceLoop u sz cv l count b = Some (l1, b1)" by (subst sourceLoop.simps) (simp add: n b1_def Let_def)
    with streams.eof [OF n True] b1 ok1 show ?thesis by (intro exI [of _ l1] exI [of _ b1]) auto
  next
    case False
    have w: "workLeft l1 < workLeft l" using r1(2) False by simp
    have own: "ownPending l1" by (rule tracked_inv(5) [OF r1(1)])
    obtain moved cv' b2 where c: "(case cv of None \<Rightarrow> Some (False, cv, b1)
        | Some c \<Rightarrow> map_option (\<lambda>(d, c', b'). (d, Some c', b')) (replay sz c b1 l1)) = Some (moved, cv', b2)" "cvOwn cv'"
      and b2: "st_source (sb_out b2) = st_source (sb_out b1)" "st_filename (sb_out b2) = st_filename (sb_out b1)" "prefixOk b2"
      and m: "if moved then st_suffixReused (sb_out b2) > 0
        else st_suffixReused (sb_out b2) = 0 \<and> bTokens b2 = bTokens b1 \<and> st_checkpoints (sb_out b2) = st_checkpoints (sb_out b1)"
      using converge_total [OF b1(6) own less.prems(5) b1(4), of sz] by blast
    let ?due = "dueCheckpoint (count + 1) (sb_out b2)"
    let ?add = "if ?due then map_option snd (addCheckpoint sz l1 (st_source (sb_out b2)) (st_source (sb_out b2)) (count + 1)
        (readLimit l1) (sb_out b2)) else Some (sb_out b2)"
    have step: "sourceLoop u sz cv l count b =
        (if moved then Some (l1, b2) else ?add \<bind> (\<lambda>out. sourceLoop u sz cv' l1 (count + 1) (b2\<lparr>sb_out := out\<rparr>)))"
    proof -
      have "sourceLoop u sz cv l count b = (if tok_Kind tok = TOKEN_EOF then Some (l1, b1)
          else if workLeft l1 \<ge> workLeft l then None
          else (case cv of None \<Rightarrow> Some (False, cv, b1)
              | Some c \<Rightarrow> map_option (\<lambda>(d, c', b'). (d, Some c', b')) (replay sz c b1 l1)) \<bind>
            (\<lambda>r. case r of (moved, cv, b) \<Rightarrow> if moved then Some (l1, b) else
              (if dueCheckpoint (count + 1) (sb_out b) then map_option snd (addCheckpoint sz l1 (st_source (sb_out b))
                 (st_source (sb_out b)) (count + 1) (readLimit l1) (sb_out b)) else Some (sb_out b)) \<bind>
              (\<lambda>out. sourceLoop u sz cv l1 (count + 1) (b\<lparr>sb_out := out\<rparr>))))"
        by (subst sourceLoop.simps) (simp only: n prod.case Let_def b1_def)
      with c(1) False w show ?thesis by simp
    qed
    show ?thesis
    proof (cases moved)
      case True
      with step m b2 b1 show ?thesis by (intro exI [of _ l1] exI [of _ b2]) auto
    next
      case stay: False
      with m have t2: "st_suffixReused (sb_out b2) = 0" "bTokens b2 = bTokens b @ [tok]" "st_checkpoints (sb_out b2) = st_checkpoints (sb_out b)"
        by (simp_all add: b1)
      have r2: "lexReach u (trackedLexer (st_filename (sb_out b2)) (st_source (sb_out b2))) (bTokens b2) l1"
        using r1(1) by (simp add: b2 b1 t2)
      have e2: "TOKEN_EOF \<notin> tok_Kind ` set (bTokens b2)" using less.prems(2) False by (simp add: t2)
      have ok2: "cpsOk u (bTokens b2) (sb_out b2)"
        using ok1 by (simp add: t2 b1 b2 cpsOk_cong [of "sb_out b2" "sb_out b1"])
      have c2: "count + 1 = length (bTokens b2)" using less.prems(7) by (simp add: t2)
      obtain out where o: "?add = Some out" "sameRevision (sb_out b2) out" "cpsOk u (bTokens b2) out"
        using dueStep [OF r2 e2 ok2 c2, of ?due sz] by blast
      let ?b3 = "b2\<lparr>sb_out := out\<rparr>"
      have b3: "bTokens ?b3 = bTokens b2" "prefixOk ?b3" "st_filename out = st_filename (sb_out b2)"
        "st_source out = st_source (sb_out b2)" "st_suffixReused out = 0"
        using o(2) b2(3) t2(1) by (auto simp: sameRevision_def bTokens_def prefixOk_def)
      have "\<exists>l' b'. sourceLoop u sz cv' l1 (count + 1) ?b3 = Some (l', b') \<and> prefixOk b' \<and>
          st_source (sb_out b') = st_source (sb_out ?b3) \<and> st_filename (sb_out b') = st_filename (sb_out ?b3) \<and>
          (st_suffixReused (sb_out b') = 0 \<longrightarrow>
            (\<exists>rest. streams u l1 rest l' \<and> bTokens b' = bTokens ?b3 @ rest) \<and> cpsOk u (bTokens b') (sb_out b'))"
        by (rule less.hyps [OF w]) (use r2 e2 o(3) b3 c(2) c2 in simp_all)
      then obtain l' b' where i: "sourceLoop u sz cv' l1 (count + 1) ?b3 = Some (l', b')" "prefixOk b'"
          "st_source (sb_out b') = st_source (sb_out b2)" "st_filename (sb_out b') = st_filename (sb_out b2)"
          "st_suffixReused (sb_out b') = 0 \<longrightarrow> (\<exists>rest. streams u l1 rest l' \<and> bTokens b' = bTokens b2 @ rest) \<and> cpsOk u (bTokens b') (sb_out b')"
        using b3 by auto
      have "sourceLoop u sz cv l count b = Some (l', b')" using step stay o(1) i(1) by simp
      moreover have "(\<exists>rest. streams u l rest l' \<and> bTokens b' = bTokens b @ rest) \<and> cpsOk u (bTokens b') (sb_out b')"
        if "st_suffixReused (sb_out b') = 0"
      proof -
        from i(5) that obtain rest where "streams u l1 rest l'" "bTokens b' = bTokens b @ tok # rest" "cpsOk u (bTokens b') (sb_out b')"
          by (auto simp: t2)
        with streams.more [OF n False] show ?thesis by blast
      qed
      ultimately show ?thesis using i(2-4) b2 b1 by auto
    qed
  qed
qed

subsection \<open>Resuming\<close>

lemma lexReach_unique: "lexReach u l0 toks l \<Longrightarrow> lexReach u l0 toks l' \<Longrightarrow> l = l'"
proof (induction arbitrary: l' rule: lexReach.induct)
  case init
  then show ?case by (cases rule: lexReach.cases) auto
next
  case (token toks l tok l1)
  from token.prems obtain l2 tok' where "lexReach u l0 toks l2" "run_state (NextToken u) l2 = (tok', l')"
    by (cases rule: lexReach.cases) auto
  with token.IH [of l2] token(2) show ?case by auto
qed

lemma lexReach_take:
  assumes "lexReach u l0 toks l" "ok l0" "layoutOk 0 l0" "n \<le> length toks"
  shows "\<exists>l1. lexReach u l0 (take n toks) l1 \<and> extends l1 l"
  using assms
proof (induction rule: lexReach.induct)
  case init
  then show ?case using lexReach.init [of u l0] extends_refl [of l0] by auto
next
  case (token toks l tok l')
  show ?case
  proof (cases "n \<le> length toks")
    case True
    from token.IH [OF token.prems(1,2) True] obtain l1 where "lexReach u l0 (take n toks) l1" "extends l1 l" by blast
    moreover have "extends l l'"
      using tameD [OF tame_NextToken _ _ token(2), of 0] lexReach_inv [OF token(1) token.prems(1,2)] by (auto simp: known_def)
    ultimately show ?thesis using True by (auto intro: extends_trans)
  next
    case False
    with token.prems(3) have "take n (toks @ [tok]) = toks @ [tok]" by simp
    with lexReach.token [OF token(1,2)] show ?thesis by auto
  qed
qed

text \<open>A checkpoint of the old source before one whose reads are unchanged is a checkpoint of the
  new source.\<close>

lemma cpOk_moved:
  assumes cp: "cpOk u name old toks cp" and best: "cpOk u name old toks best" and le: "cp_count cp \<le> cp_count best"
    and eq: "take n old = take n new" and req: "readLimit (cp_state best) \<le> n"
  shows "cpOk u name new (take (cp_count best) toks)
    \<lparr>cp_count = cp_count cp, cp_required = cp_required cp, cp_state = (cp_state cp)\<lparr>src := new\<rparr>\<rparr>"
proof -
  let ?t = "take (cp_count cp) toks"
  have t: "take (cp_count cp) (take (cp_count best) toks) = ?t" using le by (simp add: min_absorb1)
  have rb: "lexReach u (trackedLexer name old) (take (cp_count best) toks) (cp_state best)"
    and rc: "lexReach u (trackedLexer name old) ?t (cp_state cp)" using best cp by (simp_all add: cpOk_def)
  have "cp_count cp \<le> length (take (cp_count best) toks)" using le cp by (simp add: cpOk_def)
  from lexReach_take [OF rb tracked_ok this] obtain l1 where
    "lexReach u (trackedLexer name old) ?t l1" "extends l1 (cp_state best)" unfolding t by blast
  with lexReach_unique [OF rc] have "readLimit (cp_state cp) \<le> n" using req by (auto simp: extends_def)
  with eq have "agree_upto (readLimit (cp_state cp)) old new" by (auto simp: agree_upto_def intro: take_below)
  with lexReach_local [OF rc tracked_ok, of new] have "lexReach u (trackedLexer name new) ?t ((cp_state cp)\<lparr>src := new\<rparr>)" by simp
  with cp le t show ?thesis by (simp add: cpOk_def)
qed

lemma chooseCheckpoint_some:
  assumes "chooseCheckpoint common cps = Some cp" shows "cp \<in> set cps \<and> cp_required cp \<le> common"
proof -
  let ?f = "\<lambda>best c. if cp_required c \<le> common \<and> (case best of None \<Rightarrow> True | Some b \<Rightarrow> cp_count c > cp_count b) then Some c else best"
  have "foldl ?f best cps = Some cp \<Longrightarrow> best = Some cp \<or> (cp \<in> set cps \<and> cp_required cp \<le> common)" for best
    by (induction cps arbitrary: best) (auto split: if_splits)
  with assms show ?thesis unfolding chooseCheckpoint_def by fastforce
qed

lemma copyPrefixCheckpoints_total:
  assumes "\<forall>cp \<in> set olds. ownPending (cp_state cp) \<and> (cp_count cp \<le> n \<longrightarrow> cpOk u (st_filename s) (st_source s) toks
      \<lparr>cp_count = cp_count cp, cp_required = cp_required cp, cp_state = (cp_state cp)\<lparr>src := st_source s\<rparr>\<rparr>)"
    and "cpsOk u toks s"
  shows "\<exists>s'. copyPrefixCheckpoints sz old n olds s = Some s' \<and> sameRevision s s' \<and> cpsOk u toks s'"
  using assms
proof (induction olds arbitrary: s)
  case (Cons cp olds)
  show ?case
  proof (cases "cp_count cp > n")
    case True
    with Cons.prems show ?thesis by simp
  next
    case False
    let ?cp = "\<lparr>cp_count = cp_count cp, cp_required = cp_required cp, cp_state = (cp_state cp)\<lparr>src := st_source s\<rparr>\<rparr>"
    have own: "ownPending (cp_state cp)" and new: "cpOk u (st_filename s) (st_source s) toks ?cp" using Cons.prems(1) False by auto
    from addCheckpoint_effect [OF own, of sz old "st_source s" "cp_count cp" "cp_required cp" s] obtain added s1 where
      a: "addCheckpoint sz (cp_state cp) old (st_source s) (cp_count cp) (cp_required cp) s = Some (added, s1)" "sameRevision s s1"
         "set (st_checkpoints s1) \<subseteq> insert ?cp (set (st_checkpoints s))" by auto
    have ok1: "cpsOk u toks s1" using Cons.prems(2) new a(2,3) by (auto simp: cpsOk_def sameRevision_def)
    have "\<exists>s'. copyPrefixCheckpoints sz old n olds s1 = Some s' \<and> sameRevision s1 s' \<and> cpsOk u toks s'"
      by (rule Cons.IH) (use Cons.prems(1) a(2) ok1 in \<open>auto simp: sameRevision_def\<close>)
    with a ok1 False show ?thesis by (cases added) (auto intro: sameRevision_trans)
  qed
qed simp

lemma cpOk_own: "cpOk u name source toks cp \<Longrightarrow> ownPending (cp_state cp)"
  unfolding cpOk_def using tracked_inv(5) by blast

lemma resumeFrom_ok:
  assumes p: "srcOk u previous" and name: "st_filename previous = name"
    and c: "chooseCheckpoint (commonPrefix (st_source previous) source) (st_checkpoints previous) = Some cp"
  shows "\<exists>l b. resumeFrom sz previous (emptySource name source) cp = Some (l, b) \<and> prefixOk b \<and>
    st_filename (sb_out b) = name \<and> st_source (sb_out b) = source \<and> st_suffixReused (sb_out b) = 0 \<and>
    lexReach u (trackedLexer name source) (bTokens b) l \<and> TOKEN_EOF \<notin> tok_Kind ` set (bTokens b) \<and> cpsOk u (bTokens b) (sb_out b)"
proof -
  let ?old = "st_source previous" and ?toks = "st_tokens previous" and ?n = "commonPrefix (st_source previous) source"
  note ch = chooseCheckpoint_some [OF c]
  have cpk: "cpOk u name ?old ?toks q" if "q \<in> set (st_checkpoints previous)" for q using p name that by (auto simp: srcOk_def)
  have best: "cpOk u name ?old ?toks cp" using cpk ch by blast
  have eq: "take ?n ?old = take ?n source" by (rule commonPrefix_take)
  have lim: "readLimit (cp_state cp) \<le> ?n" using best ch by (simp add: cpOk_def)
  let ?pre = "take (cp_count cp) ?toks"
  have reach: "lexReach u (trackedLexer name ?old) ?pre (cp_state cp)" using best by (simp add: cpOk_def)
  have own: "ownPending (cp_state cp)" by (rule cpOk_own [OF best])
  have here: "lexReach u (trackedLexer name source) ?pre ((cp_state cp)\<lparr>src := source\<rparr>)"
    using cpOk_moved [OF best best order_refl eq lim] best by (simp add: cpOk_def)
  let ?s = "(emptySource name source)\<lparr>st_lineEpochs := takeWhile (\<lambda>e. le_token e < cp_count cp) (st_lineEpochs previous),
      st_reused := cp_count cp\<rparr>"
  have s: "st_filename ?s = name" "st_source ?s = source" "st_tokens ?s = []" "st_suffixReused ?s = 0" "cpsOk u ?pre ?s"
    by (simp_all add: emptySource_def cpsOk_def)
  have "\<exists>s'. copyPrefixCheckpoints sz ?old (cp_count cp) (st_checkpoints previous) ?s = Some s' \<and> sameRevision ?s s' \<and> cpsOk u ?pre s'"
  proof (rule copyPrefixCheckpoints_total [OF _ s(5)], intro ballI conjI impI)
    fix q assume q: "q \<in> set (st_checkpoints previous)"
    show "ownPending (cp_state q)" by (rule cpOk_own [OF cpk [OF q]])
    assume "cp_count q \<le> cp_count cp"
    from cpOk_moved [OF cpk [OF q] best this eq lim]
    show "cpOk u (st_filename ?s) (st_source ?s) ?pre \<lparr>cp_count = cp_count q, cp_required = cp_required q,
        cp_state = (cp_state q)\<lparr>src := st_source ?s\<rparr>\<rparr>" by (simp only: s)
  qed
  then obtain s' where s': "copyPrefixCheckpoints sz ?old (cp_count cp) (st_checkpoints previous) ?s = Some s'"
    "sameRevision ?s s'" "cpsOk u ?pre s'" by blast
  let ?b = "\<lparr>sb_out = s', sb_prefix = ?pre, sb_oldSource = ?old\<rparr>"
  have "resumeFrom sz previous (emptySource name source) cp = Some ((cp_state cp)\<lparr>src := source\<rparr>, ?b)"
    using cloneLexerState_same [OF own [unfolded ownPending_def], of ?old source] s'(1)
    by (simp add: resumeFrom_def emptySource_def)
  moreover have "prefixOk ?b"
    unfolding prefixOk_def
  proof (clarsimp)
    fix t assume "t \<in> set ?pre"
    with tracked_inv(6) [OF reach] have "viewBelow (readLimit (cp_state cp)) ?old t" by blast
    from rebaseToken_below [OF this take_below [OF eq lim]] s'(2) s(2)
    show "rebaseToken t ?old (st_source s') = Some t" by (simp add: sameRevision_def)
  qed
  moreover have "bTokens ?b = ?pre" using s'(2) s(3) by (simp add: bTokens_def sameRevision_def)
  ultimately show ?thesis
    using s'(2,3) s here best by (intro exI [of _ "(cp_state cp)\<lparr>src := source\<rparr>"] exI [of _ ?b]) (simp add: sameRevision_def cpOk_def)
qed

end
