(* ===== verification/LexerTracking.thy ===== *)
theory LexerTracking
  imports LexerCalculus
begin

text \<open>
  Read tracking only watches. \<open>untrack\<close> forgets the flag \<^verbatim>\<open>trackReads\<close> and the recorded limit; a
  computation is \<open>blind\<close> when running it on the forgetful state gives the same result and the
  forgetful version of the same final state. Every method of the lexer is blind, with one rule per
  way of composing them, so a tracked lexer gives exactly the tokens of a plain one.
\<close>

definition untrack :: "Lexer \<Rightarrow> Lexer" where
  "untrack l = l\<lparr>trackReads := False, readLimit := 0\<rparr>"

definition blind :: "'a lex \<Rightarrow> bool" where
  "blind m \<longleftrightarrow> (\<forall>l. run_state m (untrack l) = (fst (run_state m l), untrack (snd (run_state m l))))"

named_theorems blind_rules "computations that do not depend on read tracking"

lemma untrack_sel [simp]:
  "trackReads (untrack l) = False" "readLimit (untrack l) = 0" "lineEpoch (untrack l) = lineEpoch l"
  "src (untrack l) = src l" "filename (untrack l) = filename l" "pos (untrack l) = pos l"
  "line (untrack l) = line l" "col (untrack l) = col l" "indentStack (untrack l) = indentStack l"
  "atLineStart (untrack l) = atLineStart l" "pendingToks (untrack l) = pendingToks l"
  "lastTokenKind (untrack l) = lastTokenKind l" "parenDepth (untrack l) = parenDepth l"
  "pendingGroupedBlock (untrack l) = pendingGroupedBlock l"
  "pendingPatternBlocks (untrack l) = pendingPatternBlocks l"
  "groupedBlockContexts (untrack l) = groupedBlockContexts l" "errors (untrack l) = errors l"
  "panicked (untrack l) = panicked l" "hung (untrack l) = hung l"
  by (simp_all add: untrack_def)

lemma untrack_remaining [simp]: "remaining (untrack l) = remaining l" "queued (untrack l) = queued l"
  "workLeft (untrack l) = workLeft l"
  by (simp_all add: remaining_def queued_def workLeft_def)

subsection \<open>Composition\<close>

lemma blind_run: "blind m \<Longrightarrow> run_state m l = (a, l') \<Longrightarrow> run_state m (untrack l) = (a, untrack l')"
  by (simp add: blind_def)

lemma blind_bind [blind_rules]: "blind m \<Longrightarrow> (\<And>a. blind (f a)) \<Longrightarrow> blind (m \<bind> f)"
  by (simp add: blind_def split: prod.split)

lemma blind_ret [blind_rules]: "blind (ret x)"
  by (simp add: blind_def)

lemma blind_gets [blind_rules]: "(\<And>l. f (untrack l) = f l) \<Longrightarrow> blind (gets f)"
  by (simp add: blind_def)

lemma blind_modify [blind_rules]: "(\<And>l. f (untrack l) = untrack (f l)) \<Longrightarrow> blind (modify f)"
  by (simp add: blind_def)

lemma blind_if [blind_rules]: "blind m \<Longrightarrow> blind n \<Longrightarrow> blind (if c then m else n)"
  by simp

lemma blind_prod [blind_rules]: "(\<And>x y. blind (f x y)) \<Longrightarrow> blind (case p of (x, y) \<Rightarrow> f x y)"
  by (cases p) simp

lemma blind_option [blind_rules]:
  "blind m \<Longrightarrow> (\<And>x. blind (f x)) \<Longrightarrow> blind (case p of None \<Rightarrow> m | Some x \<Rightarrow> f x)"
  by (cases p) auto

lemma blind_list [blind_rules]:
  "blind m \<Longrightarrow> (\<And>x xs. blind (f x xs)) \<Longrightarrow> blind (case p of [] \<Rightarrow> m | x # xs \<Rightarrow> f x xs)"
  by (cases p) auto

lemma blind_loop [blind_rules]:
  assumes "\<And>v. blind (step v)" and "\<And>v l. meas v (untrack l) = meas v l"
  shows "blind (loopM meas step v)"
proof -
  have "loopL meas step v (untrack l) = (fst (loopL meas step v l), untrack (snd (loopL meas step v l)))" for l
    using assms
  proof (induction meas step v l rule: loopL.induct)
    case (1 meas step v l)
    obtain again v' l' where r: "run_state (step v) l = ((again, v'), l')" by (metis prod.collapse)
    note r' = blind_run [OF "1.prems"(1) r]
    show ?case
    proof (cases "again \<and> meas v' l' < meas v l")
      case True
      then have "\<not> \<not> again" "meas v' l' < meas v l" by simp_all
      note ih = "1.IH" [OF r [symmetric] refl this "1.prems"]
      from True r have a: "loopL meas step v l = loopL meas step v' l'" by (subst loopL.simps) simp
      from True r' "1.prems"(2) have "loopL meas step v (untrack l) = loopL meas step v' (untrack l')"
        by (subst loopL.simps) simp
      with a ih show ?thesis by simp
    next
      case False
      have h: "untrack (l'\<lparr>hung := True\<rparr>) = (untrack l')\<lparr>hung := True\<rparr>" by (simp add: untrack_def)
      from False r have a: "loopL meas step v l = (v', if again then l'\<lparr>hung := True\<rparr> else l')"
        by (subst loopL.simps) auto
      from False r' "1.prems"(2) have
        "loopL meas step v (untrack l) = (v', if again then (untrack l')\<lparr>hung := True\<rparr> else untrack l')"
        by (subst loopL.simps) auto
      with a h show ?thesis by simp
    qed
  qed
  then show ?thesis by (simp add: blind_def loopM_def)
qed

lemma blind_while [blind_rules]: "blind c \<Longrightarrow> blind b \<Longrightarrow> blind (whileM c b)"
  unfolding whileM_def by (rule blind_rules | assumption | simp; fail)+

subsection \<open>The reads\<close>

lemma blind_noteRead [blind_rules]: "blind (noteRead n)"
  by (simp add: blind_def untrack_def)

lemma blind_reads [blind_rules]:
  "blind (sourceHas i)" "blind (sourceByte i)" "blind (sourceSlice i j)" "blind (runeBytes i)"
proof -
  have note': "blind (noteRead n \<bind> (\<lambda>_. State f))"
    if "\<And>l. f (untrack l) = (fst (f l), untrack (snd (f l)))" for n and f :: "Lexer \<Rightarrow> 'a \<times> Lexer"
    by (rule blind_bind, rule blind_noteRead) (simp add: blind_def that)
  show "blind (sourceHas i)" unfolding sourceHas_def by (intro blind_rules) simp
  show "blind (sourceByte i)" unfolding sourceByte_def by (rule note') (simp add: untrack_def)
  show "blind (sourceSlice i j)" unfolding sourceSlice_def by (rule note') (simp add: untrack_def)
  show "blind (runeBytes i)" unfolding runeBytes_def by (rule note') (simp add: untrack_def)
qed

lemma blind_currentIndent [blind_rules]: "blind currentIndent"
  by (simp add: currentIndent_def blind_def untrack_def)

lemma untrack_groups [simp]:
  "groupedIndent (untrack l) i = groupedIndent l i"
  "activeGroupedBlockContext (untrack l) = activeGroupedBlockContext l"
  "trimPatternBlocks (untrack l) = untrack (trimPatternBlocks l)"
  by (simp_all add: groupedIndent_def activeGroupedBlockContext_def trimPatternBlocks_def untrack_def)

subsection \<open>The methods\<close>

subsubsection \<open>The cursor and the positions\<close>

lemma blind_basics [blind_rules]:
  "blind (byteIs a1 b1)" "blind (scanWhile a2 b2)" "blind curPos" "blind (finishToken a3)"
  "blind (reportErrorAt a4 b4)" "blind (reportSince a5 b5)" "blind peek" "blind peekRune"
  "blind (peekAt a6)" "blind advance" "blind (matchByte a7)" "blind (peekIs a8)" "blind atEnd"
  "blind trimFinishedGroupedBlockContexts" "blind (emit a9 b9 c9)"
  unfolding byteIs_def scanWhile_def curPos_def finishToken_def reportErrorAt_def
    reportSince_def peek_def peekRune_def peekAt_def advance_def matchByte_def
    peekIs_def atEnd_def trimFinishedGroupedBlockContexts_def emit_def Let_def
  by (rule blind_rules | simp add: split_def; fail)+

lemma blind_advanceN [blind_rules]: "blind (advanceN a)"
  by (induction a) (simp_all, (rule blind_rules | assumption | simp add: split_def; fail)+)

lemma blind_matchBytes [blind_rules]: "blind (matchBytes a b)"
  by (induction b arbitrary: a) (simp_all, (rule blind_rules | assumption | simp add: split_def; fail)+)

subsubsection \<open>Comments, directives and indentation\<close>

lemma blind_trivia [blind_rules]:
  "blind advanceRune" "blind (skipWhile a1)" "blind skipLineComment" "blind isBlockCommentStart"
  "blind skipBlockComment" "blind (scanNumber a2)" "blind (trimRight a3 b3)"
  unfolding advanceRune_def skipWhile_def skipLineComment_def isBlockCommentStart_def
    skipBlockComment_def scanNumber_def trimRight_def Let_def
  by (rule blind_rules | simp add: split_def; fail)+

lemma blind_layout [blind_rules]:
  "blind tryConsumeLineDirective" "blind measureIndent" "blind skipNewlines"
  "blind (skipCommentLines a1)" "blind (pushLayout a2)" "blind (pushIndent a3)"
  "blind (popIndents a4)" "blind (applyIndent a5)"
  unfolding tryConsumeLineDirective_def measureIndent_def skipNewlines_def skipCommentLines_def
    pushLayout_def pushIndent_def popIndents_def applyIndent_def Let_def
  by (rule blind_rules | simp add: split_def; fail)+

lemma blind_indent [blind_rules]:
  "blind handleIndentation"
  unfolding handleIndentation_def Let_def
  by (rule blind_rules | simp add: split_def; fail)+

lemma blind_readHexLoop [blind_rules]: "blind (readHexLoop a b)"
  by (induction a arbitrary: b) (simp_all, (rule blind_rules | assumption | simp add: split_def; fail)+)

subsubsection \<open>Literals\<close>

lemma blind_escapes [blind_rules]:
  "blind (readFixedHexDigits a1)" "blind (readUnicodeEscape a2 b2 c2)" "blind (readEscape a3 b3 c3 d3 e3)"
  unfolding readFixedHexDigits_def readUnicodeEscape_def readEscape_def Let_def
  by (rule blind_rules | simp add: split_def; fail)+

lemma blind_strings [blind_rules]:
  "blind readString" "blind readChar" "blind skipEmbeddedString" "blind readFString"
  unfolding readString_def readChar_def skipEmbeddedString_def readFString_def Let_def
  by (rule blind_rules | simp add: split_def; fail)+

lemma blind_numbers [blind_rules]:
  "blind (hasFloatSuffixAt a1)" "blind shouldReadFloatFraction" "blind readTypeSuffix"
  "blind (skipHexDigits a2)" "blind readExponent"
  unfolding hasFloatSuffixAt_def shouldReadFloatFraction_def readTypeSuffix_def
    skipHexDigits_def readExponent_def Let_def
  by (rule blind_rules | simp add: split_def; fail)+

lemma blind_number [blind_rules]:
  "blind readNumber"
  unfolding readNumber_def Let_def
  by (rule blind_rules | simp add: split_def; fail)+

subsubsection \<open>Names\<close>

lemma blind_idents [blind_rules]:
  "blind (scanIdentRunes a1 b1)" "blind (skipBlanksAndComments a2)" "blind (skipIdentRunes a3)"
  "blind currentLineIndent" "blind (operatorFollows a4 b4)" "blind (measureBlanks a5)"
  unfolding scanIdentRunes_def skipBlanksAndComments_def skipIdentRunes_def
    currentLineIndent_def operatorFollows_def measureBlanks_def Let_def
  by (rule blind_rules | simp add: split_def; fail)+

lemma blind_ident [blind_rules]:
  "blind (patternScrutineeFollows a1)" "blind (readIdent a2)"
  unfolding patternScrutineeFollows_def readIdent_def Let_def
  by (rule blind_rules | simp add: split_def; fail)+

lemma blind_anyOperatorFollows [blind_rules]: "blind (anyOperatorFollows a b)"
  by (induction a arbitrary: b) (simp_all, (rule blind_rules | assumption | simp add: split_def; fail)+)

subsubsection \<open>Operators and groups\<close>

lemma blind_ops [blind_rules]:
  "blind booleanContinuation" "blind (openGroup a1 b1 c1)" "blind (closeGroup a2 b2 c2)"
  "blind (hasScrutinee a3)" "blind takePending" "blind readNewline" "blind consumeLineDirectives"
  unfolding booleanContinuation_def openGroup_def closeGroup_def hasScrutinee_def
    takePending_def readNewline_def consumeLineDirectives_def Let_def
  by (rule blind_rules | simp add: split_def; fail)+

lemma blind_orElse [blind_rules]: "blind b \<Longrightarrow> blind c \<Longrightarrow> blind (orElse a b c)"
  unfolding orElse_def by (rule blind_rules | assumption | simp; fail)+

lemma blind_some [blind_rules]: "blind a \<Longrightarrow> blind (some a)"
  unfolding some_def by (rule blind_rules | assumption)+

lemma blind_ops2 [blind_rules]:
  "blind (readColon a1)" "blind (readDots a2)" "blind (opOrAssign a3 b3 c3 d3 e3)"
  unfolding readColon_def readDots_def opOrAssign_def Let_def
  by (rule blind_rules | simp add: split_def; fail)+

lemma blind_operator [blind_rules]:
  "blind (readOperator a)"
  unfolding readOperator_def Let_def
  by (rule blind_rules | simp add: split_def; fail)+

subsubsection \<open>Tokens\<close>

lemma blind_next [blind_rules]:
  "blind (readToken a1 b1)" "blind (readRest a2)"
  unfolding readToken_def readRest_def Let_def
  by (rule blind_rules | simp add: split_def; fail)+

lemma blind_next2 [blind_rules]:
  "blind (nextStep a)"
  unfolding nextStep_def Let_def
  by (rule blind_rules | simp add: split_def; fail)+

lemma blind_next3 [blind_rules]:
  "blind (NextToken a)"
  unfolding NextToken_def Let_def
  by (rule blind_rules | simp add: split_def; fail)+

lemma blind_tokenize [blind_rules]:
  "blind (tokenizeRound a1 b1)" "blind (Tokenize a2)"
  unfolding tokenizeRound_def Tokenize_def Let_def
  by (rule blind_rules | simp add: split_def; fail)+

end
