(* ===== verification/IncSourceProps.thy ===== *)
theory IncSourceProps
  imports IncSourceProofs LexerProps LexerTracking
begin

text \<open>
  The promises of incremental tokenisation (\<^verbatim>\<open>compiler/src/lexer/incremental_source.go\<close>,
  \<^verbatim>\<open>incremental_suffix.go\<close>).
\<close>

subsection \<open>Reuse is transparent\<close>

lemma cvOwn_new:
  assumes "srcOk u previous" shows "cvOwn (newSourceConvergence previous current)"
proof -
  have "\<forall>cp \<in> set (st_checkpoints previous). ownPending (cp_state cp)"
    using assms cpOk_own by (auto simp: srcOk_def)
  then show ?thesis by (auto simp: cvOwn_def newSourceConvergence_def Let_def split: if_splits)
qed

lemma materialized:
  assumes "prefixOk b" "c = (if d then materialize b else Some b)"
  shows "\<exists>b'. c = Some b' \<and> prefixOk b' \<and> bTokens b' = bTokens b \<and> st_filename (sb_out b') = st_filename (sb_out b) \<and>
    st_source (sb_out b') = st_source (sb_out b) \<and> st_suffixReused (sb_out b') = st_suffixReused (sb_out b) \<and>
    st_checkpoints (sb_out b') = st_checkpoints (sb_out b)"
  using assms materialize_eq [OF assms(1)] by (cases d) (auto simp: prefixOk_def bTokens_def)

lemma start_ok:
  assumes p: "srcOk u previous" "st_filename previous = name"
  shows "\<exists>l b. (case chooseCheckpoint (commonPrefix (st_source previous) source) (st_checkpoints previous) of
      None \<Rightarrow> Some (trackedLexer name source, \<lparr>sb_out = emptySource name source, sb_prefix = [], sb_oldSource = []\<rparr>)
    | Some cp \<Rightarrow> resumeFrom sz previous (emptySource name source) cp) = Some (l, b) \<and> prefixOk b \<and>
    st_filename (sb_out b) = name \<and> st_source (sb_out b) = source \<and> st_suffixReused (sb_out b) = 0 \<and>
    lexReach u (trackedLexer name source) (bTokens b) l \<and> TOKEN_EOF \<notin> tok_Kind ` set (bTokens b) \<and> cpsOk u (bTokens b) (sb_out b)"
proof (cases "chooseCheckpoint (commonPrefix (st_source previous) source) (st_checkpoints previous)")
  case None
  then show ?thesis by (simp add: prefixOk_def emptySource_def bTokens_def cpsOk_def lexReach.init)
next
  case (Some cp)
  with resumeFrom_ok [OF p Some, of sz] show ?thesis by simp
qed

lemma incremental_run:
  assumes p: "srcOk u previous" and name: "st_filename previous = name"
    and fresh: "streams u (trackedLexer name source) toks l"
  shows "\<exists>r. TokenizeSource u sz name source (Some previous) = Some r \<and>
    (st_suffixReused r = 0 \<longrightarrow> st_tokens r = toks \<and> st_errors r = errors l \<and> srcOk u r)"
proof -
  let ?ch = "chooseCheckpoint (commonPrefix (st_source previous) source) (st_checkpoints previous)"
  obtain l0 b0 where s0: "(case ?ch of None \<Rightarrow> Some (trackedLexer name source, \<lparr>sb_out = emptySource name source, sb_prefix = [], sb_oldSource = []\<rparr>)
      | Some cp \<Rightarrow> resumeFrom sz previous (emptySource name source) cp) = Some (l0, b0)"
    and b0: "prefixOk b0" "st_filename (sb_out b0) = name" "st_source (sb_out b0) = source" "st_suffixReused (sb_out b0) = 0"
    and r0: "lexReach u (trackedLexer name source) (bTokens b0) l0" "TOKEN_EOF \<notin> tok_Kind ` set (bTokens b0)" "cpsOk u (bTokens b0) (sb_out b0)"
    using start_ok [OF p name, of source sz] by blast
  define cv where "cv = (if (case ?ch of None \<Rightarrow> True | Some cp \<Rightarrow> length (st_tokens previous) - cp_count cp \<ge> sourceCheckpointStride)
      then newSourceConvergence previous (sb_out b0) else None)"
  define d where "d \<longleftrightarrow> ?ch \<noteq> None \<and> \<not> (cv \<noteq> None \<and> length (st_tokens previous) > 8 * sourceCheckpointStride)"
  have cvo: "cvOwn cv" using cvOwn_new [OF p] by (simp add: cv_def) (simp add: cvOwn_def)
  obtain b1 where b1: "(if d then materialize b0 else Some b0) = Some b1" "prefixOk b1" "bTokens b1 = bTokens b0"
      "st_filename (sb_out b1) = name" "st_source (sb_out b1) = source" "st_suffixReused (sb_out b1) = 0"
      "st_checkpoints (sb_out b1) = st_checkpoints (sb_out b0)"
    using materialized [OF b0(1) refl, of d] b0 by auto
  have ok1: "cpsOk u (bTokens b1) (sb_out b1)" using r0(3) b1 b0 by (simp add: cpsOk_cong [of "sb_out b1" "sb_out b0"])
  obtain l2 b2 where lp: "sourceLoop u sz cv l0 (builderCount b1) b1 = Some (l2, b2)" "prefixOk b2"
      "st_source (sb_out b2) = source" "st_filename (sb_out b2) = name"
      "st_suffixReused (sb_out b2) = 0 \<longrightarrow> (\<exists>rest. streams u l0 rest l2 \<and> bTokens b2 = bTokens b1 @ rest) \<and> cpsOk u (bTokens b2) (sb_out b2)"
    using sourceLoop_streams [of u b1 l0 cv "builderCount b1" sz] r0 ok1 b1 cvo by (auto simp: builderCount_tokens)
  let ?r = "(sb_out b2)\<lparr>st_tokens := bTokens b2, st_errors := lexErrors l2\<rparr>"
  have run: "TokenizeSource u sz name source (Some previous) = Some ?r"
  proof -
    have "tokenizeFrom u sz previous ?ch l0 b0 = (if d then materialize b0 else Some b0) \<bind> (\<lambda>b.
        sourceLoop u sz cv l0 (builderCount b) b \<bind> (\<lambda>e. materialize (snd e) \<bind> (\<lambda>fin.
          Some ((sb_out fin)\<lparr>st_errors := lexErrors (fst e)\<rparr>))))"
      unfolding tokenizeFrom_def Let_def cv_def [symmetric] d_def [symmetric] by (rule refl)
    moreover have "TokenizeSource u sz name source (Some previous) = tokenizeFrom u sz previous ?ch l0 b0"
      by (simp add: TokenizeSource_def Let_def name s0)
    ultimately show ?thesis using b1(1) lp(1) materialize_eq [OF lp(2)] by simp
  qed
  have main: "st_tokens ?r = toks \<and> st_errors ?r = errors l \<and> srcOk u ?r" if z: "st_suffixReused ?r = 0"
  proof -
    from lp(5) z obtain rest where rest: "streams u l0 rest l2" "bTokens b2 = bTokens b0 @ rest" "cpsOk u (bTokens b2) (sb_out b2)"
      using b1 by auto
    have st: "streams u (trackedLexer name source) (bTokens b2) l2"
      using reach_streams [OF r0(1,2) rest(1)] by (simp add: rest(2))
    have "st_errors ?r = errors l2" by (simp add: lexErrors_def)
    moreover have "srcOk u ?r"
      unfolding srcOk_def
    proof
      show "\<exists>l. streams u (trackedLexer (st_filename ?r) (st_source ?r)) (st_tokens ?r) l \<and> st_errors ?r = errors l"
        using st lp(3,4) by (intro exI [of _ l2]) (simp add: lexErrors_def)
    qed (use rest(3) in \<open>simp add: cpsOk_def\<close>)
    ultimately show ?thesis using streams_unique [OF fresh st] by simp
  qed
  show ?thesis by (rule exI [of _ ?r], rule conjI, rule run, rule impI, rule main)
qed

text \<open>
  Claim C4. Incremental tokenisation is transparent: given any valid previous revision,
  \<^verbatim>\<open>TokenizeSource\<close> never panics, and unless it copied a suffix its tokens (texts and positions
  included) and errors are those of tokenising the new source from scratch; the result is again a
  valid revision to continue from.
\<close>

theorem incremental_tokens_equal_fresh:
  assumes "srcOk u previous"
  shows "\<exists>r fresh. TokenizeSource u sz name source (Some previous) = Some r \<and>
    TokenizeSource u sz name source None = Some fresh \<and> srcOk u fresh \<and>
    (st_suffixReused r = 0 \<longrightarrow> st_tokens r = st_tokens fresh \<and> st_errors r = st_errors fresh \<and> srcOk u r)"
proof -
  obtain toks l where fresh: "streams u (trackedLexer name source) toks l" using tracked_streams by blast
  obtain f where f: "TokenizeSource u sz name source None = Some f" "st_tokens f = toks" "st_errors f = errors l" "srcOk u f"
    using fresh_ok [OF fresh, of sz] by blast
  show ?thesis
  proof (cases "st_filename previous = name")
    case True
    with incremental_run [OF assms True fresh, of sz] f show ?thesis by auto
  next
    case False
    then have "TokenizeSource u sz name source (Some previous) = TokenizeSource u sz name source None"
      by (simp add: TokenizeSource_def)
    with f show ?thesis by auto
  qed
qed

text \<open>A revision of the demo source with a checkpoint after its second token.\<close>

definition goSizes :: Sizes where
  "goSizes = \<lparr>sizeCheckpoint = 256, sizeInt = 8, sizeToken = 88, sizePatternHeader = 16, sizeBlockContext = 24,
     sizeString = 16, sizeLineEpoch = 16, sizeSourceTokens = 184\<rparr>"

definition demoCheckpoint :: sourceCheckpoint where
  "demoCheckpoint = (let l = snd (takeTokens asciiTables 2 (trackedLexer ''a.elisa'' demoSource)) in
     \<lparr>cp_count = 2, cp_required = readLimit l, cp_state = l\<rparr>)"

definition demoPrevious :: SourceTokens where
  "demoPrevious = (case TokenizeSource asciiTables goSizes ''a.elisa'' demoSource None of
     Some s \<Rightarrow> s\<lparr>st_checkpoints := [demoCheckpoint], st_checkpointCap := 4\<rparr>)"

definition editedSource :: "byte list" where
  "editedSource = ''if x:'' @ [CHR 0x0A] @ ''  z()''"

lemma demoPrevious_ok: "srcOk asciiTables demoPrevious"
proof -
  obtain toks l where st: "streams asciiTables (trackedLexer ''a.elisa'' demoSource) toks l" using tracked_streams by blast
  obtain f where f: "TokenizeSource asciiTables goSizes ''a.elisa'' demoSource None = Some f" "st_tokens f = toks"
      "st_errors f = errors l" "st_filename f = ''a.elisa''" "st_source f = demoSource"
    using fresh_ok [OF st, of goSizes] by blast
  have "take 2 (st_tokens (the (TokenizeSource asciiTables goSizes ''a.elisa'' demoSource None))) =
      fst (takeTokens asciiTables 2 (trackedLexer ''a.elisa'' demoSource))" by code_simp
  moreover have "2 \<le> length (st_tokens (the (TokenizeSource asciiTables goSizes ''a.elisa'' demoSource None)))" by code_simp
  moreover have "TOKEN_EOF \<notin> tok_Kind ` set (fst (takeTokens asciiTables 2 (trackedLexer ''a.elisa'' demoSource)))" by code_simp
  ultimately have "cpOk asciiTables ''a.elisa'' demoSource toks demoCheckpoint"
    using takeTokens_reach [of asciiTables "trackedLexer ''a.elisa'' demoSource" 2] f(1,2)
    by (simp add: cpOk_def demoCheckpoint_def Let_def)
  with f st show ?thesis by (auto simp: demoPrevious_def srcOk_def)
qed

theorem incremental_tokens_equal_fresh_witness:
  "\<exists>r fresh. TokenizeSource asciiTables goSizes ''a.elisa'' editedSource (Some demoPrevious) = Some r \<and>
     TokenizeSource asciiTables goSizes ''a.elisa'' editedSource None = Some fresh \<and> st_reused r = 2 \<and>
     st_tokens r = st_tokens fresh"
proof -
  have "map_option (\<lambda>r. (st_reused r, st_suffixReused r))
      (TokenizeSource asciiTables goSizes ''a.elisa'' editedSource (Some demoPrevious)) = Some (2, 0)" by code_simp
  with incremental_tokens_equal_fresh [OF demoPrevious_ok, of goSizes "''a.elisa''" editedSource] show ?thesis by auto
qed

text \<open>
  Claim C9. Tokenising a source from scratch with checkpoints, which lexes with read tracking on,
  returns, and gives the tokens and errors of \<^verbatim>\<open>Tokenize\<close> on a plain lexer as \<^verbatim>\<open>New\<close> makes it,
  with tracking off: tracking changes no token, no error and nothing else of the lexer's final state.
\<close>

theorem fresh_source_equals_tokenize:
  "case run_state (Tokenize u) (lexNew name source) of (toks, l) \<Rightarrow>
     (\<exists>limit. run_state (Tokenize u) (trackedLexer name source) =
        (toks, l\<lparr>trackReads := True, readLimit := limit\<rparr>)) \<and>
     (\<exists>r. TokenizeSource u sz name source None = Some r \<and> CopyTokens r = toks \<and> CopyErrors r = lexErrors l \<and>
       st_source r = source \<and> st_filename r = name)"
proof -
  obtain toks l where r: "run_state (Tokenize u) (trackedLexer name source) = (toks, l)" by force
  have "untrack (trackedLexer name source) = lexNew name source"
    by (simp add: untrack_def trackedLexer_def lexNew_def)
  with blind_run [OF blind_tokenize(2) r] have p: "run_state (Tokenize u) (lexNew name source) = (toks, untrack l)" by simp
  have s: "streams u (trackedLexer name source) toks l" by (rule Tokenize_streams [OF tracked_ok(2) r])
  from streams_ok [OF s ok_new(2)] have "trackReads l" by (simp add: extends_def)
  then have "l = (untrack l)\<lparr>trackReads := True, readLimit := readLimit l\<rparr>" by (simp add: untrack_def)
  with r have "\<exists>limit. run_state (Tokenize u) (trackedLexer name source) =
      (toks, (untrack l)\<lparr>trackReads := True, readLimit := limit\<rparr>)" by metis
  moreover have "lexErrors (untrack l) = lexErrors l" by (simp add: lexErrors_def)
  moreover from fresh_ok [OF s, of sz] have "\<exists>r. TokenizeSource u sz name source None = Some r \<and>
      CopyTokens r = toks \<and> CopyErrors r = lexErrors l \<and> st_source r = source \<and> st_filename r = name"
    by (auto simp: CopyTokens_def CopyErrors_def lexErrors_def)
  ultimately show ?thesis by (simp add: p)
qed

end
