(* ===== verification/IncSourceBounds.thy ===== *)
theory IncSourceBounds
  imports IncSourceProps
begin

text \<open>
  Bounds of the incremental tokeniser: the checkpoint budget, the retained-bytes account and the
  bisection over line epochs.
\<close>

subsection \<open>The checkpoint budget\<close>

definition budgetOk :: "Sizes \<Rightarrow> SourceTokens \<Rightarrow> bool" where
  "budgetOk sz s \<longleftrightarrow> length (st_checkpoints s) \<le> st_checkpointCap s \<and> st_checkpointCap s \<le> sourceCheckpointLimit \<and>
     st_checkpointCap s * sizeCheckpoint sz \<le> st_checkpointBytes s \<and> st_checkpointBytes s \<le> sourceCheckpointBytes"

lemma budgetOk_cong: "st_checkpoints s' = st_checkpoints s \<Longrightarrow> st_checkpointCap s' = st_checkpointCap s \<Longrightarrow>
    st_checkpointBytes s' = st_checkpointBytes s \<Longrightarrow> budgetOk sz s' = budgetOk sz s"
  by (simp add: budgetOk_def)

lemma budget_add:
  assumes b: "budgetOk sz s" and r: "addCheckpoint sz state old new count required s = Some (added, s')"
  shows "budgetOk sz s'"
proof (cases "added")
  case False
  with r b show ?thesis
    by (auto simp: addCheckpoint_def Let_def bind_eq_Some_conv split: if_splits option.splits)
next
  case True
  let ?growth = "(grownCapacity s - st_checkpointCap s) * sizeCheckpoint sz"
  from r True obtain cost clone where len: "length (st_checkpoints s) < sourceCheckpointLimit"
    and room: "?growth \<le> sourceCheckpointBytes - st_checkpointBytes s"
      "cost - sizeCheckpoint sz \<le> sourceCheckpointBytes - st_checkpointBytes s - ?growth"
    and s': "s' = s\<lparr>st_checkpointCap := grownCapacity s,
      st_checkpoints := st_checkpoints s @ [\<lparr>cp_count = count, cp_required = required, cp_state = clone\<rparr>],
      st_checkpointBytes := st_checkpointBytes s + (cost - sizeCheckpoint sz + ?growth)\<rparr>"
    by (auto simp: addCheckpoint_def Let_def bind_eq_Some_conv not_less not_le split: if_splits option.splits)
  have cap: "st_checkpointCap s \<le> grownCapacity s" "length (st_checkpoints s) < grownCapacity s" "grownCapacity s \<le> sourceCheckpointLimit"
    using b len by (auto simp: budgetOk_def grownCapacity_def sourceCheckpointLimit_def)
  have "grownCapacity s * sizeCheckpoint sz = st_checkpointCap s * sizeCheckpoint sz + ?growth"
    using cap(1) by (simp add: add_mult_distrib [symmetric])
  with cap room b show ?thesis by (auto simp: s' budgetOk_def)
qed

lemma budget_note [simp]: "budgetOk sz (noteLineEpoch t e s) = budgetOk sz s"
  by (rule budgetOk_cong) (simp_all add: noteLineEpoch_def Let_def)

lemma budget_fields [simp]: "budgetOk sz (s\<lparr>st_tokens := ts\<rparr>) = budgetOk sz s" "budgetOk sz (s\<lparr>st_errors := es\<rparr>) = budgetOk sz s"
  "budgetOk sz (s\<lparr>st_suffixReused := n\<rparr>) = budgetOk sz s" "budgetOk sz (s\<lparr>st_lineEpochs := ls, st_reused := n\<rparr>) = budgetOk sz s"
  by (simp_all add: budgetOk_def)

lemma budget_due:
  assumes "(if due then map_option snd (addCheckpoint sz state old new count required s) else Some s) = Some s'" "budgetOk sz s"
  shows "budgetOk sz s'"
  using assms by (auto split: if_splits intro: budget_add)

lemma bind_SomeE: "m \<bind> f = Some y \<Longrightarrow> (\<And>x. m = Some x \<Longrightarrow> f x = Some y \<Longrightarrow> P) \<Longrightarrow> P"
  by (cases m) auto

lemma budget_fresh: "freshLoop u sz l s = Some (l', s') \<Longrightarrow> budgetOk sz s \<Longrightarrow> budgetOk sz s'"
proof (induction u sz l s rule: freshLoop.induct)
  case (1 u sz l s)
  obtain tok l1 where n: "run_state (NextToken u) l = (tok, l1)" by force
  define s1 where "s1 = (noteLineEpoch (length (st_tokens s)) (lineEpoch l1) s)
      \<lparr>st_tokens := st_tokens (noteLineEpoch (length (st_tokens s)) (lineEpoch l1) s) @ [tok]\<rparr>"
  have b1: "budgetOk sz s1" using "1.prems"(2) by (simp add: s1_def)
  let ?due = "dueCheckpoint (length (st_tokens s1)) s1"
  let ?add = "if ?due then map_option snd (addCheckpoint sz l1 (st_source s1) (st_source s1) (length (st_tokens s1)) (readLimit l1) s1) else Some s1"
  have run: "freshLoop u sz l s = (if tok_Kind tok = TOKEN_EOF then Some (l1, s1)
      else if workLeft l1 \<ge> workLeft l then None else ?add \<bind> freshLoop u sz l1)"
    by (subst freshLoop.simps) (simp only: n prod.case Let_def s1_def)
  show ?case
  proof (cases "tok_Kind tok = TOKEN_EOF \<or> workLeft l1 \<ge> workLeft l")
    case True
    with run "1.prems"(1) b1 show ?thesis by (simp split: if_splits)
  next
    case False
    with run "1.prems"(1) have "?add \<bind> freshLoop u sz l1 = Some (l', s')" by simp
    then obtain s2 where s2: "?add = Some s2" "freshLoop u sz l1 s2 = Some (l', s')"
      unfolding bind_eq_Some_conv by blast
    show ?thesis
      by (rule "1.IH" [OF n [symmetric] refl refl _ _ _ s2(2)]) (use False s2(1) budget_due [OF s2(1) b1] in \<open>auto simp: s1_def\<close>)
  qed
qed

lemma budget_copyTail: "copyTail c ts i es e out = Some out' \<Longrightarrow> budgetOk sz out \<Longrightarrow> budgetOk sz out'"
  by (induction c ts i es e out rule: copyTail.induct) (auto simp: Let_def split: prod.splits option.splits)

lemma budget_copyCheckpoints:
  "copyCheckpoints sz c current start n olds out = Some out' \<Longrightarrow> budgetOk sz out \<Longrightarrow> budgetOk sz out'"
proof (induction olds arbitrary: out)
  case (Cons old olds)
  show ?case
  proof (cases "cp_count old \<le> n \<or> copierState c (cp_state old) (readLimit current) = None")
    case True
    with Cons show ?thesis by (auto split: if_splits)
  next
    case False
    then obtain state where state: "copierState c (cp_state old) (readLimit current) = Some state" by auto
    with False Cons.prems(1) obtain added out1 where
      a: "addCheckpoint sz state (st_source out) (st_source out) (start + cp_count old - n) (readLimit state) out = Some (added, out1)"
         "(if added then copyCheckpoints sz c current start n olds out1 else Some out1) = Some out'"
      by (auto simp: bind_eq_Some_conv)
    with Cons.IH [of out1] budget_add [OF Cons.prems(2) a(1)] show ?thesis by (auto split: if_splits)
  qed
qed simp

lemma budget_materialize: "materialize b = Some b' \<Longrightarrow> budgetOk sz (sb_out b) \<Longrightarrow> budgetOk sz (sb_out b')"
  by (auto simp: materialize_def bind_eq_Some_conv)

lemma budget_copySuffix:
  assumes "copySuffix sz cv b current cp = Some (moved, b')" "budgetOk sz (sb_out b)" shows "budgetOk sz (sb_out b')"
proof -
  define c where "c = \<lparr>tc_old = st_source (cv_old cv), tc_new = st_source (sb_out b), tc_offsetDelta = cv_delta cv,
     tc_lineDelta = line current - line (cp_state cp), tc_epochDelta = int (lineEpoch current) - int (lineEpoch (cp_state cp)),
     tc_baseEpoch = lineEpoch (cp_state cp), tc_baseOffset = pos (cp_state cp)\<rparr>"
  from assms(1) obtain m where m: "materialize b = Some m" by (auto simp: copySuffix_def Let_def bind_eq_Some_conv)
  note bm = budget_materialize [OF m assms(2)]
  define t where "t = copyTail c (drop (cp_count cp) (st_tokens (cv_old cv))) (cp_count cp)
      (drop (sortSearch (length (st_lineEpochs (cv_old cv))) (\<lambda>i. le_token (st_lineEpochs (cv_old cv) ! i) > cp_count cp))
        (st_lineEpochs (cv_old cv))) (epochAt (cp_count cp) (cv_old cv)) (sb_out m)"
  have run: "copySuffix sz cv b current cp = (case t of None \<Rightarrow> Some (False, m)
      | Some out1 \<Rightarrow> addCheckpoint sz current (st_source out1) (st_source out1) (builderCount b) (readLimit current) out1 \<bind> (\<lambda>r.
          copyCheckpoints sz c current (builderCount b) (cp_count cp) (st_checkpoints (cv_old cv)) (snd r) \<bind> (\<lambda>out2.
            Some (True, m\<lparr>sb_out := out2\<lparr>st_suffixReused := length (st_tokens (cv_old cv)) - cp_count cp\<rparr>\<rparr>))))"
    unfolding copySuffix_def Let_def c_def t_def m Option.bind.simps by (rule refl)
  show ?thesis
  proof (cases t)
    case None
    with run assms(1) bm show ?thesis by simp
  next
    case (Some out1)
    note b1 = budget_copyTail [OF Some [unfolded t_def] bm]
    have "addCheckpoint sz current (st_source out1) (st_source out1) (builderCount b) (readLimit current) out1 \<bind> (\<lambda>r.
          copyCheckpoints sz c current (builderCount b) (cp_count cp) (st_checkpoints (cv_old cv)) (snd r) \<bind> (\<lambda>out2.
            Some (True, m\<lparr>sb_out := out2\<lparr>st_suffixReused := length (st_tokens (cv_old cv)) - cp_count cp\<rparr>\<rparr>))) = Some (moved, b')"
      using run Some assms(1) by simp
    then obtain r out2 where
      r: "addCheckpoint sz current (st_source out1) (st_source out1) (builderCount b) (readLimit current) out1 = Some r"
         "copyCheckpoints sz c current (builderCount b) (cp_count cp) (st_checkpoints (cv_old cv)) (snd r) = Some out2"
         "b' = m\<lparr>sb_out := out2\<lparr>st_suffixReused := length (st_tokens (cv_old cv)) - cp_count cp\<rparr>\<rparr>"
      by (auto simp: bind_eq_Some_conv)
    have "budgetOk sz (snd r)" using budget_add [OF b1, of current _ _ _ _ "fst r" "snd r"] r(1) by simp
    from budget_copyCheckpoints [OF r(2) this] r(3) show ?thesis by simp
  qed
qed

lemma budget_replay:
  assumes "replay sz cv b current = Some (moved, cv', b')" "budgetOk sz (sb_out b)" shows "budgetOk sz (sb_out b')"
  using assms by (auto simp: replay_def Let_def bind_eq_Some_conv split: option.splits intro: budget_copySuffix)

lemma budget_sourceLoop: "sourceLoop u sz cv l count b = Some (l', b') \<Longrightarrow> budgetOk sz (sb_out b) \<Longrightarrow> budgetOk sz (sb_out b')"
proof (induction "workLeft l" arbitrary: cv l count b rule: less_induct)
  case less
  obtain tok l1 where n: "run_state (NextToken u) l = (tok, l1)" by force
  define b1 where "b1 = b\<lparr>sb_out := (noteLineEpoch count (lineEpoch l1) (sb_out b))
      \<lparr>st_tokens := st_tokens (noteLineEpoch count (lineEpoch l1) (sb_out b)) @ [tok]\<rparr>\<rparr>"
  let ?rep = "case cv of None \<Rightarrow> Some (False, cv, b1) | Some c \<Rightarrow> map_option (\<lambda>(d, c', b'). (d, Some c', b')) (replay sz c b1 l1)"
  let ?add = "\<lambda>b. if dueCheckpoint (count + 1) (sb_out b) then map_option snd (addCheckpoint sz l1 (st_source (sb_out b))
      (st_source (sb_out b)) (count + 1) (readLimit l1) (sb_out b)) else Some (sb_out b)"
  have b1: "budgetOk sz (sb_out b1)" using less.prems(2) by (simp add: b1_def)
  have run: "sourceLoop u sz cv l count b = (if tok_Kind tok = TOKEN_EOF then Some (l1, b1)
      else if workLeft l1 \<ge> workLeft l then None
      else ?rep \<bind> (\<lambda>r. case r of (moved, cv, b) \<Rightarrow> if moved then Some (l1, b) else
          ?add b \<bind> (\<lambda>out. sourceLoop u sz cv l1 (count + 1) (b\<lparr>sb_out := out\<rparr>))))"
    by (subst sourceLoop.simps) (simp only: n prod.case Let_def b1_def)
  show ?case
  proof (cases "tok_Kind tok = TOKEN_EOF \<or> workLeft l1 \<ge> workLeft l")
    case True
    with run less.prems(1) b1 show ?thesis by (simp split: if_splits)
  next
    case False
    have "?rep \<bind> (\<lambda>r. case r of (moved, cv, b) \<Rightarrow> if moved then Some (l1, b) else
          ?add b \<bind> (\<lambda>out. sourceLoop u sz cv l1 (count + 1) (b\<lparr>sb_out := out\<rparr>))) = Some (l', b')"
      using run less.prems(1) False by simp
    then obtain q where q: "?rep = Some q" "(case q of (moved, cv, b) \<Rightarrow> if moved then Some (l1, b) else
          ?add b \<bind> (\<lambda>out. sourceLoop u sz cv l1 (count + 1) (b\<lparr>sb_out := out\<rparr>))) = Some (l', b')"
      by (rule bind_SomeE)
    obtain moved cv2 b2 where "q = (moved, cv2, b2)" by (cases q)
    with q have r: "?rep = Some (moved, cv2, b2)"
      "(if moved then Some (l1, b2) else ?add b2 \<bind> (\<lambda>out. sourceLoop u sz cv2 l1 (count + 1) (b2\<lparr>sb_out := out\<rparr>))) = Some (l', b')"
      by simp_all
    have b2: "budgetOk sz (sb_out b2)" using r(1) b1 by (auto split: option.splits intro: budget_replay)
    show ?thesis
    proof (cases moved)
      case True
      with r(2) b2 show ?thesis by simp
    next
      case stay: False
      with r(2) have "?add b2 \<bind> (\<lambda>out. sourceLoop u sz cv2 l1 (count + 1) (b2\<lparr>sb_out := out\<rparr>)) = Some (l', b')" by simp
      then obtain out where o: "?add b2 = Some out" "sourceLoop u sz cv2 l1 (count + 1) (b2\<lparr>sb_out := out\<rparr>) = Some (l', b')"
        unfolding bind_eq_Some_conv by blast
      show ?thesis by (rule less.hyps [OF _ o(2)]) (use False budget_due [OF o(1) b2] in auto)
    qed
  qed
qed

lemma budget_prefix:
  "copyPrefixCheckpoints sz old n olds s = Some s' \<Longrightarrow> budgetOk sz s \<Longrightarrow> budgetOk sz s'"
proof (induction olds arbitrary: s)
  case (Cons cp olds)
  show ?case
  proof (cases "cp_count cp > n")
    case True
    with Cons.prems show ?thesis by simp
  next
    case False
    with Cons.prems(1) obtain added s1 where
      a: "addCheckpoint sz (cp_state cp) old (st_source s) (cp_count cp) (cp_required cp) s = Some (added, s1)"
         "(if added then copyPrefixCheckpoints sz old n olds s1 else Some s1) = Some s'"
      by (auto simp: bind_eq_Some_conv)
    with Cons.IH [of s1] budget_add [OF Cons.prems(2) a(1)] show ?thesis by (auto split: if_splits)
  qed
qed simp

lemma budget_empty: "budgetOk sz (emptySource name source)"
  by (simp add: budgetOk_def emptySource_def)

lemma budget_from:
  assumes "tokenizeFrom u sz previous cp l b = Some r" "budgetOk sz (sb_out b)" shows "budgetOk sz r"
  using assms by (auto simp: tokenizeFrom_def Let_def bind_eq_Some_conv split: if_splits
      dest!: budget_materialize budget_sourceLoop)

text \<open>
  Claim C29. The checkpoint budget holds for every revision \<^verbatim>\<open>TokenizeSource\<close> returns, whatever
  previous revision it is given: at most 4096 checkpoints, and at most 16 MiB accounted, which
  covers the headers of the whole checkpoint slice, spare capacity included.
\<close>

theorem checkpoint_budget:
  "case TokenizeSource u sz name source prev of None \<Rightarrow> True
   | Some r \<Rightarrow> length (st_checkpoints r) \<le> 4096 \<and> st_checkpointBytes r \<le> 2 ^ 24 \<and>
       st_checkpointCap r * sizeCheckpoint sz \<le> st_checkpointBytes r"
proof -
  have "budgetOk sz r" if "TokenizeSource u sz name source prev = Some r" for r
  proof -
    have fr: "budgetOk sz r" if "tokenizeFreshSource u sz (emptySource name source) l = Some r" for l
      using that budget_fresh budget_empty by (fastforce simp: tokenizeFreshSource_def bind_eq_Some_conv)
    have rs: "budgetOk sz (sb_out b)" if "resumeFrom sz previous (emptySource name source) cp = Some (l, b)" for previous cp l b
      using that by (auto simp: resumeFrom_def bind_eq_Some_conv budget_empty dest!: budget_prefix)
    show ?thesis
    proof (cases "\<exists>previous. prev = Some previous \<and> st_filename previous = name")
      case False
      with that show ?thesis by (auto simp: TokenizeSource_def Let_def split: option.splits if_splits intro: fr)
    next
      case True
      then obtain previous where p: "prev = Some previous" "st_filename previous = name" by blast
      let ?cp = "chooseCheckpoint (commonPrefix (st_source previous) source) (st_checkpoints previous)"
      from that p obtain l b where "(case ?cp of None \<Rightarrow> Some (trackedLexer name source, \<lparr>sb_out = emptySource name source, sb_prefix = [], sb_oldSource = []\<rparr>)
          | Some cp \<Rightarrow> resumeFrom sz previous (emptySource name source) cp) = Some (l, b)" "tokenizeFrom u sz previous ?cp l b = Some r"
        by (auto simp: TokenizeSource_def Let_def bind_eq_Some_conv)
      then show ?thesis using budget_from rs budget_empty by (fastforce split: option.splits)
    qed
  qed
  then show ?thesis
    by (auto simp: budgetOk_def sourceCheckpointLimit_def sourceCheckpointBytes_def split: option.split)
qed

subsection \<open>Retained bytes\<close>

text \<open>Charging a cost against a limit.\<close>

definition charge :: "int \<Rightarrow> nat \<Rightarrow> int \<Rightarrow> int option" where
  "charge limit cost used = (if used + int cost \<le> limit then Some (used + int cost) else None)"

definition charges :: "int \<Rightarrow> (int \<Rightarrow> int option) \<Rightarrow> nat \<Rightarrow> bool" where
  "charges limit f cost \<longleftrightarrow> (\<forall>used \<le> limit. f used = charge limit cost used)"

lemma charges_bytes: "charges limit (addBytes limit n) n"
  by (auto simp: charges_def charge_def addBytes_def)

lemma charges_bind: "charges limit f a \<Longrightarrow> charges limit g b \<Longrightarrow> charges limit (\<lambda>used. f used \<bind> g) (a + b)"
  by (auto simp: charges_def charge_def)

lemma div_less_mult: "a div b < c \<longleftrightarrow> a < c * b" if "0 < b" for a b c :: int
proof
  assume "a div b < c"
  then have "(a div b + 1) * b \<le> c * b" using that by (intro mult_right_mono) auto
  then have "a div b * b + b \<le> c * b" by (simp add: distrib_right)
  with pos_mod_bound [OF that, of a] div_mult_mod_eq [of a b] show "a < c * b" by linarith
next
  assume "a < c * b"
  show "a div b < c"
  proof (rule ccontr)
    assume "\<not> a div b < c"
    then have "c * b \<le> (a div b) * b" using that by (intro mult_right_mono) auto
    with pos_mod_sign [OF that, of a] div_mult_mod_eq [of a b] \<open>a < c * b\<close> show False by simp
  qed
qed

lemma charges_items:
  assumes "0 < item" shows "charges limit (addItems limit count item) (count * item)"
  unfolding charges_def
proof (intro allI impI)
  fix used :: int assume u: "used \<le> limit"
  have "int count > (limit - used) div int item \<longleftrightarrow> int count * int item > limit - used"
    by (rule div_less_mult) (use assms in simp)
  then show "addItems limit count item used = charge limit (count * item) used"
    using u by (auto simp: addItems_def addBytes_def charge_def)
qed

lemma charges_each:
  assumes "\<And>x. charges limit (f x) (cost x)" shows "charges limit (addEach f xs) (sum_list (map cost xs))"
proof (induction xs)
  case (Cons x xs)
  from charges_bind [OF assms [of x] Cons.IH] show ?case by simp
qed (simp add: charges_def charge_def)

definition tokensCost :: "Sizes \<Rightarrow> Caps \<Rightarrow> Token list \<Rightarrow> nat" where
  "tokensCost sz caps ts = capTokens caps ts * sizeToken sz + (\<Sum>t\<leftarrow>ts. length (tok_Text t) + length (File (tok_Pos t)))"

definition errorsCost :: "Sizes \<Rightarrow> Caps \<Rightarrow> string list \<Rightarrow> nat" where
  "errorsCost sz caps es = capErrors caps es * sizeString sz + (\<Sum>e\<leftarrow>es. length e)"

definition checkpointCost :: "Sizes \<Rightarrow> Caps \<Rightarrow> sourceCheckpoint \<Rightarrow> nat" where
  "checkpointCost sz caps c = (let l = cp_state c in length (filename l) + (capInts caps (indentStack l) * sizeInt sz +
     (capHeaders caps (pendingPatternBlocks l) * sizePatternHeader sz + (capContexts caps (groupedBlockContexts l) * sizeBlockContext sz +
     (tokensCost sz caps (pendingToks l) + errorsCost sz caps (errors l))))))"

definition retainedCost :: "Sizes \<Rightarrow> Caps \<Rightarrow> SourceTokens \<Rightarrow> nat" where
  "retainedCost sz caps s = sizeSourceTokens sz + (length (st_filename s) + (capSource caps (st_source s) +
     (capLineEpochs caps (st_lineEpochs s) * sizeLineEpoch sz + (tokensCost sz caps (st_tokens s) + (errorsCost sz caps (st_errors s) +
     (st_checkpointCap s * sizeCheckpoint sz + (\<Sum>c\<leftarrow>st_checkpoints s. checkpointCost sz caps c)))))))"

lemma charges_tokens: "0 < sizeToken sz \<Longrightarrow> charges limit (tokenBytes sz caps limit ts) (tokensCost sz caps ts)"
  unfolding tokenBytes_def tokensCost_def by (intro charges_bind charges_items charges_each charges_bytes)

lemma charges_errors: "0 < sizeString sz \<Longrightarrow> charges limit (errorBytes sz caps limit es) (errorsCost sz caps es)"
  unfolding errorBytes_def errorsCost_def by (intro charges_bind charges_items charges_each charges_bytes)

lemma charges_checkpoint:
  "0 < sizeToken sz \<Longrightarrow> 0 < sizeString sz \<Longrightarrow> charges limit (checkpointBytesOf sz caps limit c) (checkpointCost sz caps c)"
  unfolding checkpointBytesOf_def checkpointCost_def Let_def
  by (intro charges_bind charges_tokens charges_errors charges_bytes)

text \<open>
  Claim C31. \<^verbatim>\<open>RetainedBytes\<close> is an exact admission test: it answers with the total size of the
  revision (source, tokens, errors, epochs and all checkpoint storage) when that is within the
  limit, and refuses exactly when it is not, although it checks after every part.
\<close>

theorem retained_bytes_exact:
  assumes "0 < sizeToken sz" "0 < sizeString sz" "0 < sizeLineEpoch sz" "0 < sizeCheckpoint sz"
  shows "RetainedBytes sz caps limit s =
    (if int (retainedCost sz caps s) \<le> limit then Some (int (retainedCost sz caps s)) else None)"
proof -
  have "charges limit (\<lambda>used. addBytes limit (sizeSourceTokens sz) used \<bind> (\<lambda>used. addBytes limit (length (st_filename s)) used \<bind>
      (\<lambda>used. addBytes limit (capSource caps (st_source s)) used \<bind> (\<lambda>used. addItems limit (capLineEpochs caps (st_lineEpochs s)) (sizeLineEpoch sz) used \<bind>
      (\<lambda>used. tokenBytes sz caps limit (st_tokens s) used \<bind> (\<lambda>used. errorBytes sz caps limit (st_errors s) used \<bind>
      (\<lambda>used. addItems limit (st_checkpointCap s) (sizeCheckpoint sz) used \<bind> addEach (checkpointBytesOf sz caps limit) (st_checkpoints s))))))))
      (retainedCost sz caps s)" (is "charges limit ?f ?c")
    unfolding retainedCost_def
    by (intro charges_bind charges_tokens charges_errors charges_bytes charges_items charges_each charges_checkpoint assms)
  moreover have "RetainedBytes sz caps limit s = ?f 0" by (simp add: RetainedBytes_def)
  ultimately have "0 \<le> limit \<Longrightarrow> RetainedBytes sz caps limit s = charge limit ?c 0" by (simp add: charges_def)
  then show ?thesis by (cases "0 \<le> limit") (auto simp: charge_def RetainedBytes_def addBytes_def)
qed

definition exactCaps :: Caps where
  "exactCaps = \<lparr>capSource = length, capTokens = length, capErrors = length, capLineEpochs = length, capInts = length,
     capHeaders = length, capContexts = length\<rparr>"

theorem retained_bytes_exact_witness:
  "RetainedBytes goSizes exactCaps 200 (emptySource ''a'' ''x y'') = Some 188 \<and>
   RetainedBytes goSizes exactCaps 100 (emptySource ''a'' ''x y'') = None"
  using retained_bytes_exact [of goSizes exactCaps 200 "emptySource ''a'' ''x y''"]
    retained_bytes_exact [of goSizes exactCaps 100 "emptySource ''a'' ''x y''"]
  by (simp add: goSizes_def exactCaps_def emptySource_def retainedCost_def tokensCost_def errorsCost_def)

subsection \<open>Bisection\<close>

lemma searchBetween_spec:
  assumes "\<And>x y. x \<le> y \<Longrightarrow> y < n \<Longrightarrow> f x \<Longrightarrow> f y" and "i \<le> j" "j \<le> n" "\<forall>x < i. \<not> f x" "\<forall>x. j \<le> x \<and> x < n \<longrightarrow> f x"
  shows "(\<forall>x < searchBetween f i j. \<not> f x) \<and> (\<forall>x. searchBetween f i j \<le> x \<and> x < n \<longrightarrow> f x)"
  using assms
proof (induction f i j rule: searchBetween.induct)
  case (1 f i j)
  let ?h = "(i + j) div 2"
  show ?case
  proof (cases "i < j")
    case True
    have h: "i \<le> ?h" "?h < j" using True by auto
    show ?thesis
    proof (cases "f ?h")
      case fh: True
      have "(\<forall>x < searchBetween f i ?h. \<not> f x) \<and> (\<forall>x. searchBetween f i ?h \<le> x \<and> x < n \<longrightarrow> f x)"
        by (rule 1(2) [OF True refl _ "1.prems"(1)]) (use fh h "1.prems"(1) [of ?h] "1.prems"(3,4) in auto)
      with True fh show ?thesis by (subst (1 2) searchBetween.simps) (simp add: Let_def)
    next
      case nfh: False
      have "(\<forall>x < searchBetween f (?h + 1) j. \<not> f x) \<and> (\<forall>x. searchBetween f (?h + 1) j \<le> x \<and> x < n \<longrightarrow> f x)"
      proof (rule 1(1) [OF True refl nfh "1.prems"(1)])
        have "\<not> f x" if "x \<le> ?h" for x using "1.prems"(1) [OF that] h "1.prems"(3) nfh by auto
        then show "\<forall>x < ?h + 1. \<not> f x" by (simp add: less_Suc_eq_le)
      qed (use h "1.prems"(3,5) in auto)
      with True nfh show ?thesis by (subst (1 2) searchBetween.simps) (simp add: Let_def)
    qed
  next
    case False
    with "1.prems"(2,4,5) show ?thesis by (subst (1 2) searchBetween.simps) auto
  qed
qed

lemma searchBetween_le: "i \<le> j \<Longrightarrow> searchBetween f i j \<le> j"
proof (induction f i j rule: searchBetween.induct)
  case (1 f i j)
  let ?h = "(i + j) div 2"
  show ?case
  proof (cases "i < j")
    case True
    then have "?h < j" "i \<le> ?h" by auto
    then have "\<not> f ?h \<Longrightarrow> searchBetween f (?h + 1) j \<le> j" "f ?h \<Longrightarrow> searchBetween f i ?h \<le> j"
      using 1(1) [OF True refl] 1(2) [OF True refl] by auto
    with True show ?thesis by (subst searchBetween.simps) (simp add: Let_def)
  qed (use "1.prems" in \<open>subst searchBetween.simps, simp\<close>)
qed

lemma sortSearch_spec:
  assumes "\<And>x y. x \<le> y \<Longrightarrow> y < n \<Longrightarrow> f x \<Longrightarrow> f y"
  shows "sortSearch n f \<le> n" "\<And>x. x < sortSearch n f \<Longrightarrow> \<not> f x" "\<And>x. sortSearch n f \<le> x \<Longrightarrow> x < n \<Longrightarrow> f x"
proof -
  have "(\<forall>x < searchBetween f 0 n. \<not> f x) \<and> (\<forall>x. searchBetween f 0 n \<le> x \<and> x < n \<longrightarrow> f x)"
    by (rule searchBetween_spec [where n = n]) (use assms in blast, auto)
  then show "\<And>x. x < sortSearch n f \<Longrightarrow> \<not> f x" "\<And>x. sortSearch n f \<le> x \<Longrightarrow> x < n \<Longrightarrow> f x"
    unfolding sortSearch_def by blast+
  show "sortSearch n f \<le> n" unfolding sortSearch_def by (rule searchBetween_le) simp
qed

lemma sortSearch_takeWhile:
  assumes "sorted (map g xs)"
  shows "sortSearch (length xs) (\<lambda>i. g (xs ! i) > t) = length (takeWhile (\<lambda>x. g x \<le> t) xs)"
proof -
  define s where "s = sortSearch (length xs) (\<lambda>i. g (xs ! i) > t)"
  define w where "w = takeWhile (\<lambda>x. g x \<le> t) xs"
  have mono: "t < g (xs ! j)" if "i \<le> j" "j < length xs" "t < g (xs ! i)" for i j
    using sorted_nth_mono [OF assms, of i j] that by simp
  have spec: "s \<le> length xs" "\<And>x. x < s \<Longrightarrow> \<not> t < g (xs ! x)" "\<And>x. s \<le> x \<Longrightarrow> x < length xs \<Longrightarrow> t < g (xs ! x)"
    using sortSearch_spec [of "length xs" "\<lambda>i. t < g (xs ! i)"] mono unfolding s_def by blast+
  have wl: "length w \<le> length xs" unfolding w_def by (rule length_takeWhile_le)
  have "\<not> s < length w"
  proof
    assume lt: "s < length w"
    then have "g (w ! s) \<le> t" unfolding w_def by (meson nth_mem set_takeWhileD)
    moreover have "w ! s = xs ! s" using lt unfolding w_def by (rule takeWhile_nth)
    moreover have "t < g (xs ! s)" by (rule spec(3)) (use lt wl in simp_all)
    ultimately show False by simp
  qed
  moreover have "\<not> length w < s"
  proof
    assume lt: "length w < s"
    with spec(1) have "\<not> g (xs ! length w) \<le> t" unfolding w_def by (intro nth_length_takeWhile) simp
    with spec(2) [OF lt] show False by simp
  qed
  ultimately show ?thesis unfolding s_def w_def by linarith
qed

lemma epochAt_scan:
  assumes "sorted (map le_token (st_lineEpochs s))"
  shows "epochAt t s = (let before = takeWhile (\<lambda>e. le_token e \<le> t) (st_lineEpochs s) in
    if before = [] then 0 else le_epoch (last before))"
proof -
  let ?w = "takeWhile (\<lambda>e. le_token e \<le> t) (st_lineEpochs s)"
  have "?w \<noteq> [] \<Longrightarrow> last ?w = st_lineEpochs s ! (length ?w - 1)"
    by (simp add: last_conv_nth takeWhile_nth)
  then show ?thesis by (simp add: epochAt_def sortSearch_takeWhile [OF assms] Let_def)
qed

text \<open>
  Claim C33. Line epochs round trip through their run-length form: after \<^verbatim>\<open>noteLineEpoch\<close> records an
  epoch for the next token, the bisection of \<^verbatim>\<open>epochAt\<close> returns that epoch for this token and all
  later ones, and what it returned before for every earlier token, although an unchanged epoch is
  not stored at all.
\<close>

theorem line_epoch_roundtrip:
  assumes "sorted (map le_token (st_lineEpochs s))" "\<forall>e\<in>set (st_lineEpochs s). le_token e < t"
  shows "epochAt t' (noteLineEpoch t epoch s) = (if t \<le> t' then epoch else epochAt t' s)"
proof (cases "t \<le> t'")
  case True
  with assms(2) have w: "takeWhile (\<lambda>e. le_token e \<le> t') (st_lineEpochs s) = st_lineEpochs s" by (auto simp: takeWhile_eq_all_conv)
  have "sorted (map le_token (st_lineEpochs (noteLineEpoch t epoch s)))"
    using assms by (auto simp: noteLineEpoch_def Let_def sorted_append)
  from epochAt_scan [OF this, of t'] True show ?thesis
    using assms(2) by (auto simp: noteLineEpoch_def Let_def takeWhile_append w split: if_splits)
next
  case False
  have "sorted (map le_token (st_lineEpochs (noteLineEpoch t epoch s)))"
    using assms by (auto simp: noteLineEpoch_def Let_def sorted_append)
  from epochAt_scan [OF this, of t'] epochAt_scan [OF assms(1), of t'] False show ?thesis
    by (simp add: noteLineEpoch_def Let_def takeWhile_tail)
qed

theorem line_epoch_roundtrip_witness:
  "epochAt 9 (noteLineEpoch 5 2 (noteLineEpoch 3 1 (emptySource ''a'' ''x y''))) = 2 \<and>
   epochAt 4 (noteLineEpoch 5 2 (noteLineEpoch 3 1 (emptySource ''a'' ''x y''))) = 1"
  using line_epoch_roundtrip [of "noteLineEpoch 3 1 (emptySource ''a'' ''x y'')" 5 9 2]
    line_epoch_roundtrip [of "noteLineEpoch 3 1 (emptySource ''a'' ''x y'')" 5 4 2]
    line_epoch_roundtrip [of "emptySource ''a'' ''x y''" 3 4 1]
  by (simp add: noteLineEpoch_def emptySource_def)

end
