(* ===== verification/IncSession.thy ===== *)
theory IncSession
  imports IncDatabase
begin

text \<open>
  Bounded publication of query inputs: \<^verbatim>\<open>compiler/src/incremental/session.go\<close>. A \<^verbatim>\<open>Session\<close>
  owns a query database and replaces its whole world at each publication: which queries may be
  evaluated, with which reservations, over which inputs. The session gate serialises the
  operations, so each one is a function from a session to a session; waiting for the gate with a
  cancelled context and finding the context cancelled behind it both return its error and change
  nothing. The closures that \<^verbatim>\<open>newDatabase\<close> registers read \<^verbatim>\<open>s.live\<close>, \<^verbatim>\<open>s.inputKeys\<close> and
  \<^verbatim>\<open>s.queryKeys\<close> when they run: \<open>registry\<close> builds them from the session an evaluation starts in.
  Cloned strings are equal strings. Go's \<^verbatim>\<open>int\<close> is \<open>int\<close>: the code guards its products and sums by
  the limits, and lengths of strings and slices in memory are far below the width.
\<close>

subsection \<open>Data\<close>

record Limits =
  lim_Queries :: int
  lim_Inputs :: int
  lim_InputEdges :: int
  lim_Dependencies :: int
  lim_Bytes :: int

definition DefaultLimits :: Limits where
  "DefaultLimits = \<lparr>lim_Queries = 32768, lim_Inputs = 262144, lim_InputEdges = 262144,
     lim_Dependencies = 262144, lim_Bytes = 134217728\<rparr>"

record Publication =
  pub_Key :: Key
  pub_Inputs :: "Change list"
  pub_MaxResultBytes :: int
  pub_MaxDependencies :: int

record sessionQuery =
  sq_resultBytes :: int
  sq_dependencies :: int

record publicationPlan =
  pl_publication :: Publication
  pl_inputs :: "Change list"

text \<open>The ownership index of delta publications (\<^verbatim>\<open>session_delta.go\<close>); a set of keys is the list
  of its members.\<close>

record deltaOwnership =
  own_owned :: "(Key, Key list) gomap"
  own_refs :: "(Key, Key list) gomap"

record SessionStats =
  st_Publications :: nat
  st_Rejected :: nat
  st_Skipped :: nat
  st_Compactions :: nat
  st_RetiredQueries :: nat
  st_Ready :: bool
  st_RetainedQueries :: nat
  st_RetainedInputs :: nat
  st_InputEdges :: int
  st_Dependencies :: int
  st_AccountedBytes :: int
  st_RetirementBytes :: int
  st_DatabaseInputs :: nat
  st_DatabaseQueries :: nat
  st_Queries :: Stats

record Session =
  s_delta :: "deltaOwnership option"
  s_limits :: Limits
  s_evaluators :: "(string, Evaluator) gomap"
  s_db :: Database
  s_live :: "(Key, sessionQuery) gomap"
  s_inputs :: "(Key, Change) gomap"
  s_queryKeys :: "(Key, Key) gomap"
  s_inputKeys :: "(Key, Key) gomap"
  s_epoch :: nat
  s_ready :: bool
  s_bytes :: int
  s_edges :: int
  s_dependencies :: int
  s_debtBytes :: int
  s_debtInputs :: int
  s_totals :: Stats
  s_stats :: SessionStats

text \<open>\<^verbatim>\<open>rev_session\<close> tells the session from nil: a zero \<^verbatim>\<open>Revision\<close> has none.\<close>

record Revision =
  rev_session :: bool
  rev_epoch :: nat

record Published =
  pb_Revision :: Revision
  pb_Skipped :: "Key list"

definition zeroRevision :: Revision where
  "zeroRevision = \<lparr>rev_session = False, rev_epoch = 0\<rparr>"

definition zeroPublished :: Published where
  "zeroPublished = \<lparr>pb_Revision = zeroRevision, pb_Skipped = []\<rparr>"

definition zeroSessionStats :: SessionStats where
  "zeroSessionStats = \<lparr>st_Publications = 0, st_Rejected = 0, st_Skipped = 0, st_Compactions = 0,
     st_RetiredQueries = 0, st_Ready = False, st_RetainedQueries = 0, st_RetainedInputs = 0,
     st_InputEdges = 0, st_Dependencies = 0, st_AccountedBytes = 0, st_RetirementBytes = 0,
     st_DatabaseInputs = 0, st_DatabaseQueries = 0, st_Queries = zeroStats\<rparr>"

definition maxInt :: int where
  "maxInt = 2 ^ 63 - 1"

text \<open>\<^verbatim>\<open>x += n\<close> on a \<^verbatim>\<open>uint64\<close>\<close>

definition uint64_add :: "nat \<Rightarrow> nat \<Rightarrow> nat" where
  "uint64_add x n = (x + n) mod 2 ^ 64"

subsection \<open>Registered evaluators\<close>

text \<open>The size check behind a registered evaluator.\<close>

primrec limitResult :: "int \<Rightarrow> prog \<Rightarrow> prog" where
  "limitResult n (Done r) =
     Done (case r of Inl err \<Rightarrow> Inl err | Inr v \<Rightarrow> if int (length v) > n then Inl ErrResultBudget else Inr v)"
| "limitResult n (InputP key k) = InputP key (\<lambda>ans. limitResult n (k ans))"
| "limitResult n (QueryP key k) = QueryP key (\<lambda>ans. limitResult n (k ans))"
| "limitResult n (ContextP k) = ContextP (\<lambda>ans. limitResult n (k ans))"
| "limitResult n (ConfigP inputKeys queryKeys limit p) = ConfigP inputKeys queryKeys limit (limitResult n p)"

definition guardedEvaluator :: "Session \<Rightarrow> string \<Rightarrow> Evaluator \<Rightarrow> Evaluator" where
  "guardedEvaluator s kind evaluator name =
     (case map_of (s_live s) \<lparr>Kind = kind, Name = name\<rparr> of
        None \<Rightarrow> Done (Inl (ErrUnpublishedQuery None))
      | Some entry \<Rightarrow>
          ConfigP (map_of (s_inputKeys s)) (map_of (s_queryKeys s)) (sq_dependencies entry)
            (limitResult (sq_resultBytes entry) (evaluator name)))"

definition registry :: "Session \<Rightarrow> (string, Evaluator option) gomap" where
  "registry s = map (\<lambda>(kind, evaluator). (kind, Some (guardedEvaluator s kind evaluator))) (s_evaluators s)"

definition newDatabase :: "Session \<Rightarrow> Database" where
  "newDatabase s = New (registry s)"

definition NewSession :: "(string, Evaluator option) gomap \<Rightarrow> Limits \<Rightarrow> error + Session" where
  "NewSession evals limits =
     (if lim_Queries limits \<le> 0 \<or> lim_Inputs limits < 0 \<or> lim_InputEdges limits < 0 \<or>
         lim_Dependencies limits < 0 \<or> lim_Bytes limits \<le> 0 \<or>
         lim_Queries limits > maxInt div 4 \<or> lim_InputEdges limits > maxInt div 4
      then Inl (ErrOther ''invalid incremental session limits'')
      else if list_ex (\<lambda>(kind, evaluator). evaluator = None) evals then Inl (ErrOther ''nil query evaluator'')
      else
        let s = \<lparr>s_delta = None, s_limits = limits,
                 s_evaluators = copyMap (map (\<lambda>(kind, evaluator). (kind, the evaluator)) evals),
                 s_db = New [], s_live = [], s_inputs = [], s_queryKeys = [], s_inputKeys = [],
                 s_epoch = 0, s_ready = False, s_bytes = 0, s_edges = 0, s_dependencies = 0,
                 s_debtBytes = 0, s_debtInputs = 0, s_totals = zeroStats, s_stats = zeroSessionStats\<rparr>
        in Inr (s\<lparr>s_db := newDatabase s\<rparr>))"

subsection \<open>Comparing and costing publications\<close>

definition sameChange :: "Change \<Rightarrow> Change \<Rightarrow> bool" where
  "sameChange a b \<longleftrightarrow> ch_Remove a = ch_Remove b \<and> (ch_Remove a \<or> ch_Value a = ch_Value b)"

text \<open>The inner loop of the small case: the first entry with the key decides.\<close>

fun matchesFirst :: "Change \<Rightarrow> Change list \<Rightarrow> bool" where
  "matchesFirst value [] = False"
| "matchesFirst value (other # others) =
     (if ch_Key value = ch_Key other then sameChange value other else matchesFirst value others)"

definition samePlan :: "publicationPlan \<Rightarrow> publicationPlan \<Rightarrow> bool" where
  "samePlan a b =
     (if pub_MaxResultBytes (pl_publication a) \<noteq> pub_MaxResultBytes (pl_publication b) \<or>
         pub_MaxDependencies (pl_publication a) \<noteq> pub_MaxDependencies (pl_publication b) \<or>
         length (pl_inputs a) \<noteq> length (pl_inputs b) then False
      else if length (pl_inputs a) > 16 then
        let lookup = pendingOf (pl_inputs b)
        in list_all (\<lambda>value. case map_of lookup (ch_Key value) of None \<Rightarrow> False | Some other \<Rightarrow> sameChange value other)
             (pl_inputs a)
      else list_all (\<lambda>value. matchesFirst value (pl_inputs b)) (pl_inputs a))"

definition keyCost :: "Key \<Rightarrow> int" where
  "keyCost k = int (length (Kind k)) + int (length (Name k)) + 128"

definition inputCost :: "Change \<Rightarrow> int" where
  "inputCost c = int (length (Kind (ch_Key c))) + int (length (Name (ch_Key c))) + int (length (ch_Value c)) + 128"

definition sumStats :: "Stats \<Rightarrow> Stats \<Rightarrow> Stats" where
  "sumStats a b = \<lparr>Executed = uint64_add (Executed a) (Executed b), MemoHits = uint64_add (MemoHits a) (MemoHits b),
     Validated = uint64_add (Validated a) (Validated b),
     DependencyChecks = uint64_add (DependencyChecks a) (DependencyChecks b),
     InputReads = uint64_add (InputReads a) (InputReads b)\<rparr>"

subsection \<open>Planning a batch\<close>

text \<open>\<^verbatim>\<open>if change.Remove { change.Value = "" }\<close>\<close>

definition normalChange :: "Change \<Rightarrow> Change" where
  "normalChange change = (if ch_Remove change then change\<lparr>ch_Value := []\<rparr> else change)"

text \<open>The loop over the inputs of one publication. \<open>seen\<close> is the map of keys a publication with
  more than sixteen inputs keeps; the others scan the inputs kept so far.\<close>

fun planInputs ::
  "Change list \<Rightarrow> (Key, bool) gomap option \<Rightarrow> Change list \<Rightarrow> (Key, Change) gomap \<Rightarrow>
     error + (Change list \<times> (Key, Change) gomap)" where
  "planInputs [] seen kept allInputs = Inr (kept, allInputs)"
| "planInputs (raw # changes) seen kept allInputs =
     (let change = normalChange raw; key = ch_Key change in
      if (case map_of allInputs key of None \<Rightarrow> False | Some old \<Rightarrow> \<not> sameChange old change)
      then Inl (ErrOther ''conflicting snapshot input'')
      else
        let duplicate = (case seen of
              Some m \<Rightarrow> map_of m key = Some True
            | None \<Rightarrow> list_ex (\<lambda>previous. ch_Key previous = key) kept);
            seen' = map_option (\<lambda>m. AList.update key True m) seen
        in planInputs changes seen' (if duplicate then kept else kept @ [change])
             (AList.update key change allInputs))"

text \<open>The loop over the publications: the plans by key, and the keys in order of first mention.\<close>

fun planPublications ::
  "Session \<Rightarrow> int \<Rightarrow> Publication list \<Rightarrow> ctx \<Rightarrow> (Key, publicationPlan) gomap \<Rightarrow> (Key, Change) gomap \<Rightarrow>
     Key list \<Rightarrow> int \<Rightarrow> (error + ((Key, publicationPlan) gomap \<times> Key list)) \<times> ctx" where
  "planPublications s workEdges [] c plans allInputs order work = (Inr (plans, order), c)"
| "planPublications s workEdges (p # ps) c plans allInputs order work =
     (case ctxErr c of
        (Some err, c1) \<Rightarrow> (Inl err, c1)
      | (None, c1) \<Rightarrow>
          if map_of (s_evaluators s) (Kind (pub_Key p)) = None then (Inl (ErrOther ''unknown publication kind''), c1)
          else if pub_MaxResultBytes p < 0 \<or> pub_MaxDependencies p < 0 then (Inl (ErrOther ''negative query reservation''), c1)
          else if int (length (pub_Inputs p)) > workEdges - work then (Inl (ErrOther ''publication edge work budget exceeded''), c1)
          else
            (case planInputs (pub_Inputs p) (if length (pub_Inputs p) > 16 then Some [] else None) [] allInputs of
               Inl err \<Rightarrow> (Inl err, c1)
             | Inr (kept, allInputs') \<Rightarrow>
                 let plan = \<lparr>pl_publication = p, pl_inputs = kept\<rparr>;
                     work' = work + int (length (pub_Inputs p))
                 in case map_of plans (pub_Key p) of
                      Some old \<Rightarrow>
                        if \<not> samePlan old plan then (Inl (ErrOther ''conflicting query publication''), c1)
                        else planPublications s workEdges ps c1 plans allInputs' order work'
                    | None \<Rightarrow>
                        planPublications s workEdges ps c1 (AList.update (pub_Key p) plan plans) allInputs'
                          (order @ [pub_Key p]) work'))"

subsection \<open>Admission\<close>

record admission =
  adm_selected :: "(Key, publicationPlan) gomap"
  adm_inputs :: "(Key, Change) gomap"
  adm_bytes :: int
  adm_edges :: int
  adm_dependencies :: int
  adm_skipped :: "Key list"

definition zeroAdmission :: admission where
  "zeroAdmission = \<lparr>adm_selected = [], adm_inputs = [], adm_bytes = 0, adm_edges = 0,
     adm_dependencies = 0, adm_skipped = []\<rparr>"

text \<open>The closure \<^verbatim>\<open>add\<close>: the running cost and whether everything fitted.\<close>

definition addCost :: "int \<Rightarrow> int \<Rightarrow> int \<times> bool \<Rightarrow> int \<times> bool" where
  "addCost limit n acc =
     (case acc of (cost, fits) \<Rightarrow> if n < 0 \<or> n > limit - cost then (cost, False) else (cost + n, fits))"

fun chargeInputs :: "int \<Rightarrow> (Key, Change) gomap \<Rightarrow> Change list \<Rightarrow> int \<Rightarrow> int \<times> bool \<Rightarrow> int \<times> int \<times> bool" where
  "chargeInputs limit selected [] newInputs acc = (newInputs, acc)"
| "chargeInputs limit selected (change # changes) newInputs acc =
     (if map_of selected (ch_Key change) = None
      then chargeInputs limit selected changes (newInputs + 1) (addCost limit (inputCost change) acc)
      else chargeInputs limit selected changes newInputs acc)"

definition planCost :: "Limits \<Rightarrow> (Key, Change) gomap \<Rightarrow> Key \<Rightarrow> publicationPlan \<Rightarrow> int \<times> int \<times> bool" where
  "planCost limits selected key plan =
     (let p = pl_publication plan;
          n = int (length (pl_inputs plan));
          b = lim_Bytes limits;
          reserved = (if pub_MaxDependencies p > b div 96 \<or> n > b div 40 then (0, False)
                      else addCost b (n * 40) (addCost b (pub_MaxDependencies p * 96) (0, True)))
      in chargeInputs b selected (pl_inputs plan) 0
           (addCost b (pub_MaxResultBytes p) (addCost b (keyCost key) reserved)))"

definition zeroPlan :: publicationPlan where
  "zeroPlan = \<lparr>pl_publication = \<lparr>pub_Key = \<lparr>Kind = [], Name = []\<rparr>, pub_Inputs = [],
     pub_MaxResultBytes = 0, pub_MaxDependencies = 0\<rparr>, pl_inputs = []\<rparr>"

definition selectInputs :: "(Key, Change) gomap \<Rightarrow> Change list \<Rightarrow> (Key, Change) gomap" where
  "selectInputs selected changes = foldl (\<lambda>m change. AList.update (ch_Key change) change m) selected changes"

definition admitQuery :: "Limits \<Rightarrow> (Key, publicationPlan) gomap \<Rightarrow> admission \<Rightarrow> Key \<Rightarrow> admission" where
  "admitQuery limits plans adm key =
     (let plan = (case map_of plans key of None \<Rightarrow> zeroPlan | Some plan \<Rightarrow> plan);
          p = pl_publication plan;
          n = int (length (pl_inputs plan))
      in case planCost limits (adm_inputs adm) key plan of (newInputs, cost, fits) \<Rightarrow>
        if \<not> fits \<or> int (length (adm_selected adm)) \<ge> lim_Queries limits \<or>
           newInputs > lim_Inputs limits - int (length (adm_inputs adm)) \<or>
           n > lim_InputEdges limits - adm_edges adm \<or>
           pub_MaxDependencies p > lim_Dependencies limits - adm_dependencies adm \<or>
           cost > lim_Bytes limits - adm_bytes adm
        then adm\<lparr>adm_skipped := adm_skipped adm @ [key]\<rparr>
        else adm\<lparr>adm_selected := AList.update key plan (adm_selected adm),
                 adm_inputs := selectInputs (adm_inputs adm) (pl_inputs plan),
                 adm_bytes := adm_bytes adm + cost, adm_edges := adm_edges adm + n,
                 adm_dependencies := adm_dependencies adm + pub_MaxDependencies p\<rparr>)"

definition admitPass ::
  "Session \<Rightarrow> (Key, publicationPlan) gomap \<Rightarrow> Key list \<Rightarrow> admission \<Rightarrow> bool \<Rightarrow> admission" where
  "admitPass s plans order adm retained =
     foldl (\<lambda>adm key. if (map_of (s_live s) key \<noteq> None) \<noteq> retained then adm
                      else admitQuery (s_limits s) plans adm key) adm order"

definition admitAll :: "Session \<Rightarrow> (Key, publicationPlan) gomap \<Rightarrow> Key list \<Rightarrow> admission" where
  "admitAll s plans order = foldl (admitPass s plans order) zeroAdmission [True, False]"

subsection \<open>Installing a world\<close>

text \<open>The key storage and the value storage that are already live are reused.\<close>

definition canonicalChange :: "(Key, Key) gomap \<Rightarrow> (Key, Change) gomap \<Rightarrow> Key \<Rightarrow> Change \<Rightarrow> Change" where
  "canonicalChange keys old raw change =
     (let key = (case map_of keys raw of None \<Rightarrow> raw | Some key \<Rightarrow> key);
          change' = change\<lparr>ch_Key := key\<rparr>
      in case map_of old raw of
           None \<Rightarrow> change'
         | Some previous \<Rightarrow> if sameChange previous change' then change'\<lparr>ch_Value := ch_Value previous\<rparr> else change')"

definition installInputs :: "Session \<Rightarrow> (Key, Change) gomap \<Rightarrow> (Key, Change) gomap \<times> (Key, Key) gomap" where
  "installInputs s selected =
     foldl (\<lambda>(changes, keys) (raw, change).
        let change' = canonicalChange (s_inputKeys s) (s_inputs s) raw change; key = ch_Key change'
        in (AList.update key change' changes, AList.update key key keys)) ([], []) selected"

definition installQueries :: "Session \<Rightarrow> (Key, publicationPlan) gomap \<Rightarrow> (Key, sessionQuery) gomap \<times> (Key, Key) gomap" where
  "installQueries s selected =
     foldl (\<lambda>(live, keys) (raw, plan).
        let key = (case map_of (s_queryKeys s) raw of None \<Rightarrow> raw | Some key \<Rightarrow> key);
            entry = \<lparr>sq_resultBytes = pub_MaxResultBytes (pl_publication plan),
                     sq_dependencies = pub_MaxDependencies (pl_publication plan)\<rparr>
        in (AList.update key entry live, AList.update key key keys)) ([], []) selected"

text \<open>The loop over the old live queries: evictions, and the debt of the retired ones.\<close>

definition retireQuery :: "(Key, sessionQuery) gomap \<Rightarrow> Session \<Rightarrow> Key \<times> sessionQuery \<Rightarrow> Session" where
  "retireQuery live s kq = (case kq of (key, old) \<Rightarrow>
     let s1 = (if map_of live key \<noteq> Some old then s\<lparr>s_db := snd (EvictQuery (s_db s) key)\<rparr> else s)
     in if map_of live key = None
        then s1\<lparr>s_stats := (s_stats s1)\<lparr>st_RetiredQueries := uint64_inc (st_RetiredQueries (s_stats s1))\<rparr>,
                s_debtBytes := s_debtBytes s1 + keyCost key\<rparr>
        else s1)"

definition retiredKeys :: "(Key, Change) gomap \<Rightarrow> (Key, Change) gomap \<Rightarrow> Key list" where
  "retiredKeys old new = filter (\<lambda>key. map_of new key = None) (map fst old)"

definition compactSession :: "Session \<Rightarrow> Session" where
  "compactSession s = s\<lparr>s_totals := sumStats (s_totals s) (stats (s_db s)), s_db := newDatabase s,
     s_debtBytes := 0, s_debtInputs := 0\<rparr>"

definition countCompaction :: "Session \<Rightarrow> Session" where
  "countCompaction s = s\<lparr>s_stats := (s_stats s)\<lparr>st_Compactions := uint64_inc (st_Compactions (s_stats s))\<rparr>\<rparr>"

definition installWorld :: "Session \<Rightarrow> admission \<Rightarrow> Session" where
  "installWorld s adm =
     (case installInputs s (adm_inputs adm) of (newInputs, inputKeys) \<Rightarrow>
      case installQueries s (adm_selected adm) of (live, queryKeys) \<Rightarrow>
      let retired = retiredKeys (s_inputs s) newInputs;
          s1 = s\<lparr>s_debtBytes := s_debtBytes s + sum_list (map keyCost retired),
                 s_debtInputs := s_debtInputs s + int (length retired)\<rparr>;
          s2 = foldl (retireQuery live) s1 (s_live s);
          s3 = s2\<lparr>s_delta := None, s_live := live, s_inputs := newInputs, s_inputKeys := inputKeys,
                  s_queryKeys := queryKeys, s_bytes := adm_bytes adm, s_edges := adm_edges adm,
                  s_dependencies := adm_dependencies adm\<rparr>;
          s4 = (if s_debtBytes s3 > lim_Bytes (s_limits s3) \<or> s_debtInputs s3 > lim_Inputs (s_limits s3)
                then countCompaction (compactSession s3)
                else s3\<lparr>s_db := RetireInputs (s_db s3) retired\<rparr>)
      in s4\<lparr>s_db := snd (applySnapshot (s_db s4) newInputs), s_ready := True,
            s_stats := (s_stats s4)\<lparr>st_Skipped := uint64_add (st_Skipped (s_stats s4)) (length (adm_skipped adm))\<rparr>\<rparr>)"

subsection \<open>Publication and evaluation\<close>

text \<open>The session while it prepares a world: a new epoch, and no revision is served.\<close>

definition beginPublication :: "Session \<Rightarrow> Session" where
  "beginPublication s = s\<lparr>s_epoch := uint64_inc (s_epoch s), s_ready := False,
     s_stats := (s_stats s)\<lparr>st_Publications := uint64_inc (st_Publications (s_stats s))\<rparr>\<rparr>"

definition rejectPublication :: "Session \<Rightarrow> Session" where
  "rejectPublication s = s\<lparr>s_stats := (s_stats s)\<lparr>st_Rejected := uint64_inc (st_Rejected (s_stats s))\<rparr>\<rparr>"

definition workQueries :: "Limits \<Rightarrow> int" where
  "workQueries limits = max 1024 (lim_Queries limits * 4)"

definition workEdges :: "Limits \<Rightarrow> int" where
  "workEdges limits = max 4096 (lim_InputEdges limits * 4)"

text \<open>Everything behind the callback that can fail: the skipped keys, and the admitted world.\<close>

definition prepareWorld ::
  "Session \<Rightarrow> ctx \<Rightarrow> Publication list \<Rightarrow> Key list \<times> (error + admission) \<times> ctx" where
  "prepareWorld s c publications =
     (if int (length publications) > workQueries (s_limits s)
      then ([], Inl (ErrOther ''publication work budget exceeded''), c)
      else case planPublications s (workEdges (s_limits s)) publications c [] [] [] 0 of
        (Inl err, c1) \<Rightarrow> ([], Inl err, c1)
      | (Inr (plans, order), c1) \<Rightarrow>
          let adm = admitAll s plans order in
          (case ctxErr c1 of
             (Some err, c2) \<Rightarrow> (adm_skipped adm, Inl err, c2)
           | (None, c2) \<Rightarrow> (adm_skipped adm, Inr adm, c2)))"

text \<open>\<open>prepare\<close> is what the callback returns, \<open>None\<close> when it is nil. The callback does not use the
  session.\<close>

definition PublishPrepared ::
  "Session \<Rightarrow> ctx \<Rightarrow> (error + Publication list) option \<Rightarrow> (Published \<times> error option) \<times> Session \<times> ctx" where
  "PublishPrepared s c prepare =
     (case ctxErr c of
        (Some err, c1) \<Rightarrow> ((zeroPublished, Some err), s, c1)
      | (None, c1) \<Rightarrow>
          let s1 = beginPublication s in
          (case prepare of
             None \<Rightarrow> ((zeroPublished, Some (ErrOther ''nil publication preparation'')), rejectPublication s1, c1)
           | Some (Inl err) \<Rightarrow> ((zeroPublished, Some err), rejectPublication s1, c1)
           | Some (Inr publications) \<Rightarrow>
               (case prepareWorld s1 c1 publications of
                  (skipped, Inl err, c2) \<Rightarrow>
                    ((zeroPublished\<lparr>pb_Skipped := skipped\<rparr>, Some err), rejectPublication s1, c2)
                | (skipped, Inr adm, c2) \<Rightarrow>
                    ((\<lparr>pb_Revision = \<lparr>rev_session = True, rev_epoch = s_epoch s1\<rparr>, pb_Skipped = skipped\<rparr>, None),
                     installWorld s1 adm, c2))))"

definition Publish :: "Session \<Rightarrow> ctx \<Rightarrow> Publication list \<Rightarrow> (Published \<times> error option) \<times> Session \<times> ctx" where
  "Publish s c publications = PublishPrepared s c (Some (Inr publications))"

definition RevisionEvaluate ::
  "nat \<Rightarrow> Revision \<Rightarrow> Session \<Rightarrow> ctx \<Rightarrow> Key \<Rightarrow> ((error + string) \<times> Session \<times> ctx) option" where
  "RevisionEvaluate fuel r s c key =
     (if \<not> rev_session r then Some (Inl ErrStaleRevision, s, c)
      else case ctxErr c of
        (Some err, c1) \<Rightarrow> Some (Inl err, s, c1)
      | (None, c1) \<Rightarrow>
          if \<not> s_ready s \<or> rev_epoch r \<noteq> s_epoch s then Some (Inl ErrStaleRevision, s, c1)
          else case map_of (s_queryKeys s) key of
            None \<Rightarrow> Some (Inl (ErrUnpublishedQuery None), s, c1)
          | Some canonical \<Rightarrow>
              (case Evaluate fuel ((s_db s)\<lparr>evaluators := registry s\<rparr>) c1 canonical of
                 None \<Rightarrow> None
               | Some (ans, db, c2) \<Rightarrow> Some (ans, s\<lparr>s_db := db\<rparr>, c2)))"

definition SessionStatsOf :: "Session \<Rightarrow> SessionStats" where
  "SessionStatsOf s =
     (s_stats s)\<lparr>st_Ready := s_ready s, st_RetainedQueries := length (s_live s),
       st_RetainedInputs := length (s_inputs s), st_InputEdges := s_edges s,
       st_Dependencies := s_dependencies s, st_AccountedBytes := s_bytes s,
       st_RetirementBytes := s_debtBytes s, st_DatabaseInputs := fst (EntryCounts (s_db s)),
       st_DatabaseQueries := snd (EntryCounts (s_db s)),
       st_Queries := sumStats (s_totals s) (stats (s_db s))\<rparr>"

end
