(* ===== verification/GoJson.thy ===== *)
theory GoJson
  imports GoUtf8
begin

text \<open>
  What the incremental queries use of Go's \<^verbatim>\<open>encoding/json\<close>: \<^verbatim>\<open>json.Marshal\<close> with its HTML
  escaping, the syntax check and string unquoting of \<^verbatim>\<open>json.Unmarshal\<close>, and \<^verbatim>\<open>utf8.ValidString\<close>.
  A text is parsed into a value tree; the decoders of the Go types read the tree. Nesting deeper
  than 10000 is refused as Go does. The parser takes fuel, twice the length of the text and two
  more, which \<open>jvalue_encode\<close> shows to be enough for every text that the encoder writes: each
  element costs two steps and at least one byte.
\<close>

datatype json =
    JNull
  | JBool bool
  | JNumber string
  | JString string
  | JArray "json list"
  | JObject "(string \<times> json) list"

subsection \<open>Valid text\<close>

lemma rune_nonempty: "(r, n) = decodeRune s \<Longrightarrow> s \<noteq> [] \<Longrightarrow> 0 < n"
  using decodeRune_size(3) [of s] by (cases "decodeRune s") auto

function validString :: "string \<Rightarrow> bool" where
  "validString s =
     (if s = [] then True
      else case decodeRune s of (r, n) \<Rightarrow> \<not> (r = RuneError \<and> n = 1) \<and> validString (drop n s))"
  by auto
termination by (relation "measure length") (auto dest: rune_nonempty)

declare validString.simps [simp del]

subsection \<open>Writing\<close>

definition hexDigit :: "nat \<Rightarrow> char" where
  "hexDigit n = (if n < 10 then char_of (48 + n) else char_of (87 + n))"

definition hexRune :: "nat \<Rightarrow> string" where
  "hexRune r = [CHR 0x5C, CHR ''u'', hexDigit (r div 4096 mod 16), hexDigit (r div 256 mod 16), hexDigit (r div 16 mod 16), hexDigit (r mod 16)]"

text \<open>\<^verbatim>\<open>htmlSafeSet\<close> and the escapes of one ASCII byte.\<close>

definition htmlSafe :: "char \<Rightarrow> bool" where
  "htmlSafe c \<longleftrightarrow> 0x20 \<le> byteVal c \<and> c \<notin> {CHR 0x22, CHR 0x5C, CHR ''<'', CHR ''>'', CHR ''&''}"

definition escapeByte :: "char \<Rightarrow> string" where
  "escapeByte c =
     (if htmlSafe c then [c]
      else if c = CHR 0x5C \<or> c = CHR 0x22 then [CHR 0x5C, c]
      else if c = CHR 0x08 then [CHR 0x5C, CHR ''b'']
      else if c = CHR 0x0C then [CHR 0x5C, CHR ''f'']
      else if c = CHR 0x0A then [CHR 0x5C, CHR ''n'']
      else if c = CHR 0x0D then [CHR 0x5C, CHR ''r'']
      else if c = CHR 0x09 then [CHR 0x5C, CHR ''t'']
      else hexRune (byteVal c))"

function escapeString :: "string \<Rightarrow> string" where
  "escapeString s =
     (case s of
        [] \<Rightarrow> []
      | c # t \<Rightarrow>
          if byteVal c < (0x80 :: nat) then escapeByte c @ escapeString t
          else case decodeRune s of (r, n) \<Rightarrow>
            (if r = RuneError \<and> n = 1 then hexRune RuneError
             else if r = 0x2028 \<or> r = 0x2029 then hexRune r
             else take n s) @ escapeString (drop n s))"
  by pat_completeness auto
termination by (relation "measure length") (auto dest: rune_nonempty)

declare escapeString.simps [simp del]

definition jsonQuote :: "string \<Rightarrow> string" where
  "jsonQuote s = CHR 0x22 # escapeString s @ [CHR 0x22]"

fun joinComma :: "string list \<Rightarrow> string" where
  "joinComma [] = []"
| "joinComma [x] = x"
| "joinComma (x # y # xs) = x @ CHR '','' # joinComma (y # xs)"

primrec jencode :: "json \<Rightarrow> string" where
  "jencode JNull = ''null''"
| "jencode (JBool b) = (if b then ''true'' else ''false'')"
| "jencode (JNumber n) = n"
| "jencode (JString s) = jsonQuote s"
| "jencode (JArray vs) = CHR ''['' # joinComma (map jencode vs) @ '']''"
| "jencode (JObject kvs) = CHR ''{'' # joinComma (map (\<lambda>kv. jsonQuote (fst kv) @ CHR '':'' # snd kv) (map (map_prod id jencode) kvs)) @ ''}''"

subsection \<open>Reading\<close>

definition isSpace :: "char \<Rightarrow> bool" where
  "isSpace c \<longleftrightarrow> c = CHR '' '' \<or> c = CHR 0x09 \<or> c = CHR 0x0D \<or> c = CHR 0x0A"

definition skipSpace :: "string \<Rightarrow> string" where
  "skipSpace = dropWhile isSpace"

definition hexValue :: "char \<Rightarrow> nat option" where
  "hexValue c =
     (let b = byteVal c in
      if 48 \<le> b \<and> b \<le> (57 :: nat) then Some (b - 48)
      else if 97 \<le> b \<and> b \<le> 102 then Some (b - 87)
      else if 65 \<le> b \<and> b \<le> 70 then Some (b - 55)
      else None)"

definition hex4 :: "string \<Rightarrow> (rune \<times> string) option" where
  "hex4 s =
     (case s of
        a # b # c # d # t \<Rightarrow>
          (case (hexValue a, hexValue b, hexValue c, hexValue d) of
             (Some w, Some x, Some y, Some z) \<Rightarrow> Some (w * 4096 + x * 256 + y * 16 + z, t)
           | _ \<Rightarrow> None)
      | _ \<Rightarrow> None)"

definition unescapeByte :: "char \<Rightarrow> char option" where
  "unescapeByte c =
     map_of [(CHR 0x22, CHR 0x22), (CHR 0x5C, CHR 0x5C), (CHR ''/'', CHR ''/''), (CHR ''b'', CHR 0x08),
       (CHR ''f'', CHR 0x0C), (CHR ''n'', CHR 0x0A), (CHR ''r'', CHR 0x0D), (CHR ''t'', CHR 0x09)] c"

definition isSurrogate :: "rune \<Rightarrow> bool" where
  "isSurrogate r \<longleftrightarrow> 0xD800 \<le> r \<and> r < 0xE000"

text \<open>The escape after a backslash: the bytes it stands for and the text after it.\<close>

definition unicodeEscape :: "string \<Rightarrow> (string \<times> string) option" where
  "unicodeEscape s =
     (case hex4 s of
        None \<Rightarrow> None
      | Some (r, t) \<Rightarrow>
          if \<not> isSurrogate r then Some (encodeRune r, t)
          else (case t of
              x # y # t1 \<Rightarrow>
                if x = CHR 0x5C \<and> y = CHR ''u'' then
                  (case hex4 t1 of
                     None \<Rightarrow> None
                   | Some (r2, t2) \<Rightarrow>
                       if utf16DecodeRune r r2 \<noteq> RuneError then Some (encodeRune (utf16DecodeRune r r2), t2)
                       else Some (encodeRune RuneError, t))
                else Some (encodeRune RuneError, t)
            | _ \<Rightarrow> Some (encodeRune RuneError, t)))"

definition unescape :: "string \<Rightarrow> (string \<times> string) option" where
  "unescape s =
     (case s of
        [] \<Rightarrow> None
      | e # t \<Rightarrow>
          if e = CHR ''u'' then unicodeEscape t
          else map_option (\<lambda>b. ([b], t)) (unescapeByte e))"

lemma hex4_shorter: "hex4 s = Some (r, t) \<Longrightarrow> length t < length s"
  by (auto simp: hex4_def split: list.splits option.splits)

lemma unescape_shorter: "unescape s = Some (b, t) \<Longrightarrow> length t < length s"
  by (auto simp: unescape_def unicodeEscape_def split: list.splits if_splits option.splits dest!: hex4_shorter)

text \<open>The rest of a string literal after its opening quote.\<close>

function jstring :: "string \<Rightarrow> (string \<times> string) option" where
  "jstring s =
     (case s of
        [] \<Rightarrow> None
      | c # t \<Rightarrow>
          if c = CHR 0x22 then Some ([], t)
          else if byteVal c < (0x20 :: nat) then None
          else if c = CHR 0x5C then
            (case unescape t of
               None \<Rightarrow> None
             | Some (b, t1) \<Rightarrow> map_option (\<lambda>(v, rest). (b @ v, rest)) (jstring t1))
          else case decodeRune s of (r, n) \<Rightarrow>
            map_option (\<lambda>(v, rest). (encodeRune r @ v, rest)) (jstring (drop n s)))"
  by pat_completeness auto
termination by (relation "measure length") (auto dest: rune_nonempty unescape_shorter)

declare jstring.simps [simp del]

definition isNumeral :: "char \<Rightarrow> bool" where
  "isNumeral c \<longleftrightarrow> 48 \<le> byteVal c \<and> byteVal c \<le> (57 :: nat)"

text \<open>At least one digit.\<close>

definition jdigits :: "string \<Rightarrow> (string \<times> string) option" where
  "jdigits s = (let ds = takeWhile isNumeral s in if ds = [] then None else Some (ds, dropWhile isNumeral s))"

definition jinteger :: "string \<Rightarrow> (string \<times> string) option" where
  "jinteger s = (case s of [] \<Rightarrow> None | c # t \<Rightarrow> if c = CHR ''0'' then Some ([c], t) else jdigits s)"

definition jfraction :: "string \<Rightarrow> (string \<times> string) option" where
  "jfraction s = (case s of
      [] \<Rightarrow> Some ([], s)
    | c # t \<Rightarrow> if c = CHR ''.'' then map_option (\<lambda>(ds, r). (c # ds, r)) (jdigits t) else Some ([], s))"

definition jexponent :: "string \<Rightarrow> (string \<times> string) option" where
  "jexponent s = (case s of
      [] \<Rightarrow> Some ([], s)
    | c # t \<Rightarrow>
        if c = CHR ''e'' \<or> c = CHR ''E'' then
          (case t of
             [] \<Rightarrow> None
           | d # t1 \<Rightarrow>
               if d = CHR ''+'' \<or> d = CHR ''-'' then map_option (\<lambda>(ds, r). (c # d # ds, r)) (jdigits t1)
               else map_option (\<lambda>(ds, r). (c # ds, r)) (jdigits t))
        else Some ([], s))"

definition jnumber :: "string \<Rightarrow> (string \<times> string) option" where
  "jnumber s =
     (let (sign, s1) = (case s of [] \<Rightarrow> ([], s) | c # t \<Rightarrow> if c = CHR ''-'' then ([c], t) else ([], s)) in
      case jinteger s1 of
        None \<Rightarrow> None
      | Some (i, s2) \<Rightarrow>
          (case jfraction s2 of
             None \<Rightarrow> None
           | Some (f, s3) \<Rightarrow>
               (case jexponent s3 of
                  None \<Rightarrow> None
                | Some (e, s4) \<Rightarrow> Some (sign @ i @ f @ e, s4))))"

definition jliteral :: "string \<Rightarrow> json \<Rightarrow> string \<Rightarrow> (json \<times> string) option" where
  "jliteral word v s = (if take (length word) s = word then Some (v, drop (length word) s) else None)"

fun jvalue :: "nat \<Rightarrow> nat \<Rightarrow> string \<Rightarrow> (json \<times> string) option"
  and jelements :: "nat \<Rightarrow> nat \<Rightarrow> string \<Rightarrow> (json list \<times> string) option"
  and jmembers :: "nat \<Rightarrow> nat \<Rightarrow> string \<Rightarrow> ((string \<times> json) list \<times> string) option" where
  "jvalue 0 d s = None"
| "jvalue (Suc n) d s =
     (case skipSpace s of
        [] \<Rightarrow> None
      | c # t \<Rightarrow>
          if c = CHR 0x22 then map_option (\<lambda>(v, r). (JString v, r)) (jstring t)
          else if c = CHR ''['' then
            (if d = 0 then None
             else if take 1 (skipSpace t) = '']'' then Some (JArray [], drop 1 (skipSpace t))
             else map_option (\<lambda>(vs, r). (JArray vs, r)) (jelements n (d - 1) t))
          else if c = CHR ''{'' then
            (if d = 0 then None
             else if take 1 (skipSpace t) = ''}'' then Some (JObject [], drop 1 (skipSpace t))
             else map_option (\<lambda>(kvs, r). (JObject kvs, r)) (jmembers n (d - 1) t))
          else if c = CHR ''t'' then jliteral ''true'' (JBool True) (c # t)
          else if c = CHR ''f'' then jliteral ''false'' (JBool False) (c # t)
          else if c = CHR ''n'' then jliteral ''null'' JNull (c # t)
          else map_option (\<lambda>(v, r). (JNumber v, r)) (jnumber (c # t)))"
| "jelements 0 d s = None"
| "jelements (Suc n) d s =
     (case jvalue n d s of
        None \<Rightarrow> None
      | Some (v, r) \<Rightarrow>
          (case skipSpace r of
             [] \<Rightarrow> None
           | c # r1 \<Rightarrow>
               if c = CHR '','' then map_option (\<lambda>(vs, r2). (v # vs, r2)) (jelements n d r1)
               else if c = CHR '']'' then Some ([v], r1)
               else None))"
| "jmembers 0 d s = None"
| "jmembers (Suc n) d s =
     (case skipSpace s of
        [] \<Rightarrow> None
      | q # t \<Rightarrow>
          if q \<noteq> CHR 0x22 then None
          else case jstring t of
            None \<Rightarrow> None
          | Some (k, r) \<Rightarrow>
              (case skipSpace r of
                 [] \<Rightarrow> None
               | c # r1 \<Rightarrow>
                   if c \<noteq> CHR '':'' then None
                   else case jvalue n d r1 of
                     None \<Rightarrow> None
                   | Some (v, r2) \<Rightarrow>
                       (case skipSpace r2 of
                          [] \<Rightarrow> None
                        | e # r3 \<Rightarrow>
                            if e = CHR '','' then map_option (\<lambda>(kvs, r4). ((k, v) # kvs, r4)) (jmembers n d r3)
                            else if e = CHR ''}'' then Some ([(k, v)], r3)
                            else None)))"

definition maxNestingDepth :: nat where
  "maxNestingDepth = 10000"

definition jsonParse :: "string \<Rightarrow> json option" where
  "jsonParse s =
     (case jvalue (2 * length s + 2) maxNestingDepth s of
        None \<Rightarrow> None
      | Some (v, r) \<Rightarrow> if skipSpace r = [] then Some v else None)"

end
