(* ===== verification/IncScc.thy ===== *)
theory IncScc
  imports IncSession GoJson "HOL-Library.Char_ord" "HOL-Library.List_Lexorder"
begin

text \<open>
  The strongly connected component queries of \<^verbatim>\<open>compiler/src/incremental/scc.go\<close> and
  \<^verbatim>\<open>scc_component.go\<close>: publication of a dependency graph as database inputs, the query that reads
  it back and answers a plan (components, their dependencies, a dependency-first order), and the
  query that projects one node's component out of a plan.

  A Go string is a list of bytes, ordered byte by byte. The evaluators are programs over the
  reader. A stack keeps its top at the head of the list, the heap of \<^verbatim>\<open>container/heap\<close> is the sorted
  list of its elements, an index out of range is the error \<open>IndexOutOfRange\<close>. A decoded slice is
  \<open>None\<close> when it is nil. An object that repeats a field is decoded from its last occurrence.
\<close>

definition SCCQueryKind :: string where
  "SCCQueryKind = ''dependency-scc-plan-v1''"

definition SCCComponentQueryKind :: string where
  "SCCComponentQueryKind = ''dependency-scc-component-v1''"

definition sccMaxNodes :: nat where "sccMaxNodes = 4096"
definition sccMaxEdges :: nat where "sccMaxEdges = 65536"
definition sccMaxBytes :: nat where "sccMaxBytes = 16777216"
definition sccComponentMaxBytes :: nat where "sccComponentMaxBytes = 65536"

record SCCPlan =
  Components :: "string list list"
  Dependencies :: "nat list list"
  Order :: "nat list"

definition jsonStrings :: "string list \<Rightarrow> json" where
  "jsonStrings names = JArray (map JString names)"

definition sccInventory :: "string \<Rightarrow> Key" where
  "sccInventory graph = \<lparr>Kind = ''scc-node-inventory-v1'', Name = graph\<rparr>"

definition sccEdges :: "string \<Rightarrow> string \<Rightarrow> Key" where
  "sccEdges graph node = \<lparr>Kind = ''scc-node-edges-v1'', Name = jencode (jsonStrings [graph, node])\<rparr>"

definition validSCCIdentity :: "string \<Rightarrow> bool" where
  "validSCCIdentity value \<longleftrightarrow> value \<noteq> [] \<and> validString value \<and> length value \<le> 65536"

subsection \<open>Decoding\<close>

text \<open>\<^verbatim>\<open>json.Unmarshal\<close> into a string, a slice and a pair of strings: a null leaves the zero value.\<close>

definition unmarshalString :: "json \<Rightarrow> string option" where
  "unmarshalString v = (case v of JString s \<Rightarrow> Some s | JNull \<Rightarrow> Some [] | _ \<Rightarrow> None)"

fun collectOptions :: "'a option list \<Rightarrow> 'a list option" where
  "collectOptions [] = Some []"
| "collectOptions (x # xs) = (case x of None \<Rightarrow> None | Some y \<Rightarrow> map_option (\<lambda>ys. y # ys) (collectOptions xs))"

definition unmarshalSlice :: "(json \<Rightarrow> 'a option) \<Rightarrow> json \<Rightarrow> 'a list option option" where
  "unmarshalSlice f v = (case v of JNull \<Rightarrow> Some None | JArray vs \<Rightarrow> map_option Some (collectOptions (map f vs)) | _ \<Rightarrow> None)"

definition unmarshalPair :: "json \<Rightarrow> (string \<times> string) option" where
  "unmarshalPair v =
     (case v of
        JNull \<Rightarrow> Some ([], [])
      | JArray vs \<Rightarrow>
          (case collectOptions (map unmarshalString (take 2 vs)) of
             None \<Rightarrow> None
           | Some [] \<Rightarrow> Some ([], [])
           | Some [a] \<Rightarrow> Some (a, [])
           | Some (a # b # _) \<Rightarrow> Some (a, b))
      | _ \<Rightarrow> None)"

text \<open>\<^verbatim>\<open>strconv.ParseInt\<close> of a JSON number into a 64-bit integer.\<close>

definition parseInt64 :: "string \<Rightarrow> int option" where
  "parseInt64 s =
     (let neg = take 1 s = ''-'';
          ds = (if neg then drop 1 s else s);
          value = foldl (\<lambda>n c. n * 10 + (int (byteVal c) - 48)) 0 ds;
          signed = (if neg then - value else value)
      in if ds = [] \<or> \<not> list_all isNumeral ds then None
         else if signed < - 9223372036854775808 \<or> signed > 9223372036854775807 then None
         else Some signed)"

definition unmarshalInt :: "json \<Rightarrow> int option" where
  "unmarshalInt v = (case v of JNumber n \<Rightarrow> parseInt64 n | JNull \<Rightarrow> Some 0 | _ \<Rightarrow> None)"

definition errJson :: error where
  "errJson = ErrOther ''json''"

definition strictlySorted :: "string list \<Rightarrow> bool" where
  "strictlySorted names \<longleftrightarrow> list_all (\<lambda>i. \<not> names ! (i - 1) \<ge> names ! i) [1..<length names]"

definition decodeSCCNames :: "string \<Rightarrow> error + string list" where
  "decodeSCCNames encoded =
     (if length encoded > sccMaxBytes \<or> \<not> validString encoded then Inl (ErrOther ''SCC input byte budget exceeded'')
      else case Option.bind (jsonParse encoded) (unmarshalSlice unmarshalString) of
        None \<Rightarrow> Inl errJson
      | Some None \<Rightarrow> Inl (ErrOther ''invalid SCC node list'')
      | Some (Some names) \<Rightarrow>
          if length names > sccMaxNodes then Inl (ErrOther ''invalid SCC node list'')
          else if \<not> list_all validSCCIdentity names \<or> \<not> strictlySorted names
          then Inl (ErrOther ''noncanonical SCC node identities'')
          else if jencode (jsonStrings names) \<noteq> encoded then Inl (ErrOther ''noncanonical SCC input'')
          else Inr names)"

subsection \<open>Publication\<close>

fun compactSCCNames :: "string list \<Rightarrow> string list \<Rightarrow> string list" where
  "compactSCCNames out [] = out"
| "compactSCCNames out (name # names) =
     compactSCCNames (if out = [] \<or> last out \<noteq> name then out @ [name] else out) names"

text \<open>The first loop of \<^verbatim>\<open>SCCPublication\<close>: budgets, before anything is encoded.\<close>

definition nodeCost :: "string \<Rightarrow> string \<Rightarrow> string list \<Rightarrow> nat" where
  "nodeCost graph node targets = 256 + 6 * length graph + 12 * length node + (\<Sum>t\<leftarrow>targets. 16 + 6 * length t)"

fun preflightSCC :: "string \<Rightarrow> (string, string list) gomap \<Rightarrow> (string \<times> string list) list \<Rightarrow> nat \<Rightarrow> nat \<Rightarrow> error option" where
  "preflightSCC graph adjacency [] rawEdges preflight = None"
| "preflightSCC graph adjacency ((node, targets) # rest) rawEdges preflight =
     (if \<not> validSCCIdentity node \<or> length targets > sccMaxEdges then Some (ErrOther ''invalid SCC source'')
      else if rawEdges + length targets > sccMaxEdges then Some (ErrOther ''SCC source edge budget exceeded'')
      else if list_ex (\<lambda>t. map_of adjacency t = None) targets then Some (ErrOther ''SCC target absent from current inventory'')
      else if int (nodeCost graph node targets) > int sccMaxBytes - int preflight then Some (ErrOther ''SCC source byte budget exceeded'')
      else preflightSCC graph adjacency rest (rawEdges + length targets) (preflight + nodeCost graph node targets))"

fun publishEdges ::
  "string \<Rightarrow> (string, string list) gomap \<Rightarrow> string list \<Rightarrow> nat \<Rightarrow> nat \<Rightarrow> Change list \<Rightarrow> error + Change list" where
  "publishEdges graph adjacency [] edges bytes changes = Inr changes"
| "publishEdges graph adjacency (node # nodes) edges bytes changes =
     (let targets = compactSCCNames [] (sort (case map_of adjacency node of None \<Rightarrow> [] | Some ts \<Rightarrow> ts)) in
      if list_ex (\<lambda>t. map_of adjacency t = None) targets then Inl (ErrOther ''SCC target absent from current inventory'')
      else if edges + length targets > sccMaxEdges then Inl (ErrOther ''SCC edge budget exceeded'')
      else
        let value = jencode (jsonStrings targets) in
        if bytes + length value > sccMaxBytes then Inl (ErrOther ''SCC graph byte budget exceeded'')
        else publishEdges graph adjacency nodes (edges + length targets) (bytes + length value)
               (changes @ [\<lparr>ch_Key = sccEdges graph node, ch_Value = value, ch_Remove = False\<rparr>]))"

definition SCCPublication :: "string \<Rightarrow> (string, string list) gomap \<Rightarrow> error + Publication" where
  "SCCPublication graph adjacency =
     (if \<not> validSCCIdentity graph \<or> length adjacency > sccMaxNodes then Inl (ErrOther ''SCC identity/node budget exceeded'')
      else case preflightSCC graph adjacency adjacency 0 128 of
        Some err \<Rightarrow> Inl err
      | None \<Rightarrow>
          if \<not> list_all validSCCIdentity (map fst adjacency) then Inl (ErrOther ''invalid SCC node identity'')
          else
            let names = sort (map fst adjacency);
                encoded = jencode (jsonStrings names)
            in case publishEdges graph adjacency names 0 (length encoded)
                      [\<lparr>ch_Key = sccInventory graph, ch_Value = encoded, ch_Remove = False\<rparr>] of
                 Inl err \<Rightarrow> Inl err
               | Inr changes \<Rightarrow>
                   let maximum = length encoded + 512 * length names + 24 * min sccMaxEdges (length names * length names) + 128 in
                   if maximum > sccMaxBytes then Inl (ErrOther ''SCC output reservation budget exceeded'')
                   else Inr \<lparr>pub_Key = \<lparr>Kind = SCCQueryKind, Name = graph\<rparr>, pub_Inputs = changes,
                             pub_MaxResultBytes = int maximum, pub_MaxDependencies = int (length changes)\<rparr>)"

subsection \<open>Reading the graph\<close>

type_synonym graph = "nat list list"

definition sccIds :: "string list \<Rightarrow> string \<rightharpoonup> nat" where
  "sccIds names = map_of (rev (zip names [0..<length names]))"

fun linkTargets :: "(string \<rightharpoonup> nat) \<Rightarrow> nat \<Rightarrow> string list \<Rightarrow> graph \<Rightarrow> graph \<Rightarrow> (graph \<times> graph) option" where
  "linkTargets ids i [] edges reverse = Some (edges, reverse)"
| "linkTargets ids i (target # targets) edges reverse =
     (case ids target of
        None \<Rightarrow> None
      | Some j \<Rightarrow> linkTargets ids i targets (edges[i := edges ! i @ [j]]) (reverse[j := reverse ! j @ [i]]))"

fun readAdjacency ::
  "string \<Rightarrow> (string \<rightharpoonup> nat) \<Rightarrow> (nat \<times> string) list \<Rightarrow> graph \<Rightarrow> graph \<Rightarrow> nat \<Rightarrow> nat \<Rightarrow> (graph \<Rightarrow> graph \<Rightarrow> prog) \<Rightarrow> prog" where
  "readAdjacency graph ids [] edges reverse edgeCount bytes k = k edges reverse"
| "readAdjacency graph ids ((i, name) # rest) edges reverse edgeCount bytes k =
     ContextP (\<lambda>err. case err of
        Some e \<Rightarrow> Done (Inl e)
      | None \<Rightarrow>
          InputP (sccEdges graph name) (\<lambda>(value, present).
            if \<not> present then Done (Inl (ErrOther ''SCC adjacency unavailable''))
            else if bytes + length value > sccMaxBytes then Done (Inl (ErrOther ''SCC graph byte budget exceeded''))
            else case decodeSCCNames value of
              Inl e \<Rightarrow> Done (Inl e)
            | Inr targets \<Rightarrow>
                if edgeCount + length targets > sccMaxEdges then Done (Inl (ErrOther ''SCC edge budget exceeded''))
                else case linkTargets ids i targets edges reverse of
                  None \<Rightarrow> Done (Inl (ErrOther ''SCC target unavailable''))
                | Some (edges', reverse') \<Rightarrow>
                    readAdjacency graph ids rest edges' reverse' (edgeCount + length targets) (bytes + length value) k))"

subsection \<open>Iterative Kosaraju\<close>

definition unvisited :: "bool list \<Rightarrow> nat" where
  "unvisited visited = length (filter Not visited)"

lemma unvisited_mark: "c < length visited \<Longrightarrow> \<not> visited ! c \<Longrightarrow> Suc (unvisited (visited[c := True])) = unvisited visited"
proof (induction visited arbitrary: c)
  case (Cons v vs)
  then show ?case by (cases c) (auto simp: unvisited_def)
qed simp

lemma unvisited_less: "\<not> length visited \<le> c \<Longrightarrow> \<not> visited ! c \<Longrightarrow> unvisited (visited[c := True]) < unvisited visited"
  using unvisited_mark [of c visited] by simp

text \<open>One visit of the stack; \<open>(node, next)\<close> is a \<^verbatim>\<open>sccVisit\<close>.\<close>

function dfsLoop :: "graph \<Rightarrow> bool list \<Rightarrow> nat list \<Rightarrow> (nat \<times> nat) list \<Rightarrow> (bool list \<Rightarrow> nat list \<Rightarrow> prog) \<Rightarrow> prog" where
  "dfsLoop edges visited post [] k = k visited post"
| "dfsLoop edges visited post ((node, nxt) # stack) k =
     ContextP (\<lambda>err. case err of
        Some e \<Rightarrow> Done (Inl e)
      | None \<Rightarrow>
          if node \<ge> length edges then Done (Inl IndexOutOfRange)
          else if nxt < length (edges ! node) then
            (let child = edges ! node ! nxt in
             if child \<ge> length visited then Done (Inl IndexOutOfRange)
             else if \<not> visited ! child
             then dfsLoop edges (visited[child := True]) post ((child, 0) # (node, nxt + 1) # stack) k
             else dfsLoop edges visited post ((node, nxt + 1) # stack) k)
          else dfsLoop edges visited (post @ [node]) stack k)"
  by pat_completeness auto
termination
  by (relation "measures [\<lambda>(edges, visited, post, stack, k). unvisited visited,
        \<lambda>(edges, visited, post, stack, k). \<Sum>(node, nxt)\<leftarrow>stack. Suc (length (edges ! node) - nxt)]")
     (auto simp: unvisited_less)

fun dfsRoots :: "graph \<Rightarrow> bool list \<Rightarrow> nat list \<Rightarrow> nat list \<Rightarrow> (nat list \<Rightarrow> prog) \<Rightarrow> prog" where
  "dfsRoots edges visited post [] k = k post"
| "dfsRoots edges visited post (root # roots) k =
     (if visited ! root then dfsRoots edges visited post roots k
      else dfsLoop edges (visited[root := True]) post [(root, 0)] (\<lambda>visited post. dfsRoots edges visited post roots k))"

fun pushChildren :: "nat list \<Rightarrow> bool list \<Rightarrow> nat list \<Rightarrow> (bool list \<times> nat list) option" where
  "pushChildren [] visited stack = Some (visited, stack)"
| "pushChildren (child # children) visited stack =
     (if child \<ge> length visited then None
      else if \<not> visited ! child then pushChildren children (visited[child := True]) (child # stack)
      else pushChildren children visited stack)"

lemma pushChildren_measure:
  "pushChildren children visited stack = Some (visited', stack') \<Longrightarrow>
     2 * unvisited visited' + length stack' \<le> 2 * unvisited visited + length stack"
proof (induction children visited stack rule: pushChildren.induct)
  case (2 child children visited stack)
  then show ?case using unvisited_mark [of child visited] by (auto split: if_splits)
qed simp

function collectMembers :: "string list \<Rightarrow> graph \<Rightarrow> bool list \<Rightarrow> nat list \<Rightarrow> string list \<Rightarrow> (string list \<times> bool list) option" where
  "collectMembers names reverse visited [] members = Some (members, visited)"
| "collectMembers names reverse visited (node # stack) members =
     (if node \<ge> length names \<or> node \<ge> length reverse then None
      else case pushChildren (reverse ! node) visited stack of
        None \<Rightarrow> None
      | Some (visited', stack') \<Rightarrow> collectMembers names reverse visited' stack' (members @ [names ! node]))"
  by pat_completeness auto
termination
  by (relation "measure (\<lambda>(names, reverse, visited, stack, members). 2 * unvisited visited + length stack)")
     (auto dest!: pushChildren_measure)

fun gatherComponents :: "string list \<Rightarrow> graph \<Rightarrow> bool list \<Rightarrow> nat list \<Rightarrow> string list list \<Rightarrow> string list list option" where
  "gatherComponents names reverse visited [] components = Some components"
| "gatherComponents names reverse visited (root # roots) components =
     (if visited ! root then gatherComponents names reverse visited roots components
      else case collectMembers names reverse (visited[root := True]) [root] [] of
        None \<Rightarrow> None
      | Some (members, visited') \<Rightarrow> gatherComponents names reverse visited' roots (components @ [sort members]))"

subsection \<open>The condensation and its order\<close>

definition idOf :: "(string \<rightharpoonup> nat) \<Rightarrow> string \<Rightarrow> nat" where
  "idOf ids name = (case ids name of None \<Rightarrow> 0 | Some j \<Rightarrow> j)"

definition componentOfNodes :: "(string \<rightharpoonup> nat) \<Rightarrow> nat \<Rightarrow> string list list \<Rightarrow> nat list" where
  "componentOfNodes ids n components =
     foldl (\<lambda>co (i, members). foldl (\<lambda>co name. co[idOf ids name := i]) co members)
       (replicate n 0) (enumerate 0 components)"

definition componentDeps :: "(string \<rightharpoonup> nat) \<Rightarrow> graph \<Rightarrow> nat list \<Rightarrow> nat \<Rightarrow> string list \<Rightarrow> nat list" where
  "componentDeps ids edges componentOf component members =
     sort (remdups (filter (\<lambda>d. d \<noteq> component)
       (concat (map (\<lambda>name. map (\<lambda>target. componentOf ! target) (edges ! idOf ids name)) members))))"

definition componentUsers :: "nat list list \<Rightarrow> nat list list" where
  "componentUsers deps =
     foldl (\<lambda>users (component, ds). foldl (\<lambda>users d. users[d := users ! d @ [component]]) users ds)
       (replicate (length deps) []) (enumerate 0 deps)"

fun releaseUsers :: "nat list \<Rightarrow> int list \<Rightarrow> nat list \<Rightarrow> (int list \<times> nat list) option" where
  "releaseUsers [] remaining ready = Some (remaining, ready)"
| "releaseUsers (user # users) remaining ready =
     (if user \<ge> length remaining then None
      else
        let remaining = remaining[user := remaining ! user - 1] in
        releaseUsers users remaining (if remaining ! user = 0 then insort user ready else ready))"

definition pendingWork :: "int list \<Rightarrow> nat" where
  "pendingWork remaining = (\<Sum>r\<leftarrow>remaining. nat r)"

lemma pendingWork_step:
  "user < length remaining \<Longrightarrow> pendingWork (remaining[user := remaining ! user - 1]) \<le> pendingWork remaining \<and>
   (remaining ! user = 1 \<longrightarrow> Suc (pendingWork (remaining[user := remaining ! user - 1])) = pendingWork remaining)"
proof (induction remaining arbitrary: user)
  case (Cons r rs)
  then show ?case by (cases user) (auto simp: pendingWork_def)
qed simp

lemma releaseUsers_measure:
  "releaseUsers users remaining ready = Some (remaining', ready') \<Longrightarrow>
     pendingWork remaining' + length ready' \<le> pendingWork remaining + length ready"
proof (induction users remaining ready rule: releaseUsers.induct)
  case (2 user users remaining ready)
  show ?case
  proof (cases "user < length remaining")
    case True
    with 2 pendingWork_step [OF True] show ?thesis by (force simp: Let_def split: if_splits)
  qed (use 2 in simp)
qed simp

function orderLoop :: "nat list list \<Rightarrow> int list \<Rightarrow> nat list \<Rightarrow> nat list \<Rightarrow> nat list option" where
  "orderLoop users remaining [] order = Some order"
| "orderLoop users remaining (component # ready) order =
     (if component \<ge> length users then None
      else case releaseUsers (users ! component) remaining ready of
        None \<Rightarrow> None
      | Some (remaining', ready') \<Rightarrow> orderLoop users remaining' ready' (order @ [component]))"
  by pat_completeness auto
termination
  by (relation "measure (\<lambda>(users, remaining, ready, order). pendingWork remaining + length ready)")
     (auto dest!: releaseUsers_measure)

definition jsonInts :: "nat list \<Rightarrow> json" where
  "jsonInts ns = JArray (map (\<lambda>n. JNumber (decimal n)) ns)"

definition planJson :: "SCCPlan \<Rightarrow> json" where
  "planJson plan = JObject [(''Components'', JArray (map jsonStrings (Components plan))),
     (''Dependencies'', JArray (map jsonInts (Dependencies plan))), (''Order'', jsonInts (Order plan))]"

text \<open>From the components to the plan, and from the finished search to the components.\<close>

definition planComponents :: "(string \<rightharpoonup> nat) \<Rightarrow> graph \<Rightarrow> string list list \<Rightarrow> error + SCCPlan" where
  "planComponents ids edges unsorted =
     (let components = sort_key hd unsorted;
          componentOf = componentOfNodes ids (length edges) components;
          deps = map (\<lambda>(i, members). componentDeps ids edges componentOf i members) (enumerate 0 components);
          users = componentUsers deps;
          remaining = map (\<lambda>ds. int (length ds)) deps;
          ready = foldl (\<lambda>ready i. if remaining ! i = 0 then insort i ready else ready) [] [0..<length remaining]
      in case orderLoop users remaining ready [] of
           None \<Rightarrow> Inl IndexOutOfRange
         | Some order \<Rightarrow>
             if length order \<noteq> length components then Inl (ErrOther ''invalid SCC condensation cycle'')
             else Inr \<lparr>Components = components, Dependencies = deps, Order = order\<rparr>)"

definition finishSCC :: "string list \<Rightarrow> (string \<rightharpoonup> nat) \<Rightarrow> graph \<Rightarrow> graph \<Rightarrow> nat list \<Rightarrow> error + SCCPlan" where
  "finishSCC names ids edges reverse post =
     (case gatherComponents names reverse (replicate (length names) False) (rev post) [] of
        None \<Rightarrow> Inl IndexOutOfRange
      | Some components \<Rightarrow> planComponents ids edges components)"

definition encodePlan :: "error + SCCPlan \<Rightarrow> error + string" where
  "encodePlan r =
     (case r of
        Inl err \<Rightarrow> Inl err
      | Inr plan \<Rightarrow>
          let output = jencode (planJson plan) in
          if length output > sccMaxBytes then Inl (ErrOther ''SCC product budget exceeded'') else Inr output)"

definition evaluateSCC :: Evaluator where
  "evaluateSCC graph =
     (if \<not> validSCCIdentity graph then Done (Inl (ErrOther ''invalid SCC graph identity''))
      else InputP (sccInventory graph) (\<lambda>(encoded, present).
        if \<not> present then Done (Inl (ErrOther ''SCC graph unavailable''))
        else case decodeSCCNames encoded of
          Inl err \<Rightarrow> Done (Inl err)
        | Inr names \<Rightarrow>
            let ids = sccIds names; n = length names in
            readAdjacency graph ids (enumerate 0 names) (replicate n []) (replicate n []) 0 (length encoded)
              (\<lambda>edges reverse. dfsRoots edges (replicate n False) [] [0..<n]
                (\<lambda>post. Done (encodePlan (finishSCC names ids edges reverse post))))))"

subsection \<open>The projection of one component\<close>

text \<open>Field names match without regard to case, as \<^verbatim>\<open>encoding/json\<close> folds them: besides the ASCII
  letters, the long s and the Kelvin sign fold to ASCII.\<close>

fun foldName :: "string \<Rightarrow> string" where
  "foldName (a # b # s) =
     (if a = CHR 0xC5 \<and> b = CHR 0xBF then CHR ''S'' # foldName s
      else if a = CHR 0xE2 \<and> b = CHR 0x84 \<and> take 1 s = [CHR 0xAA] then CHR ''K'' # foldName (drop 1 s)
      else (if 97 \<le> byteVal a \<and> byteVal a \<le> (122 :: nat) then char_of (byteVal a - 32 :: nat) else a) # foldName (b # s))"
| "foldName [a] = [if 97 \<le> byteVal a \<and> byteVal a \<le> (122 :: nat) then char_of (byteVal a - 32 :: nat) else a]"
| "foldName [] = []"

definition fieldOf :: "string \<Rightarrow> (string \<times> json) list \<Rightarrow> json option" where
  "fieldOf field kvs = map_of (rev (map (\<lambda>(k, v). (foldName k, v)) kvs)) (foldName field)"

record decodedPlan =
  dp_Components :: "string list option list option"
  dp_Dependencies :: "int list option list option"
  dp_Order :: "int list option"

definition unmarshalField :: "(json \<Rightarrow> 'a option option) \<Rightarrow> json option \<Rightarrow> 'a option option" where
  "unmarshalField f v = (case v of None \<Rightarrow> Some None | Some x \<Rightarrow> f x)"

definition unmarshalPlan :: "json \<Rightarrow> decodedPlan option" where
  "unmarshalPlan v =
     (case v of
        JNull \<Rightarrow> Some \<lparr>dp_Components = None, dp_Dependencies = None, dp_Order = None\<rparr>
      | JObject kvs \<Rightarrow>
          (case (unmarshalField (unmarshalSlice (unmarshalSlice unmarshalString)) (fieldOf ''Components'' kvs),
                 unmarshalField (unmarshalSlice (unmarshalSlice unmarshalInt)) (fieldOf ''Dependencies'' kvs),
                 unmarshalField (unmarshalSlice unmarshalInt) (fieldOf ''Order'' kvs)) of
             (Some c, Some d, Some ord) \<Rightarrow> Some \<lparr>dp_Components = c, dp_Dependencies = d, dp_Order = ord\<rparr>
           | _ \<Rightarrow> None)
      | _ \<Rightarrow> None)"

definition elems :: "'a list option \<Rightarrow> 'a list" where
  "elems slice = (case slice of None \<Rightarrow> [] | Some xs \<Rightarrow> xs)"

definition jsonSlice :: "string list option \<Rightarrow> json" where
  "jsonSlice slice = (case slice of None \<Rightarrow> JNull | Some xs \<Rightarrow> jsonStrings xs)"

definition dependencySlices :: "string list option list \<Rightarrow> int list \<Rightarrow> string list option list option" where
  "dependencySlices components deps =
     (if list_ex (\<lambda>d. d < 0 \<or> d \<ge> int (length components)) deps then None
      else Some (map (\<lambda>d. components ! nat d) deps))"

definition projectPlan :: "decodedPlan \<Rightarrow> string \<Rightarrow> error + string" where
  "projectPlan plan node =
     (let components = elems (dp_Components plan); dependencies = elems (dp_Dependencies plan) in
      case find (\<lambda>(i, members). node \<in> set (elems members)) (enumerate 0 components) of
        None \<Rightarrow> Inl (ErrOther ''SCC node unavailable'')
      | Some (i, members) \<Rightarrow>
          if i \<ge> length dependencies then Inl (ErrOther ''invalid SCC dependencies'')
          else case dependencySlices components (elems (dependencies ! i)) of
            None \<Rightarrow> Inl (ErrOther ''invalid SCC dependency'')
          | Some deps \<Rightarrow>
              let output = jencode (JObject [(''Members'', jsonSlice members), (''Dependencies'', JArray (map jsonSlice deps))]) in
              if length output > sccComponentMaxBytes then Inl (ErrOther ''SCC component exceeds budget'')
              else Inr output)"

definition SCCComponentPublication :: "string \<Rightarrow> string \<Rightarrow> error + Publication" where
  "SCCComponentPublication graph node =
     (if \<not> validSCCIdentity graph \<or> \<not> validSCCIdentity node then Inl (ErrOther ''invalid SCC projection identity'')
      else Inr \<lparr>pub_Key = \<lparr>Kind = SCCComponentQueryKind, Name = jencode (jsonStrings [graph, node])\<rparr>, pub_Inputs = [],
             pub_MaxResultBytes = int sccComponentMaxBytes, pub_MaxDependencies = 1\<rparr>)"

definition evaluateSCCComponent :: Evaluator where
  "evaluateSCCComponent name =
     (if length name > 786464 then Done (Inl (ErrOther ''invalid SCC projection key''))
      else case Option.bind (jsonParse name) unmarshalPair of
        None \<Rightarrow> Done (Inl (ErrOther ''invalid SCC projection key''))
      | Some (graph, node) \<Rightarrow>
          if \<not> validSCCIdentity graph \<or> \<not> validSCCIdentity node then Done (Inl (ErrOther ''invalid SCC projection key''))
          else if jencode (jsonStrings [graph, node]) \<noteq> name then Done (Inl (ErrOther ''noncanonical SCC projection key''))
          else QueryP \<lparr>Kind = SCCQueryKind, Name = graph\<rparr> (\<lambda>answer. case answer of
              Inl err \<Rightarrow> Done (Inl err)
            | Inr encoded \<Rightarrow>
                if length encoded > sccMaxBytes then Done (Inl (ErrOther ''SCC plan exceeds budget''))
                else case Option.bind (jsonParse encoded) unmarshalPlan of
                  None \<Rightarrow> Done (Inl errJson)
                | Some plan \<Rightarrow> Done (projectPlan plan node)))"

definition SCCEvaluators :: "(string, Evaluator option) gomap" where
  "SCCEvaluators = [(SCCQueryKind, Some evaluateSCC), (SCCComponentQueryKind, Some evaluateSCCComponent)]"

end
