(* ===== verification/IncSccGraph.thy ===== *)
theory IncSccGraph
  imports IncScc IncReference
begin

text \<open>
  Correctness of the two searches of \<^verbatim>\<open>evaluateSCC\<close>: the iterative depth-first search finishes every
  node in an order in which no strongly connected component is finished before one that it leads
  into (\<open>finishes\<close>), and collecting backwards along the reversed edges in the opposite order
  gives exactly the strongly connected components.
\<close>

subsection \<open>Graphs\<close>

definition arcs :: "graph \<Rightarrow> (nat \<times> nat) set" where
  "arcs edges = {(u, v). u < length edges \<and> v \<in> set (edges ! u)}"

definition closed :: "graph \<Rightarrow> bool" where
  "closed edges \<longleftrightarrow> (\<forall>u < length edges. \<forall>v \<in> set (edges ! u). v < length edges)"

definition sccOf :: "graph \<Rightarrow> nat \<Rightarrow> nat set" where
  "sccOf edges v = {w. (v, w) \<in> (arcs edges)\<^sup>* \<and> (w, v) \<in> (arcs edges)\<^sup>*}"

lemma sccOf_self [simp]: "v \<in> sccOf edges v"
  by (simp add: sccOf_def)

lemma sccOf_eq: "w \<in> sccOf edges v \<Longrightarrow> sccOf edges w = sccOf edges v"
  by (auto simp: sccOf_def intro: rtrancl_trans)

lemma arcs_bound: "(u, v) \<in> (arcs edges)\<^sup>* \<Longrightarrow> closed edges \<Longrightarrow> u < length edges \<Longrightarrow> v < length edges"
  by (induction rule: rtrancl_induct) (auto simp: arcs_def closed_def)

text \<open>A path that leaves a set leaves it along an edge.\<close>

lemma path_exit:
  assumes "(x, y) \<in> E\<^sup>*" "x \<in> B" "y \<notin> B"
  obtains b w where "b \<in> B" "w \<notin> B" "(x, b) \<in> E\<^sup>*" "(b, w) \<in> E"
  using assms by (induction rule: rtrancl_induct) blast+

subsection \<open>The finishing order\<close>

text \<open>Every node that leads to \<open>r\<close> is led to by \<open>r\<close>, or an equivalent of it finishes later.\<close>

definition finishes :: "graph \<Rightarrow> nat list \<Rightarrow> bool" where
  "finishes edges post \<longleftrightarrow> (\<forall>us r vs. post = us @ r # vs \<longrightarrow> (\<forall>x. (x, r) \<in> (arcs edges)\<^sup>* \<longrightarrow>
     (r, x) \<in> (arcs edges)\<^sup>* \<or> (\<exists>x' \<in> sccOf edges x. x' \<notin> insert r (set us))))"

lemma finishes_snoc:
  assumes "finishes edges post"
    and "\<And>x. (x, r) \<in> (arcs edges)\<^sup>* \<Longrightarrow> (r, x) \<in> (arcs edges)\<^sup>* \<or> (\<exists>x' \<in> sccOf edges x. x' \<notin> insert r (set post))"
  shows "finishes edges (post @ [r])"
  unfolding finishes_def
proof (intro allI impI)
  fix us q vs x assume eq: "post @ [r] = us @ q # vs" and x: "(x, q) \<in> (arcs edges)\<^sup>*"
  show "(q, x) \<in> (arcs edges)\<^sup>* \<or> (\<exists>x' \<in> sccOf edges x. x' \<notin> insert q (set us))"
  proof (cases vs rule: rev_cases)
    case Nil
    with eq have "us = post" "q = r" by auto
    with assms(2) x show ?thesis by blast
  next
    case (snoc ws w)
    with eq have "post = us @ q # ws" by auto
    with assms(1) x show ?thesis unfolding finishes_def by blast
  qed
qed

text \<open>
  The state of the search: \<open>post\<close> holds the finished nodes, \<open>gs\<close> the nodes on the stack, the
  latest first.
\<close>

definition searching :: "graph \<Rightarrow> bool list \<Rightarrow> nat list \<Rightarrow> nat list \<Rightarrow> bool" where
  "searching edges visited post gs \<longleftrightarrow>
     length visited = length edges \<and> distinct (post @ gs) \<and>
     set (post @ gs) = {i. i < length edges \<and> visited ! i} \<and>
     sorted_wrt (\<lambda>g h. (h, g) \<in> (arcs edges)\<^sup>*) gs \<and>
     (\<forall>b \<in> set post. \<forall>v \<in> set (edges ! b). visited ! v) \<and>
     (\<forall>x \<in> set post. \<forall>y. (x, y) \<in> (arcs edges)\<^sup>* \<longrightarrow> y \<notin> set post \<longrightarrow> (\<exists>g \<in> set gs. g \<in> sccOf edges x)) \<and>
     finishes edges post"

lemma searching_push:
  assumes s: "searching edges visited post gs" and c: "c < length edges" "\<not> visited ! c"
    and path: "\<forall>g \<in> set gs. (g, c) \<in> (arcs edges)\<^sup>*"
  shows "searching edges (visited[c := True]) post (c # gs)"
proof -
  have v: "length visited = length edges" "set (post @ gs) = {i. i < length edges \<and> visited ! i}" "distinct (post @ gs)"
    using s by (simp_all add: searching_def)
  have new: "c \<notin> set post" "c \<notin> set gs" using v c by (auto simp: set_eq_iff)
  have "insert c (set (post @ gs)) = {i. i < length edges \<and> visited[c := True] ! i}"
    using v(1) c unfolding v(2) by (auto simp: nth_list_update)
  moreover have "\<forall>b \<in> set post. \<forall>v \<in> set (edges ! b). visited[c := True] ! v"
    using s v(1) c by (auto simp: searching_def nth_list_update)
  moreover have "\<forall>x \<in> set post. \<forall>y. (x, y) \<in> (arcs edges)\<^sup>* \<longrightarrow> y \<notin> set post \<longrightarrow> (\<exists>g \<in> set (c # gs). g \<in> sccOf edges x)"
    using s unfolding searching_def by (metis list.set_intros(2))
  ultimately show ?thesis using s v path new by (auto simp: searching_def)
qed

lemma searching_pop:
  assumes cl: "closed edges" and s: "searching edges visited post (g # gs)" and succ: "\<forall>v \<in> set (edges ! g). visited ! v"
  shows "searching edges visited (post @ [g]) gs"
proof -
  let ?E = "arcs edges"
  have v: "length visited = length edges" "set (post @ g # gs) = {i. i < length edges \<and> visited ! i}" "distinct (post @ g # gs)"
    and below: "\<forall>h \<in> set gs. (h, g) \<in> ?E\<^sup>*" "sorted_wrt (\<lambda>g h. (h, g) \<in> ?E\<^sup>*) gs"
    and fini: "\<forall>b \<in> set post. \<forall>v \<in> set (edges ! b). visited ! v"
    and retn: "\<And>x y. x \<in> set post \<Longrightarrow> (x, y) \<in> ?E\<^sup>* \<Longrightarrow> y \<notin> set post \<Longrightarrow> \<exists>h \<in> set (g # gs). h \<in> sccOf edges x"
    and fin: "finishes edges post"
    using s by (auto simp: searching_def)
  let ?B = "insert g (set post)"
  have leave: "\<exists>h \<in> set gs. h \<in> sccOf edges g" if "(g, y) \<in> ?E\<^sup>*" "y \<notin> ?B" for y
  proof -
    from path_exit [OF that(1) insertI1 that(2)] obtain b w where
      w: "b \<in> ?B" "w \<notin> ?B" "(g, b) \<in> ?E\<^sup>*" "(b, w) \<in> ?E" .
    then have "visited ! w" "w < length edges" using fini succ cl by (auto simp: arcs_def closed_def)
    with w v(2) have "w \<in> set gs" by (auto simp: set_eq_iff)
    moreover from w have "(g, w) \<in> ?E\<^sup>*" by (meson rtrancl.rtrancl_into_rtrancl)
    ultimately show ?thesis using below by (auto simp: sccOf_def)
  qed
  have retn': "\<exists>h \<in> set gs. h \<in> sccOf edges x" if x: "x \<in> ?B" "(x, y) \<in> ?E\<^sup>*" "y \<notin> ?B" for x y
  proof (cases "x = g")
    case True
    with leave x show ?thesis by blast
  next
    case False
    with retn x obtain h where h: "h \<in> set (g # gs)" "h \<in> sccOf edges x" by blast
    show ?thesis
    proof (cases "h = g")
      case True
      with h have "(g, y) \<in> ?E\<^sup>*" "sccOf edges g = sccOf edges x" using x sccOf_eq by (auto simp: sccOf_def intro: rtrancl_trans)
      with leave x show ?thesis by metis
    qed (use h in auto)
  qed
  have "finishes edges (post @ [g])"
  proof (rule finishes_snoc [OF fin])
    fix x assume x: "(x, g) \<in> ?E\<^sup>*"
    show "(g, x) \<in> ?E\<^sup>* \<or> (\<exists>x' \<in> sccOf edges x. x' \<notin> insert g (set post))"
    proof (cases "x \<in> set post")
      case True
      from retn [OF True x] v(3) obtain h where h: "h \<in> set (g # gs)" "h \<in> sccOf edges x" by auto
      show ?thesis
      proof (cases "h = g")
        case True
        with h show ?thesis by (simp add: sccOf_def)
      next
        case False
        with h v(3) have "h \<notin> insert g (set post)" by auto
        with h show ?thesis by blast
      qed
    next
      case False
      then show ?thesis using sccOf_self [of x edges] by (cases "x = g") auto
    qed
  qed
  with v below fini succ retn' show ?thesis by (auto simp: searching_def)
qed

subsection \<open>The search loop\<close>

definition advanced :: "graph \<Rightarrow> bool list \<Rightarrow> (nat \<times> nat) list \<Rightarrow> bool" where
  "advanced edges visited stack \<longleftrightarrow> (\<forall>(g, nxt) \<in> set stack. \<forall>i < nxt. i < length (edges ! g) \<longrightarrow> visited ! (edges ! g ! i))"

lemma advanced_mark: "advanced edges visited stack \<Longrightarrow> advanced edges (visited[c := True]) stack"
  by (cases "c < length visited") (auto simp: advanced_def nth_list_update list_update_beyond)

definition runsTo :: "prog \<Rightarrow> prog \<Rightarrow> bool" where
  "runsTo p p' \<longleftrightarrow> (\<forall>env q rd. specRun p env q rd = specRun p' env q rd)"

lemma runsTo_refl [simp]: "runsTo p p"
  by (simp add: runsTo_def)

lemma runsTo_ContextP: "runsTo (k None) p \<Longrightarrow> runsTo (ContextP k) p"
  by (simp add: runsTo_def)

lemma runsTo_trans: "runsTo p q \<Longrightarrow> runsTo q r \<Longrightarrow> runsTo p r"
  by (simp add: runsTo_def)

declare dfsLoop.simps(2) [simp del]

text \<open>The three ways a round of the loop goes on, when its indices are in range.\<close>

lemma dfsLoop_round:
  assumes "node < length edges"
  shows "nxt < length (edges ! node) \<Longrightarrow> edges ! node ! nxt < length visited \<Longrightarrow> \<not> visited ! (edges ! node ! nxt) \<Longrightarrow>
      runsTo (dfsLoop edges visited post ((node, nxt) # stack) k)
        (dfsLoop edges (visited[edges ! node ! nxt := True]) post ((edges ! node ! nxt, 0) # (node, nxt + 1) # stack) k)"
    "nxt < length (edges ! node) \<Longrightarrow> edges ! node ! nxt < length visited \<Longrightarrow> visited ! (edges ! node ! nxt) \<Longrightarrow>
      runsTo (dfsLoop edges visited post ((node, nxt) # stack) k) (dfsLoop edges visited post ((node, nxt + 1) # stack) k)"
    "\<not> nxt < length (edges ! node) \<Longrightarrow>
      runsTo (dfsLoop edges visited post ((node, nxt) # stack) k) (dfsLoop edges visited (post @ [node]) stack k)"
  using assms by (subst dfsLoop.simps; simp add: runsTo_def Let_def)+

lemma dfsLoop_runs:
  assumes "closed edges" "searching edges visited post (map fst stack)" "advanced edges visited stack"
  shows "\<exists>visited' post'. searching edges visited' post' [] \<and> (\<forall>i. visited ! i \<longrightarrow> visited' ! i) \<and>
    runsTo (dfsLoop edges visited post stack k) (k visited' post')"
  using assms
proof (induction edges visited post stack k rule: dfsLoop.induct)
  case (1 edges visited post k)
  then show ?case by (intro exI [of _ visited] exI [of _ post]) auto
next
  case (2 edges visited post node nxt stack k)
  let ?child = "edges ! node ! nxt"
  have v: "length visited = length edges" "node < length edges"
    using "2.prems"(2) by (auto simp: searching_def set_eq_iff)
  then have node: "\<not> length edges \<le> node" by simp
  show ?case
  proof (cases "nxt < length (edges ! node)")
    case True
    then have mem: "?child \<in> set (edges ! node)" by simp
    with "2.prems"(1) v have c: "?child < length edges" by (auto simp: closed_def)
    then have c': "\<not> length visited \<le> ?child" using v by simp
    show ?thesis
    proof (cases "visited ! ?child")
      case False
      let ?V = "visited[?child := True]" and ?S = "(?child, 0) # (node, nxt + 1) # stack"
      have arc: "(node, ?child) \<in> arcs edges" using v mem by (simp add: arcs_def)
      have "\<forall>g \<in> set (map fst ((node, nxt) # stack)). (g, ?child) \<in> (arcs edges)\<^sup>*"
        using "2.prems"(2) arc by (auto simp: searching_def intro: rtrancl_into_rtrancl)
      from searching_push [OF "2.prems"(2) c False this] have s: "searching edges ?V post (map fst ?S)" by simp
      have a: "advanced edges ?V ?S"
        using advanced_mark [OF "2.prems"(3), of ?child] c' by (auto simp: advanced_def less_Suc_eq)
      from "2.IH"(1) [OF node True refl c' False "2.prems"(1) s a] obtain visited' post' where
        r: "searching edges visited' post' []" "\<forall>i. ?V ! i \<longrightarrow> visited' ! i" "runsTo (dfsLoop edges ?V post ?S k) (k visited' post')" by blast
      have "\<forall>i. visited ! i \<longrightarrow> visited' ! i" using r(2) by (metis c' nth_list_update_eq nth_list_update_neq not_le)
      moreover have "runsTo (dfsLoop edges visited post ((node, nxt) # stack) k) (k visited' post')"
        by (rule runsTo_trans [OF dfsLoop_round(1) r(3)]) (use v True c' False in simp_all)
      ultimately show ?thesis using r(1) by blast
    next
      case seen: True
      let ?S = "(node, nxt + 1) # stack"
      have s: "searching edges visited post (map fst ?S)" using "2.prems"(2) by simp
      have a: "advanced edges visited ?S" using "2.prems"(3) seen by (auto simp: advanced_def less_Suc_eq)
      from "2.IH"(2) [OF node True refl c' _ "2.prems"(1) s a] seen obtain visited' post' where
        r: "searching edges visited' post' []" "\<forall>i. visited ! i \<longrightarrow> visited' ! i" "runsTo (dfsLoop edges visited post ?S k) (k visited' post')" by blast
      have "runsTo (dfsLoop edges visited post ((node, nxt) # stack) k) (k visited' post')"
        by (rule runsTo_trans [OF dfsLoop_round(2) r(3)]) (use v True c' seen in simp_all)
      with r show ?thesis by blast
    qed
  next
    case False
    have "\<forall>v \<in> set (edges ! node). visited ! v"
      using "2.prems"(3) False by (auto simp: advanced_def in_set_conv_nth)
    with searching_pop [OF "2.prems"(1), of visited post node "map fst stack"] "2.prems"(2)
    have s: "searching edges visited (post @ [node]) (map fst stack)" by simp
    have a: "advanced edges visited stack" using "2.prems"(3) by (auto simp: advanced_def)
    from "2.IH"(3) [OF node False "2.prems"(1) s a] obtain visited' post' where
      r: "searching edges visited' post' []" "\<forall>i. visited ! i \<longrightarrow> visited' ! i"
         "runsTo (dfsLoop edges visited (post @ [node]) stack k) (k visited' post')" by blast
    have "runsTo (dfsLoop edges visited post ((node, nxt) # stack) k) (k visited' post')"
      by (rule runsTo_trans [OF dfsLoop_round(3) r(3)]) (use v False in simp_all)
    with r show ?thesis by blast
  qed
qed

lemma dfsRoots_runs:
  assumes "closed edges" "searching edges visited post []" "\<forall>r \<in> set roots. r < length edges"
  shows "\<exists>visited' post'. searching edges visited' post' [] \<and> (\<forall>i. visited ! i \<longrightarrow> visited' ! i) \<and> (\<forall>r \<in> set roots. visited' ! r) \<and>
    runsTo (dfsRoots edges visited post roots k) (k post')"
  using assms(2,3)
proof (induction roots arbitrary: visited post)
  case Nil
  then show ?case by (intro exI [of _ visited] exI [of _ post]) auto
next
  case (Cons root roots)
  show ?case
  proof (cases "visited ! root")
    case True
    with Cons.IH [OF Cons.prems(1)] Cons.prems(2) show ?thesis by auto
  next
    case False
    let ?V = "visited[root := True]"
    have s: "searching edges ?V post (map fst [(root, 0)])"
      using searching_push [OF Cons.prems(1) _ False] Cons.prems(2) by simp
    have len: "root < length visited" using Cons.prems by (simp add: searching_def)
    from dfsLoop_runs [OF assms(1) s, of "\<lambda>visited post. dfsRoots edges visited post roots k"] obtain V1 post1 where
      one: "searching edges V1 post1 []" "\<forall>i. ?V ! i \<longrightarrow> V1 ! i"
        "runsTo (dfsLoop edges ?V post [(root, 0)] (\<lambda>visited post. dfsRoots edges visited post roots k)) (dfsRoots edges V1 post1 roots k)"
      by (auto simp: advanced_def)
    from Cons.IH [OF one(1)] Cons.prems(2) obtain V2 post2 where
      two: "searching edges V2 post2 []" "\<forall>i. V1 ! i \<longrightarrow> V2 ! i" "\<forall>r \<in> set roots. V2 ! r"
        "runsTo (dfsRoots edges V1 post1 roots k) (k post2)" by auto
    have keep: "\<forall>i. visited ! i \<longrightarrow> V2 ! i" "V2 ! root"
      using one(2) two(2) len by (metis nth_list_update_eq nth_list_update_neq)+
    have "runsTo (dfsRoots edges visited post (root # roots) k) (k post2)"
      using runsTo_trans [OF one(3) two(4)] False by simp
    with two keep show ?thesis by (intro exI [of _ V2] exI [of _ post2]) auto
  qed
qed

text \<open>The whole first pass.\<close>

lemma searching_done:
  "searching edges visited post [] \<Longrightarrow> set post = {i. i < length edges \<and> visited ! i} \<and> distinct post \<and> finishes edges post"
  unfolding searching_def append_Nil2 by (elim conjE, intro conjI)

lemma searching_start: "length edges = n \<Longrightarrow> searching edges (replicate n False) [] []"
proof -
  assume n: "length edges = n"
  have "finishes edges []" by (simp add: finishes_def)
  moreover have "{i. i < length edges \<and> replicate n False ! i} = {}" using n by auto
  ultimately show ?thesis unfolding searching_def using n by simp
qed

lemma dfs_finishes:
  assumes "closed edges" "length edges = n"
  shows "\<exists>post. distinct post \<and> set post = {..<n} \<and> finishes edges post \<and>
    runsTo (dfsRoots edges (replicate n False) [] [0..<n] k) (k post)"
proof -
  have roots: "\<forall>r \<in> set [0..<n]. r < length edges" using assms(2) by simp
  from dfsRoots_runs [OF assms(1) searching_start [OF assms(2)] roots, of k] obtain visited post where
    s: "searching edges visited post []" and all: "\<forall>r \<in> set [0..<n]. visited ! r"
    and run: "runsTo (dfsRoots edges (replicate n False) [] [0..<n] k) (k post)" by (elim exE conjE) (rule that)
  note post = searching_done [OF s, unfolded assms(2)]
  then have "set post = {i. i < n \<and> visited ! i}" by blast
  with all have "set post = {..<n}" by auto
  with post run show ?thesis by metis
qed

subsection \<open>Collecting backwards\<close>

definition reverses :: "graph \<Rightarrow> graph \<Rightarrow> bool" where
  "reverses edges reverse \<longleftrightarrow> length reverse = length edges \<and> (\<forall>v < length edges. set (reverse ! v) = {u. (u, v) \<in> arcs edges})"

definition marked :: "bool list \<Rightarrow> nat set" where
  "marked visited = {i. i < length visited \<and> visited ! i}"

lemma marked_update [simp]: "c < length visited \<Longrightarrow> marked (visited[c := True]) = insert c (marked visited)"
  by (auto simp: marked_def nth_list_update)

lemma pushChildren_spec:
  assumes "\<forall>c \<in> set children. c < length visited"
  shows "\<exists>visited' new. pushChildren children visited stack = Some (visited', new @ stack) \<and> length visited' = length visited \<and>
    distinct new \<and> set new \<inter> marked visited = {} \<and> set new \<subseteq> set children \<and>
    marked visited' = marked visited \<union> set children \<and> marked visited' = marked visited \<union> set new"
  using assms
proof (induction children arbitrary: visited stack)
  case (Cons c children)
  show ?case
  proof (cases "visited ! c")
    case True
    then have "c \<in> marked visited" using Cons.prems by (simp add: marked_def)
    from Cons.IH [of visited stack] Cons.prems obtain visited' new where
      r: "pushChildren children visited stack = Some (visited', new @ stack)" "length visited' = length visited"
        "distinct new" "set new \<inter> marked visited = {}" "set new \<subseteq> set children"
        "marked visited' = marked visited \<union> set children" "marked visited' = marked visited \<union> set new" by auto
    have "pushChildren (c # children) visited stack = Some (visited', new @ stack)" using r(1) True Cons.prems by simp
    with r \<open>c \<in> marked visited\<close> show ?thesis by (intro exI [of _ visited'] exI [of _ new]) auto
  next
    case False
    have len: "c < length visited" using Cons.prems by simp
    from Cons.IH [of "visited[c := True]" "c # stack"] Cons.prems obtain visited' new where
      r: "pushChildren children (visited[c := True]) (c # stack) = Some (visited', new @ c # stack)" "length visited' = length visited"
        "distinct new" "set new \<inter> insert c (marked visited) = {}" "set new \<subseteq> set children"
        "marked visited' = insert c (marked visited) \<union> set children" "marked visited' = insert c (marked visited) \<union> set new"
      unfolding marked_update [OF len] length_list_update by auto
    have "pushChildren (c # children) visited stack = Some (visited', (new @ [c]) @ stack)" using r(1) len False by simp
    moreover have "c \<notin> marked visited" using False by (simp add: marked_def)
    ultimately show ?thesis using r
      by (intro exI [of _ visited'] exI [of _ "new @ [c]"]) auto
  qed
qed auto

lemma collectMembers_spec:
  assumes rev: "reverses edges reverse" and cl: "closed edges" and n: "length names = length edges"
    and V: "length visited = length edges" "marked visited = M \<union> set ms \<union> set stack"
    and S: "distinct (ms @ stack)" "M \<inter> set (ms @ stack) = {}" "r \<in> set (ms @ stack)" "\<forall>x \<in> set (ms @ stack). (x, r) \<in> (arcs edges)\<^sup>*"
    and done': "\<forall>x \<in> set ms. \<forall>y. (y, x) \<in> arcs edges \<longrightarrow> y \<in> marked visited"
    and mem: "members = map ((!) names) ms"
  shows "\<exists>ms' visited'. collectMembers names reverse visited stack members = Some (map ((!) names) ms', visited') \<and>
    length visited' = length edges \<and> marked visited' = M \<union> set ms' \<and> distinct ms' \<and> M \<inter> set ms' = {} \<and> r \<in> set ms' \<and>
    (\<forall>x \<in> set ms'. (x, r) \<in> (arcs edges)\<^sup>* \<and> (\<forall>y. (y, x) \<in> arcs edges \<longrightarrow> y \<in> M \<union> set ms'))"
  using rev n V S done' mem
proof (induction names reverse visited stack members arbitrary: ms rule: collectMembers.induct)
  case (1 names reverse visited members)
  then show ?case by (intro exI [of _ ms] exI [of _ visited]) auto
next
  case (2 names reverse visited node stack members)
  note [simp del] = append_assoc
  have rev: "reverses edges reverse" and n: "length names = length edges" and len: "length visited = length edges"
    and M: "marked visited = M \<union> set ms \<union> set (node # stack)" and dist: "distinct (ms @ node # stack)" "M \<inter> set (ms @ node # stack) = {}"
    and r: "r \<in> set (ms @ node # stack)" "\<forall>x \<in> set (ms @ node # stack). (x, r) \<in> (arcs edges)\<^sup>*"
    and fin: "\<forall>x \<in> set ms. \<forall>y. (y, x) \<in> arcs edges \<longrightarrow> y \<in> marked visited" and mem: "members = map ((!) names) ms"
    using "2.prems" by blast+
  have "node \<in> marked visited" unfolding M by simp
  then have node: "node < length edges" using len by (simp add: marked_def)
  have children: "set (reverse ! node) = {u. (u, node) \<in> arcs edges}" using rev node by (simp add: reverses_def)
  then have "\<forall>c \<in> set (reverse ! node). c < length visited" using len by (auto simp: arcs_def)
  from pushChildren_spec [OF this, of stack] obtain V' new where
    push: "pushChildren (reverse ! node) visited stack = Some (V', new @ stack)" and new: "length V' = length visited" "distinct new"
      "set new \<inter> marked visited = {}" "set new \<subseteq> set (reverse ! node)"
    and V': "marked V' = marked visited \<union> set (reverse ! node)" "marked V' = marked visited \<union> set new" by blast
  have idx: "\<not> (node \<ge> length names \<or> node \<ge> length reverse)" using node n rev by (simp add: reverses_def)
  have reach: "(x, r) \<in> (arcs edges)\<^sup>*" if "x \<in> set new" for x
  proof -
    from that new(4) children have "(x, node) \<in> arcs edges" by auto
    with r(2) show ?thesis by (auto intro: converse_rtrancl_into_rtrancl)
  qed
  have "\<exists>ms' visited'. collectMembers names reverse V' (new @ stack) (members @ [names ! node]) = Some (map ((!) names) ms', visited') \<and>
    length visited' = length edges \<and> marked visited' = M \<union> set ms' \<and> distinct ms' \<and> M \<inter> set ms' = {} \<and> r \<in> set ms' \<and>
    (\<forall>x \<in> set ms'. (x, r) \<in> (arcs edges)\<^sup>* \<and> (\<forall>y. (y, x) \<in> arcs edges \<longrightarrow> y \<in> M \<union> set ms'))"
  proof (rule "2.IH" [OF idx push refl rev n, of "ms @ [node]"])
    show "length V' = length edges" using new len by simp
    show "marked V' = M \<union> set (ms @ [node]) \<union> set (new @ stack)" unfolding V'(2) M by auto
    have "set new \<inter> (set ms \<union> set (node # stack)) = {}" "set new \<inter> M = {}" using new(3) unfolding M by auto
    then show "distinct ((ms @ [node]) @ new @ stack)" "M \<inter> set ((ms @ [node]) @ new @ stack) = {}"
      using dist new(2) by auto
    show "r \<in> set ((ms @ [node]) @ new @ stack)" using r(1) by auto
    show "\<forall>x \<in> set ((ms @ [node]) @ new @ stack). (x, r) \<in> (arcs edges)\<^sup>*" using r(2) reach by auto
    show "\<forall>x \<in> set (ms @ [node]). \<forall>y. (y, x) \<in> arcs edges \<longrightarrow> y \<in> marked V'"
      using fin children unfolding V'(1) by auto
    show "members @ [names ! node] = map ((!) names) (ms @ [node])" using mem by simp
  qed
  with idx push show ?case by simp
qed

definition sccClosed :: "graph \<Rightarrow> nat set \<Rightarrow> bool" where
  "sccClosed edges M \<longleftrightarrow> (\<forall>x \<in> M. sccOf edges x \<subseteq> M)"

lemma collected_is_scc:
  assumes cl: "closed edges" and post: "set post = {..<length edges}" "finishes edges post" "post = us @ root # vs"
    and M: "sccClosed edges M" "set vs \<subseteq> M" "root \<notin> M" "M \<inter> set ms = {}" "root \<in> set ms" "set ms \<subseteq> {..<length edges}"
    and ms: "\<forall>x \<in> set ms. (x, root) \<in> (arcs edges)\<^sup>* \<and> (\<forall>y. (y, x) \<in> arcs edges \<longrightarrow> y \<in> M \<union> set ms)"
  shows "set ms = sccOf edges root"
proof
  show "set ms \<subseteq> sccOf edges root"
  proof
    fix y assume y: "y \<in> set ms"
    then have to: "(y, root) \<in> (arcs edges)\<^sup>*" and "y < length edges" "y \<notin> M" using ms M by auto
    have "(root, y) \<in> (arcs edges)\<^sup>*"
    proof (rule ccontr)
      assume "(root, y) \<notin> (arcs edges)\<^sup>*"
      with post(2,3) to obtain y' where y': "y' \<in> sccOf edges y" "y' \<notin> insert root (set us)"
        unfolding finishes_def by blast
      then have "y' < length edges" using arcs_bound [OF _ cl \<open>y < length edges\<close>] by (auto simp: sccOf_def)
      then have "y' \<in> set post" unfolding post(1) by simp
      with y' post(3) M(2) have "y' \<in> M" by auto
      with M(1) have "sccOf edges y' \<subseteq> M" unfolding sccClosed_def by blast
      with sccOf_eq [OF y'(1)] sccOf_self [of y edges] \<open>y \<notin> M\<close> show False by auto
    qed
    with to show "y \<in> sccOf edges root" by (simp add: sccOf_def)
  qed
  show "sccOf edges root \<subseteq> set ms"
  proof
    fix z assume "z \<in> sccOf edges root"
    then have "(z, root) \<in> (arcs edges)\<^sup>*" "(root, z) \<in> (arcs edges)\<^sup>*" by (auto simp: sccOf_def)
    then show "z \<in> set ms"
    proof (induction rule: converse_rtrancl_induct)
      case base
      show ?case by (rule M(5))
    next
      case (step y z)
      then have "z \<in> set ms" by (meson rtrancl.rtrancl_into_rtrancl)
      with ms step have in_or: "y \<in> M \<union> set ms" by blast
      have "root \<in> sccOf edges y" using step by (auto simp: sccOf_def intro: converse_rtrancl_into_rtrancl)
      with M(1,3) in_or show ?case unfolding sccClosed_def by blast
    qed
  qed
qed

definition sccParts :: "graph \<Rightarrow> nat list list \<Rightarrow> bool" where
  "sccParts edges mss \<longleftrightarrow> distinct (concat mss) \<and> (\<forall>ms \<in> set mss. ms \<noteq> [] \<and> (\<forall>r \<in> set ms. set ms = sccOf edges r))"

lemma sccParts_snoc:
  assumes "sccParts edges mss" "distinct ms" "set (concat mss) \<inter> set ms = {}" "set ms = sccOf edges r"
  shows "sccParts edges (mss @ [ms])"
proof -
  have "\<forall>q \<in> set ms. set ms = sccOf edges q" using assms(4) sccOf_eq by blast
  moreover have "ms \<noteq> []" using assms(4) sccOf_self [of r edges] by (metis empty_iff empty_set)
  ultimately show ?thesis using assms(1-3) unfolding sccParts_def by auto
qed

lemma gatherComponents_spec:
  assumes cl: "closed edges" and rev: "reverses edges reverse" and n: "length names = length edges"
    and post: "set post = {..<length edges}" "finishes edges post"
    and "rev post = dn @ roots" "length visited = length edges" "set dn \<subseteq> marked visited" "sccClosed edges (marked visited)"
      "sccParts edges mss" "set (concat mss) = marked visited" "components = map (\<lambda>ms. sort (map ((!) names) ms)) mss"
  shows "\<exists>mss'. gatherComponents names reverse visited roots components = Some (map (\<lambda>ms. sort (map ((!) names) ms)) mss') \<and>
    sccParts edges mss' \<and> set (concat mss') = {..<length edges}"
  using assms(6-)
proof (induction roots arbitrary: dn visited components mss)
  case Nil
  have "set dn = {..<length edges}" using Nil.prems(1) post(1) by (metis append_Nil2 set_rev)
  then have "marked visited = {..<length edges}" using Nil.prems(2,3) by (auto simp: marked_def)
  with Nil.prems show ?case by (intro exI [of _ mss]) simp
next
  case (Cons root roots)
  have eq: "post = rev roots @ root # rev dn" using Cons.prems(1) by (simp add: rev_swap)
  have bound: "root < length visited" using post(1) eq Cons.prems(2) by (metis in_set_conv_decomp lessThan_iff)
  show ?case
  proof (cases "visited ! root")
    case True
    have "root \<in> marked visited" using True bound by (simp add: marked_def)
    then have "\<exists>mss'. gatherComponents names reverse visited roots components = Some (map (\<lambda>ms. sort (map ((!) names) ms)) mss') \<and>
        sccParts edges mss' \<and> set (concat mss') = {..<length edges}"
      using Cons.prems by (intro Cons.IH [of "dn @ [root]"]) auto
    with True show ?thesis by simp
  next
    case False
    let ?M = "marked visited"
    have root: "root \<notin> ?M" using False by (simp add: marked_def)
    have "\<exists>ms visited'. collectMembers names reverse (visited[root := True]) [root] [] = Some (map ((!) names) ms, visited') \<and>
      length visited' = length edges \<and> marked visited' = ?M \<union> set ms \<and> distinct ms \<and> ?M \<inter> set ms = {} \<and> root \<in> set ms \<and>
      (\<forall>x \<in> set ms. (x, root) \<in> (arcs edges)\<^sup>* \<and> (\<forall>y. (y, x) \<in> arcs edges \<longrightarrow> y \<in> ?M \<union> set ms))"
      by (rule collectMembers_spec [OF rev cl n, where ms = "[]"]) (use bound root Cons.prems(2) in auto)
    then obtain ms visited' where c: "collectMembers names reverse (visited[root := True]) [root] [] = Some (map ((!) names) ms, visited')"
      and V': "length visited' = length edges" "marked visited' = ?M \<union> set ms" and ms: "distinct ms" "?M \<inter> set ms = {}" "root \<in> set ms"
        "\<forall>x \<in> set ms. (x, root) \<in> (arcs edges)\<^sup>* \<and> (\<forall>y. (y, x) \<in> arcs edges \<longrightarrow> y \<in> ?M \<union> set ms)"
      by (elim exE conjE) (rule that)
    have "set ms \<subseteq> {..<length edges}" using V' by (auto simp: marked_def set_eq_iff)
    then have scc: "set ms = sccOf edges root"
      using collected_is_scc [OF cl post eq Cons.prems(4) _ root ms(2,3) _ ms(4)] Cons.prems(3) by simp
    have "\<exists>mss'. gatherComponents names reverse visited' roots (components @ [sort (map ((!) names) ms)]) =
        Some (map (\<lambda>ms. sort (map ((!) names) ms)) mss') \<and> sccParts edges mss' \<and> set (concat mss') = {..<length edges}"
    proof (rule Cons.IH [of "dn @ [root]" _ "mss @ [ms]"])
      show "sccClosed edges (marked visited')"
        using Cons.prems(4) scc sccOf_eq unfolding V' sccClosed_def by blast
      show "sccParts edges (mss @ [ms])" by (rule sccParts_snoc [OF Cons.prems(5) ms(1) _ scc]) (use Cons.prems(6) ms(2) in simp)
    qed (use Cons.prems V' ms in auto)
    with False c show ?thesis by simp
  qed
qed

end
