(* ===== verification/IncSccOrder.thy ===== *)
theory IncSccOrder
  imports IncSccGraph "HOL-Library.Multiset"
begin

text \<open>
  From the components to the plan: the numbering of components, their dependency lists and
  users, and the dependency-first order. The order loop is shown to reach every component, so
  the error \<^verbatim>\<open>invalid SCC condensation cycle\<close> cannot occur.
\<close>

subsection \<open>The order loop\<close>

lemma releaseUsers_spec:
  assumes "distinct users" "\<forall>u \<in> set users. u < length remaining" "sorted ready"
  shows "\<exists>remaining' ready'. releaseUsers users remaining ready = Some (remaining', ready') \<and>
    length remaining' = length remaining \<and>
    (\<forall>c < length remaining. remaining' ! c = remaining ! c - (if c \<in> set users then 1 else 0)) \<and>
    sorted ready' \<and> mset ready' = mset ready + mset (filter (\<lambda>u. remaining ! u = 1) users)"
  using assms
proof (induction users arbitrary: remaining ready)
  case (Cons u users)
  let ?R = "remaining[u := remaining ! u - 1]"
  let ?Q = "if ?R ! u = 0 then insort u ready else ready"
  have u: "u < length remaining" "u \<notin> set users" using Cons.prems by auto
  have "\<exists>R Q. releaseUsers users ?R ?Q = Some (R, Q) \<and> length R = length ?R \<and>
    (\<forall>c < length ?R. R ! c = ?R ! c - (if c \<in> set users then 1 else 0)) \<and>
    sorted Q \<and> mset Q = mset ?Q + mset (filter (\<lambda>u. ?R ! u = 1) users)"
    by (rule Cons.IH) (use Cons.prems in \<open>auto simp: sorted_insort\<close>)
  then obtain R Q where r: "releaseUsers users ?R ?Q = Some (R, Q)" "length R = length remaining"
    "\<forall>c < length remaining. R ! c = ?R ! c - (if c \<in> set users then 1 else 0)" "sorted Q"
    "mset Q = mset ?Q + mset (filter (\<lambda>u. ?R ! u = 1) users)" by auto
  have "filter (\<lambda>v. ?R ! v = 1) users = filter (\<lambda>v. remaining ! v = 1) users"
    using u by (intro filter_cong refl) (auto simp: nth_list_update)
  with r(5) u have "mset Q = mset ready + mset (filter (\<lambda>u. remaining ! u = 1) (u # users))" by auto
  moreover have "\<forall>c < length remaining. R ! c = remaining ! c - (if c \<in> set (u # users) then 1 else 0)"
    using r(3) u by (auto simp: nth_list_update)
  moreover have "releaseUsers (u # users) remaining ready = Some (R, Q)" using r(1) u by (simp add: Let_def)
  ultimately show ?case using r by (intro exI [of _ R] exI [of _ Q]) auto
qed simp

definition dependsFirst :: "nat list list \<Rightarrow> nat list \<Rightarrow> bool" where
  "dependsFirst deps order \<longleftrightarrow> (\<forall>us c vs. order = us @ c # vs \<longrightarrow> set (deps ! c) \<subseteq> set us)"

lemma dependsFirst_snoc: "dependsFirst deps order \<Longrightarrow> set (deps ! c) \<subseteq> set order \<Longrightarrow> dependsFirst deps (order @ [c])"
  unfolding dependsFirst_def
proof (intro allI impI)
  fix us d vs assume *: "\<forall>us c vs. order = us @ c # vs \<longrightarrow> set (deps ! c) \<subseteq> set us" "set (deps ! c) \<subseteq> set order"
    and eq: "order @ [c] = us @ d # vs"
  show "set (deps ! d) \<subseteq> set us"
  proof (cases vs rule: rev_cases)
    case Nil
    with eq * show ?thesis by auto
  next
    case (snoc ws w)
    with eq have "order = us @ d # ws" by auto
    with * show ?thesis by blast
  qed
qed

definition usersOf :: "nat list list \<Rightarrow> nat list list \<Rightarrow> bool" where
  "usersOf deps users \<longleftrightarrow> length users = length deps \<and>
     (\<forall>d < length deps. distinct (users ! d) \<and> set (users ! d) = {c. c < length deps \<and> d \<in> set (deps ! c)})"

definition sequencing :: "nat list list \<Rightarrow> int list \<Rightarrow> nat list \<Rightarrow> nat list \<Rightarrow> bool" where
  "sequencing deps remaining ready order \<longleftrightarrow> length remaining = length deps \<and>
     (\<forall>c < length deps. remaining ! c = int (card (set (deps ! c) - set order))) \<and>
     sorted ready \<and> distinct (order @ ready) \<and> set order \<subseteq> {..<length deps} \<and>
     set ready = {c. c < length deps \<and> c \<notin> set order \<and> set (deps ! c) \<subseteq> set order} \<and> dependsFirst deps order"

lemma sequencing_step:
  assumes inv: "sequencing deps remaining (c # ready) order" and users: "usersOf deps users"
    and rel: "length R = length remaining" "\<forall>d < length remaining. R ! d = remaining ! d - (if d \<in> set (users ! c) then 1 else 0)"
      "sorted Q" "mset Q = mset ready + mset (filter (\<lambda>u. remaining ! u = 1) (users ! c))"
  shows "sequencing deps R Q (order @ [c])"
proof -
  have rem: "\<And>d. d < length deps \<Longrightarrow> remaining ! d = int (card (set (deps ! d) - set order))" "length remaining = length deps"
    and dist: "distinct (order @ c # ready)" "set order \<subseteq> {..<length deps}"
    and ready: "insert c (set ready) = {c. c < length deps \<and> c \<notin> set order \<and> set (deps ! c) \<subseteq> set order}"
    and first: "dependsFirst deps order"
    using inv by (auto simp: sequencing_def)
  have c: "c < length deps" "c \<notin> set order" "set (deps ! c) \<subseteq> set order" using ready by auto
  have us: "distinct (users ! c)" "set (users ! c) = {d. d < length deps \<and> c \<in> set (deps ! d)}"
    using users c(1) by (auto simp: usersOf_def)
  have ordered: "set (deps ! d) \<subseteq> set order" if "d \<in> set order" for d
    using first that unfolding dependsFirst_def by (metis Un_iff in_set_conv_decomp set_append subset_iff)
  have card: "card (set (deps ! d) - set (order @ [c])) = card (set (deps ! d) - set order) - (if c \<in> set (deps ! d) then 1 else 0)" for d
  proof -
    have "set (deps ! d) - set (order @ [c]) = (set (deps ! d) - set order) - {c}" by auto
    then show ?thesis using c(2) by (auto simp: card_Diff_singleton_if)
  qed
  have pos: "0 < card (set (deps ! d) - set order)" if "c \<in> set (deps ! d)" for d
    using that c(2) by (auto simp: card_gt_0_iff)
  have R: "\<forall>d < length deps. R ! d = int (card (set (deps ! d) - set (order @ [c])))"
  proof (intro allI impI)
    fix d assume d: "d < length deps"
    then show "R ! d = int (card (set (deps ! d) - set (order @ [c])))"
      using rel(2) rem us(2) card [of d] pos [of d] by auto
  qed
  have one: "remaining ! d = 1 \<longleftrightarrow> set (deps ! d) - set order = {c}" if "d < length deps" "c \<in> set (deps ! d)" for d
  proof -
    have "c \<in> set (deps ! d) - set order" using that c(2) by simp
    then show ?thesis using rem(1) [OF that(1)] card_1_singleton_iff [of "set (deps ! d) - set order"]
      by (metis One_nat_def of_nat_1 of_nat_eq_iff singletonD)
  qed
  have Qset: "set Q = set ready \<union> {u. u < length deps \<and> c \<in> set (deps ! u) \<and> set (deps ! u) - set order = {c}}"
    using arg_cong [OF rel(4), of set_mset] us(2) one by auto
  have "set ready = {d. d < length deps \<and> d \<notin> set order \<and> set (deps ! d) \<subseteq> set order} - {c}"
    using ready dist(1) by auto
  then have "set Q = {d. d < length deps \<and> d \<notin> set (order @ [c]) \<and> set (deps ! d) \<subseteq> set (order @ [c])}"
    unfolding Qset using c ordered by auto
  moreover have "distinct Q"
  proof -
    have "distinct (ready @ filter (\<lambda>u. remaining ! u = 1) (users ! c))"
      using us dist ready c(2) by auto
    then show ?thesis using rel(4) by (metis mset_append mset_eq_imp_distinct_iff)
  qed
  ultimately show ?thesis using R rel rem dist c dependsFirst_snoc [OF first c(3)]
    unfolding sequencing_def by auto
qed

lemma orderLoop_spec:
  assumes "usersOf deps users" "sequencing deps remaining ready order"
  shows "\<exists>order'. orderLoop users remaining ready order = Some order' \<and> (\<exists>remaining'. sequencing deps remaining' [] order')"
  using assms
proof (induction users remaining ready order rule: orderLoop.induct)
  case (1 users remaining order)
  then show ?case by auto
next
  case (2 users remaining c ready order)
  have c: "c < length users" using "2.prems" by (auto simp: sequencing_def usersOf_def)
  have "distinct (users ! c)" "\<forall>u \<in> set (users ! c). u < length remaining" "sorted ready"
    using "2.prems" c by (auto simp: sequencing_def usersOf_def)
  from releaseUsers_spec [OF this] obtain R Q where
    r: "releaseUsers (users ! c) remaining ready = Some (R, Q)" "length R = length remaining"
      "\<forall>d < length remaining. R ! d = remaining ! d - (if d \<in> set (users ! c) then 1 else 0)"
      "sorted Q" "mset Q = mset ready + mset (filter (\<lambda>u. remaining ! u = 1) (users ! c))" by blast
  from "2.IH" [OF _ r(1) refl "2.prems"(1) sequencing_step [OF "2.prems"(2,1) r(2-)]] c r(1) show ?case by auto
qed

subsection \<open>Users\<close>

lemma appendUser:
  assumes "distinct ds" "\<forall>d \<in> set ds. d < length users"
  shows "length (foldl (\<lambda>users d. users[d := users ! d @ [c]]) users ds) = length users"
    "e < length users \<Longrightarrow> foldl (\<lambda>users d. users[d := users ! d @ [c]]) users ds ! e = users ! e @ (if e \<in> set ds then [c] else [])"
  using assms by (induction ds arbitrary: users) (auto simp: nth_list_update)

lemma componentUsers_fold:
  assumes "\<forall>(c, ds) \<in> set ps. distinct ds \<and> (\<forall>d \<in> set ds. d < length users)"
  shows "length (foldl (\<lambda>users (c, ds). foldl (\<lambda>users d. users[d := users ! d @ [c]]) users ds) users ps) = length users \<and>
    (\<forall>e < length users. foldl (\<lambda>users (c, ds). foldl (\<lambda>users d. users[d := users ! d @ [c]]) users ds) users ps ! e =
      users ! e @ map fst (filter (\<lambda>(c, ds). e \<in> set ds) ps))"
  using assms
proof (induction ps arbitrary: users)
  case (Cons p ps)
  obtain c ds where p: "p = (c, ds)" by (cases p)
  let ?U = "foldl (\<lambda>users d. users[d := users ! d @ [c]]) users ds"
  have ds: "distinct ds" "\<forall>d \<in> set ds. d < length users" using Cons.prems p by auto
  have len: "length ?U = length users" by (rule appendUser [OF ds])
  have "\<forall>(c, ds) \<in> set ps. distinct ds \<and> (\<forall>d \<in> set ds. d < length ?U)" using Cons.prems unfolding len by auto
  from Cons.IH [OF this] show ?case using appendUser(2) [OF ds] unfolding len p by auto
qed simp

lemma componentUsers_spec:
  assumes "\<forall>ds \<in> set deps. distinct ds \<and> (\<forall>d \<in> set ds. d < length deps)"
  shows "usersOf deps (componentUsers deps)"
proof -
  have "\<forall>(c, ds) \<in> set (enumerate 0 deps). distinct ds \<and> (\<forall>d \<in> set ds. d < length (replicate (length deps) ([] :: nat list)))"
    using assms by (auto simp: in_set_enumerate_eq)
  from componentUsers_fold [OF this] have u: "length (componentUsers deps) = length deps"
    "\<And>e. e < length deps \<Longrightarrow> componentUsers deps ! e = map fst (filter (\<lambda>(c, ds). e \<in> set ds) (enumerate 0 deps))"
    by (auto simp: componentUsers_def)
  have "distinct (map fst (filter P (enumerate 0 deps)))" for P
    by (rule distinct_map_filter) simp
  with u show ?thesis by (auto simp: usersOf_def in_set_enumerate_eq image_iff intro: rev_bexI)
qed

subsection \<open>All components are ordered\<close>

lemma sequencing_complete:
  assumes "sequencing deps remaining [] order" and range: "\<forall>ds \<in> set deps. \<forall>d \<in> set ds. d < length deps"
    and ac: "acyclic {(d, c). c < length deps \<and> d \<in> set (deps ! c)}"
  shows "distinct order" "set order = {..<length deps}" "dependsFirst deps order"
proof -
  let ?R = "{(d, c). c < length deps \<and> d \<in> set (deps ! c)}"
  have o: "distinct order" "set order \<subseteq> {..<length deps}" "dependsFirst deps order"
    and stuck: "\<And>c. c < length deps \<Longrightarrow> c \<notin> set order \<Longrightarrow> \<not> set (deps ! c) \<subseteq> set order"
    using assms(1) by (auto simp: sequencing_def)
  show "distinct order" "dependsFirst deps order" by fact+
  have "?R \<subseteq> {..<length deps} \<times> {..<length deps}" using range by auto
  then have "finite ?R" by (rule finite_subset) simp
  then have wf: "wf ?R" using ac by (rule finite_acyclic_wf)
  have "{..<length deps} \<subseteq> set order"
  proof (rule ccontr)
    assume "\<not> {..<length deps} \<subseteq> set order"
    then obtain x where "x \<in> {..<length deps} - set order" by blast
    with wf obtain c where c: "c \<in> {..<length deps} - set order" "\<And>d. (d, c) \<in> ?R \<Longrightarrow> d \<notin> {..<length deps} - set order"
      by (rule wfE_min) blast
    have "set (deps ! c) \<subseteq> set order" using c range nth_mem [of c deps] by fastforce
    with stuck c(1) show False by auto
  qed
  with o(2) show "set order = {..<length deps}" by blast
qed

subsection \<open>Numbering the components\<close>

lemma sort_map_mono:
  assumes "\<And>x y. x \<in> set xs \<Longrightarrow> y \<in> set xs \<Longrightarrow> x \<le> y \<Longrightarrow> f x \<le> f y"
  shows "sort (map f xs) = map f (sort xs)"
proof (rule properties_for_sort)
  show "sorted (map f (sort xs))"
    unfolding sorted_map by (rule sorted_wrt_mono_rel [OF _ sorted_sort]) (use assms in auto)
qed simp

lemma insort_key_map:
  "\<forall>y \<in> set xs. k' (g x) \<le> k' (g y) \<longleftrightarrow> k x \<le> k y \<Longrightarrow> insort_key k' (g x) (map g xs) = map g (insort_key k x xs)"
  by (induction xs) auto

lemma sort_key_map:
  "\<forall>x \<in> set xs. \<forall>y \<in> set xs. k' (g x) \<le> k' (g y) \<longleftrightarrow> k x \<le> k y \<Longrightarrow> sort_key k' (map g xs) = map g (sort_key k xs)"
  by (induction xs) (auto simp: insort_key_map)

definition strictNames :: "string list \<Rightarrow> bool" where
  "strictNames names \<longleftrightarrow> sorted_wrt (<) names"

lemma names_mono:
  assumes "strictNames names" "i < length names" "j < length names"
  shows "names ! i \<le> names ! j \<longleftrightarrow> i \<le> j"
proof -
  have "names ! a < names ! b" if "a < b" "b < length names" for a b
    using assms(1) that by (simp add: strictNames_def sorted_wrt_nth_less)
  then show ?thesis using assms by (metis le_less less_le_not_le linorder_le_less_linear)
qed

lemma ids_names:
  assumes "strictNames names" "i < length names" shows "idOf (sccIds names) (names ! i) = i"
proof -
  have "distinct names" using assms(1) by (simp add: strictNames_def strict_sorted_iff)
  then have "map_of (rev (zip names [0..<length names])) (names ! i) = Some i"
    using assms(2) by (subst map_of_rev_distinct) (auto simp: map_of_zip_nth)
  then show ?thesis by (simp add: idOf_def sccIds_def)
qed

lemma assign_one:
  "length (foldl (\<lambda>co v. co[v := i]) co ms) = length co"
  "u < length co \<Longrightarrow> foldl (\<lambda>co v. co[v := i]) co ms ! u = (if u \<in> set ms then i else co ! u)"
  by (induction ms arbitrary: co) (auto simp: nth_list_update)

lemma assign_all:
  assumes "distinct (concat (map snd ps))" "u < length co"
  shows "length (foldl (\<lambda>co (i, ms). foldl (\<lambda>co v. co[v := i]) co ms) co ps) = length co"
    "(\<forall>(i, ms) \<in> set ps. u \<notin> set ms) \<Longrightarrow> foldl (\<lambda>co (i, ms). foldl (\<lambda>co v. co[v := i]) co ms) co ps ! u = co ! u"
    "(i, ms) \<in> set ps \<Longrightarrow> u \<in> set ms \<Longrightarrow> foldl (\<lambda>co (i, ms). foldl (\<lambda>co v. co[v := i]) co ms) co ps ! u = i"
proof -
  let ?f = "foldl (\<lambda>co (i, ms). foldl (\<lambda>co v. co[v := i]) co ms)"
  show "length (?f co ps) = length co" for co
    by (induction ps arbitrary: co) (auto simp: assign_one)
  have skip: "(\<forall>(i, ms) \<in> set ps. u \<notin> set ms) \<Longrightarrow> u < length co \<Longrightarrow> ?f co ps ! u = co ! u" for ps co
    by (induction ps arbitrary: co) (auto simp: assign_one)
  show "?f co ps ! u = co ! u" if "\<forall>(i, ms) \<in> set ps. u \<notin> set ms" using skip [OF that assms(2)] .
  show "(i, ms) \<in> set ps \<Longrightarrow> u \<in> set ms \<Longrightarrow> ?f co ps ! u = i"
    using assms
  proof (induction ps arbitrary: co)
    case (Cons p ps)
    obtain j ns where p: "p = (j, ns)" by (cases p)
    show ?case
    proof (cases "u \<in> set ns")
      case True
      then have out: "\<forall>(i, ms) \<in> set ps. u \<notin> set ms" using Cons.prems(3) p by fastforce
      then have "(i, ms) = (j, ns)" using Cons.prems p by auto
      with skip [OF out] True Cons.prems p show ?thesis by (simp add: assign_one)
    next
      case False
      then have "(i, ms) \<in> set ps" using Cons.prems p by auto
      with Cons.IH [of "foldl (\<lambda>co v. co[v := j]) co ns"] Cons.prems p show ?thesis by (simp add: assign_one)
    qed
  qed simp
qed

definition namesOf :: "string list \<Rightarrow> nat list list \<Rightarrow> string list list" where
  "namesOf names cs = map (map ((!) names)) cs"

lemma componentOf_spec:
  assumes names: "strictNames names" "length names = n" and cs: "distinct (concat cs)" "set (concat cs) = {..<n}"
    and i: "i < length cs" "u \<in> set (cs ! i)"
  shows "componentOfNodes (sccIds names) n (namesOf names cs) ! u = i"
proof -
  have conv: "foldl (\<lambda>co name. co[idOf (sccIds names) name := j]) co (map ((!) names) ms) = foldl (\<lambda>co v. co[v := j]) co ms"
    if "set ms \<subseteq> {..<n}" for co j ms
    using that by (induction ms arbitrary: co) (auto simp: ids_names [OF names(1)] names(2))
  have "foldl (\<lambda>co (j, ms). foldl (\<lambda>co name. co[idOf (sccIds names) name := j]) co ms) co (enumerate k (namesOf names ds)) =
      foldl (\<lambda>co (j, ms). foldl (\<lambda>co v. co[v := j]) co ms) co (enumerate k ds)" if "set (concat ds) \<subseteq> {..<n}" for co k ds
    using that by (induction ds arbitrary: co k) (auto simp: namesOf_def conv)
  then have co: "componentOfNodes (sccIds names) n (namesOf names cs) =
      foldl (\<lambda>co (j, ms). foldl (\<lambda>co v. co[v := j]) co ms) (replicate n 0) (enumerate 0 cs)"
    using cs(2) by (simp add: componentOfNodes_def)
  have "u < n" using cs(2) i by (metis UN_I lessThan_iff nth_mem set_concat)
  moreover have "(i, cs ! i) \<in> set (enumerate 0 cs)" using i(1) by (auto simp: in_set_enumerate_eq)
  ultimately show ?thesis unfolding co using assign_all(3) [of "enumerate 0 cs" u "replicate n 0" i "cs ! i"] cs(1) i(2) by simp
qed

subsection \<open>The plan\<close>

definition crossings :: "graph \<Rightarrow> nat list list \<Rightarrow> nat \<Rightarrow> nat set" where
  "crossings edges cs i = {j. j < length cs \<and> j \<noteq> i \<and> (\<exists>u \<in> set (cs ! i). \<exists>v \<in> set (cs ! j). (u, v) \<in> arcs edges)}"

lemma parts_index:
  fixes cs :: "nat list list"
  assumes "distinct (concat cs)" "i < length cs" "j < length cs" "u \<in> set (cs ! i)" "u \<in> set (cs ! j)"
  shows "i = j"
proof -
  have "(i, cs ! i) \<in> set (enumerate 0 cs)" "(j, cs ! j) \<in> set (enumerate 0 cs)"
    using assms(2,3) by (auto simp: in_set_enumerate_eq)
  from assign_all(3) [OF _ _ this(1) assms(4), of "replicate (Suc u) 0"] assign_all(3) [OF _ _ this(2) assms(5), of "replicate (Suc u) 0"]
  show ?thesis using assms(1) by simp
qed

lemma crossings_acyclic:
  assumes parts: "sccParts edges cs" and deps: "length deps = length cs" "\<forall>i < length cs. set (deps ! i) = crossings edges cs i"
  shows "acyclic {(d, c). c < length deps \<and> d \<in> set (deps ! c)}"
proof -
  let ?R = "{(d, c). c < length deps \<and> d \<in> set (deps ! c)}"
  have dist: "distinct (concat cs)" using parts by (simp add: sccParts_def)
  have comp: "set (cs ! c) = sccOf edges u" if "c < length cs" "u \<in> set (cs ! c)" for c u
    using parts that by (auto simp: sccParts_def)
  have bound: "c < length cs" "d < length cs" "d \<noteq> c" "\<exists>u \<in> set (cs ! c). \<exists>v \<in> set (cs ! d). (u, v) \<in> arcs edges" if "(d, c) \<in> ?R" for d c
  proof -
    have "c < length cs" "d \<in> crossings edges cs c" using that deps by auto
    then show "c < length cs" "d < length cs" "d \<noteq> c" "\<exists>u \<in> set (cs ! c). \<exists>v \<in> set (cs ! d). (u, v) \<in> arcs edges"
      unfolding crossings_def by blast+
  qed
  have reach: "d < length cs \<and> (\<forall>u \<in> set (cs ! c). \<forall>v \<in> set (cs ! d). (u, v) \<in> (arcs edges)\<^sup>*)" if "(d, c) \<in> ?R\<^sup>*" "c < length cs" for d c
    using that
  proof (induction rule: converse_rtrancl_induct)
    case base
    then show ?case using comp by (auto simp: sccOf_def)
  next
    case (step d e)
    from bound(4) [OF step(1)] obtain x y where xy: "x \<in> set (cs ! e)" "y \<in> set (cs ! d)" "(x, y) \<in> arcs edges" by blast
    have "(u, v) \<in> (arcs edges)\<^sup>*" if "u \<in> set (cs ! c)" "v \<in> set (cs ! d)" for u v
    proof -
      have "(u, x) \<in> (arcs edges)\<^sup>*" using step xy that by blast
      moreover have "(y, v) \<in> (arcs edges)\<^sup>*" using comp [OF bound(2) [OF step(1)] xy(2)] that by (auto simp: sccOf_def)
      ultimately show ?thesis using xy(3) by (meson rtrancl.rtrancl_into_rtrancl rtrancl_trans)
    qed
    with bound(2) [OF step(1)] show ?case by blast
  qed
  show ?thesis unfolding acyclic_def
  proof (intro allI notI)
    fix c assume "(c, c) \<in> ?R\<^sup>+"
    from tranclD2 [OF this] obtain d where d: "(c, d) \<in> ?R\<^sup>*" "(d, c) \<in> ?R" by (elim exE conjE)
    from bound(4) [OF d(2)] obtain u v where "u \<in> set (cs ! c)" "v \<in> set (cs ! d)" "(u, v) \<in> arcs edges" by blast
    with bound(1,2,3) [OF d(2)] have uv: "c < length cs" "d < length cs" "d \<noteq> c" "u \<in> set (cs ! c)" "v \<in> set (cs ! d)" "(u, v) \<in> arcs edges"
      by simp_all
    with reach [OF d(1) uv(2)] have "(v, u) \<in> (arcs edges)\<^sup>*" by blast
    with uv have "v \<in> sccOf edges u" by (auto simp: sccOf_def)
    with comp uv have "v \<in> set (cs ! c)" by blast
    with parts_index [OF dist uv(2,1,5)] uv(3) show False by blast
  qed
qed

lemma componentDeps_spec:
  assumes names: "strictNames names" "length names = length edges" and cl: "closed edges"
    and cs: "distinct (concat cs)" "set (concat cs) = {..<length edges}" and i: "i < length cs"
  defines "co \<equiv> componentOfNodes (sccIds names) (length edges) (namesOf names cs)"
  shows "set (componentDeps (sccIds names) edges co i (namesOf names cs ! i)) = crossings edges cs i"
    "sorted (componentDeps (sccIds names) edges co i (namesOf names cs ! i))"
    "distinct (componentDeps (sccIds names) edges co i (namesOf names cs ! i))"
proof -
  have in_range: "u < length edges" if "u \<in> set (cs ! j)" "j < length cs" for u j
    using that cs(2) by (metis UN_I lessThan_iff nth_mem set_concat)
  have ex: "\<exists>j < length cs. v \<in> set (cs ! j)" if "v < length edges" for v
    using that cs(2) by (metis in_set_conv_nth lessThan_iff set_concat UN_E)
  have co: "co ! v = j" if "j < length cs" "v \<in> set (cs ! j)" for j v
    unfolding co_def by (rule componentOf_spec [OF names cs that])
  have row: "(\<lambda>target. co ! target) ` set (edges ! u) = {j. j < length cs \<and> (\<exists>v \<in> set (cs ! j). (u, v) \<in> arcs edges)}" if u: "u \<in> set (cs ! i)" for u
  proof -
    have "u < length edges" using in_range u i by blast
    with cl have "\<forall>v \<in> set (edges ! u). v < length edges" by (simp add: closed_def)
    with ex co \<open>u < length edges\<close> show ?thesis by (fastforce simp: arcs_def)
  qed
  have id: "idOf (sccIds names) (names ! u) = u" if "u \<in> set (cs ! i)" for u
    using ids_names names in_range [OF that i] by simp
  show "set (componentDeps (sccIds names) edges co i (namesOf names cs ! i)) = crossings edges cs i"
    using row id i by (auto simp: componentDeps_def namesOf_def crossings_def)
  show "sorted (componentDeps (sccIds names) edges co i (namesOf names cs ! i))"
    "distinct (componentDeps (sccIds names) edges co i (namesOf names cs ! i))"
    by (simp_all add: componentDeps_def)
qed

lemma ready_spec:
  "foldl (\<lambda>ready i. if P i then insort i ready else ready) [] [0..<n] = filter P [0..<n]"
proof (induction n)
  case (Suc n)
  have "insort n (filter P [0..<n]) = filter P [0..<n] @ [n]" by (rule sorted_insort_is_snoc) (auto simp: sorted_wrt_filter)
  with Suc show ?case by simp
qed simp

text \<open>The components, sorted: by their members, and among each other by their least member.\<close>

definition orderedParts :: "graph \<Rightarrow> nat list list \<Rightarrow> bool" where
  "orderedParts edges cs \<longleftrightarrow> sccParts edges cs \<and> set (concat cs) = {..<length edges} \<and> (\<forall>ms \<in> set cs. sorted ms) \<and> sorted (map hd cs)"

lemma components_sorted:
  assumes names: "strictNames names" "length names = length edges"
    and mss: "sccParts edges mss" "set (concat mss) = {..<length edges}"
  shows "\<exists>cs. sort_key hd (map (\<lambda>ms. sort (map ((!) names) ms)) mss) = namesOf names cs \<and> orderedParts edges cs"
proof -
  let ?cs = "map sort mss"
  have bound: "set ms \<subseteq> {..<length names}" "ms \<noteq> []" if "ms \<in> set mss" for ms
    using that mss names(2) by (auto simp: sccParts_def)
  have one: "map (\<lambda>ms. sort (map ((!) names) ms)) mss = map (map ((!) names)) ?cs"
  proof -
    have "sort (map ((!) names) ms) = map ((!) names) (sort ms)" if "ms \<in> set mss" for ms
      by (rule sort_map_mono) (use bound(1) [OF that] names_mono [OF names(1)] in auto)
    then show ?thesis by simp
  qed
  have "hd (sort ms) < length names" if "ms \<in> set mss" for ms
    using bound [OF that] by (metis hd_in_set lessThan_iff set_empty set_sort subset_iff)
  then have "\<forall>x \<in> set ?cs. \<forall>y \<in> set ?cs. hd (map ((!) names) x) \<le> hd (map ((!) names) y) \<longleftrightarrow> hd x \<le> hd y"
    using bound names_mono [OF names(1)] by (auto simp: hd_map) (metis hd_map set_empty set_sort)+
  from sort_key_map [where k' = hd and k = hd and g = "map ((!) names)", OF this] have key: "sort_key hd (map (\<lambda>ms. sort (map ((!) names) ms)) mss) = namesOf names (sort_key hd ?cs)"
    unfolding one namesOf_def .
  have "mset (concat (sort_key hd ?cs)) = mset (concat mss)"
  proof -
    have "mset (concat xs) = sum_mset (image_mset mset (mset xs))" for xs :: "nat list list" by (induction xs) auto
    then show ?thesis by (simp add: image_mset.compositionality comp_def)
  qed
  then have "distinct (concat (sort_key hd ?cs))" "set (concat (sort_key hd ?cs)) = {..<length edges}"
    using mss by (metis mset_eq_imp_distinct_iff sccParts_def, metis mset_eq_setD)
  moreover have "\<forall>ms \<in> set (sort_key hd ?cs). sorted ms \<and> ms \<noteq> [] \<and> (\<forall>r \<in> set ms. set ms = sccOf edges r)"
    using mss(1) by (auto simp: sccParts_def) (metis set_empty set_sort)
  ultimately have "orderedParts edges (sort_key hd ?cs)" by (auto simp: orderedParts_def sccParts_def)
  with key show ?thesis by blast
qed

definition planFor :: "graph \<Rightarrow> nat list list \<Rightarrow> nat list list \<Rightarrow> nat list \<Rightarrow> bool" where
  "planFor edges cs deps order \<longleftrightarrow> orderedParts edges cs \<and> length deps = length cs \<and>
     (\<forall>i < length cs. sorted (deps ! i) \<and> distinct (deps ! i) \<and> set (deps ! i) = crossings edges cs i) \<and>
     distinct order \<and> set order = {..<length cs} \<and> dependsFirst deps order"

lemma sequencing_start:
  assumes "\<forall>ds \<in> set deps. distinct ds"
  shows "sequencing deps (map (\<lambda>ds. int (length ds)) deps) (filter (\<lambda>i. map (\<lambda>ds. int (length ds)) deps ! i = 0) [0..<length deps]) []"
proof -
  have "\<forall>c < length deps. map (\<lambda>ds. int (length ds)) deps ! c = int (card (set (deps ! c) - set []))"
    using assms by (simp add: distinct_card)
  moreover have "sorted (filter P [0..<n])" for P and n :: nat by (simp add: sorted_wrt_filter)
  ultimately show ?thesis by (auto simp: sequencing_def dependsFirst_def)
qed

lemma planComponents_correct:
  assumes names: "strictNames names" "length names = length edges" and cl: "closed edges"
    and mss: "sccParts edges mss" "set (concat mss) = {..<length edges}"
  shows "\<exists>cs deps order. planComponents (sccIds names) edges (map (\<lambda>ms. sort (map ((!) names) ms)) mss) =
      Inr \<lparr>Components = namesOf names cs, Dependencies = deps, Order = order\<rparr> \<and> planFor edges cs deps order"
proof -
  from components_sorted [OF names mss] obtain cs where
    key: "sort_key hd (map (\<lambda>ms. sort (map ((!) names) ms)) mss) = namesOf names cs" and parts: "orderedParts edges cs" by blast
  define co where "co = componentOfNodes (sccIds names) (length edges) (namesOf names cs)"
  define deps where "deps = map (\<lambda>(i, members). componentDeps (sccIds names) edges co i members) (enumerate 0 (namesOf names cs))"
  have cs: "sccParts edges cs" "distinct (concat cs)" "set (concat cs) = {..<length edges}"
    using parts by (auto simp: orderedParts_def sccParts_def)
  have len: "length deps = length cs" by (simp add: deps_def namesOf_def)
  have d: "set (deps ! i) = crossings edges cs i" "sorted (deps ! i)" "distinct (deps ! i)" if "i < length cs" for i
    using componentDeps_spec [OF names cl cs(2,3) that] that by (simp_all add: deps_def co_def nth_enumerate_eq namesOf_def)
  have range: "\<forall>ds \<in> set deps. distinct ds \<and> (\<forall>e \<in> set ds. e < length deps)"
  proof
    fix ds assume "ds \<in> set deps"
    then obtain i where "i < length cs" "ds = deps ! i" using len by (auto simp: in_set_conv_nth)
    with d(1,3) len show "distinct ds \<and> (\<forall>e \<in> set ds. e < length deps)" by (auto simp: crossings_def)
  qed
  define rem where "rem = map (\<lambda>ds. int (length ds)) deps"
  have lrem: "length rem = length deps" by (simp add: rem_def)
  have dd: "\<forall>ds \<in> set deps. distinct ds" using range by blast
  from orderLoop_spec [OF componentUsers_spec [OF range] sequencing_start [OF dd], folded rem_def] obtain order remaining where
    ord: "orderLoop (componentUsers deps) rem (filter (\<lambda>i. rem ! i = 0) [0..<length deps]) [] = Some order" "sequencing deps remaining [] order"
    by (elim exE conjE) (rule that)
  have "\<forall>ds \<in> set deps. \<forall>e \<in> set ds. e < length deps" using range by blast
  note full = sequencing_complete [OF ord(2) this crossings_acyclic [OF cs(1) len]]
  have o: "distinct order" "set order = {..<length deps}" "dependsFirst deps order" using full d by auto
  then have "length order = length deps" by (metis card_lessThan distinct_card)
  then have "planComponents (sccIds names) edges (map (\<lambda>ms. sort (map ((!) names) ms)) mss) =
      Inr \<lparr>Components = namesOf names cs, Dependencies = deps, Order = order\<rparr>"
    unfolding planComponents_def Let_def key co_def [symmetric] deps_def [symmetric] rem_def [symmetric] ready_spec
    using ord(1) len by (simp add: lrem namesOf_def)
  moreover have "planFor edges cs deps order" using parts len d o by (auto simp: planFor_def)
  ultimately show ?thesis by blast
qed

end
