(* ===== verification/GoJsonProofs.thy ===== *)
theory GoJsonProofs
  imports GoJson
begin

text \<open>
  Reading back what the encoder wrote: runes, string literals with their escapes, numbers, and
  whole value trees (\<open>json_roundtrip\<close>).
\<close>

subsection \<open>Runes\<close>

lemma byte_split: "lo \<le> byteVal c \<Longrightarrow> \<exists>m. c = char_of (lo + m) \<and> byteVal c = lo + m" for lo :: nat
  by (metis char_of_char le_Suc_ex)

lemma encode_two: "2 \<le> q \<Longrightarrow> q < 32 \<Longrightarrow> m < 64 \<Longrightarrow> encodeRune (q * 64 + m) = [char_of (192 + q), char_of (128 + m)]"
  by (simp add: encodeRune_def validRune_def)

lemma horner: "m < 64 \<Longrightarrow> (q * 64 + m) div 64 = q \<and> (q * 64 + m) mod 64 = m" for q m :: nat
  by simp

lemma encode_three:
  assumes "a < 16" "b < 64" "c < 64" "a = 0 \<longrightarrow> 32 \<le> b" "a = 13 \<longrightarrow> b < 32"
  shows "encodeRune (a * 4096 + b * 64 + c) = [char_of (224 + a), char_of (128 + b), char_of (128 + c)]"
    "validRune (a * 4096 + b * 64 + c)"
proof -
  define p where "p = a * 64 + b"
  define r where "r = p * 64 + c"
  have r: "a * 4096 + b * 64 + c = r" unfolding r_def p_def by simp
  have d: "r div 64 = p" "r mod 64 = c" "p div 64 = a" "p mod 64 = b" using horner assms unfolding r_def p_def by blast+
  have "r div 4096 = r div 64 div 64" by (simp add: div_mult2_eq [symmetric])
  with d have e: "r div 4096 = a" by simp
  consider "a \<le> 12" | "a = 13" | "14 \<le> a" by linarith
  then have v: "validRune r" unfolding validRune_def r_def p_def using assms by cases auto
  have "\<not> r < 2048" unfolding r_def p_def using assms by (cases "a = 0") auto
  moreover have "\<not> r < 128" using \<open>\<not> r < 2048\<close> by linarith
  moreover have "p < 1024" using assms(1,2) unfolding p_def by linarith
  then have "r < 65536" using assms(3) unfolding r_def by linarith
  ultimately show "encodeRune (a * 4096 + b * 64 + c) = [char_of (224 + a), char_of (128 + b), char_of (128 + c)]"
    unfolding r encodeRune_def Let_def if_P [OF v] by (simp add: d e)
  from v show "validRune (a * 4096 + b * 64 + c)" unfolding r .
qed

lemma encode_four:
  assumes "a < 5" "b < 64" "c < 64" "d < 64" "a = 0 \<longrightarrow> 16 \<le> b" "a = 4 \<longrightarrow> b < 16"
  shows "encodeRune (a * 262144 + b * 4096 + c * 64 + d) = [char_of (240 + a), char_of (128 + b), char_of (128 + c), char_of (128 + d)]"
    "validRune (a * 262144 + b * 4096 + c * 64 + d)"
proof -
  define p where "p = a * 64 + b"
  define q where "q = p * 64 + c"
  define r where "r = q * 64 + d"
  have r: "a * 262144 + b * 4096 + c * 64 + d = r" unfolding r_def q_def p_def by simp
  have d: "r div 64 = q" "r mod 64 = d" "q div 64 = p" "q mod 64 = c" "p div 64 = a" "p mod 64 = b"
    using horner assms unfolding r_def q_def p_def by blast+
  have "r div 4096 = r div 64 div 64" "r div 262144 = r div 64 div 64 div 64" by (simp_all add: div_mult2_eq [symmetric])
  with d have e: "r div 4096 = p" "r div 262144 = a" by simp_all
  have p: "16 \<le> p" "p < 272" using assms unfolding p_def by linarith+
  then have q: "1024 \<le> q" "q < 17408" using assms(3) unfolding q_def by linarith+
  then have big: "65536 \<le> r" "r \<le> 1114111" using assms(4) unfolding r_def by linarith+
  then have v: "validRune r" by (simp add: validRune_def)
  have "\<not> r < 128" "\<not> r < 2048" "\<not> r < 65536" using big by linarith+
  then show "encodeRune (a * 262144 + b * 4096 + c * 64 + d) = [char_of (240 + a), char_of (128 + b), char_of (128 + c), char_of (128 + d)]"
    unfolding r encodeRune_def Let_def if_P [OF v] by (simp add: d e)
  from v show "validRune (a * 262144 + b * 4096 + c * 64 + d)" unfolding r .
qed

lemma encode_decode:
  assumes "decodeRune (c # s) = (r, n)" "\<not> (r = RuneError \<and> n = 1)"
  shows "validRune r \<and> take n (c # s) = encodeRune r"
proof (cases "byteVal c < (128 :: nat)")
  case True
  with assms(1) have "r = byteVal c" "n = 1" by (auto simp: decodeRune_def)
  with True show ?thesis by (simp add: encodeRune_def validRune_def)
next
  case False
  with assms obtain sz lo hi where l: "leadInfo (byteVal c) = Some (sz, lo, hi)"
    by (cases "leadInfo (byteVal c)") (auto simp: decodeRune_def)
  then consider "sz = 2" | "sz = 3" | "sz = 4" using leadInfo_size by blast
  then show ?thesis
  proof cases
    case 1
    obtain c1 t where s: "s = c1 # t" "lo \<le> byteVal c1" "byteVal c1 \<le> hi"
      "n = 2" and rr: "r = (byteVal c mod 32) * 64 + byteVal c1 mod 64"
      using assms l False 1 by (cases s) (auto simp: decodeRune_def split: if_splits)
    from l 1 have b: "192 + 2 \<le> (byteVal c :: nat)" "byteVal c < (192 + 32 :: nat)" "lo = 128" "hi = 191"
      by (auto simp: leadInfo_def split: if_splits)
    obtain q m where "c = char_of (192 + q)" "byteVal c = 192 + q" "c1 = char_of (128 + m)" "byteVal c1 = 128 + m"
      using byte_split [of 192 c] byte_split [of 128 c1] s b by auto
    moreover from this have "2 \<le> q" "q < 32" "m < 64" using s b by simp_all
    moreover from this have "(192 + q) mod 32 = q" "(128 + m) mod 64 = m"
      using mod_shift [of q 32 6] mod_shift [of m 64 2] by simp_all
    ultimately show ?thesis using s rr encode_two [of q m] by (auto simp: validRune_def)
  next
    case 2
    obtain c1 c2 t where s: "s = c1 # c2 # t" "lo \<le> byteVal c1" "byteVal c1 \<le> hi" "isCont (byteVal c2)"
      "n = 3" and rr: "r = (byteVal c mod 16) * 4096 + (byteVal c1 mod 64) * 64 + byteVal c2 mod 64"
      using assms l False 2 by (cases s; cases "tl s") (auto simp: decodeRune_def split: if_splits)
    from l 2 have b: "224 \<le> (byteVal c :: nat)" "byteVal c < (224 + 16 :: nat)"
      "lo = (if byteVal c = (224 :: nat) then 160 else 128)" "hi = (if byteVal c = (237 :: nat) then 159 else 191)"
      by (auto simp: leadInfo_def split: if_splits)
    then have "128 \<le> lo" "hi \<le> 191" by auto
    then obtain x y z where xyz: "c = char_of (224 + x)" "byteVal c = 224 + x" "c1 = char_of (128 + y)" "byteVal c1 = 128 + y"
       "c2 = char_of (128 + z)" "byteVal c2 = 128 + z"
      using byte_split [of 224 c] byte_split [of 128 c1] byte_split [of 128 c2] s b by (auto simp: isCont_def)
    have lt: "x < 16" "y < 64" "z < 64" "x = 0 \<longrightarrow> 32 \<le> y" "x = 13 \<longrightarrow> y < 32"
      using s b xyz \<open>hi \<le> 191\<close> by (auto simp: isCont_def split: if_splits)
    then have "(224 + x) mod 16 = x" "(128 + y) mod 64 = y" "(128 + z) mod 64 = z"
      using mod_shift [of x 16 14] mod_shift [of y 64 2] mod_shift [of z 64 2] by simp_all
    with rr xyz have "r = x * 4096 + y * 64 + z" by simp
    with s xyz encode_three [OF lt] show ?thesis by simp
  next
    case 3
    obtain c1 c2 c3 t where s: "s = c1 # c2 # c3 # t" "lo \<le> byteVal c1" "byteVal c1 \<le> hi" "isCont (byteVal c2)" "isCont (byteVal c3)"
      "n = 4" and rr: "r = (byteVal c mod 8) * 262144 + (byteVal c1 mod 64) * 4096 + (byteVal c2 mod 64) * 64 + byteVal c3 mod 64"
    proof -
      have "\<not> length s < 3"
      proof
        assume "length s < 3"
        then have "decodeRune (c # s) = (RuneError, 1)" using l False 3 by (cases s) (simp_all add: decodeRune_def)
        with assms show False by simp
      qed
      then obtain c1 c2 c3 t where s: "s = c1 # c2 # c3 # t"
        by (metis One_nat_def add_2_eq_Suc' le_zero_eq length_0_conv length_Cons less_Suc_eq_le less_one neq_Nil_conv not_less numeral_2_eq_2 numeral_3_eq_3)
      have "decodeRune (c # s) = (if \<not> (lo \<le> byteVal c1 \<and> byteVal c1 \<le> hi) \<or> \<not> isCont (byteVal c2) \<or> \<not> isCont (byteVal c3) then (RuneError, 1)
        else ((byteVal c mod 8) * 262144 + (byteVal c1 mod 64) * 4096 + (byteVal c2 mod 64) * 64 + byteVal c3 mod 64, 4))"
        using l False 3 by (simp add: decodeRune_def s)
      with assms s that show ?thesis by (metis prod.inject)
    qed
    from l 3 have b: "240 \<le> (byteVal c :: nat)" "byteVal c < (240 + 5 :: nat)"
      "lo = (if byteVal c = (240 :: nat) then 144 else 128)" "hi = (if byteVal c = (244 :: nat) then 143 else 191)"
      by (auto simp: leadInfo_def split: if_splits)
    then have "128 \<le> lo" "hi \<le> 191" by auto
    then obtain w x y z where xyz: "c = char_of (240 + w)" "byteVal c = 240 + w" "c1 = char_of (128 + x)" "byteVal c1 = 128 + x"
       "c2 = char_of (128 + y)" "byteVal c2 = 128 + y" "c3 = char_of (128 + z)" "byteVal c3 = 128 + z"
      using byte_split [of 240 c] byte_split [of 128 c1] byte_split [of 128 c2] byte_split [of 128 c3] s b by (auto simp: isCont_def)
    have lt: "w < 5" "x < 64" "y < 64" "z < 64" "w = 0 \<longrightarrow> 16 \<le> x" "w = 4 \<longrightarrow> x < 16"
      using s b xyz \<open>hi \<le> 191\<close> by (auto simp: isCont_def split: if_splits)
    then have "(240 + w) mod 8 = w" "(128 + x) mod 64 = x" "(128 + y) mod 64 = y" "(128 + z) mod 64 = z"
      using mod_shift [of w 8 30] mod_shift [of x 64 2] mod_shift [of y 64 2] mod_shift [of z 64 2] by simp_all
    with rr xyz have "r = w * 262144 + x * 4096 + y * 64 + z" by simp
    with s xyz encode_four [OF lt] show ?thesis by simp
  qed
qed

lemma validString_Nil [simp]: "validString []"
  by (simp add: validString.simps)

lemma validString_ascii: "byteVal c < (128 :: nat) \<Longrightarrow> validString (c # s) = validString s"
  by (subst validString.simps) (auto simp: decodeRune_def RuneError_def)

text \<open>A valid text is empty, starts with an ASCII byte or with the encoding of a wider rune.\<close>

lemma validString_induct [consumes 1, case_names Nil ascii wide]:
  assumes "validString s" and "P []"
    and a: "\<And>c t. byteVal c < (128 :: nat) \<Longrightarrow> validString t \<Longrightarrow> P t \<Longrightarrow> P (c # t)"
    and w: "\<And>r t. validRune r \<Longrightarrow> 128 \<le> r \<Longrightarrow> validString t \<Longrightarrow> P t \<Longrightarrow> P (encodeRune r @ t)"
  shows "P s"
  using assms(1)
proof (induction s rule: length_induct)
  case (1 s)
  show ?case
  proof (cases s)
    case (Cons c t)
    show ?thesis
    proof (cases "byteVal c < (128 :: nat)")
      case True
      with 1 Cons show ?thesis by (auto simp: validString_ascii intro: a)
    next
      case False
      obtain r n where d: "decodeRune s = (r, n)" by force
      with 1(2) Cons have v: "\<not> (r = RuneError \<and> n = 1)" "validString (drop n s)"
        by (subst (asm) validString.simps, simp)+
      from encode_decode [OF d [unfolded Cons] v(1)] have e: "validRune r" "take n s = encodeRune r" using Cons by auto
      have "0 < n" using rune_nonempty [of r n s] d Cons by simp
      then have "length (drop n s) < length s" using Cons by simp
      with 1(1) v have "P (drop n s)" by blast
      moreover have "128 \<le> r"
      proof (rule ccontr)
        assume "\<not> 128 \<le> r"
        then have "encodeRune r = [char_of r]" by (simp add: encodeRune_def validRune_def)
        with e Cons \<open>0 < n\<close> have "c = char_of r" by (cases n) auto
        with False \<open>\<not> 128 \<le> r\<close> show False by simp
      qed
      ultimately have "P (encodeRune r @ drop n s)" using w e v by blast
      with e show ?thesis by (metis append_take_drop_id)
    qed
  qed (simp add: assms(2))
qed

subsection \<open>Strings\<close>

lemma encodeRune_ne [simp]: "encodeRune r \<noteq> []"
  by (simp add: encodeRune_def Let_def)

lemma encodeRune_wide:
  assumes "validRune r" "128 \<le> r" obtains c s where "encodeRune r = c # s" "128 \<le> (byteVal c :: nat)"
proof -
  obtain c s where c: "encodeRune r = c # s" by (metis encodeRune_ne neq_Nil_conv)
  have "decodeRune (c # s) = (r, length (c # s))" using decode_encode [OF assms(1), of "[]"] c by simp
  then have "\<not> byteVal c < (128 :: nat)" using assms(2) by (auto simp: decodeRune_def)
  with c show ?thesis using that by auto
qed

lemma escape_ascii: "byteVal c < (128 :: nat) \<Longrightarrow> escapeString (c # s) = escapeByte c @ escapeString s"
  by (subst escapeString.simps) simp

lemma escape_wide:
  assumes "validRune r" "128 \<le> r"
  shows "escapeString (encodeRune r @ s) = (if r = 0x2028 \<or> r = 0x2029 then hexRune r else encodeRune r) @ escapeString s"
proof -
  from encodeRune_wide [OF assms] obtain c t where c: "encodeRune r = c # t" "128 \<le> (byteVal c :: nat)" .
  have d: "decodeRune (c # t @ s) = (r, Suc (length t))" using decode_encode [OF assms(1), of s] c by simp
  have nr: "t \<noteq> []" if "r = RuneError"
    using c that by (auto simp: RuneError_def encodeRune_def validRune_def)
  show ?thesis unfolding c(1) append_Cons
    by (subst escapeString.simps) (use c(2) in \<open>simp add: d nr cong: conj_cong\<close>)
qed

lemma hexValue_digit: "n < 16 \<Longrightarrow> hexValue (hexDigit n) = Some n"
  by (auto simp: hexValue_def hexDigit_def Let_def)

lemma hex4_hexRune:
  assumes "r < 65536" shows "hex4 (drop 2 (hexRune r) @ s) = Some (r, s)"
proof -
  define a b c where "a = r div 16" and "b = a div 16" and "c = b div 16"
  have e: "r = a * 16 + r mod 16" "a = b * 16 + a mod 16" "b = c * 16 + b mod 16" unfolding a_def b_def c_def by simp_all
  have "c < 16" using assms e by linarith
  have "r div 256 = b" "r div 4096 = c" unfolding a_def b_def c_def by (simp_all add: div_mult2_eq [symmetric])
  moreover have "c * 4096 + b mod 16 * 256 + a mod 16 * 16 + r mod 16 = r" using e by linarith
  ultimately show ?thesis using \<open>c < 16\<close> by (simp add: hexRune_def hex4_def hexValue_digit a_def [symmetric])
qed

lemma unescape_hexRune:
  assumes "r < 65536" "\<not> isSurrogate r" shows "unescape (tl (hexRune r) @ s) = Some (encodeRune r, s)"
proof -
  have "hexRune r = CHR 0x5C # CHR ''u'' # drop 2 (hexRune r)" by (simp add: hexRune_def)
  then have "tl (hexRune r) @ s = CHR ''u'' # (drop 2 (hexRune r) @ s)" by (metis append_Cons list.sel(3))
  with hex4_hexRune [OF assms(1), of s] assms(2) show ?thesis by (simp add: unescape_def unicodeEscape_def)
qed

lemma jstring_escape:
  assumes "unescape e = Some (b, t)"
  shows "jstring (CHR 0x5C # e) = map_option (\<lambda>(v, rest). (b @ v, rest)) (jstring t)"
  by (subst jstring.simps) (simp add: assms)

lemma jstring_hexRune:
  assumes "r < 65536" "\<not> isSurrogate r"
  shows "jstring (hexRune r @ s) = map_option (\<lambda>(v, rest). (encodeRune r @ v, rest)) (jstring s)"
proof -
  have "hexRune r @ s = CHR 0x5C # (tl (hexRune r) @ s)" by (simp add: hexRune_def)
  then show ?thesis by (simp only: jstring_escape [OF unescape_hexRune [OF assms]])
qed

lemma jstring_ascii:
  assumes "byteVal c < (128 :: nat)"
  shows "jstring (escapeByte c @ s) = map_option (\<lambda>(v, rest). (c # v, rest)) (jstring s)"
proof (cases "htmlSafe c")
  case True
  then have "c \<noteq> CHR 0x22" "c \<noteq> CHR 0x5C" "\<not> byteVal c < (32 :: nat)" by (auto simp: htmlSafe_def)
  moreover have "decodeRune (c # s) = (byteVal c, 1)" "encodeRune (byteVal c) = [c]"
    using assms by (simp_all add: decodeRune_def encodeRune_def validRune_def)
  ultimately show ?thesis using True by (subst jstring.simps) (simp add: escapeByte_def)
next
  case False
  have e: "encodeRune (byteVal c) = [c]" "\<not> isSurrogate (byteVal c)" "byteVal c < (65536 :: nat)"
    using assms by (auto simp: isSurrogate_def encodeRune_def validRune_def)
  show ?thesis
  proof (cases "c \<in> {CHR 0x5C, CHR 0x22, CHR 0x08, CHR 0x0C, CHR 0x0A, CHR 0x0D, CHR 0x09}")
    case True
    then obtain x where x: "escapeByte c = [CHR 0x5C, x]" "x \<noteq> CHR ''u''" "unescapeByte x = Some c"
      by (auto simp: escapeByte_def htmlSafe_def unescapeByte_def)
    then have "unescape (x # s) = Some ([c], s)" by (simp add: unescape_def)
    from jstring_escape [OF this] x show ?thesis by simp
  next
    case long: False
    with False have "escapeByte c = hexRune (byteVal c)" by (simp add: escapeByte_def)
    with jstring_hexRune [OF e(3,2), of s] e(1) show ?thesis by simp
  qed
qed

lemma jstring_wide:
  assumes "validRune r" "128 \<le> r"
  shows "jstring ((if r = 0x2028 \<or> r = 0x2029 then hexRune r else encodeRune r) @ s) =
    map_option (\<lambda>(v, rest). (encodeRune r @ v, rest)) (jstring s)"
proof (cases "r = 0x2028 \<or> r = 0x2029")
  case True
  then have "\<not> isSurrogate r" "r < 65536" by (auto simp: isSurrogate_def)
  with jstring_hexRune True show ?thesis by simp
next
  case False
  from encodeRune_wide [OF assms] obtain c t where c: "encodeRune r = c # t" "128 \<le> (byteVal c :: nat)" .
  have d: "decodeRune (c # t @ s) = (r, Suc (length t))" using decode_encode [OF assms(1), of s] c by simp
  have "c \<noteq> CHR 0x22" "c \<noteq> CHR 0x5C" "\<not> byteVal c < (32 :: nat)" using c(2) by auto
  then have "jstring (c # t @ s) = map_option (\<lambda>(v, rest). (encodeRune r @ v, rest)) (jstring s)"
    by (subst jstring.simps) (simp add: d)
  with False c show ?thesis by simp
qed

lemma jstring_encode: "validString s \<Longrightarrow> jstring (escapeString s @ CHR 0x22 # rest) = Some (s, rest)"
proof (induction s rule: validString_induct)
  case Nil
  show ?case by (subst escapeString.simps, subst jstring.simps) simp
next
  case (ascii c t)
  then show ?case by (simp add: escape_ascii jstring_ascii)
next
  case (wide r t)
  then show ?case unfolding escape_wide [OF wide(1,2)] append_assoc jstring_wide [OF wide(1,2)] by simp
qed

subsection \<open>Numbers\<close>

lemma isNumeral_digit [simp]: "d < 10 \<Longrightarrow> isNumeral (char_of (48 + d))" for d :: nat
  by (simp add: isNumeral_def)

lemma decimal_digits: "\<forall>c\<in>set (decimal n). isNumeral c"
proof (induction n rule: decimal.induct)
  case (1 n)
  then show ?case by (subst decimal.simps) (auto simp del: of_nat_add)
qed

lemma decimal_ne [simp]: "decimal n \<noteq> []"
  by (subst decimal.simps) simp

lemma decimal_zero [simp]: "decimal 0 = ''0''"
  by code_simp

lemma decimal_head: "n \<noteq> 0 \<Longrightarrow> hd (decimal n) \<noteq> CHR ''0''"
proof (induction n rule: decimal.induct)
  case (1 n)
  show ?case
  proof (cases "n < 10")
    case True
    have "char_of (48 + n) \<noteq> CHR ''0''"
    proof
      assume "char_of (48 + n) = CHR ''0''"
      then have "byteVal (char_of (48 + n)) = (48 :: nat)" by simp
      with True 1(2) show False by simp
    qed
    with True show ?thesis by (subst decimal.simps) simp
  next
    case False
    then have "hd (decimal (n div 10)) \<noteq> CHR ''0''" by (intro 1) auto
    with False show ?thesis by (subst decimal.simps) simp
  qed
qed

text \<open>What may follow a value.\<close>

definition delimited :: "string \<Rightarrow> bool" where
  "delimited s \<longleftrightarrow> (\<forall>c t. s = c # t \<longrightarrow> c = CHR '','' \<or> c = CHR '']'' \<or> c = CHR ''}'')"

lemma delimited_simps [simp]: "delimited []" "delimited (c # t) \<longleftrightarrow> c = CHR '','' \<or> c = CHR '']'' \<or> c = CHR ''}''"
  by (auto simp: delimited_def)

lemma jinteger_decimal:
  assumes "takeWhile isNumeral rest = []" "dropWhile isNumeral rest = rest"
  shows "jinteger (decimal n @ rest) = Some (decimal n, rest)"
proof (cases "n = 0")
  case True
  then show ?thesis by (simp add: jinteger_def)
next
  case False
  obtain c ds where c: "decimal n = c # ds" by (metis decimal_ne neq_Nil_conv)
  have "c \<noteq> CHR ''0''" using decimal_head [OF False] unfolding c list.sel .
  moreover have "takeWhile isNumeral (decimal n @ rest) = decimal n" "dropWhile isNumeral (decimal n @ rest) = rest"
    using decimal_digits [of n] assms by (simp_all add: takeWhile_append2 dropWhile_append2)
  then have "jdigits (decimal n @ rest) = Some (decimal n, rest)" by (simp add: jdigits_def Let_def)
  ultimately show ?thesis by (simp add: jinteger_def c)
qed

lemma jnumber_decimal:
  assumes "delimited rest" shows "jnumber (decimal n @ rest) = Some (decimal n, rest)"
proof -
  obtain c ds where c: "decimal n = c # ds" by (metis decimal_ne neq_Nil_conv)
  have "isNumeral c" using decimal_digits [of n] c by simp
  then have minus: "c \<noteq> CHR ''-''" by (auto simp: isNumeral_def)
  have stop: "takeWhile isNumeral rest = []" "dropWhile isNumeral rest = rest"
    using assms by (cases rest; auto simp: isNumeral_def)+
  have rest: "jfraction rest = Some ([], rest)" "jexponent rest = Some ([], rest)"
    using assms by (cases rest; auto simp: jfraction_def jexponent_def)+
  have "(case decimal n @ rest of [] \<Rightarrow> ([], decimal n @ rest) | x # t \<Rightarrow> if x = CHR ''-'' then ([x], t) else ([], decimal n @ rest)) = ([], decimal n @ rest)"
    using minus by (simp add: c)
  then show ?thesis by (simp only: jnumber_def Let_def prod.case jinteger_decimal [OF stop] option.case rest append_Nil append_Nil2)
qed

subsection \<open>Values\<close>

text \<open>The values the encoders of this program build: valid text, decimal naturals.\<close>

primrec clean :: "json \<Rightarrow> bool" where
  "clean JNull \<longleftrightarrow> True"
| "clean (JBool b) \<longleftrightarrow> True"
| "clean (JNumber n) \<longleftrightarrow> (\<exists>i. n = decimal i)"
| "clean (JString s) \<longleftrightarrow> validString s"
| "clean (JArray vs) \<longleftrightarrow> list_all (\<lambda>b. b) (map clean vs)"
| "clean (JObject kvs) \<longleftrightarrow> list_all (\<lambda>kb. validString (fst kb) \<and> snd kb) (map (map_prod id clean) kvs)"

primrec depth :: "json \<Rightarrow> nat" where
  "depth JNull = 0"
| "depth (JBool b) = 0"
| "depth (JNumber n) = 0"
| "depth (JString s) = 0"
| "depth (JArray vs) = Suc (fold max (map depth vs) 0)"
| "depth (JObject kvs) = Suc (fold max (map snd (map (map_prod id depth) kvs)) 0)"

lemma fold_max_le: "fold max ns m \<le> d \<longleftrightarrow> m \<le> d \<and> (\<forall>n\<in>set ns. n \<le> d)" for m d :: nat
  by (induction ns arbitrary: m) auto

definition members :: "(string \<times> json) list \<Rightarrow> string" where
  "members kvs = joinComma (map (\<lambda>(k, v). jsonQuote k @ CHR '':'' # jencode v) kvs)"

lemma jencode_object: "jencode (JObject kvs) = CHR ''{'' # members kvs @ ''}''"
  by (simp add: members_def comp_def case_prod_unfold)

lemma jencode_length: "clean v \<Longrightarrow> 0 < length (jencode v)"
  by (cases v) (auto simp: jsonQuote_def)

lemma jencode_start: "clean v \<Longrightarrow> \<exists>c t. jencode v = c # t \<and> \<not> isSpace c \<and> c \<noteq> CHR '']'' \<and> c \<noteq> CHR ''}''"
proof (cases v)
  case (JNumber n)
  assume "clean v"
  with JNumber obtain i where n: "n = decimal i" by auto
  obtain c t where c: "decimal i = c # t" by (metis decimal_ne neq_Nil_conv)
  have "isNumeral c" using decimal_digits [of i] c by simp
  then have "\<not> isSpace c \<and> c \<noteq> CHR '']'' \<and> c \<noteq> CHR ''}''" by (auto simp: isNumeral_def isSpace_def)
  with JNumber n c show ?thesis by simp
qed (auto simp: jsonQuote_def isSpace_def)

lemma skipSpace_Cons [simp]: "\<not> isSpace c \<Longrightarrow> skipSpace (c # t) = c # t"
  by (simp add: skipSpace_def)

lemma skipSpace_value: "clean v \<Longrightarrow> skipSpace (jencode v @ rest) = jencode v @ rest"
  using jencode_start [of v] by auto

lemma skipSpace_quote [simp]: "skipSpace (jsonQuote k @ rest) = jsonQuote k @ rest"
  by (simp add: jsonQuote_def isSpace_def)

lemma skipSpace_delimited [simp]: "delimited r \<Longrightarrow> skipSpace r = r"
  by (cases r) (auto simp: isSpace_def skipSpace_def)

definition reads :: "json \<Rightarrow> bool" where
  "reads v \<longleftrightarrow> (\<forall>n d rest. 2 * length (jencode v) \<le> n \<longrightarrow> depth v \<le> d \<longrightarrow> delimited rest \<longrightarrow>
     jvalue n d (jencode v @ rest) = Some (v, rest))"

lemma jelements_encode:
  assumes "\<forall>v\<in>set vs. reads v \<and> clean v \<and> depth v \<le> d" "vs \<noteq> []" "2 * length (joinComma (map jencode vs)) + 1 \<le> n"
  shows "jelements n d (joinComma (map jencode vs) @ CHR '']'' # rest) = Some (vs, rest)"
  using assms
proof (induction vs arbitrary: n)
  case (Cons v vs)
  then obtain m where n: "n = Suc m" by (cases n) auto
  show ?case
  proof (cases vs)
    case Nil
    with Cons.prems n have "jvalue m d (jencode v @ CHR '']'' # rest) = Some (v, CHR '']'' # rest)"
      by (auto simp: reads_def)
    with Nil n show ?thesis by (simp add: isSpace_def)
  next
    case (Cons w ws)
    note vs = this
    let ?t = "joinComma (map jencode vs) @ CHR '']'' # rest"
    have len: "2 * length (jencode v) \<le> m" "2 * length (joinComma (map jencode vs)) + 1 \<le> m"
      using Cons.prems(3) n vs by auto
    have "jvalue m d (jencode v @ CHR '','' # ?t) = Some (v, CHR '','' # ?t)"
      using Cons.prems(1) len(1) by (auto simp: reads_def)
    moreover have "jelements m d ?t = Some (vs, rest)"
      by (rule Cons.IH) (use Cons.prems(1) len(2) vs in auto)
    ultimately show ?thesis using vs n by (simp add: isSpace_def)
  qed
qed simp

lemma jmembers_encode:
  assumes "\<forall>(k, v)\<in>set kvs. validString k \<and> reads v \<and> clean v \<and> depth v \<le> d" "kvs \<noteq> []" "2 * length (members kvs) + 1 \<le> n"
  shows "jmembers n d (members kvs @ CHR ''}'' # rest) = Some (kvs, rest)"
  using assms
proof (induction kvs arbitrary: n)
  case (Cons kv kvs)
  obtain k v where kv: "kv = (k, v)" by (cases kv)
  obtain m where n: "n = Suc m" using Cons.prems(3) by (cases n) auto
  have k: "validString k" "reads v" "clean v" "depth v \<le> d" using Cons.prems(1) kv by auto
  have key: "jstring (escapeString k @ CHR 0x22 # x) = Some (k, x)" for x by (rule jstring_encode [OF k(1)])
  show ?case
  proof (cases kvs)
    case Nil
    then have "2 * length (jencode v) \<le> m" using Cons.prems(3) n kv by (simp add: members_def jsonQuote_def)
    then have "jvalue m d (jencode v @ CHR ''}'' # rest) = Some (v, CHR ''}'' # rest)" using k by (auto simp: reads_def)
    with Nil n kv key show ?thesis by (simp add: isSpace_def members_def jsonQuote_def)
  next
    case (Cons w ws)
    note ks = this
    let ?t = "members kvs @ CHR ''}'' # rest"
    have m: "members (kv # kvs) = jsonQuote k @ CHR '':'' # jencode v @ CHR '','' # members kvs"
      using kv ks by (simp add: members_def)
    have len: "2 * length (jencode v) \<le> m" "2 * length (members kvs) + 1 \<le> m"
      using Cons.prems(3) n unfolding m by auto
    have "jvalue m d (jencode v @ CHR '','' # ?t) = Some (v, CHR '','' # ?t)" using k len(1) by (auto simp: reads_def)
    moreover have "jmembers m d ?t = Some (kvs, rest)" by (rule Cons.IH) (use Cons.prems(1) len(2) ks in auto)
    ultimately show ?thesis unfolding m n using key kv by (simp add: isSpace_def jsonQuote_def)
  qed
qed simp

lemma reads_step:
  assumes "\<And>m d rest. delimited rest \<Longrightarrow> jvalue (Suc m) d (jencode v @ rest) = Some (v, rest)" "jencode v \<noteq> []"
  shows "reads v"
  unfolding reads_def
proof (intro allI impI)
  fix n d rest assume "2 * length (jencode v) \<le> n" "delimited rest"
  then obtain m where "n = Suc m" using assms(2) by (cases n; cases "jencode v") auto
  with assms(1) \<open>delimited rest\<close> show "jvalue n d (jencode v @ rest) = Some (v, rest)" by simp
qed

lemma reads_atom:
  "reads JNull" "reads (JBool b)" "validString t \<Longrightarrow> reads (JString t)"
  by (rule reads_step; auto simp: jliteral_def isSpace_def jsonQuote_def jstring_encode)+

lemma reads_number: "reads (JNumber (decimal i))"
  unfolding reads_def
proof (intro allI impI)
  fix n d rest assume n: "2 * length (jencode (JNumber (decimal i))) \<le> n" and "delimited rest"
  then have num: "jnumber (decimal i @ rest) = Some (decimal i, rest)" by (intro jnumber_decimal)
  obtain c ds where c: "decimal i = c # ds" by (metis decimal_ne neq_Nil_conv)
  have "isNumeral c" using decimal_digits [of i] c by simp
  then have ne: "\<not> isSpace c" "c \<notin> {CHR 0x22, CHR ''['', CHR ''{'', CHR ''t'', CHR ''f'', CHR ''n''}"
    by (auto simp: isNumeral_def isSpace_def)
  obtain m where "n = Suc m" using n c by (cases n) auto
  with ne num c show "jvalue n d (jencode (JNumber (decimal i)) @ rest) = Some (JNumber (decimal i), rest)" by simp
qed

lemma joinComma_start:
  "vs \<noteq> [] \<Longrightarrow> clean (hd vs) \<Longrightarrow> take 1 (skipSpace (joinComma (map jencode vs) @ rest)) \<noteq> '']''"
proof (cases vs)
  case (Cons v ws)
  assume "clean (hd vs)"
  then obtain c t where c: "jencode v = c # t" "\<not> isSpace c" "c \<noteq> CHR '']''" using jencode_start [of v] Cons by auto
  then show ?thesis using Cons by (cases ws) auto
qed simp

lemma reads_array:
  assumes "\<forall>v\<in>set vs. reads v \<and> clean v" shows "reads (JArray vs)"
  unfolding reads_def
proof (intro allI impI)
  fix n d rest assume n: "2 * length (jencode (JArray vs)) \<le> n" "depth (JArray vs) \<le> d"
  obtain m where m: "n = Suc m" using n by (cases n) auto
  obtain e where e: "d = Suc e" using n(2) by (cases d) auto
  show "jvalue n d (jencode (JArray vs) @ rest) = Some (JArray vs, rest)"
  proof (cases "vs = []")
    case True
    then show ?thesis using m e by (simp add: isSpace_def)
  next
    case False
    have el: "jelements m e (joinComma (map jencode vs) @ CHR '']'' # rest) = Some (vs, rest)"
      by (rule jelements_encode) (use assms n m e False in \<open>auto simp: fold_max_le\<close>)
    have "take 1 (skipSpace (joinComma (map jencode vs) @ CHR '']'' # rest)) \<noteq> '']''"
      by (rule joinComma_start) (use assms False in auto)
    with el m e show ?thesis by (simp add: isSpace_def)
  qed
qed

lemma members_start: "kvs \<noteq> [] \<Longrightarrow> take 1 (skipSpace (members kvs @ rest)) \<noteq> ''}''"
proof (cases kvs)
  case (Cons kv ws)
  obtain k v where "kv = (k, v)" by (cases kv)
  with Cons show ?thesis by (cases ws) (auto simp: members_def jsonQuote_def isSpace_def)
qed simp

lemma reads_object:
  assumes "\<forall>(k, v)\<in>set kvs. validString k \<and> reads v \<and> clean v" shows "reads (JObject kvs)"
  unfolding reads_def
proof (intro allI impI)
  fix n d rest assume n: "2 * length (jencode (JObject kvs)) \<le> n" "depth (JObject kvs) \<le> d"
  note n' = n [unfolded jencode_object]
  obtain m where m: "n = Suc m" using n' by (cases n) auto
  obtain e where e: "d = Suc e" using n(2) by (cases d) auto
  show "jvalue n d (jencode (JObject kvs) @ rest) = Some (JObject kvs, rest)"
  proof (cases "kvs = []")
    case True
    then show ?thesis using m e by (simp add: isSpace_def)
  next
    case False
    have "\<forall>(k, v)\<in>set kvs. depth v \<le> e" using n(2) e by (force simp: fold_max_le)
    then have el: "jmembers m e (members kvs @ CHR ''}'' # rest) = Some (kvs, rest)"
      by (intro jmembers_encode) (use assms n' m False in auto)
    with members_start [OF False] m e show ?thesis unfolding jencode_object by (simp add: isSpace_def)
  qed
qed

lemma clean_reads: "clean v \<Longrightarrow> reads v"
proof (induction v)
  case (JObject kvs)
  have "\<forall>(k, v)\<in>set kvs. validString k \<and> reads v \<and> clean v"
    using JObject by (fastforce simp: list_all_iff)
  then show ?case by (rule reads_object)
next
  case (JArray vs)
  then show ?case by (intro reads_array) (auto simp: list_all_iff)
qed (auto simp: reads_atom reads_number)

text \<open>Parsing gives back every value the encoder wrote.\<close>

lemma json_roundtrip:
  assumes "clean v" "depth v \<le> 10000" shows "jsonParse (jencode v) = Some v"
proof -
  have "jvalue (2 * length (jencode v) + 2) maxNestingDepth (jencode v @ []) = Some (v, [])"
    by (rule clean_reads [OF assms(1), unfolded reads_def, rule_format]) (use assms(2) in \<open>simp_all add: maxNestingDepth_def\<close>)
  then show ?thesis by (simp add: jsonParse_def skipSpace_def)
qed

end
