(* ===== verification/IncSccRead.thy ===== *)
theory IncSccRead
  imports IncSccOrder GoJsonProofs
begin

text \<open>
  What \<^verbatim>\<open>SCCPublication\<close> publishes and \<^verbatim>\<open>evaluateSCC\<close> reads back: the canonical encoding of the node
  list and of every adjacency list, and the graph built from them.
\<close>

subsection \<open>Valid text\<close>

lemma validString_wide: "validRune r \<Longrightarrow> 128 \<le> r \<Longrightarrow> validString (encodeRune r @ s) = validString s"
proof -
  assume r: "validRune r" "128 \<le> r"
  from decode_encode [OF r(1), of s] have d: "decodeRune (encodeRune r @ s) = (r, length (encodeRune r))" .
  have "\<not> (r = RuneError \<and> length (encodeRune r) = 1)"
    by (auto simp: RuneError_def encodeRune_def validRune_def)
  with d show ?thesis by (subst validString.simps) simp
qed

lemma validString_append: "validString s \<Longrightarrow> validString t \<Longrightarrow> validString (s @ t)"
  by (induction s rule: validString_induct) (simp_all add: validString_ascii validString_wide)

lemma validString_ascii_all: "\<forall>c \<in> set s. byteVal c < (128 :: nat) \<Longrightarrow> validString s"
  by (induction s) (simp_all add: validString_ascii)

lemma hexDigit_ascii: "n < 16 \<Longrightarrow> byteVal (hexDigit n) < (128 :: nat)"
  by (simp add: hexDigit_def)

lemma hexRune_ascii: "\<forall>c \<in> set (hexRune r). byteVal c < (128 :: nat)"
  by (simp add: hexRune_def hexDigit_ascii)

lemma escapeByte_ascii: "byteVal c < (128 :: nat) \<Longrightarrow> \<forall>d \<in> set (escapeByte c). byteVal d < (128 :: nat)"
  using hexRune_ascii by (auto simp: escapeByte_def split: if_splits)

lemma escapeString_Nil [simp]: "escapeString [] = []"
  by (subst escapeString.simps) simp

lemma validString_escape: "validString s \<Longrightarrow> validString (escapeString s)"
proof (induction s rule: validString_induct)
  case (ascii c t)
  then show ?case by (simp add: escape_ascii validString_append validString_ascii_all escapeByte_ascii)
next
  case (wide r t)
  have "validString (encodeRune r)" using validString_wide [OF wide(1,2), of "[]"] by simp
  with wide show ?case by (simp add: escape_wide validString_append validString_ascii_all hexRune_ascii)
qed simp

lemma validString_quote: "validString s \<Longrightarrow> validString (jsonQuote s)"
  by (simp add: jsonQuote_def validString_ascii validString_append validString_escape)

lemma validString_join: "\<forall>x \<in> set xs. validString x \<Longrightarrow> validString (joinComma xs)"
  by (induction xs rule: joinComma.induct) (auto simp: validString_append validString_ascii)

lemma validString_names: "\<forall>x \<in> set names. validString x \<Longrightarrow> validString (jencode (jsonStrings names))"
  by (simp add: jsonStrings_def validString_ascii validString_append validString_join validString_quote)

subsection \<open>Canonical name lists\<close>

definition canonical :: "string list \<Rightarrow> bool" where
  "canonical names \<longleftrightarrow> length names \<le> 4096 \<and> list_all validSCCIdentity names \<and> strictNames names \<and>
     length (jencode (jsonStrings names)) \<le> 16777216"

lemma strictlySorted_iff: "strictlySorted names \<longleftrightarrow> strictNames names"
proof -
  have "strictlySorted names \<longleftrightarrow> (\<forall>i \<in> {1..<length names}. names ! (i - 1) < names ! i)"
    unfolding strictlySorted_def list_all_iff set_upt not_le by (rule refl)
  also have "\<dots> \<longleftrightarrow> (\<forall>i. Suc i < length names \<longrightarrow> names ! i < names ! Suc i)"
  proof (intro iffI allI impI ballI)
    fix i assume "\<forall>i \<in> {1..<length names}. names ! (i - 1) < names ! i" "Suc i < length names"
    then show "names ! i < names ! Suc i" by (metis One_nat_def atLeastLessThan_iff diff_Suc_1 le_simps(3) zero_less_Suc)
  next
    fix i assume "\<forall>i. Suc i < length names \<longrightarrow> names ! i < names ! Suc i" "i \<in> {1..<length names}"
    then show "names ! (i - 1) < names ! i" by (cases i) auto
  qed
  finally show ?thesis unfolding strictNames_def by (simp add: sorted_wrt_iff_nth_Suc_transp)
qed

lemma collectOptions_Some: "collectOptions (map Some xs) = Some xs"
  by (induction xs) auto

lemma unmarshal_strings: "unmarshalSlice unmarshalString (jsonStrings names) = Some (Some names)"
  using collectOptions_Some [of names] by (simp add: unmarshalSlice_def jsonStrings_def comp_def unmarshalString_def)

lemma clean_strings: "\<forall>x \<in> set names. validString x \<Longrightarrow> clean (jsonStrings names) \<and> depth (jsonStrings names) \<le> 1"
proof -
  assume v: "\<forall>x \<in> set names. validString x"
  have "fold max (map depth (map JString names)) 0 \<le> 0" unfolding fold_max_le by auto
  with v show ?thesis by (simp add: jsonStrings_def list_all_iff)
qed

lemma decode_canonical:
  assumes "canonical names" shows "decodeSCCNames (jencode (jsonStrings names)) = Inr names"
proof -
  have v: "\<forall>x \<in> set names. validString x" using assms by (auto simp: canonical_def list_all_iff validSCCIdentity_def)
  have "jsonParse (jencode (jsonStrings names)) = Some (jsonStrings names)"
    by (rule json_roundtrip) (use clean_strings [OF v] in auto)
  with assms unmarshal_strings validString_names [OF v] show ?thesis
    by (simp add: decodeSCCNames_def canonical_def sccMaxBytes_def sccMaxNodes_def strictlySorted_iff)
qed

text \<open>A text that decodes is the canonical encoding of the names it decodes to.\<close>

lemma decode_is_canonical:
  assumes "decodeSCCNames encoded = Inr names" shows "canonical names \<and> encoded = jencode (jsonStrings names)"
  using assms by (auto simp: decodeSCCNames_def canonical_def sccMaxBytes_def sccMaxNodes_def strictlySorted_iff split: if_splits option.splits)

subsection \<open>Publication\<close>

lemma sorted_le_last: "sorted xs \<Longrightarrow> x \<in> set xs \<Longrightarrow> x \<le> last xs"
  by (induction xs) auto

lemma compact_spec:
  assumes "sorted (out @ names)" "strictNames out"
  shows "strictNames (compactSCCNames out names) \<and> set (compactSCCNames out names) = set out \<union> set names \<and>
    length (compactSCCNames out names) \<le> length out + length names"
  using assms
proof (induction out names rule: compactSCCNames.induct)
  case (2 out name names)
  show ?case
  proof (cases "out = [] \<or> last out \<noteq> name")
    case True
    have "x < name" if "x \<in> set out" for x
    proof -
      from that True have "out \<noteq> []" by auto
      have "x \<le> last out" using that "2.prems"(1) by (auto simp: sorted_append intro: sorted_le_last)
      moreover have "last out \<le> name" using "2.prems"(1) last_in_set [OF \<open>out \<noteq> []\<close>] by (simp add: sorted_append)
      ultimately show ?thesis using True \<open>out \<noteq> []\<close> by (metis le_less_trans le_neq_trans)
    qed
    then have new: "strictNames (out @ [name])" using "2.prems"(2) by (simp add: strictNames_def sorted_wrt_append)
    have "sorted ((out @ [name]) @ names)" using "2.prems"(1) by simp
    with "2.IH" new True show ?thesis by (simp del: append_assoc append_eq_append_conv)
  next
    case False
    then have "name \<in> set out" by auto
    moreover have "sorted (out @ names)" using "2.prems"(1) by (auto simp: sorted_append)
    ultimately show ?thesis using "2.IH" "2.prems"(2) False by (simp add: insert_absorb)
  qed
qed simp

definition targetsOf :: "(string, string list) gomap \<Rightarrow> string \<Rightarrow> string list" where
  "targetsOf adjacency node = compactSCCNames [] (sort (case map_of adjacency node of None \<Rightarrow> [] | Some ts \<Rightarrow> ts))"

lemma targetsOf_spec:
  "strictNames (targetsOf adjacency node)" "set (targetsOf adjacency node) = set (case map_of adjacency node of None \<Rightarrow> [] | Some ts \<Rightarrow> ts)"
  using compact_spec [of "[]" "sort (case map_of adjacency node of None \<Rightarrow> [] | Some ts \<Rightarrow> ts)"]
  by (simp_all add: targetsOf_def strictNames_def)

definition edgeChange :: "string \<Rightarrow> (string, string list) gomap \<Rightarrow> string \<Rightarrow> Change" where
  "edgeChange graph adjacency node =
     \<lparr>ch_Key = sccEdges graph node, ch_Value = jencode (jsonStrings (targetsOf adjacency node)), ch_Remove = False\<rparr>"

lemma publishEdges_spec:
  assumes "publishEdges graph adjacency nodes edges bytes changes = Inr changes'"
  shows "changes' = changes @ map (edgeChange graph adjacency) nodes \<and>
    (\<forall>node \<in> set nodes. set (targetsOf adjacency node) \<subseteq> fst ` set adjacency) \<and>
    (nodes = [] \<or> edges + (\<Sum>node\<leftarrow>nodes. length (targetsOf adjacency node)) \<le> 65536 \<and>
     bytes + (\<Sum>node\<leftarrow>nodes. length (jencode (jsonStrings (targetsOf adjacency node)))) \<le> 16777216)"
  using assms
proof (induction graph adjacency nodes edges bytes changes rule: publishEdges.induct)
  case (2 graph adjacency node nodes edges bytes changes)
  let ?ts = "targetsOf adjacency node" and ?v = "jencode (jsonStrings (targetsOf adjacency node))"
  have c: "\<not> list_ex (\<lambda>t. map_of adjacency t = None) ?ts" "edges + length ?ts \<le> 65536" "bytes + length ?v \<le> 16777216"
    "publishEdges graph adjacency nodes (edges + length ?ts) (bytes + length ?v) (changes @ [edgeChange graph adjacency node]) = Inr changes'"
    using "2.prems" by (auto simp: Let_def targetsOf_def [symmetric] edgeChange_def sccMaxEdges_def sccMaxBytes_def split: if_splits)
  have "set ?ts \<subseteq> fst ` set adjacency" using c(1) by (force simp: list_ex_iff map_of_eq_None_iff)
  moreover note "2.IH" [OF refl _ _ refl, folded targetsOf_def edgeChange_def] 
  ultimately show ?case using c
    by (cases "nodes = []") (auto simp: Let_def targetsOf_def [symmetric] edgeChange_def [symmetric] sccMaxEdges_def sccMaxBytes_def)
qed simp

definition outputReservation :: "string list \<Rightarrow> nat" where
  "outputReservation names = length (jencode (jsonStrings names)) + 512 * length names + 24 * min 65536 (length names * length names) + 128"

lemma strict_length_le:
  assumes "strictNames ts" "set ts \<subseteq> set names" shows "length ts \<le> length names"
proof -
  have "length ts = card (set ts)" using assms(1) by (simp add: strictNames_def strict_sorted_iff distinct_card)
  also have "\<dots> \<le> card (set names)" using assms(2) by (simp add: card_mono)
  finally show ?thesis using card_length [of names] by simp
qed

lemma SCCPublication_spec:
  assumes "SCCPublication graph adjacency = Inr pub" "gomap_ok adjacency"
  defines "names \<equiv> sort (map fst adjacency)"
  shows "validSCCIdentity graph" "canonical names" "\<forall>node \<in> set names. canonical (targetsOf adjacency node) \<and> set (targetsOf adjacency node) \<subseteq> set names"
    "pub = \<lparr>pub_Key = \<lparr>Kind = SCCQueryKind, Name = graph\<rparr>,
       pub_Inputs = \<lparr>ch_Key = sccInventory graph, ch_Value = jencode (jsonStrings names), ch_Remove = False\<rparr> # map (edgeChange graph adjacency) names,
       pub_MaxResultBytes = int (outputReservation names), pub_MaxDependencies = int (Suc (length names))\<rparr>"
    "(\<Sum>node\<leftarrow>names. length (targetsOf adjacency node)) \<le> 65536"
    "length (jencode (jsonStrings names)) + (\<Sum>node\<leftarrow>names. length (jencode (jsonStrings (targetsOf adjacency node)))) \<le> 16777216"
    "outputReservation names \<le> 16777216"
proof -
  let ?inv = "\<lparr>ch_Key = sccInventory graph, ch_Value = jencode (jsonStrings names), ch_Remove = False\<rparr>"
  from assms(1) obtain changes where
    g: "validSCCIdentity graph" "length adjacency \<le> 4096" and valid: "list_all validSCCIdentity (map fst adjacency)"
    and edges: "publishEdges graph adjacency names 0 (length (jencode (jsonStrings names))) [?inv] = Inr changes"
    and out: "outputReservation names \<le> 16777216"
    and pub: "pub = \<lparr>pub_Key = \<lparr>Kind = SCCQueryKind, Name = graph\<rparr>, pub_Inputs = changes,
       pub_MaxResultBytes = int (outputReservation names), pub_MaxDependencies = int (length changes)\<rparr>"
    by (auto simp: SCCPublication_def names_def outputReservation_def Let_def sccMaxNodes_def sccMaxBytes_def sccMaxEdges_def
        split: if_splits option.splits sum.splits)
  note spec = publishEdges_spec [OF edges]
  have set_names: "set names = fst ` set adjacency" by (simp add: names_def)
  have strict: "strictNames names" using assms(2) by (simp add: strictNames_def names_def strict_sorted_iff)
  show "validSCCIdentity graph" "outputReservation names \<le> 16777216" by fact+
  have len: "length (jencode (jsonStrings names)) \<le> 16777216" using out by (simp add: outputReservation_def)
  then show can: "canonical names" using g strict valid set_names by (simp add: canonical_def names_def list_all_iff)
  show total: "(\<Sum>node\<leftarrow>names. length (targetsOf adjacency node)) \<le> 65536"
    and bytes: "length (jencode (jsonStrings names)) + (\<Sum>node\<leftarrow>names. length (jencode (jsonStrings (targetsOf adjacency node)))) \<le> 16777216"
    using spec len by auto
  show "pub = \<lparr>pub_Key = \<lparr>Kind = SCCQueryKind, Name = graph\<rparr>, pub_Inputs = ?inv # map (edgeChange graph adjacency) names,
       pub_MaxResultBytes = int (outputReservation names), pub_MaxDependencies = int (Suc (length names))\<rparr>"
    using spec pub by simp
  show "\<forall>node \<in> set names. canonical (targetsOf adjacency node) \<and> set (targetsOf adjacency node) \<subseteq> set names"
  proof
    fix node assume node: "node \<in> set names"
    have sub: "set (targetsOf adjacency node) \<subseteq> set names" using spec node set_names by auto
    have "length (jencode (jsonStrings (targetsOf adjacency node))) \<le> (\<Sum>node\<leftarrow>names. length (jencode (jsonStrings (targetsOf adjacency node))))"
      using node by (intro member_le_sum_list) auto
    with bytes sub can strict_length_le [OF targetsOf_spec(1) sub] targetsOf_spec(1) show
      "canonical (targetsOf adjacency node) \<and> set (targetsOf adjacency node) \<subseteq> set names"
      by (auto simp: canonical_def list_all_iff subset_iff)
  qed
qed

subsection \<open>Answers of an evaluator\<close>

text \<open>A reader outside a session: nothing failed, nothing restricts it.\<close>

definition plain :: "Reader \<Rightarrow> bool" where
  "plain rd \<longleftrightarrow> readerOk rd \<and> rd_failure rd = None \<and> rd_inputAuthority rd = None \<and> rd_queryAuthority rd = None \<and> \<not> rd_boundedDependencies rd"

definition answers :: "prog \<Rightarrow> snapshot \<Rightarrow> (Key \<rightharpoonup> string) \<Rightarrow> string \<Rightarrow> bool" where
  "answers p env q v \<longleftrightarrow> (\<forall>rd. plain rd \<longrightarrow> (\<exists>rd'. specRun p env q rd = Some (v, rd')))"

lemma plain_newReader [simp]: "plain newReader"
  by (simp add: plain_def) (simp add: newReader_def)

lemma plain_remember: "plain rd \<Longrightarrow> \<exists>rd'. remember rd dep = (True, rd') \<and> plain rd'"
  by (auto simp: plain_def remember_cases) (simp add: appendDependency_def)

lemma answers_Done: "answers (Done (Inr v)) env q v"
  by (simp add: answers_def)

lemma answers_Input: "answers (k (env key)) env q v \<Longrightarrow> answers (InputP key k) env q v"
  unfolding answers_def
proof (intro allI impI)
  fix rd assume k: "\<forall>rd. plain rd \<longrightarrow> (\<exists>rd'. specRun (k (env key)) env q rd = Some (v, rd'))" and p: "plain rd"
  obtain rd1 where "remember rd \<lparr>dep_key = key, dep_query = False\<rparr> = (True, rd1)" "plain rd1" using plain_remember [OF p] by blast
  moreover have "authorised (rd_inputAuthority rd) key = Some key" using p by (simp add: plain_def authorised_def)
  ultimately show "\<exists>rd'. specRun (InputP key k) env q rd = Some (v, rd')" using k by simp
qed

lemma answers_Query: "q key = Some w \<Longrightarrow> answers (k (Inr w)) env q v \<Longrightarrow> answers (QueryP key k) env q v"
  unfolding answers_def
proof (intro allI impI)
  fix rd assume w: "q key = Some w" and k: "\<forall>rd. plain rd \<longrightarrow> (\<exists>rd'. specRun (k (Inr w)) env q rd = Some (v, rd'))" and p: "plain rd"
  obtain rd1 where "remember rd \<lparr>dep_key = key, dep_query = True\<rparr> = (True, rd1)" "plain rd1" using plain_remember [OF p] by blast
  moreover have "authorised (rd_queryAuthority rd) key = Some key" using p by (simp add: plain_def authorised_def)
  ultimately show "\<exists>rd'. specRun (QueryP key k) env q rd = Some (v, rd')" using k w by simp
qed

lemma answers_Context: "answers (k None) env q v \<Longrightarrow> answers (ContextP k) env q v"
  by (simp add: answers_def)

lemma answers_runsTo: "runsTo p p' \<Longrightarrow> answers p' env q v \<Longrightarrow> answers p env q v"
  by (simp add: answers_def runsTo_def)

subsection \<open>The graph that is read\<close>

lemma linkTargets_spec:
  assumes "\<forall>t \<in> set targets. \<exists>j < length reverse. ids t = Some j" "i < length edges"
  shows "\<exists>reverse'. linkTargets ids i targets edges reverse = Some (edges[i := edges ! i @ map (idOf ids) targets], reverse') \<and>
    length reverse' = length reverse \<and>
    (\<forall>v < length reverse. set (reverse' ! v) = set (reverse ! v) \<union> (if v \<in> idOf ids ` set targets then {i} else {}))"
  using assms
proof (induction targets arbitrary: edges reverse)
  case Nil
  then show ?case by simp
next
  case (Cons t targets)
  from Cons.prems obtain j where j: "ids t = Some j" "j < length reverse" "idOf ids t = j" by (auto simp: idOf_def)
  let ?E = "edges[i := edges ! i @ [j]]" and ?R = "reverse[j := reverse ! j @ [i]]"
  have "\<exists>R. linkTargets ids i targets ?E ?R = Some (?E[i := ?E ! i @ map (idOf ids) targets], R) \<and> length R = length ?R \<and>
    (\<forall>v < length ?R. set (R ! v) = set (?R ! v) \<union> (if v \<in> idOf ids ` set targets then {i} else {}))"
    by (rule Cons.IH) (use Cons.prems in auto)
  then obtain R where R: "linkTargets ids i targets ?E ?R = Some (?E[i := ?E ! i @ map (idOf ids) targets], R)" "length R = length reverse"
    "\<forall>v < length reverse. set (R ! v) = set (?R ! v) \<union> (if v \<in> idOf ids ` set targets then {i} else {})" by auto
  have "?E[i := ?E ! i @ map (idOf ids) targets] = edges[i := edges ! i @ map (idOf ids) (t # targets)]"
    using Cons.prems(2) j(3) by simp
  with R(1) j(1) have "linkTargets ids i (t # targets) edges reverse = Some (edges[i := edges ! i @ map (idOf ids) (t # targets)], R)" by simp
  moreover have "\<forall>v < length reverse. set (R ! v) = set (reverse ! v) \<union> (if v \<in> idOf ids ` set (t # targets) then {i} else {})"
    using R(3) j by (auto simp: nth_list_update)
  ultimately show ?case using R(2) by blast
qed

definition graphOf :: "string list \<Rightarrow> (string \<Rightarrow> string list) \<Rightarrow> graph" where
  "graphOf names targets = map (\<lambda>name. map (idOf (sccIds names)) (targets name)) names"

lemma graphOf_length [simp]: "length (graphOf names targets) = length names"
  by (simp add: graphOf_def)

lemma ids_in_range:
  assumes "strictNames names" "t \<in> set names" shows "\<exists>j < length names. sccIds names t = Some j \<and> names ! j = t"
proof -
  from assms(2) obtain j where j: "j < length names" "names ! j = t" by (auto simp: in_set_conv_nth)
  have "distinct names" using assms(1) by (simp add: strictNames_def strict_sorted_iff)
  then have "map_of (rev (zip names [0..<length names])) (names ! j) = Some j"
    using j(1) by (subst map_of_rev_distinct) (auto simp: map_of_zip_nth)
  with j show ?thesis by (auto simp: sccIds_def)
qed

lemma graphOf_closed:
  assumes "strictNames names" "\<forall>name \<in> set names. set (targets name) \<subseteq> set names"
  shows "closed (graphOf names targets)"
  unfolding closed_def
proof (intro allI impI ballI)
  fix u v assume u: "u < length (graphOf names targets)" and v: "v \<in> set (graphOf names targets ! u)"
  then obtain t where t: "t \<in> set (targets (names ! u))" "v = idOf (sccIds names) t" by (auto simp: graphOf_def)
  with assms(2) u have "t \<in> set names" by (auto dest: nth_mem)
  from ids_in_range [OF assms(1) this] t(2) show "v < length (graphOf names targets)" by (auto simp: idOf_def)
qed

lemma graphOf_arcs:
  assumes "strictNames names" "\<forall>name \<in> set names. set (targets name) \<subseteq> set names" "u < length names" "v < length names"
  shows "(u, v) \<in> arcs (graphOf names targets) \<longleftrightarrow> names ! v \<in> set (targets (names ! u))"
proof -
  have "idOf (sccIds names) t = v \<longleftrightarrow> t = names ! v" if t: "t \<in> set (targets (names ! u))" for t
  proof -
    have "t \<in> set names" using assms(2,3) t by (auto dest: nth_mem)
    with ids_in_range [OF assms(1)] obtain j where "j < length names" "sccIds names t = Some j" "names ! j = t" by blast
    with ids_names [OF assms(1,4)] show ?thesis by (auto simp: idOf_def)
  qed
  then have "t = names ! v" if "t \<in> set (targets (names ! u))" "v = idOf (sccIds names) t" for t using that by blast
  then have "v \<in> idOf (sccIds names) ` set (targets (names ! u)) \<longleftrightarrow> names ! v \<in> set (targets (names ! u))"
    using ids_names [OF assms(1,4)] by (metis (no_types, lifting) imageE rev_image_eqI)
  then show ?thesis using assms(3) by (simp add: arcs_def graphOf_def)
qed

text \<open>The lists after the first \<open>k\<close> nodes have been read.\<close>

lemma readAdjacency_answers:
  assumes names: "strictNames names" "\<forall>name \<in> set names. canonical (targets name) \<and> set (targets name) \<subseteq> set names"
    and env: "\<forall>name \<in> set names. env (sccEdges graph name) = (jencode (jsonStrings (targets name)), True)"
    and inv: "i \<le> length names" "length reverse = length names"
      "\<forall>w < length names. set (reverse ! w) = {u. u < i \<and> w \<in> set (graphOf names targets ! u)}"
    and budget: "total0 + (\<Sum>name\<leftarrow>drop i names. length (targets name)) \<le> 65536"
      "bytes + (\<Sum>name\<leftarrow>drop i names. length (jencode (jsonStrings (targets name)))) \<le> 16777216"
  shows "\<exists>reverse'. reverses (graphOf names targets) reverse' \<and> (\<forall>k q v. answers (k (graphOf names targets) reverse') env q v \<longrightarrow>
    answers (readAdjacency graph (sccIds names) (enumerate i (drop i names))
      (take i (graphOf names targets) @ replicate (length names - i) []) reverse total0 bytes k) env q v)"
  using inv budget
proof (induction "length names - i" arbitrary: i reverse total0 bytes)
  case 0
  then have "reverses (graphOf names targets) reverse" by (auto simp: reverses_def arcs_def)
  with 0 show ?case by (intro exI [of _ reverse]) simp
next
  case (Suc m)
  let ?g = "graphOf names targets" and ?ids = "sccIds names"
  have i: "i < length names" using Suc by simp
  let ?name = "names ! i" and ?edges = "take i ?g @ replicate (length names - i) []"
  have drop: "drop i names = ?name # drop (Suc i) names" using i by (simp add: Cons_nth_drop_Suc)
  have nm: "?name \<in> set names" using i by simp
  have can: "canonical (targets ?name)" "set (targets ?name) \<subseteq> set names" using names(2) nm by auto
  have row: "?g ! i = map (idOf ?ids) (targets ?name)" using i by (simp add: graphOf_def)
  have "\<forall>t \<in> set (targets ?name). \<exists>j < length reverse. ?ids t = Some j"
    using can(2) ids_in_range [OF names(1)] Suc.prems(2) by (metis subset_iff)
  moreover have "i < length ?edges" using i by simp
  ultimately obtain R where R: "linkTargets ?ids i (targets ?name) ?edges reverse = Some (?edges[i := ?edges ! i @ map (idOf ?ids) (targets ?name)], R)"
    "length R = length reverse" "\<forall>w < length reverse. set (R ! w) = set (reverse ! w) \<union> (if w \<in> idOf ?ids ` set (targets ?name) then {i} else {})"
    using linkTargets_spec [of "targets ?name" reverse ?ids i ?edges] by blast
  have rep: "replicate (length names - i) ([] :: nat list) = [] # replicate (length names - Suc i) []"
    using i by (metis Suc_diff_Suc replicate_Suc)
  have edges': "?edges[i := ?edges ! i @ map (idOf ?ids) (targets ?name)] = take (Suc i) ?g @ replicate (length names - Suc i) []"
    using i row by (simp add: rep list_update_append nth_append take_Suc_conv_app_nth)
  have inv': "\<forall>w < length names. set (R ! w) = {u. u < Suc i \<and> w \<in> set (?g ! u)}"
    using R(3) Suc.prems(2,3) row by (auto simp: less_Suc_eq)
  let ?rest = "\<lambda>k. readAdjacency graph ?ids (enumerate (Suc i) (drop (Suc i) names)) (take (Suc i) ?g @ replicate (length names - Suc i) []) R
     (total0 + length (targets ?name)) (bytes + length (jencode (jsonStrings (targets ?name)))) k"
  have "\<exists>reverse'. reverses ?g reverse' \<and> (\<forall>k q v. answers (k ?g reverse') env q v \<longrightarrow> answers (?rest k) env q v)"
    by (rule Suc.hyps(1)) (use Suc.hyps(2) i R(2) Suc.prems inv' drop in auto)
  then obtain R' where R': "reverses ?g R'" and go: "\<And>k q v. answers (k ?g R') env q v \<Longrightarrow> answers (?rest k) env q v" by blast
  have stored: "env (sccEdges graph ?name) = (jencode (jsonStrings (targets ?name)), True)" using env nm by blast
  have fits: "\<not> sccMaxBytes < bytes + length (jencode (jsonStrings (targets ?name)))" "\<not> sccMaxEdges < total0 + length (targets ?name)"
    using Suc.prems(4,5) drop by (auto simp: sccMaxBytes_def sccMaxEdges_def)
  show ?case
  proof (intro exI [of _ R'] conjI R' allI impI)
    fix k q v assume "answers (k ?g R') env q v"
    then have "answers (?rest k) env q v" by (rule go)
    then show "answers (readAdjacency graph ?ids (enumerate i (drop i names)) ?edges reverse total0 bytes k) env q v"
      unfolding drop enumerate_simps readAdjacency.simps
      by (intro answers_Context) (simp only: option.case, rule answers_Input,
        simp only: stored fits prod.case decode_canonical [OF can(1)] sum.case R(1) edges' option.case if_False not_True_eq_False)
  qed
qed

end
