(* ===== verification/IncSccPlan.thy ===== *)
theory IncSccPlan
  imports IncSccRead
begin

text \<open>
  What the plan of \<^verbatim>\<open>evaluateSCC\<close> means for the named graph, that the declared reservation covers
  its encoding, and that the projection query reads it back.
\<close>

subsection \<open>The named graph\<close>

definition nameArcs :: "string list \<Rightarrow> (string \<Rightarrow> string list) \<Rightarrow> (string \<times> string) set" where
  "nameArcs names targets = {(a, b). a \<in> set names \<and> b \<in> set (targets a)}"

definition sccPlanOk :: "string list \<Rightarrow> (string \<Rightarrow> string list) \<Rightarrow> SCCPlan \<Rightarrow> bool" where
  "sccPlanOk names targets plan \<longleftrightarrow>
     (let E = nameArcs names targets; cs = Components plan; ds = Dependencies plan in
      distinct (concat cs) \<and> set (concat cs) = set names \<and>
      (\<forall>members \<in> set cs. members \<noteq> [] \<and> sorted members \<and> (\<forall>a \<in> set members. set members = {b. (a, b) \<in> E\<^sup>* \<and> (b, a) \<in> E\<^sup>*})) \<and>
      sorted (map hd cs) \<and>
      length ds = length cs \<and>
      (\<forall>i < length cs. sorted (ds ! i) \<and> distinct (ds ! i) \<and>
         set (ds ! i) = {j. j < length cs \<and> j \<noteq> i \<and> (\<exists>a \<in> set (cs ! i). \<exists>b \<in> set (cs ! j). (a, b) \<in> E)}) \<and>
      distinct (Order plan) \<and> set (Order plan) = {..<length cs} \<and> dependsFirst ds (Order plan))"

lemma arcs_to_names:
  assumes names: "strictNames names" "\<forall>name \<in> set names. set (targets name) \<subseteq> set names"
  shows "u < length names \<Longrightarrow> v < length names \<Longrightarrow>
    (names ! u, names ! v) \<in> (nameArcs names targets)\<^sup>* \<longleftrightarrow> (u, v) \<in> (arcs (graphOf names targets))\<^sup>*"
proof
  assume "(u, v) \<in> (arcs (graphOf names targets))\<^sup>*" "u < length names"
  then show "(names ! u, names ! v) \<in> (nameArcs names targets)\<^sup>*"
  proof (induction rule: rtrancl_induct)
    case (step y z)
    have "y < length names" using arcs_bound [OF step(1) graphOf_closed [OF names]] step.prems by simp
    moreover from this have "z < length names" using step(2) graphOf_closed [OF names] by (auto simp: arcs_def closed_def)
    ultimately have "(names ! y, names ! z) \<in> nameArcs names targets"
      using graphOf_arcs [OF names] step(2) by (simp add: nameArcs_def)
    with step show ?case by (meson rtrancl.rtrancl_into_rtrancl)
  qed simp
next
  assume "(names ! u, names ! v) \<in> (nameArcs names targets)\<^sup>*" and u: "u < length names" and v: "v < length names"
  moreover have "\<exists>w < length names. b = names ! w \<and> (u, w) \<in> (arcs (graphOf names targets))\<^sup>*" if "(names ! u, b) \<in> (nameArcs names targets)\<^sup>*" for b
    using that
  proof (induction rule: rtrancl_induct)
    case base
    show ?case using u by blast
  next
    case (step y z)
    then obtain w where w: "w < length names" "y = names ! w" "(u, w) \<in> (arcs (graphOf names targets))\<^sup>*" by blast
    from step(2) have "z \<in> set (targets y)" "z \<in> set names" using names(2) by (auto simp: nameArcs_def)
    then obtain x where x: "x < length names" "z = names ! x" by (auto simp: in_set_conv_nth)
    with \<open>z \<in> set (targets y)\<close> w have "(w, x) \<in> arcs (graphOf names targets)" using graphOf_arcs [OF names] by simp
    with w(3) have "(u, x) \<in> (arcs (graphOf names targets))\<^sup>*" by (rule rtrancl_into_rtrancl)
    with x show ?case by blast
  qed
  ultimately obtain w where w: "w < length names" "names ! v = names ! w" "(u, w) \<in> (arcs (graphOf names targets))\<^sup>*" by blast
  have "w = v" using ids_names [OF names(1) w(1)] ids_names [OF names(1) v] w(2) by simp
  with w show "(u, v) \<in> (arcs (graphOf names targets))\<^sup>*" by simp
qed

lemma names_scc:
  assumes names: "strictNames names" "\<forall>name \<in> set names. set (targets name) \<subseteq> set names"
    and u: "u < length names" "set ms = sccOf (graphOf names targets) u" "set ms \<subseteq> {..<length names}"
  shows "(!) names ` set ms = {b. (names ! u, b) \<in> (nameArcs names targets)\<^sup>* \<and> (b, names ! u) \<in> (nameArcs names targets)\<^sup>*}"
proof (intro equalityI subsetI)
  fix b assume "b \<in> (!) names ` set ms"
  then obtain v where v: "b = names ! v" "v \<in> set ms" by blast
  have "v < length names" using v(2) u(3) by blast
  with v arcs_to_names [OF names] u show "b \<in> {b. (names ! u, b) \<in> (nameArcs names targets)\<^sup>* \<and> (b, names ! u) \<in> (nameArcs names targets)\<^sup>*}"
    by (simp add: sccOf_def)
next
  fix b assume "b \<in> {b. (names ! u, b) \<in> (nameArcs names targets)\<^sup>* \<and> (b, names ! u) \<in> (nameArcs names targets)\<^sup>*}"
  then have b: "(names ! u, b) \<in> (nameArcs names targets)\<^sup>*" "(b, names ! u) \<in> (nameArcs names targets)\<^sup>*" by blast+
  have "b \<in> set names" using b(1) u(1) names(2) by (induction rule: rtrancl_induct) (auto simp: nameArcs_def)
  then obtain v where v: "v < length names" "b = names ! v" by (auto simp: in_set_conv_nth)
  have "v \<in> set ms" unfolding u(2) sccOf_def using b v arcs_to_names [OF names] u(1) by simp
  with v(2) show "b \<in> (!) names ` set ms" by (rule image_eqI)
qed

lemma names_sorted:
  assumes "strictNames names" "sorted ms" "set ms \<subseteq> {..<length names}" shows "sorted (map ((!) names) ms)"
  unfolding sorted_map
  by (rule sorted_wrt_mono_rel [OF _ assms(2)]) (use names_mono [OF assms(1)] assms(3) in blast)

lemma names_cross:
  assumes names: "strictNames names" "\<forall>name \<in> set names. set (targets name) \<subseteq> set names"
    and cs: "\<forall>ms \<in> set cs. set ms \<subseteq> {..<length names}" and i: "i < length cs"
  shows "crossings (graphOf names targets) cs i =
    {j. j < length cs \<and> j \<noteq> i \<and> (\<exists>a \<in> set (namesOf names cs ! i). \<exists>b \<in> set (namesOf names cs ! j). (a, b) \<in> nameArcs names targets)}"
proof -
  have "(u, v) \<in> arcs (graphOf names targets) \<longleftrightarrow> (names ! u, names ! v) \<in> nameArcs names targets"
    if "u \<in> set (cs ! i)" "j < length cs" "v \<in> set (cs ! j)" for u v j
  proof -
    have "u < length names" "v < length names" using cs i that nth_mem by blast+
    then show ?thesis using graphOf_arcs [OF names] by (simp add: nameArcs_def)
  qed
  then have "(\<exists>u \<in> set (cs ! i). \<exists>v \<in> set (cs ! j). (u, v) \<in> arcs (graphOf names targets)) \<longleftrightarrow>
      (\<exists>a \<in> set (namesOf names cs ! i). \<exists>b \<in> set (namesOf names cs ! j). (a, b) \<in> nameArcs names targets)" if "j < length cs" for j
    using i that by (simp add: namesOf_def)
  then show ?thesis unfolding crossings_def by blast
qed

lemma planForD:
  assumes "planFor edges cs deps order"
  shows "sccParts edges cs" "set (concat cs) = {..<length edges}" "\<forall>ms \<in> set cs. sorted ms" "sorted (map hd cs)"
    "length deps = length cs" "\<forall>i < length cs. sorted (deps ! i) \<and> distinct (deps ! i) \<and> set (deps ! i) = crossings edges cs i"
    "distinct order" "set order = {..<length cs}" "dependsFirst deps order"
  using assms unfolding planFor_def orderedParts_def by blast+

lemma planFor_names:
  assumes names: "strictNames names" "\<forall>name \<in> set names. set (targets name) \<subseteq> set names"
    and plan: "planFor (graphOf names targets) cs deps order"
  shows "sccPlanOk names targets \<lparr>Components = namesOf names cs, Dependencies = deps, Order = order\<rparr>"
proof -
  let ?E = "nameArcs names targets" and ?g = "graphOf names targets"
  have parts: "sccParts ?g cs" "set (concat cs) = {..<length names}" "\<forall>ms \<in> set cs. sorted ms" "sorted (map hd cs)"
    using planForD [OF plan] by simp_all
  have range: "\<forall>ms \<in> set cs. set ms \<subseteq> {..<length names}" using parts(2) by auto
  have ne: "\<forall>ms \<in> set cs. ms \<noteq> []" using parts(1) by (simp add: sccParts_def)
  have inj: "inj_on ((!) names) {..<length names}" using ids_names [OF names(1)] by (metis inj_onI lessThan_iff)
  have "concat (namesOf names cs) = map ((!) names) (concat cs)" by (simp add: namesOf_def map_concat)
  moreover have "(!) names ` {..<length names} = set names" by (auto simp: set_conv_nth)
  ultimately have cat: "distinct (concat (namesOf names cs))" "set (concat (namesOf names cs)) = set names"
    using parts(1,2) inj by (simp_all add: sccParts_def distinct_map)
  have heads: "map hd (namesOf names cs) = map ((!) names) (map hd cs)" using ne by (simp add: namesOf_def hd_map)
  have "hd ms \<in> {..<length names}" if "ms \<in> set cs" for ms
    by (rule subsetD [OF bspec [OF range that]]) (use ne that in simp)
  then have "set (map hd cs) \<subseteq> {..<length names}" by auto
  then have hs: "sorted (map hd (namesOf names cs))" unfolding heads by (rule names_sorted [OF names(1) parts(4)])
  have members: "\<forall>members \<in> set (namesOf names cs). members \<noteq> [] \<and> sorted members \<and> (\<forall>a \<in> set members. set members = {b. (a, b) \<in> ?E\<^sup>* \<and> (b, a) \<in> ?E\<^sup>*})"
  proof
    fix members assume "members \<in> set (namesOf names cs)"
    then obtain ms where ms: "ms \<in> set cs" "members = map ((!) names) ms" by (auto simp: namesOf_def)
    have sub: "set ms \<subseteq> {..<length names}" using ms range by blast
    have "sorted members" unfolding ms(2) by (rule names_sorted [OF names(1) _ sub]) (use ms parts in blast)
    moreover have "members \<noteq> []" using ms ne by simp
    moreover have "set members = {b. (a, b) \<in> ?E\<^sup>* \<and> (b, a) \<in> ?E\<^sup>*}" if "a \<in> set members" for a
    proof -
      from that ms obtain u where u: "u \<in> set ms" "a = names ! u" by auto
      have "u < length names" "set ms = sccOf ?g u" using u sub parts(1) ms(1) by (auto simp: sccParts_def)
      from names_scc [OF names this sub] u ms(2) show ?thesis by simp
    qed
    ultimately show "members \<noteq> [] \<and> sorted members \<and> (\<forall>a \<in> set members. set members = {b. (a, b) \<in> ?E\<^sup>* \<and> (b, a) \<in> ?E\<^sup>*})" by blast
  qed
  have len: "length (namesOf names cs) = length cs" by (simp add: namesOf_def)
  have dd: "\<forall>i < length cs. sorted (deps ! i) \<and> distinct (deps ! i) \<and>
      set (deps ! i) = {j. j < length cs \<and> j \<noteq> i \<and> (\<exists>a \<in> set (namesOf names cs ! i). \<exists>b \<in> set (namesOf names cs ! j). (a, b) \<in> ?E)}"
  proof (intro allI impI)
    fix i assume i: "i < length cs"
    from planForD(6) [OF plan, rule_format, OF i] show "sorted (deps ! i) \<and> distinct (deps ! i) \<and>
      set (deps ! i) = {j. j < length cs \<and> j \<noteq> i \<and> (\<exists>a \<in> set (namesOf names cs ! i). \<exists>b \<in> set (namesOf names cs ! j). (a, b) \<in> ?E)}"
      unfolding names_cross [OF names range i] .
  qed
  show ?thesis unfolding sccPlanOk_def Let_def SCCPlan.simps len
    by (intro conjI cat members hs dd planForD(5,7,8,9) [OF plan])
qed

subsection \<open>The size of the encoding\<close>

lemma joinComma_length: "length (joinComma xs) \<le> (\<Sum>x\<leftarrow>xs. Suc (length x))"
  by (induction xs rule: joinComma.induct) auto

lemma joinComma_length_eq: "xs \<noteq> [] \<Longrightarrow> Suc (length (joinComma xs)) = (\<Sum>x\<leftarrow>xs. Suc (length x))"
  by (induction xs rule: joinComma.induct) auto

lemma strings_length: "length (jencode (jsonStrings names)) \<le> 2 + (\<Sum>x\<leftarrow>names. Suc (length (jsonQuote x)))"
  using joinComma_length [of "map jsonQuote names"] by (simp add: jsonStrings_def comp_def)

lemma strings_length_ge: "(\<Sum>x\<leftarrow>names. Suc (length (jsonQuote x))) \<le> length (jencode (jsonStrings names))"
  using joinComma_length_eq [of "map jsonQuote names"] by (cases "names = []") (simp_all add: jsonStrings_def comp_def)

lemma decimal_length: "n < 10 ^ Suc k \<Longrightarrow> length (decimal n) \<le> Suc k"
proof (induction k arbitrary: n)
  case (Suc k)
  show ?case
  proof (cases "n < 10")
    case False
    then have "length (decimal (n div 10)) \<le> Suc k" using Suc by (intro Suc.IH) auto
    with False show ?thesis by (subst decimal.simps) simp
  qed (subst decimal.simps, simp)
qed (subst decimal.simps, simp)

lemma ints_length: "\<forall>n \<in> set ns. n < 10000 \<Longrightarrow> length (jencode (jsonInts ns)) \<le> 2 + 5 * length ns"
proof -
  assume ns: "\<forall>n \<in> set ns. n < 10000"
  have "length (joinComma (map decimal ns)) \<le> (\<Sum>n\<leftarrow>ns. Suc (length (decimal n)))"
    using joinComma_length [of "map decimal ns"] by (simp add: comp_def)
  also have "\<dots> \<le> (\<Sum>n\<leftarrow>ns. 5)"
  proof (rule sum_list_mono)
    fix n assume "n \<in> set ns"
    then have "n < 10 ^ Suc 3" using ns by simp
    from decimal_length [OF this] show "Suc (length (decimal n)) \<le> 5" by simp
  qed
  finally show ?thesis by (simp add: jsonInts_def comp_def sum_list_triv)
qed

lemma array_length: "length (jencode (JArray (map f xs))) \<le> 2 + (\<Sum>x\<leftarrow>xs. Suc (length (jencode (f x))))"
  using joinComma_length [of "map (jencode \<circ> f) xs"] by (simp add: comp_def)

lemma sum_list_concat: "(\<Sum>xs\<leftarrow>xss. \<Sum>x\<leftarrow>xs. f x) = (\<Sum>x\<leftarrow>concat xss. f x)" for f :: "'a \<Rightarrow> nat"
  by (induction xss) auto

lemma components_length:
  assumes "distinct (concat cs)" "distinct names" "set (concat cs) = set names"
  shows "length (jencode (JArray (map jsonStrings cs))) \<le> 2 + 3 * length cs + length (jencode (jsonStrings names))"
proof -
  have "length (jencode (JArray (map jsonStrings cs))) \<le> 2 + (\<Sum>c\<leftarrow>cs. Suc (length (jencode (jsonStrings c))))" by (rule array_length)
  also have "\<dots> \<le> 2 + (\<Sum>c\<leftarrow>cs. 3 + (\<Sum>x\<leftarrow>c. Suc (length (jsonQuote x))))"
    using strings_length by (intro add_left_mono sum_list_mono) (simp add: numeral_3_eq_3)
  also have "\<dots> = 2 + 3 * length cs + (\<Sum>x\<leftarrow>concat cs. Suc (length (jsonQuote x)))"
    by (simp add: sum_list_addf sum_list_triv sum_list_concat [symmetric])
  also have "(\<Sum>x\<leftarrow>concat cs. Suc (length (jsonQuote x))) = (\<Sum>x\<leftarrow>names. Suc (length (jsonQuote x)))"
    using assms by (simp add: sum_list_distinct_conv_sum_set)
  finally show ?thesis using strings_length_ge [of names] by linarith
qed

lemma dependencies_length:
  assumes "\<forall>ds \<in> set deps. \<forall>d \<in> set ds. d < 10000"
  shows "length (jencode (JArray (map jsonInts deps))) \<le> 2 + 3 * length deps + 5 * (\<Sum>ds\<leftarrow>deps. length ds)"
proof -
  have "length (jencode (JArray (map jsonInts deps))) \<le> 2 + (\<Sum>ds\<leftarrow>deps. Suc (length (jencode (jsonInts ds))))" by (rule array_length)
  also have "\<dots> \<le> 2 + (\<Sum>ds\<leftarrow>deps. 3 + 5 * length ds)"
    using assms ints_length by (intro add_left_mono sum_list_mono) (simp add: numeral_3_eq_3)
  finally show ?thesis by (simp add: sum_list_addf sum_list_triv sum_list_const_mult)
qed

lemma plan_length:
  "length (jencode (planJson plan)) = 40 + length (jencode (JArray (map jsonStrings (Components plan)))) +
     length (jencode (JArray (map jsonInts (Dependencies plan)))) + length (jencode (jsonInts (Order plan)))"
proof -
  have q: "length (jsonQuote ''Components'') = 12" "length (jsonQuote ''Dependencies'') = 14" "length (jsonQuote ''Order'') = 7"
    by (code_simp)+
  show ?thesis by (simp add: planJson_def q del: jencode.simps(5))
qed

lemma length_concat_ge: "\<forall>ms \<in> set cs. ms \<noteq> [] \<Longrightarrow> length cs \<le> length (concat cs)"
proof (induction cs)
  case (Cons c cs)
  then have "1 \<le> length c" "length cs \<le> length (concat cs)" by (simp_all add: Suc_le_eq)
  then show ?case unfolding concat.simps length_append list.size(4) by linarith
qed simp

lemma crossings_card:
  assumes dist: "distinct (concat cs)" and i: "i < length cs"
  shows "card (crossings edges cs i) \<le> (\<Sum>u\<leftarrow>cs ! i. length (edges ! u))"
proof -
  let ?S = "set (concat (map (\<lambda>u. edges ! u) (cs ! i)))" and ?f = "\<lambda>v. THE j. j < length cs \<and> v \<in> set (cs ! j)"
  have "crossings edges cs i \<subseteq> ?f ` ?S"
  proof
    fix j assume "j \<in> crossings edges cs i"
    then obtain u v where j: "j < length cs" "u \<in> set (cs ! i)" "v \<in> set (cs ! j)" "(u, v) \<in> arcs edges" unfolding crossings_def by blast
    have "?f v = j"
    proof (rule the_equality)
      fix k assume "k < length cs \<and> v \<in> set (cs ! k)"
      then show "k = j" using parts_index [OF dist _ j(1) _ j(3)] by blast
    qed (use j in simp)
    moreover have "v \<in> ?S" using j by (auto simp: arcs_def)
    ultimately show "j \<in> ?f ` ?S" by (rule image_eqI [OF sym])
  qed
  then have "card (crossings edges cs i) \<le> card (?f ` ?S)" by (intro card_mono) auto
  also have "\<dots> \<le> card ?S" by (rule card_image_le) simp
  also have "\<dots> \<le> length (concat (map (\<lambda>u. edges ! u) (cs ! i)))" by (rule card_length)
  finally show ?thesis by (simp add: length_concat comp_def)
qed

lemma sum_list_nth: "(\<Sum>x\<leftarrow>xs. f x) = (\<Sum>i\<leftarrow>[0..<length xs]. f (xs ! i))" for f :: "'a \<Rightarrow> nat"
  by (metis (no_types, lifting) map_map map_nth comp_apply map_eq_conv)

lemma dependencies_total:
  assumes plan: "planFor edges cs deps order"
  shows "(\<Sum>ds\<leftarrow>deps. length ds) \<le> (\<Sum>row\<leftarrow>edges. length row)" "(\<Sum>ds\<leftarrow>deps. length ds) \<le> length edges * length edges"
    "length cs \<le> length edges"
proof -
  have dist: "distinct (concat cs)" and ne: "\<forall>ms \<in> set cs. ms \<noteq> []" using planForD(1) [OF plan] by (simp_all add: sccParts_def)
  have "length (concat cs) = card (set (concat cs))" by (rule distinct_card [OF dist, symmetric])
  then have n: "length (concat cs) = length edges" unfolding planForD(2) [OF plan] by simp
  then show few: "length cs \<le> length edges" using length_concat_ge [OF ne] by simp
  have card: "length (deps ! i) = card (crossings edges cs i)" if "i < length cs" for i
    using planForD(6) [OF plan] that by (metis distinct_card)
  have "(\<Sum>ds\<leftarrow>deps. length ds) = (\<Sum>i\<leftarrow>[0..<length cs]. length (deps ! i))" using planForD(5) [OF plan] sum_list_nth [of length deps] by simp
  also have "\<dots> \<le> (\<Sum>i\<leftarrow>[0..<length cs]. \<Sum>u\<leftarrow>cs ! i. length (edges ! u))"
    using crossings_card [OF dist] card by (intro sum_list_mono) simp
  also have "\<dots> = (\<Sum>c\<leftarrow>cs. \<Sum>u\<leftarrow>c. length (edges ! u))" by (rule sum_list_nth [symmetric])
  also have "\<dots> = (\<Sum>u\<leftarrow>concat cs. length (edges ! u))" by (rule sum_list_concat)
  also have "\<dots> = (\<Sum>u\<leftarrow>[0..<length edges]. length (edges ! u))"
    using dist planForD(2) [OF plan] by (simp add: sum_list_distinct_conv_sum_set lessThan_atLeast0)
  also have "\<dots> = (\<Sum>row\<leftarrow>edges. length row)" by (rule sum_list_nth [symmetric])
  finally show "(\<Sum>ds\<leftarrow>deps. length ds) \<le> (\<Sum>row\<leftarrow>edges. length row)" .
  have "(\<Sum>i\<leftarrow>[0..<length cs]. length (deps ! i)) \<le> (\<Sum>i\<leftarrow>[0..<length cs]. length edges)"
  proof (rule sum_list_mono)
    fix i assume "i \<in> set [0..<length cs]"
    then have "length (deps ! i) = card (crossings edges cs i)" using card by simp
    also have "\<dots> \<le> card {..<length cs}" by (rule card_mono) (auto simp: crossings_def)
    finally show "length (deps ! i) \<le> length edges" using few by simp
  qed
  also have "\<dots> \<le> length edges * length edges" using few by (simp add: sum_list_triv)
  finally show "(\<Sum>ds\<leftarrow>deps. length ds) \<le> length edges * length edges"
    using planForD(5) [OF plan] sum_list_nth [of length deps] by simp
qed

lemma plan_fits:
  assumes names: "canonical names" and plan: "planFor (graphOf names targets) cs deps order"
    and total: "(\<Sum>name\<leftarrow>names. length (targets name)) \<le> 65536"
    and ok: "sccPlanOk names targets \<lparr>Components = namesOf names cs, Dependencies = deps, Order = order\<rparr>"
  shows "length (jencode (planJson \<lparr>Components = namesOf names cs, Dependencies = deps, Order = order\<rparr>)) \<le> outputReservation names"
proof -
  note few = dependencies_total [OF plan, unfolded graphOf_length]
  have n: "length names \<le> 4096" "distinct names" using names by (simp_all add: canonical_def strictNames_def strict_sorted_iff)
  have len: "length deps = length cs" "length (namesOf names cs) = length cs" using planForD(5) [OF plan] by (simp_all add: namesOf_def)
  have D: "(\<Sum>ds\<leftarrow>deps. length ds) \<le> min 65536 (length names * length names)"
    using few(1,2) total by (simp add: graphOf_def comp_def)
  have c: "length (jencode (JArray (map jsonStrings (namesOf names cs)))) \<le> 2 + 3 * length cs + length (jencode (jsonStrings names))"
    using components_length [of "namesOf names cs" names] ok n(2) len(2) by (simp add: sccPlanOk_def Let_def)
  have "\<forall>ds \<in> set deps. \<forall>d \<in> set ds. d < 10000"
  proof (intro ballI)
    fix ds d assume "ds \<in> set deps" "d \<in> set ds"
    then obtain i where "i < length cs" "d \<in> set (deps ! i)" using len(1) by (auto simp: in_set_conv_nth)
    then have "d \<in> crossings (graphOf names targets) cs i" using planForD(6) [OF plan] by blast
    then have "d < length cs" by (simp add: crossings_def)
    with few(3) n(1) show "d < 10000" by simp
  qed
  from dependencies_length [OF this] have d: "length (jencode (JArray (map jsonInts deps))) \<le> 2 + 3 * length cs + 5 * (\<Sum>ds\<leftarrow>deps. length ds)"
    using len(1) by simp
  have "length order = length cs" using planForD(7,8) [OF plan] by (metis card_lessThan distinct_card)
  moreover have "\<forall>d \<in> set order. d < 10000" using planForD(8) [OF plan] few(3) n(1) by auto
  ultimately have o: "length (jencode (jsonInts order)) \<le> 2 + 5 * length cs" using ints_length by metis
  show ?thesis unfolding plan_length SCCPlan.simps outputReservation_def using c d o D few(3) by linarith
qed

subsection \<open>The query\<close>

definition published :: "snapshot \<Rightarrow> Publication \<Rightarrow> bool" where
  "published env pub \<longleftrightarrow> (\<forall>c \<in> set (pub_Inputs pub). env (ch_Key c) = (ch_Value c, True))"

lemma evaluateSCC_answers:
  assumes pub: "SCCPublication graph adjacency = Inr pub" "gomap_ok adjacency" and env: "published env pub"
  shows "\<exists>plan. sccPlanOk (sort (map fst adjacency)) (targetsOf adjacency) plan \<and>
    length (jencode (planJson plan)) \<le> outputReservation (sort (map fst adjacency)) \<and>
    outputReservation (sort (map fst adjacency)) \<le> 16777216 \<and> length (Components plan) \<le> 4096 \<and>
    list_all validSCCIdentity (concat (Components plan)) \<and>
    answers (evaluateSCC graph) env q (jencode (planJson plan))"
proof -
  define names targets where "names = sort (map fst adjacency)" and "targets = targetsOf adjacency"
  note P = SCCPublication_spec [OF pub, folded names_def targets_def]
  let ?g = "graphOf names targets" and ?n = "length names"
  have strict: "strictNames names" using P(2) by (simp add: canonical_def)
  have sub: "\<forall>name \<in> set names. set (targets name) \<subseteq> set names" using P(3) by blast
  have cl: "closed ?g" by (rule graphOf_closed [OF strict sub])
  have inv: "env (sccInventory graph) = (jencode (jsonStrings names), True)" using env P(4) by (simp add: published_def)
  have edges: "\<forall>name \<in> set names. env (sccEdges graph name) = (jencode (jsonStrings (targets name)), True)"
    using env P(4) by (auto simp: published_def edgeChange_def targets_def)
  have ln: "length names = length ?g" by simp
  have step: "\<exists>cs deps order. finishSCC names (sccIds names) ?g reverse post = Inr \<lparr>Components = namesOf names cs, Dependencies = deps, Order = order\<rparr> \<and>
      planFor ?g cs deps order" if rev: "reverses ?g reverse" and post: "set post = {..<?n}" "finishes ?g post" for reverse post
  proof -
    have "marked (replicate ?n False) = {}" by (auto simp: marked_def)
    then have "\<exists>mss. gatherComponents names reverse (replicate ?n False) (rev post) [] = Some (map (\<lambda>ms. sort (map ((!) names) ms)) mss) \<and>
      sccParts ?g mss \<and> set (concat mss) = {..<length ?g}"
      by (intro gatherComponents_spec [OF cl rev ln _ post(2), where dn = "[]" and mss = "[]"]) (use post in \<open>auto simp: sccClosed_def sccParts_def\<close>)
    then obtain mss where "gatherComponents names reverse (replicate ?n False) (rev post) [] = Some (map (\<lambda>ms. sort (map ((!) names) ms)) mss)"
      "sccParts ?g mss" "set (concat mss) = {..<length ?g}" by blast
    with planComponents_correct [OF strict ln cl this(2,3)] show ?thesis by (simp add: finishSCC_def)
  qed
  have "\<exists>reverse. reverses ?g reverse \<and> (\<forall>k q v. answers (k ?g reverse) env q v \<longrightarrow>
      answers (readAdjacency graph (sccIds names) (enumerate 0 (drop 0 names)) (take 0 ?g @ replicate (length names - 0) [])
        (replicate ?n []) 0 (length (jencode (jsonStrings names))) k) env q v)"
    by (rule readAdjacency_answers [OF strict P(3) edges]) (use P(5,6) in auto)
  then obtain reverse where rev: "reverses ?g reverse" and go: "\<And>k q v. answers (k ?g reverse) env q v \<Longrightarrow>
      answers (readAdjacency graph (sccIds names) (enumerate 0 names) (replicate ?n []) (replicate ?n []) 0 (length (jencode (jsonStrings names))) k) env q v"
    by auto
  let ?k = "\<lambda>edges reverse post. Done (encodePlan (finishSCC names (sccIds names) edges reverse post))"
  from dfs_finishes [OF cl, of ?n "?k ?g reverse"] obtain post where post: "set post = {..<?n}" "finishes ?g post"
    and run: "runsTo (dfsRoots ?g (replicate ?n False) [] [0..<?n] (?k ?g reverse)) (?k ?g reverse post)" by auto
  from step [OF rev post] obtain cs deps order where
    fin: "finishSCC names (sccIds names) ?g reverse post = Inr \<lparr>Components = namesOf names cs, Dependencies = deps, Order = order\<rparr>"
    and plan: "planFor ?g cs deps order" by blast
  let ?plan = "\<lparr>Components = namesOf names cs, Dependencies = deps, Order = order\<rparr>"
  have ok: "sccPlanOk names targets ?plan" by (rule planFor_names [OF strict sub plan])
  have fits: "length (jencode (planJson ?plan)) \<le> outputReservation names" by (rule plan_fits [OF P(2) plan P(5) ok])
  then have "encodePlan (finishSCC names (sccIds names) ?g reverse post) = Inr (jencode (planJson ?plan))"
    using P(7) by (simp add: fin encodePlan_def Let_def sccMaxBytes_def)
  then have "answers (?k ?g reverse post) env q (jencode (planJson ?plan))" by (simp add: answers_Done)
  from go [where k = "\<lambda>edges reverse. dfsRoots edges (replicate ?n False) [] [0..<?n] (?k edges reverse)", OF answers_runsTo [OF run this]] have ans: "answers (evaluateSCC graph) env q (jencode (planJson ?plan))"
    unfolding evaluateSCC_def using P(1) by (auto intro!: answers_Input simp: inv decode_canonical [OF P(2)] Let_def)
  have "length cs \<le> 4096" using dependencies_total(3) [OF plan] P(2) by (simp add: canonical_def)
  moreover have "list_all validSCCIdentity (concat (namesOf names cs))"
    using ok P(2) by (simp add: sccPlanOk_def Let_def canonical_def list_all_iff)
  moreover have "length (Components ?plan) = length cs" by (simp add: namesOf_def)
  ultimately show ?thesis using ok fits P(7) ans
    unfolding names_def [symmetric] targets_def [symmetric] by (intro exI [of _ ?plan]) simp
qed

subsection \<open>The projection\<close>

lemma decimal_value: "foldl (\<lambda>n c. n * 10 + (int (byteVal c) - 48)) 0 (decimal n) = int n"
proof (induction n rule: decimal.induct)
  case (1 n)
  show ?case
  proof (cases "n < 10")
    case True
    then show ?thesis by (subst decimal.simps) simp
  next
    case False
    have "n mod 10 < 10" by simp
    with False 1 show ?thesis by (subst decimal.simps) (simp add: zdiv_int zmod_int)
  qed
qed

lemma parseInt64_decimal: "n < 9223372036854775808 \<Longrightarrow> parseInt64 (decimal n) = Some (int n)"
proof -
  assume n: "n < 9223372036854775808"
  obtain c cs where c: "decimal n = c # cs" by (metis decimal_ne neq_Nil_conv)
  have digits: "list_all isNumeral (decimal n)" using decimal_digits by (simp add: list_all_iff)
  then have "c \<noteq> CHR ''-''" using c by (auto simp: isNumeral_def)
  then have "take 1 (decimal n) \<noteq> ''-''" by (simp add: c)
  with digits decimal_value [of n] n show ?thesis by (simp add: parseInt64_def Let_def)
qed

lemma unmarshal_ints: "\<forall>n \<in> set ns. n < 9223372036854775808 \<Longrightarrow> unmarshalSlice unmarshalInt (jsonInts ns) = Some (Some (map int ns))"
proof -
  assume ns: "\<forall>n \<in> set ns. n < 9223372036854775808"
  have "map (\<lambda>n. unmarshalInt (JNumber (decimal n))) ns = map Some (map int ns)"
    using ns by (simp add: unmarshalInt_def parseInt64_decimal)
  then have "collectOptions (map (\<lambda>n. unmarshalInt (JNumber (decimal n))) ns) = Some (map int ns)"
    by (simp only: collectOptions_Some)
  then show ?thesis by (simp add: unmarshalSlice_def jsonInts_def comp_def)
qed

lemma unmarshal_slices:
  assumes "\<And>x. x \<in> set xs \<Longrightarrow> f (g x) = Some (h x)"
  shows "unmarshalSlice f (JArray (map g xs)) = Some (Some (map h xs))"
proof -
  have "map (\<lambda>x. f (g x)) xs = map Some (map h xs)" using assms by simp
  then have "collectOptions (map (\<lambda>x. f (g x)) xs) = Some (map h xs)" by (simp only: collectOptions_Some)
  then show ?thesis by (simp add: unmarshalSlice_def comp_def)
qed

lemma plan_fields:
  "fieldOf ''Components'' [(''Components'', a), (''Dependencies'', b), (''Order'', c)] = Some a"
  "fieldOf ''Dependencies'' [(''Components'', a), (''Dependencies'', b), (''Order'', c)] = Some b"
  "fieldOf ''Order'' [(''Components'', a), (''Dependencies'', b), (''Order'', c)] = Some c"
  by (simp_all add: fieldOf_def)

definition planNumbersOk :: "SCCPlan \<Rightarrow> bool" where
  "planNumbersOk plan \<longleftrightarrow> (\<forall>ds \<in> set (Order plan # Dependencies plan). \<forall>d \<in> set ds. d < 9223372036854775808) \<and>
     (\<forall>c \<in> set (Components plan). \<forall>name \<in> set c. validString name)"

lemma unmarshal_plan:
  assumes "planNumbersOk plan"
  shows "unmarshalPlan (planJson plan) = Some \<lparr>dp_Components = Some (map Some (Components plan)),
    dp_Dependencies = Some (map (\<lambda>ds. Some (map int ds)) (Dependencies plan)), dp_Order = Some (map int (Order plan))\<rparr>"
proof -
  have "unmarshalSlice (unmarshalSlice unmarshalString) (JArray (map jsonStrings (Components plan))) = Some (Some (map Some (Components plan)))"
    by (rule unmarshal_slices) (rule unmarshal_strings)
  moreover have "unmarshalSlice (unmarshalSlice unmarshalInt) (JArray (map jsonInts (Dependencies plan))) =
      Some (Some (map (\<lambda>ds. Some (map int ds)) (Dependencies plan)))"
    by (rule unmarshal_slices) (use assms in \<open>auto simp: planNumbersOk_def intro!: unmarshal_ints\<close>)
  moreover have "unmarshalSlice unmarshalInt (jsonInts (Order plan)) = Some (Some (map int (Order plan)))"
    using assms by (intro unmarshal_ints) (simp add: planNumbersOk_def)
  ultimately show ?thesis unfolding planJson_def unmarshalPlan_def json.case plan_fields unmarshalField_def option.case prod.case by simp
qed

lemma clean_ints: "clean (jsonInts ns) \<and> depth (jsonInts ns) \<le> 1"
proof -
  have "fold max (map depth (map (\<lambda>n. JNumber (decimal n)) ns)) 0 \<le> 0" unfolding fold_max_le by auto
  then show ?thesis by (auto simp: jsonInts_def list_all_iff)
qed

lemma clean_array: "\<forall>x \<in> set xs. clean (f x) \<and> depth (f x) \<le> 1 \<Longrightarrow> clean (JArray (map f xs)) \<and> depth (JArray (map f xs)) \<le> 2"
proof -
  assume xs: "\<forall>x \<in> set xs. clean (f x) \<and> depth (f x) \<le> 1"
  then have "fold max (map depth (map f xs)) 0 \<le> 1" unfolding fold_max_le by auto
  with xs show ?thesis by (simp add: list_all_iff)
qed

lemma plan_roundtrip:
  assumes "planNumbersOk plan" shows "jsonParse (jencode (planJson plan)) = Some (planJson plan)"
proof (rule json_roundtrip)
  have c: "clean (JArray (map jsonStrings (Components plan))) \<and> depth (JArray (map jsonStrings (Components plan))) \<le> 2"
    by (rule clean_array) (use assms clean_strings in \<open>simp add: planNumbersOk_def\<close>)
  have d: "clean (JArray (map jsonInts (Dependencies plan))) \<and> depth (JArray (map jsonInts (Dependencies plan))) \<le> 2"
    by (rule clean_array) (use clean_ints in blast)
  have v: "validString ''Components''" "validString ''Dependencies''" "validString ''Order''" by (rule validString_ascii_all, simp)+
  show "clean (planJson plan)" using c d v clean_ints by (simp add: planJson_def)
  have "depth (planJson plan) \<le> 3" using c d clean_ints [of "Order plan"] by (simp add: planJson_def)
  then show "depth (planJson plan) \<le> 10000" by simp
qed

end
