(* ===== verification/IncSccProps.thy ===== *)
theory IncSccProps
  imports IncSccPlan IncDatabaseProps "HOL-Library.Code_Target_Nat"
begin

text \<open>
  What the component queries promise to a client of the database: the plan of a published graph,
  the projection of one node, and the canonical encoding both rest on.
\<close>

subsection \<open>Evaluation\<close>

lemma SCCEvaluators_ok: "gomap_ok SCCEvaluators"
  by (simp add: SCCEvaluators_def SCCQueryKind_def SCCComponentQueryKind_def)

lemma SCCEvaluators_lookup:
  "evalMap SCCEvaluators SCCQueryKind = Some evaluateSCC" "evalMap SCCEvaluators SCCComponentQueryKind = Some evaluateSCCComponent"
  by (simp_all add: evalMap_def SCCEvaluators_def SCCQueryKind_def SCCComponentQueryKind_def)

definition successors :: "(string, string list) gomap \<Rightarrow> string \<Rightarrow> string list" where
  "successors adjacency node = (case map_of adjacency node of None \<Rightarrow> [] | Some ts \<Rightarrow> ts)"

lemma sccPlanOk_adjacency:
  "sccPlanOk (sort (map fst adjacency)) (targetsOf adjacency) plan = sccPlanOk (map fst adjacency) (successors adjacency) plan"
proof -
  have "nameArcs (sort (map fst adjacency)) (targetsOf adjacency) = nameArcs (map fst adjacency) (successors adjacency)"
    by (simp add: nameArcs_def targetsOf_spec(2) successors_def)
  then show ?thesis by (simp add: sccPlanOk_def)
qed

lemma plan_specEval:
  assumes "SCCPublication graph adjacency = Inr pub" "gomap_ok adjacency" "published env pub"
  shows "\<exists>plan deps. sccPlanOk (map fst adjacency) (successors adjacency) plan \<and> int (length (jencode (planJson plan))) \<le> pub_MaxResultBytes pub \<and>
    pub_MaxResultBytes pub \<le> 16777216 \<and> length (Components plan) \<le> 4096 \<and> list_all validSCCIdentity (concat (Components plan)) \<and>
    pub_Key pub = \<lparr>Kind = SCCQueryKind, Name = graph\<rparr> \<and>
    specEval 1 (evalMap SCCEvaluators) env (pub_Key pub) = Some (jencode (planJson plan), deps)"
proof -
  let ?q = "\<lambda>k. map_option fst (specEval 0 (evalMap SCCEvaluators) env k)"
  from evaluateSCC_answers [OF assms, of ?q] obtain plan where plan: "sccPlanOk (map fst adjacency) (successors adjacency) plan"
    "length (jencode (planJson plan)) \<le> outputReservation (sort (map fst adjacency))" "outputReservation (sort (map fst adjacency)) \<le> 16777216"
    "length (Components plan) \<le> 4096" "list_all validSCCIdentity (concat (Components plan))"
    and ans: "answers (evaluateSCC graph) env ?q (jencode (planJson plan))"
    unfolding sccPlanOk_adjacency by blast
  from ans obtain rd where rd: "specRun (evaluateSCC graph) env ?q newReader = Some (jencode (planJson plan), rd)"
    unfolding answers_def by (meson plain_newReader)
  have "specEval (Suc 0) (evalMap SCCEvaluators) env (pub_Key pub) = Some (jencode (planJson plan), rd_dependencies rd)"
    using rd by (simp only: SCCPublication_spec(4) [OF assms(1,2)] Publication.simps specEval.simps Key.simps SCCEvaluators_lookup option.case) simp
  with plan show ?thesis
    by (intro exI [of _ plan] exI [of _ "rd_dependencies rd"]) (simp add: SCCPublication_spec(4) [OF assms(1,2)])
qed

subsection \<open>The projection\<close>

definition componentJson :: "SCCPlan \<Rightarrow> nat \<Rightarrow> json" where
  "componentJson plan i = JObject [(''Members'', jsonStrings (Components plan ! i)),
     (''Dependencies'', JArray (map (\<lambda>d. jsonStrings (Components plan ! d)) (Dependencies plan ! i)))]"

lemma escape_length: "validString s \<Longrightarrow> length (escapeString s) \<le> 6 * length s"
proof (induction s rule: validString_induct)
  case (ascii c t)
  have "length (escapeByte c) \<le> 6" by (simp add: escapeByte_def hexRune_def)
  with ascii show ?case by (simp add: escape_ascii)
next
  case (wide r t)
  have "1 \<le> length (encodeRune r)" by (simp add: Suc_le_eq)
  then have "length (if r = 0x2028 \<or> r = 0x2029 then hexRune r else encodeRune r) \<le> 6 * length (encodeRune r)"
    by (simp add: hexRune_def)
  with wide show ?case by (simp add: escape_wide [OF wide(1,2)] del: if_distrib)
qed simp

lemma pair_length: "validSCCIdentity a \<Longrightarrow> validSCCIdentity b \<Longrightarrow> length (jencode (jsonStrings [a, b])) \<le> 786464"
proof -
  assume "validSCCIdentity a" "validSCCIdentity b"
  then have "length a \<le> 65536" "length b \<le> 65536" "length (escapeString a) \<le> 6 * length a" "length (escapeString b) \<le> 6 * length b"
    using escape_length by (auto simp: validSCCIdentity_def)
  moreover have "length (jencode (jsonStrings [a, b])) = length (escapeString a) + length (escapeString b) + 7"
    by (simp add: jsonStrings_def jsonQuote_def)
  ultimately show ?thesis by linarith
qed

lemma pair_roundtrip:
  assumes "validSCCIdentity a" "validSCCIdentity b"
  shows "Option.bind (jsonParse (jencode (jsonStrings [a, b]))) unmarshalPair = Some (a, b)"
proof -
  have v: "\<forall>x \<in> set [a, b]. validString x" using assms by (simp add: validSCCIdentity_def)
  have "jsonParse (jencode (jsonStrings [a, b])) = Some (jsonStrings [a, b])"
    by (rule json_roundtrip) (use clean_strings [OF v] in auto)
  then show ?thesis by (simp add: unmarshalPair_def jsonStrings_def unmarshalString_def)
qed

lemma concat_index:
  "distinct (concat cs) \<Longrightarrow> i < length cs \<Longrightarrow> j < length cs \<Longrightarrow> x \<in> set (cs ! i) \<Longrightarrow> x \<in> set (cs ! j) \<Longrightarrow> i = j"
proof (induction cs arbitrary: i j)
  case (Cons c cs)
  have out: "x \<notin> set c" if "k < length cs" "x \<in> set (cs ! k)" for k
  proof -
    have "x \<in> set (concat cs)" using that by (auto intro: nth_mem)
    then show ?thesis using Cons.prems(1) by auto
  qed
  show ?case
  proof (cases i; cases j)
    fix i' j' assume "i = Suc i'" "j = Suc j'"
    with Cons show ?thesis by simp
  qed (use Cons.prems out in auto)
qed simp

lemma find_enumerate:
  assumes "i < length xs" "P (xs ! i)" "\<forall>j < length xs. P (xs ! j) \<longrightarrow> j = i"
  shows "find (\<lambda>(j, x). P x) (enumerate 0 xs) = Some (i, xs ! i)"
proof -
  have "find (\<lambda>(j, x). P x) (enumerate 0 xs) = Some (enumerate 0 xs ! i)"
    unfolding find_Some_iff
  proof (intro exI [of _ i] conjI allI impI)
    fix j assume "j < i"
    then have "j < length xs" using assms(1) by simp
    then have "P (xs ! j) \<Longrightarrow> j = i" using assms(3) by blast
    then have "\<not> P (xs ! j)" using \<open>j < i\<close> by blast
    then show "\<not> (case enumerate 0 xs ! j of (j, x) \<Rightarrow> P x)" using assms(1) \<open>j < i\<close> by (simp add: nth_enumerate_eq)
  qed (use assms(1,2) in \<open>simp_all add: nth_enumerate_eq\<close>)
  then show ?thesis using assms(1) by (simp add: nth_enumerate_eq)
qed

lemma projectPlan_correct:
  assumes ok: "sccPlanOk names targets plan" and i: "i < length (Components plan)" "node \<in> set (Components plan ! i)"
  shows "projectPlan \<lparr>dp_Components = Some (map Some (Components plan)), dp_Dependencies = Some (map (\<lambda>ds. Some (map int ds)) (Dependencies plan)),
      dp_Order = Some (map int (Order plan))\<rparr> node =
    (if length (jencode (componentJson plan i)) > 65536 then Inl (ErrOther ''SCC component exceeds budget'')
     else Inr (jencode (componentJson plan i)))"
proof -
  let ?cs = "Components plan" and ?ds = "Dependencies plan"
  have dist: "distinct (concat ?cs)" and len: "length ?ds = length ?cs" and deps: "\<forall>d \<in> set (?ds ! i). d < length ?cs"
    using ok i(1) unfolding sccPlanOk_def Let_def by blast+
  have uniq: "j = i" if "j < length ?cs" "node \<in> set (?cs ! j)" for j
    by (rule concat_index [OF dist that(1) i(1) that(2) i(2)])
  have "find (\<lambda>(j, members). node \<in> set (elems members)) (enumerate 0 (map Some ?cs)) = Some (i, map Some ?cs ! i)"
  proof (rule find_enumerate [where P = "\<lambda>members. node \<in> set (elems members)"])
    show "\<forall>j < length (map Some ?cs). node \<in> set (elems (map Some ?cs ! j)) \<longrightarrow> j = i"
    proof (intro allI impI)
      fix j assume j: "j < length (map Some ?cs)" "node \<in> set (elems (map Some ?cs ! j))"
      show "j = i" by (rule uniq) (use j in \<open>simp_all add: elems_def\<close>)
    qed
  qed (use i in \<open>simp_all add: elems_def\<close>)
  moreover have "dependencySlices (map Some ?cs) (map int (?ds ! i)) = Some (map (\<lambda>d. Some (?cs ! d)) (?ds ! i))"
    using deps by (auto simp: dependencySlices_def list_ex_iff)
  ultimately show ?thesis using i(1) len
    by (simp add: projectPlan_def elems_def Let_def componentJson_def jsonSlice_def comp_def sccComponentMaxBytes_def)
qed

lemma planNumbersOk_plan:
  assumes ok: "sccPlanOk names targets plan" and few: "length (Components plan) \<le> 4096" "list_all validSCCIdentity (concat (Components plan))"
  shows "planNumbersOk plan"
proof -
  have len: "length (Dependencies plan) = length (Components plan)"
    and deps: "\<And>i d. i < length (Components plan) \<Longrightarrow> d \<in> set (Dependencies plan ! i) \<Longrightarrow> d < length (Components plan)"
    and ord: "set (Order plan) = {..<length (Components plan)}"
    using ok unfolding sccPlanOk_def Let_def by blast+
  have "d < 9223372036854775808" if "ds \<in> set (Order plan # Dependencies plan)" "d \<in> set ds" for ds d
  proof -
    have "d < length (Components plan)"
    proof (cases "ds = Order plan")
      case True
      with that(2) ord show ?thesis by blast
    next
      case False
      with that(1) have "ds \<in> set (Dependencies plan)" by simp
      then obtain i where i: "i < length (Components plan)" "ds = Dependencies plan ! i" unfolding in_set_conv_nth len by blast
      with deps [OF i(1)] that(2) show ?thesis by blast
    qed
    with few(1) show ?thesis by linarith
  qed
  moreover have "\<forall>c \<in> set (Components plan). \<forall>name \<in> set c. validString name"
    using few(2) by (auto simp: list_all_iff validSCCIdentity_def)
  ultimately show ?thesis unfolding planNumbersOk_def by blast
qed

text \<open>What the projection returns for component \<open>i\<close>: its encoding, unless that is too large.\<close>

definition componentResult :: "SCCPlan \<Rightarrow> nat \<Rightarrow> error + string" where
  "componentResult plan i =
     (if length (jencode (componentJson plan i)) \<le> 65536 then Inr (jencode (componentJson plan i))
      else Inl (ErrOther ''SCC component exceeds budget''))"

lemma component_run:
  assumes ids: "validSCCIdentity graph" "validSCCIdentity node"
    and plan: "sccPlanOk names targets plan" "planNumbersOk plan" "length (jencode (planJson plan)) \<le> 16777216"
    and i: "i < length (Components plan)" "node \<in> set (Components plan ! i)"
  shows "\<exists>k. evaluateSCCComponent (jencode (jsonStrings [graph, node])) = QueryP \<lparr>Kind = SCCQueryKind, Name = graph\<rparr> k \<and>
    k (Inr (jencode (planJson plan))) = Done (componentResult plan i)"
proof -
  let ?k = "\<lambda>answer. case answer of Inl err \<Rightarrow> Done (Inl err)
     | Inr encoded \<Rightarrow> if length encoded > sccMaxBytes then Done (Inl (ErrOther ''SCC plan exceeds budget''))
         else case Option.bind (jsonParse encoded) unmarshalPlan of None \<Rightarrow> Done (Inl errJson) | Some plan \<Rightarrow> Done (projectPlan plan node)"
  have run: "evaluateSCCComponent (jencode (jsonStrings [graph, node])) = QueryP \<lparr>Kind = SCCQueryKind, Name = graph\<rparr> ?k"
    unfolding evaluateSCCComponent_def pair_roundtrip [OF ids] using ids pair_length [OF ids] by simp
  have "Option.bind (jsonParse (jencode (planJson plan))) unmarshalPlan = Some \<lparr>dp_Components = Some (map Some (Components plan)),
      dp_Dependencies = Some (map (\<lambda>ds. Some (map int ds)) (Dependencies plan)), dp_Order = Some (map int (Order plan))\<rparr>"
    by (simp add: plan_roundtrip [OF plan(2)] unmarshal_plan [OF plan(2)])
  then have "?k (Inr (jencode (planJson plan))) = Done (componentResult plan i)"
    using plan(3) projectPlan_correct [OF plan(1) i] by (simp add: sccMaxBytes_def componentResult_def)
  with run show ?thesis by blast
qed

lemma query_fails:
  assumes "q key = Some w" and "k (Inr w) = Done (Inl err)" and "key \<noteq> self"
  shows "failsWith self (QueryP key k) env q newReader = Some err"
  using assms by (simp add: authorised_def newReader_def remember_def hasDependency_def smallDependencySet_def)

subsection \<open>An example\<close>

definition exampleGraph :: "(string, string list) gomap" where
  "exampleGraph = [(''c'', [''a'']), (''a'', [''b'', ''a'']), (''b'', [''a''])]"

definition examplePub :: Publication where
  "examplePub = (case SCCPublication ''g'' exampleGraph of Inr pub \<Rightarrow> pub)"

definition exampleDb :: Database where
  "exampleDb = snd (Apply (New SCCEvaluators) (pub_Inputs examplePub))"

lemma example_pub: "SCCPublication ''g'' exampleGraph = Inr examplePub"
  by code_simp

lemma example_ok: "gomap_ok exampleGraph"
  by (simp add: exampleGraph_def)

lemma example_reachable: "reachable SCCEvaluators exampleDb"
  unfolding exampleDb_def by (intro reachable.applied reachable.start) (simp add: New_def)

lemma example_published: "published (view exampleDb) examplePub"
  by code_simp

definition exampleProjection :: Publication where
  "exampleProjection = (case SCCComponentPublication ''g'' ''b'' of Inr p \<Rightarrow> p)"

lemma example_projection: "SCCComponentPublication ''g'' ''b'' = Inr exampleProjection"
  by code_simp

subsection \<open>Promises\<close>

text \<open>
  Claim C10. The plan query is correct: when the inputs of \<^verbatim>\<open>SCCPublication\<close> are current in a database
  with any history, \<^verbatim>\<open>Evaluate\<close> returns the encoding of a plan whose components are exactly the
  strongly connected components of the published graph, each once, sorted by name, whose
  dependency lists are exactly the edges between components, and whose order lists every component
  after all of its dependencies. The condensation-cycle and size errors do not occur: the encoding
  fits the declared reservation.
\<close>

theorem scc_plan_correct:
  assumes "gomap_ok adjacency" and "SCCPublication graph adjacency = Inr pub"
    and "reachable SCCEvaluators db" and "published (view db) pub"
  shows "\<exists>plan. sccPlanOk (map fst adjacency) (successors adjacency) plan \<and>
    int (length (jencode (planJson plan))) \<le> pub_MaxResultBytes pub \<and>
    (\<exists>n. \<forall>fuel \<ge> n. \<exists>db'. Evaluate fuel db None (pub_Key pub) = Some (Inr (jencode (planJson plan)), db', None))"
proof -
  from plan_specEval [OF assms(2,1,4)] obtain plan deps where
    plan: "sccPlanOk (map fst adjacency) (successors adjacency) plan" "int (length (jencode (planJson plan))) \<le> pub_MaxResultBytes pub"
    and ev: "specEval 1 (evalMap SCCEvaluators) (view db) (pub_Key pub) = Some (jencode (planJson plan), deps)" by blast
  from ev have "denotes (evalMap SCCEvaluators) (view db) (pub_Key pub) (jencode (planJson plan)) deps"
    unfolding denotes_def by blast
  from finds_value [OF SCCEvaluators_ok assms(3) this] plan show ?thesis by blast
qed

theorem scc_plan_correct_witness:
  "\<exists>plan n. sccPlanOk [''c'', ''a'', ''b''] (successors exampleGraph) plan \<and>
    (\<forall>fuel \<ge> n. \<exists>db'. Evaluate fuel exampleDb None \<lparr>Kind = SCCQueryKind, Name = ''g''\<rparr> = Some (Inr (jencode (planJson plan)), db', None))"
proof -
  have "map fst exampleGraph = [''c'', ''a'', ''b'']" by (simp add: exampleGraph_def)
  moreover have "pub_Key examplePub = \<lparr>Kind = SCCQueryKind, Name = ''g''\<rparr>" by code_simp
  ultimately show ?thesis
    using scc_plan_correct [OF example_ok example_pub example_reachable example_published] by metis
qed

text \<open>
  Claim C12. The projection query is correct: for a node of the published graph, \<^verbatim>\<open>Evaluate\<close> on a
  database with any history returns the encoding of the members of the node's own component and of
  those of every component it depends on directly, by name, when that encoding is at most 65536
  bytes (64 KiB); a larger one is declined: \<^verbatim>\<open>Evaluate\<close> then returns the budget error.
\<close>

theorem scc_component_correct:
  assumes "gomap_ok adjacency" and "SCCPublication graph adjacency = Inr pub" and "SCCComponentPublication graph node = Inr projection"
    and "reachable SCCEvaluators db" and "published (view db) pub" and "node \<in> fst ` set adjacency"
  shows "\<exists>plan i n. sccPlanOk (map fst adjacency) (successors adjacency) plan \<and>
    i < length (Components plan) \<and> node \<in> set (Components plan ! i) \<and>
    (\<forall>fuel \<ge> n. \<exists>db'. Evaluate fuel db None (pub_Key projection) =
       Some (if length (jencode (componentJson plan i)) \<le> 65536 then Inr (jencode (componentJson plan i))
             else Inl (ErrOther ''SCC component exceeds budget''), db', None))"
proof -
  from plan_specEval [OF assms(2,1,5)] obtain plan deps where
    ok: "sccPlanOk (map fst adjacency) (successors adjacency) plan" and size: "int (length (jencode (planJson plan))) \<le> 16777216"
    and few: "length (Components plan) \<le> 4096" "list_all validSCCIdentity (concat (Components plan))"
    and key: "pub_Key pub = \<lparr>Kind = SCCQueryKind, Name = graph\<rparr>"
    and ev: "specEval 1 (evalMap SCCEvaluators) (view db) (pub_Key pub) = Some (jencode (planJson plan), deps)" by force
  have "node \<in> set (concat (Components plan))" using ok assms(6) unfolding sccPlanOk_def Let_def set_map by blast
  then obtain c where "c \<in> set (Components plan)" "node \<in> set c" by auto
  then obtain i where i: "i < length (Components plan)" "node \<in> set (Components plan ! i)" by (metis in_set_conv_nth)
  have ids: "validSCCIdentity graph" "validSCCIdentity node"
    and pkey: "pub_Key projection = \<lparr>Kind = SCCComponentQueryKind, Name = jencode (jsonStrings [graph, node])\<rparr>"
    using assms(3) by (auto simp: SCCComponentPublication_def split: if_splits)
  let ?q = "\<lambda>k. map_option fst (specEval 1 (evalMap SCCEvaluators) (view db) k)"
  have q: "?q \<lparr>Kind = SCCQueryKind, Name = graph\<rparr> = Some (jencode (planJson plan))" using ev unfolding key by simp
  have sz: "length (jencode (planJson plan)) \<le> 16777216" using size by simp
  obtain k where run: "evaluateSCCComponent (jencode (jsonStrings [graph, node])) = QueryP \<lparr>Kind = SCCQueryKind, Name = graph\<rparr> k"
    and k: "k (Inr (jencode (planJson plan))) = Done (componentResult plan i)"
    using component_run [OF ids ok planNumbersOk_plan [OF ok few] sz i] by blast
  have "\<exists>n. \<forall>fuel \<ge> n. \<exists>db'. Evaluate fuel db None (pub_Key projection) = Some (componentResult plan i, db', None)"
  proof (cases "length (jencode (componentJson plan i)) \<le> 65536")
    case True
    have "answers (k (Inr (jencode (planJson plan)))) (view db) ?q (jencode (componentJson plan i))"
      unfolding k componentResult_def using True by (simp add: answers_Done)
    then have "answers (evaluateSCCComponent (jencode (jsonStrings [graph, node]))) (view db) ?q (jencode (componentJson plan i))"
      unfolding run by (rule answers_Query [where q = ?q and w = "jencode (planJson plan)", OF q])
    then obtain rd where "specRun (evaluateSCCComponent (jencode (jsonStrings [graph, node]))) (view db) ?q newReader = Some (jencode (componentJson plan i), rd)"
      unfolding answers_def by (meson plain_newReader)
    then have "specEval (Suc 1) (evalMap SCCEvaluators) (view db) (pub_Key projection) = Some (jencode (componentJson plan i), rd_dependencies rd)"
      by (simp only: pkey specEval.simps Key.simps SCCEvaluators_lookup option.case) simp
    then have "denotes (evalMap SCCEvaluators) (view db) (pub_Key projection) (jencode (componentJson plan i)) (rd_dependencies rd)"
      unfolding denotes_def by blast
    from finds_value [OF SCCEvaluators_ok assms(4) this] True show ?thesis by (simp add: componentResult_def)
  next
    case False
    have f: "evalMap SCCEvaluators (Kind (pub_Key projection)) = Some evaluateSCCComponent"
      by (simp add: pkey SCCEvaluators_lookup)
    have ne: "\<lparr>Kind = SCCQueryKind, Name = graph\<rparr> \<noteq> pub_Key projection"
      by (simp add: pkey SCCQueryKind_def SCCComponentQueryKind_def)
    have "failsWith (pub_Key projection) (QueryP \<lparr>Kind = SCCQueryKind, Name = graph\<rparr> k) (view db) ?q newReader
        = Some (ErrOther ''SCC component exceeds budget'')"
      by (rule query_fails [where q = ?q, OF q _ ne]) (use k False in \<open>simp add: componentResult_def\<close>)
    then have "failsWith (pub_Key projection) (evaluateSCCComponent (Name (pub_Key projection))) (view db) ?q newReader
        = Some (ErrOther ''SCC component exceeds budget'')" by (simp add: pkey run)
    from finds_error [OF SCCEvaluators_ok assms(4) f this] False
    have "\<exists>db'. Evaluate (Suc (Suc (1 + fuel))) db None (pub_Key projection) = Some (componentResult plan i, db', None)" for fuel
      by (simp add: componentResult_def) blast
    then have "\<exists>db'. Evaluate fuel db None (pub_Key projection) = Some (componentResult plan i, db', None)" if "3 \<le> fuel" for fuel
      using that by (metis Suc_eq_plus1_left eval_nat_numeral(3) le_Suc_ex add_Suc numeral_2_eq_2)
    then show ?thesis by blast
  qed
  with ok i show ?thesis unfolding componentResult_def by blast
qed

text \<open>On the example graph the component of \<^verbatim>\<open>b\<close> is small: it is answered, and the answer names
  \<^verbatim>\<open>a\<close> and \<^verbatim>\<open>b\<close> and no dependencies.\<close>

definition exampleAnswer :: string where
  "exampleAnswer = jencode (JObject [(''Members'', jsonStrings [''a'', ''b'']), (''Dependencies'', JArray [])])"

lemma example_value:
  "\<exists>n. \<forall>fuel\<ge>n. \<exists>db'. Evaluate fuel exampleDb None (pub_Key exampleProjection) = Some (Inr exampleAnswer, db', None)"
proof -
  have "map_option fst (specEval 2 (evalMap SCCEvaluators) (view exampleDb) (pub_Key exampleProjection)) = Some exampleAnswer"
    by code_simp
  then obtain d where "denotes (evalMap SCCEvaluators) (view exampleDb) (pub_Key exampleProjection) exampleAnswer d"
    unfolding denotes_def by fastforce
  then show ?thesis by (rule finds_value [OF SCCEvaluators_ok example_reachable])
qed

theorem scc_component_correct_witness:
  "\<exists>plan i. sccPlanOk (map fst exampleGraph) (successors exampleGraph) plan \<and> i < length (Components plan) \<and>
    ''b'' \<in> set (Components plan ! i) \<and> length (jencode (componentJson plan i)) \<le> 65536 \<and>
    jencode (componentJson plan i) = exampleAnswer \<and>
    (\<exists>n. \<forall>fuel \<ge> n. \<exists>db'. Evaluate fuel exampleDb None (pub_Key exampleProjection) =
       Some (Inr (jencode (componentJson plan i)), db', None))"
proof -
  have "''b'' \<in> fst ` set exampleGraph" by (simp add: exampleGraph_def)
  from scc_component_correct [OF example_ok example_pub example_projection example_reachable example_published this]
  obtain plan i n where ok: "sccPlanOk (map fst exampleGraph) (successors exampleGraph) plan" "i < length (Components plan)"
    "''b'' \<in> set (Components plan ! i)" and n: "\<forall>fuel \<ge> n. \<exists>db'. Evaluate fuel exampleDb None (pub_Key exampleProjection) =
       Some (if length (jencode (componentJson plan i)) \<le> 65536 then Inr (jencode (componentJson plan i))
             else Inl (ErrOther ''SCC component exceeds budget''), db', None)" by blast
  from example_value obtain m where m: "\<forall>fuel\<ge>m. \<exists>db'. Evaluate fuel exampleDb None (pub_Key exampleProjection) =
      Some (Inr exampleAnswer, db', None)" by blast
  from n [rule_format, of "max n m"] m [rule_format, of "max n m"]
  have "length (jencode (componentJson plan i)) \<le> 65536 \<and> jencode (componentJson plan i) = exampleAnswer"
    by (auto split: if_splits)
  with ok m show ?thesis by metis
qed

text \<open>
  Claim C35. Name lists have one encoding: \<^verbatim>\<open>decodeSCCNames\<close> accepts exactly the texts that
  \<^verbatim>\<open>json.Marshal\<close> writes for strictly increasing lists of at most 4096 valid identities within the
  byte budget, and returns the list that was written.
\<close>

theorem scc_names_canonical:
  "decodeSCCNames encoded = Inr names \<longleftrightarrow>
     encoded = jencode (jsonStrings names) \<and> length names \<le> 4096 \<and> list_all validSCCIdentity names \<and>
     sorted_wrt (<) names \<and> length encoded \<le> 16777216"
  using decode_is_canonical [of encoded names] decode_canonical [of names]
  by (auto simp: canonical_def strictNames_def)

end
