(* ===== verification/IncSessionAdmit.thy ===== *)
theory IncSessionAdmit
  imports IncSessionPlan
begin

text \<open>
  Admission of the planned queries: existing ones first, each only when it fits what is left of
  every limit. The invariant \<open>adm_ok\<close> is the account the session keeps.
\<close>

subsection \<open>Updating association lists\<close>

lemma update_new: "map_of m k = None \<Longrightarrow> AList.update k v m = m @ [(k, v)]"
  by (induction m) (auto split: if_splits)

lemma update_same: "map_of m k = Some v \<Longrightarrow> AList.update k v m = m"
  by (induction m) (auto split: if_splits)

definition newOnes :: "(Key, Change) gomap \<Rightarrow> Change list \<Rightarrow> Change list" where
  "newOnes selected chs = filter (\<lambda>ch. map_of selected (ch_Key ch) = None) chs"

lemma selectInputs_append:
  assumes "recorded known chs" and "map_of selected \<subseteq>\<^sub>m map_of known"
  shows "selectInputs selected chs = selected @ map (\<lambda>ch. (ch_Key ch, ch)) (newOnes selected chs)"
  using assms
proof (induction chs arbitrary: selected)
  case (Cons ch chs)
  have known: "map_of known (ch_Key ch) = Some ch" and rec: "recorded known chs" and fresh: "ch_Key ch \<notin> ch_Key ` set chs"
    using Cons.prems(1) by (auto simp: recorded_def)
  show ?case
  proof (cases "map_of selected (ch_Key ch)")
    case None
    let ?sel = "selected @ [(ch_Key ch, ch)]"
    have look: "map_of ?sel k = (if k = ch_Key ch then Some ch else map_of selected k)" for k
      using None by (auto simp: map_add_def split: option.splits)
    have "map_of ?sel \<subseteq>\<^sub>m map_of known"
      using Cons.prems(2) known unfolding map_le_def by (metis domI domIff look)
    from Cons.IH [OF rec this] have "selectInputs ?sel chs = ?sel @ map (\<lambda>ch. (ch_Key ch, ch)) (newOnes ?sel chs)" .
    moreover have "newOnes ?sel chs = newOnes selected chs"
    proof -
      have "ch_Key x \<noteq> ch_Key ch" if "x \<in> set chs" for x using fresh that by (metis imageI)
      then show ?thesis unfolding newOnes_def look by (intro filter_cong) auto
    qed
    ultimately show ?thesis using None by (simp add: selectInputs_def newOnes_def update_new)
  next
    case (Some old)
    then have "old = ch" using Cons.prems(2) known by (metis domI map_le_def option.inject)
    with Some Cons.IH [OF rec Cons.prems(2)] show ?thesis by (simp add: selectInputs_def newOnes_def update_same)
  qed
qed (simp add: selectInputs_def newOnes_def)

subsection \<open>The cost of one query\<close>

definition queryCost :: "Key \<Rightarrow> publicationPlan \<Rightarrow> int" where
  "queryCost k plan = keyCost k + pub_MaxResultBytes (pl_publication plan) +
     pub_MaxDependencies (pl_publication plan) * 96 + int (length (pl_inputs plan)) * 40"

lemma keyCost_pos: "0 < keyCost k"
  by (simp add: keyCost_def)

lemma inputCost_pos: "0 < inputCost c"
  by (simp add: inputCost_def)

lemma addCost_fits: "addCost b n acc = (cost, True) \<Longrightarrow> snd acc \<and> cost = fst acc + n \<and> 0 \<le> n \<and> cost \<le> b"
  by (cases acc) (auto simp: addCost_def split: if_splits)

lemma chargeInputs_fits:
  "chargeInputs b selected chs n acc = (m, cost, True) \<Longrightarrow>
   snd acc \<and> m = n + int (length (newOnes selected chs)) \<and> cost = fst acc + sum_list (map inputCost (newOnes selected chs)) \<and>
   (fst acc \<le> b \<longrightarrow> cost \<le> b)"
proof (induction chs arbitrary: n acc)
  case (Cons ch chs)
  show ?case
  proof (cases "map_of selected (ch_Key ch)")
    case None
    obtain c f where acc: "addCost b (inputCost ch) acc = (c, f)" by force
    from Cons.prems None acc have run: "chargeInputs b selected chs (n + 1) (c, f) = (m, cost, True)" by simp
    from Cons.IH [OF run] have ih: "f" "m = n + 1 + int (length (newOnes selected chs))"
      "cost = c + sum_list (map inputCost (newOnes selected chs))" "c \<le> b \<longrightarrow> cost \<le> b" by auto
    with addCost_fits [of b "inputCost ch" acc c] acc None show ?thesis by (auto simp: newOnes_def)
  next
    case (Some old)
    with Cons show ?thesis by (simp add: newOnes_def)
  qed
qed (auto simp: newOnes_def)

lemma planCost_fits:
  assumes "planCost limits selected k plan = (n, cost, True)"
  shows "n = int (length (newOnes selected (pl_inputs plan))) \<and>
    cost = queryCost k plan + sum_list (map inputCost (newOnes selected (pl_inputs plan)))"
proof -
  let ?p = "pl_publication plan" and ?b = "lim_Bytes limits"
  let ?reserved = "if pub_MaxDependencies ?p > ?b div 96 \<or> int (length (pl_inputs plan)) > ?b div 40 then (0, False)
    else addCost ?b (int (length (pl_inputs plan)) * 40) (addCost ?b (pub_MaxDependencies ?p * 96) (0, True))"
  obtain c1 f1 where r: "?reserved = (c1, f1)" by (rule prod.exhaust)
  obtain c2 f2 where k: "addCost ?b (keyCost k) (c1, f1) = (c2, f2)" by (rule prod.exhaust)
  obtain c3 f3 where v: "addCost ?b (pub_MaxResultBytes ?p) (c2, f2) = (c3, f3)" by (rule prod.exhaust)
  have "chargeInputs ?b selected (pl_inputs plan) 0 (c3, f3) = (n, cost, True)"
    using assms unfolding planCost_def Let_def r k v .
  from chargeInputs_fits [OF this] have all: "f3" "n = int (length (newOnes selected (pl_inputs plan)))"
    "cost = c3 + sum_list (map inputCost (newOnes selected (pl_inputs plan)))" by auto
  from addCost_fits [of ?b "pub_MaxResultBytes ?p" "(c2, f2)" c3] v all(1) have v': "f2" "c3 = c2 + pub_MaxResultBytes ?p" by auto
  from addCost_fits [of ?b "keyCost k" "(c1, f1)" c2] k v'(1) have k': "f1" "c2 = c1 + keyCost k" by auto
  obtain c4 f4 where d: "addCost ?b (pub_MaxDependencies ?p * 96) (0, True) = (c4, f4)" by (rule prod.exhaust)
  from r k'(1) have "addCost ?b (int (length (pl_inputs plan)) * 40) (c4, f4) = (c1, True)"
    unfolding d by (simp split: if_splits)
  from addCost_fits [OF this] have i: "f4" "c1 = c4 + int (length (pl_inputs plan)) * 40" by auto
  from addCost_fits [of ?b "pub_MaxDependencies ?p * 96" "(0, True)" c4] d i(1) have "c4 = pub_MaxDependencies ?p * 96" by auto
  with all i v' k' show ?thesis by (simp add: queryCost_def)
qed

subsection \<open>The account\<close>

definition edgesOf :: "(Key, publicationPlan) gomap \<Rightarrow> int" where
  "edgesOf m = sum_list (map (\<lambda>(k, plan). int (length (pl_inputs plan))) m)"

definition dependenciesOf :: "(Key, publicationPlan) gomap \<Rightarrow> int" where
  "dependenciesOf m = sum_list (map (\<lambda>(k, plan). pub_MaxDependencies (pl_publication plan)) m)"

definition queryBytes :: "(Key, publicationPlan) gomap \<Rightarrow> int" where
  "queryBytes m = sum_list (map (\<lambda>(k, plan). queryCost k plan) m)"

definition inputBytes :: "(Key, Change) gomap \<Rightarrow> int" where
  "inputBytes m = sum_list (map (\<lambda>(k, ch). inputCost ch) m)"

definition adm_ok :: "Limits \<Rightarrow> (Key, Change) gomap \<Rightarrow> (Key, publicationPlan) gomap \<Rightarrow> Key set \<Rightarrow> admission \<Rightarrow> bool" where
  "adm_ok limits known plans processed adm \<longleftrightarrow>
     map_of (adm_inputs adm) \<subseteq>\<^sub>m map_of known \<and> inputs_wf (adm_inputs adm) \<and> gomap_ok (adm_selected adm) \<and>
     (\<forall>k plan. map_of (adm_selected adm) k = Some plan \<longrightarrow>
        map_of plans k = Some plan \<and> recorded (adm_inputs adm) (pl_inputs plan)) \<and>
     (\<forall>k ch. map_of (adm_inputs adm) k = Some ch \<longrightarrow>
        (\<exists>q plan. map_of (adm_selected adm) q = Some plan \<and> ch \<in> set (pl_inputs plan))) \<and>
     dom (map_of (adm_selected adm)) \<union> set (adm_skipped adm) = processed \<and>
     dom (map_of (adm_selected adm)) \<inter> set (adm_skipped adm) = {} \<and>
     int (length (adm_selected adm)) \<le> lim_Queries limits \<and> int (length (adm_inputs adm)) \<le> lim_Inputs limits \<and>
     adm_edges adm = edgesOf (adm_selected adm) \<and> adm_edges adm \<le> lim_InputEdges limits \<and>
     adm_dependencies adm = dependenciesOf (adm_selected adm) \<and> adm_dependencies adm \<le> lim_Dependencies limits \<and>
     adm_bytes adm = queryBytes (adm_selected adm) + inputBytes (adm_inputs adm) \<and> adm_bytes adm \<le> lim_Bytes limits"

lemma zeroAdmission_ok:
  "0 \<le> lim_Queries limits \<Longrightarrow> 0 \<le> lim_Inputs limits \<Longrightarrow> 0 \<le> lim_InputEdges limits \<Longrightarrow> 0 \<le> lim_Dependencies limits \<Longrightarrow>
   0 \<le> lim_Bytes limits \<Longrightarrow> adm_ok limits known plans {} zeroAdmission"
  by (simp add: adm_ok_def zeroAdmission_def edgesOf_def dependenciesOf_def queryBytes_def inputBytes_def)

text \<open>A query that does not fit is recorded as skipped; one that fits adds itself and its new inputs.\<close>

lemma admitQuery_cases:
  assumes "map_of plans k = Some plan"
  obtains (skip) "admitQuery limits plans adm k = adm\<lparr>adm_skipped := adm_skipped adm @ [k]\<rparr>"
  | (admit) cost where "admitQuery limits plans adm k =
      adm\<lparr>adm_selected := AList.update k plan (adm_selected adm), adm_inputs := selectInputs (adm_inputs adm) (pl_inputs plan),
          adm_bytes := adm_bytes adm + cost, adm_edges := adm_edges adm + int (length (pl_inputs plan)),
          adm_dependencies := adm_dependencies adm + pub_MaxDependencies (pl_publication plan)\<rparr>"
    "cost = queryCost k plan + sum_list (map inputCost (newOnes (adm_inputs adm) (pl_inputs plan)))"
    "int (length (adm_selected adm)) < lim_Queries limits"
    "int (length (newOnes (adm_inputs adm) (pl_inputs plan))) \<le> lim_Inputs limits - int (length (adm_inputs adm))"
    "int (length (pl_inputs plan)) \<le> lim_InputEdges limits - adm_edges adm"
    "pub_MaxDependencies (pl_publication plan) \<le> lim_Dependencies limits - adm_dependencies adm"
    "cost \<le> lim_Bytes limits - adm_bytes adm"
proof -
  obtain n cost fits where c: "planCost limits (adm_inputs adm) k plan = (n, cost, fits)" by (metis prod.collapse)
  let ?bad = "\<not> fits \<or> int (length (adm_selected adm)) \<ge> lim_Queries limits \<or>
    n > lim_Inputs limits - int (length (adm_inputs adm)) \<or> int (length (pl_inputs plan)) > lim_InputEdges limits - adm_edges adm \<or>
    pub_MaxDependencies (pl_publication plan) > lim_Dependencies limits - adm_dependencies adm \<or> cost > lim_Bytes limits - adm_bytes adm"
  show ?thesis
  proof (cases ?bad)
    case True
    with assms c show ?thesis by (intro skip) (simp add: admitQuery_def Let_def)
  next
    case False
    then have "fits" by blast
    with planCost_fits c have n: "n = int (length (newOnes (adm_inputs adm) (pl_inputs plan)))"
      and cost: "cost = queryCost k plan + sum_list (map inputCost (newOnes (adm_inputs adm) (pl_inputs plan)))" by auto
    show ?thesis
    proof (rule admit [OF _ cost])
      show "admitQuery limits plans adm k =
        adm\<lparr>adm_selected := AList.update k plan (adm_selected adm), adm_inputs := selectInputs (adm_inputs adm) (pl_inputs plan),
            adm_bytes := adm_bytes adm + cost, adm_edges := adm_edges adm + int (length (pl_inputs plan)),
            adm_dependencies := adm_dependencies adm + pub_MaxDependencies (pl_publication plan)\<rparr>"
        using assms c False by (simp add: admitQuery_def Let_def)
    qed (use False n in linarith)+
  qed
qed

lemma selected_inputs:
  assumes "recorded known chs" "map_of m \<subseteq>\<^sub>m map_of known" "inputs_wf known" "inputs_wf m"
  shows "map_of (selectInputs m chs) \<subseteq>\<^sub>m map_of known" "map_of m \<subseteq>\<^sub>m map_of (selectInputs m chs)"
    "recorded (selectInputs m chs) chs" "inputs_wf (selectInputs m chs)"
    "map_of (selectInputs m chs) k = Some ch \<Longrightarrow> map_of m k = Some ch \<or> ch \<in> set chs"
proof -
  have "map_of (selectInputs m chs) k = (if \<exists>ch \<in> set chs. ch_Key ch = k then map_of known k else map_of m k)" for k
    using assms(1) unfolding selectInputs_def
    by (induction chs arbitrary: m) (auto simp: recorded_def)
  note look = this
  show a: "map_of (selectInputs m chs) \<subseteq>\<^sub>m map_of known" using assms(2) by (auto simp: map_le_def look domIff split: if_splits)
  show "map_of m \<subseteq>\<^sub>m map_of (selectInputs m chs)" using assms(2) by (auto simp: map_le_def look domIff)
  show "recorded (selectInputs m chs) chs" using assms(1) by (auto simp: recorded_def look)
  show "map_of (selectInputs m chs) k = Some ch \<Longrightarrow> map_of m k = Some ch \<or> ch \<in> set chs"
    using assms(1) by (auto simp: look recorded_def split: if_splits)
  have "normal ch" if "ch \<in> set chs" for ch
    using that assms(1) inputs_wfD [OF assms(3)] by (auto simp: recorded_def)
  with assms(4) show "inputs_wf (selectInputs m chs)" unfolding selectInputs_def
    by (induction chs arbitrary: m) (simp_all add: inputs_wf_update)
qed

lemma admitQuery_ok:
  assumes ok: "adm_ok limits known plans processed adm" and k: "k \<notin> processed" "map_of plans k = Some plan"
    and plan: "recorded known (pl_inputs plan)" and known: "inputs_wf known"
  shows "adm_ok limits known plans (insert k processed) (admitQuery limits plans adm k)"
proof (rule admitQuery_cases [OF k(2), of limits adm])
  assume "admitQuery limits plans adm k = adm\<lparr>adm_skipped := adm_skipped adm @ [k]\<rparr>"
  with ok k(1) show ?thesis by (auto simp: adm_ok_def)
next
  fix cost
  assume new: "admitQuery limits plans adm k =
      adm\<lparr>adm_selected := AList.update k plan (adm_selected adm), adm_inputs := selectInputs (adm_inputs adm) (pl_inputs plan),
          adm_bytes := adm_bytes adm + cost, adm_edges := adm_edges adm + int (length (pl_inputs plan)),
          adm_dependencies := adm_dependencies adm + pub_MaxDependencies (pl_publication plan)\<rparr>"
    and fits: "cost = queryCost k plan + sum_list (map inputCost (newOnes (adm_inputs adm) (pl_inputs plan)))"
    "int (length (adm_selected adm)) < lim_Queries limits"
    "int (length (newOnes (adm_inputs adm) (pl_inputs plan))) \<le> lim_Inputs limits - int (length (adm_inputs adm))"
    "int (length (pl_inputs plan)) \<le> lim_InputEdges limits - adm_edges adm"
    "pub_MaxDependencies (pl_publication plan) \<le> lim_Dependencies limits - adm_dependencies adm"
    "cost \<le> lim_Bytes limits - adm_bytes adm"
  note o = ok [unfolded adm_ok_def]
  have le: "map_of (adm_inputs adm) \<subseteq>\<^sub>m map_of known" and wf: "inputs_wf (adm_inputs adm)" using o by blast+
  note sel = selected_inputs [OF plan le known wf]
  have none: "map_of (adm_selected adm) k = None" and nskip: "k \<notin> set (adm_skipped adm)" using o k(1) by blast+
  have app: "selectInputs (adm_inputs adm) (pl_inputs plan) =
      adm_inputs adm @ map (\<lambda>ch. (ch_Key ch, ch)) (newOnes (adm_inputs adm) (pl_inputs plan))"
    by (rule selectInputs_append [OF plan le])
  have upd: "AList.update k plan (adm_selected adm) = adm_selected adm @ [(k, plan)]" by (rule update_new [OF none])
  have look: "map_of (adm_selected adm @ [(k, plan)]) q = (if q = k then Some plan else map_of (adm_selected adm) q)" for q
    using none by (auto simp: map_add_def split: option.splits)
  let ?adm = "admitQuery limits plans adm k"
  have sels: "adm_selected ?adm = AList.update k plan (adm_selected adm)"
    "adm_inputs ?adm = selectInputs (adm_inputs adm) (pl_inputs plan)" "adm_bytes ?adm = adm_bytes adm + cost"
    "adm_edges ?adm = adm_edges adm + int (length (pl_inputs plan))"
    "adm_dependencies ?adm = adm_dependencies adm + pub_MaxDependencies (pl_publication plan)"
    "adm_skipped ?adm = adm_skipped adm"
    by (simp_all add: new)
  show ?thesis unfolding adm_ok_def sels
  proof (intro conjI allI impI)
    show "gomap_ok (AList.update k plan (adm_selected adm))" using o by (blast intro: distinct_update)
    show "dom (map_of (AList.update k plan (adm_selected adm))) \<union> set (adm_skipped adm) = insert k processed" using o by auto
    show "dom (map_of (AList.update k plan (adm_selected adm))) \<inter> set (adm_skipped adm) = {}" using o nskip by auto
    show "int (length (AList.update k plan (adm_selected adm))) \<le> lim_Queries limits" using fits(2) by (simp add: upd)
    show "int (length (selectInputs (adm_inputs adm) (pl_inputs plan))) \<le> lim_Inputs limits" using fits(3) by (simp add: app)
    show "adm_edges adm + int (length (pl_inputs plan)) = edgesOf (AList.update k plan (adm_selected adm))"
      using o by (simp add: upd edgesOf_def)
    show "adm_dependencies adm + pub_MaxDependencies (pl_publication plan) = dependenciesOf (AList.update k plan (adm_selected adm))"
      using o by (simp add: upd dependenciesOf_def)
    show "adm_bytes adm + cost = queryBytes (AList.update k plan (adm_selected adm)) + inputBytes (selectInputs (adm_inputs adm) (pl_inputs plan))"
      using o fits(1) by (simp add: upd app queryBytes_def inputBytes_def comp_def)
  next
    fix q pl assume "map_of (AList.update k plan (adm_selected adm)) q = Some pl"
    then have q: "if q = k then pl = plan else map_of (adm_selected adm) q = Some pl" by (simp split: if_splits)
    show "map_of plans q = Some pl" using q o k(2) by (simp split: if_splits)
    show "recorded (selectInputs (adm_inputs adm) (pl_inputs plan)) (pl_inputs pl)"
      using q sel(3) recorded_mono [OF _ sel(2)] o by (simp split: if_splits)
  next
    fix i ch assume "map_of (selectInputs (adm_inputs adm) (pl_inputs plan)) i = Some ch"
    from sel(5) [OF this] show "\<exists>q pl. map_of (AList.update k plan (adm_selected adm)) q = Some pl \<and> ch \<in> set (pl_inputs pl)"
    proof
      assume "map_of (adm_inputs adm) i = Some ch"
      with o obtain q pl where "map_of (adm_selected adm) q = Some pl" "ch \<in> set (pl_inputs pl)" by blast
      with none show ?thesis by (intro exI [of _ q] exI [of _ pl]) auto
    qed (intro exI [of _ k] exI [of _ plan], simp)
  qed (use sel fits in \<open>(blast | linarith)+\<close>)
qed

subsection \<open>All queries, the existing ones first\<close>

definition admissionOrder :: "Session \<Rightarrow> Key list \<Rightarrow> Key list" where
  "admissionOrder s order = filter (\<lambda>k. map_of (s_live s) k \<noteq> None) order @ filter (\<lambda>k. map_of (s_live s) k = None) order"

lemma foldl_skip: "foldl (\<lambda>a k. if P k then a else f a k) a xs = foldl f a (filter (\<lambda>k. \<not> P k) xs)"
  by (induction xs arbitrary: a) auto

lemma admitAll_order: "admitAll s plans order = foldl (admitQuery (s_limits s) plans) zeroAdmission (admissionOrder s order)"
  by (simp add: admitAll_def admitPass_def foldl_skip admissionOrder_def)

lemma admit_list:
  "adm_ok limits known plans processed adm \<Longrightarrow> distinct ks \<Longrightarrow> set ks \<inter> processed = {} \<Longrightarrow> inputs_wf known \<Longrightarrow>
   \<forall>k \<in> set ks. \<exists>plan. map_of plans k = Some plan \<and> recorded known (pl_inputs plan) \<Longrightarrow>
   adm_ok limits known plans (processed \<union> set ks) (foldl (admitQuery limits plans) adm ks)"
proof (induction ks arbitrary: adm processed)
  case (Cons k ks)
  from Cons.prems(5) obtain plan where p: "map_of plans k = Some plan" "recorded known (pl_inputs plan)" by auto
  have "k \<notin> processed" using Cons.prems(3) by auto
  from admitQuery_ok [OF Cons.prems(1) this p Cons.prems(4)] Cons.prems
  have "adm_ok limits known plans (insert k processed \<union> set ks) (foldl (admitQuery limits plans) (admitQuery limits plans adm k) ks)"
    by (intro Cons.IH) auto
  then show ?case by (simp add: insert_commute Un_commute)
qed simp

definition limits_ok :: "Limits \<Rightarrow> bool" where
  "limits_ok l \<longleftrightarrow> 0 < lim_Queries l \<and> 0 \<le> lim_Inputs l \<and> 0 \<le> lim_InputEdges l \<and> 0 \<le> lim_Dependencies l \<and> 0 < lim_Bytes l"

lemma admitAll_ok:
  assumes "batch_ok s known plans order" and "limits_ok (s_limits s)"
  shows "adm_ok (s_limits s) known plans (set order) (admitAll s plans order)"
proof -
  have set: "set (admissionOrder s order) = set order" by (auto simp: admissionOrder_def)
  have "distinct (admissionOrder s order)" using assms(1) by (auto simp: admissionOrder_def batch_ok_def)
  moreover have "\<forall>k \<in> set (admissionOrder s order). \<exists>plan. map_of plans k = Some plan \<and> recorded known (pl_inputs plan)"
    using assms(1) unfolding set batch_ok_def plan_ok_def by blast
  moreover have "adm_ok (s_limits s) known plans {} zeroAdmission"
    using assms(2) by (intro zeroAdmission_ok) (auto simp: limits_ok_def)
  ultimately have "adm_ok (s_limits s) known plans ({} \<union> set (admissionOrder s order))
      (foldl (admitQuery (s_limits s) plans) zeroAdmission (admissionOrder s order))"
    using assms(1) by (intro admit_list) (auto simp: batch_ok_def)
  then show ?thesis by (simp add: set admitAll_order)
qed

end
