(* ===== verification/IncSessionProofs.thy ===== *)
theory IncSessionProofs
  imports IncSessionAdmit
begin

text \<open>
  The invariant of a session. The registered evaluators are the session's own ones behind guards,
  so they are covered by them (\<open>registry_covered\<close>) and the database invariant holds with the
  unguarded evaluators as the reference; every publication leaves a database whose inputs are
  exactly the admitted ones.
\<close>

subsection \<open>A reader with fewer restrictions\<close>

definition wider :: "(Key \<rightharpoonup> Key) option \<Rightarrow> (Key \<rightharpoonup> Key) option \<Rightarrow> bool" where
  "wider a' a \<longleftrightarrow> (\<forall>k k'. authorised a k = Some k' \<longrightarrow> authorised a' k = Some k')"

definition looser :: "Reader \<Rightarrow> Reader \<Rightarrow> bool" where
  "looser rd' rd \<longleftrightarrow> readerOk rd' \<and> readerOk rd \<and>
     rd_dependencies rd' = rd_dependencies rd \<and> rd_failure rd' = rd_failure rd \<and>
     wider (rd_inputAuthority rd') (rd_inputAuthority rd) \<and> wider (rd_queryAuthority rd') (rd_queryAuthority rd) \<and>
     (rd_boundedDependencies rd' \<longrightarrow> rd_boundedDependencies rd \<and> rd_maxDependencies rd \<le> rd_maxDependencies rd')"

lemma wider_refl [simp]: "wider a a"
  by (simp add: wider_def)

lemma appendDependency_bounds [simp]:
  "rd_boundedDependencies (appendDependency r dep) = rd_boundedDependencies r"
  "rd_maxDependencies (appendDependency r dep) = rd_maxDependencies r"
  by (simp_all add: appendDependency_def)

lemma looser_append: "looser rd' rd \<Longrightarrow> looser (appendDependency rd' dep) (appendDependency rd dep)"
  by (simp add: looser_def)

lemma remember_looser:
  assumes "looser rd' rd" and "remember rd dep = (True, rd1)"
  shows "\<exists>rd1'. remember rd' dep = (True, rd1') \<and> looser rd1' rd1"
proof (cases "dep \<in> set (rd_dependencies rd)")
  case True
  with assms show ?thesis by (auto simp: looser_def remember_cases split: if_splits)
next
  case False
  have ok: "readerOk rd" "readerOk rd'" using assms(1) by (simp_all add: looser_def)
  from assms(2) False have r1: "rd1 = appendDependency rd dep" and free: "rd_failure rd = None"
    "\<not> (rd_boundedDependencies rd \<and> rd_maxDependencies rd \<le> int (length (rd_dependencies rd)))"
    by (auto simp: remember_cases [OF ok(1)] split: if_splits)
  with assms(1) False have "remember rd' dep = (True, appendDependency rd' dep)"
    by (auto simp: remember_cases [OF ok(2)] looser_def)
  with looser_append [OF assms(1)] r1 show ?thesis by blast
qed

lemma specRun_looser:
  "specRun p env q rd = Some (v, rd1) \<Longrightarrow> looser rd' rd \<Longrightarrow>
   \<exists>rd1'. specRun p env q rd' = Some (v, rd1') \<and> looser rd1' rd1"
proof (induction p arbitrary: rd rd' rule: prog_induct)
  case (InputP key k)
  then obtain key' rd2 where key': "authorised (rd_inputAuthority rd) key = Some key'"
    and rem: "remember rd \<lparr>dep_key = key', dep_query = False\<rparr> = (True, rd2)"
    and run: "specRun (k (env key')) env q rd2 = Some (v, rd1)"
    by (auto split: option.splits prod.splits bool.splits)
  from remember_looser [OF InputP.prems(2) rem] obtain rd2' where
    rem': "remember rd' \<lparr>dep_key = key', dep_query = False\<rparr> = (True, rd2')" and l: "looser rd2' rd2" by blast
  from InputP.prems(2) key' have "authorised (rd_inputAuthority rd') key = Some key'" by (simp add: looser_def wider_def)
  with InputP.IH [OF run l] rem' show ?case by simp
next
  case (QueryP key k)
  from specRun_QueryP [OF QueryP.prems(1)] obtain key' w rd2 where
    key': "authorised (rd_queryAuthority rd) key = Some key'" and w: "q key' = Some w"
    and rem: "remember rd \<lparr>dep_key = key', dep_query = True\<rparr> = (True, rd2)"
    and run: "specRun (k (Inr w)) env q rd2 = Some (v, rd1)" by blast
  from remember_looser [OF QueryP.prems(2) rem] obtain rd2' where
    rem': "remember rd' \<lparr>dep_key = key', dep_query = True\<rparr> = (True, rd2')" and l: "looser rd2' rd2" by blast
  from QueryP.prems(2) key' have "authorised (rd_queryAuthority rd') key = Some key'" by (simp add: looser_def wider_def)
  with QueryP.IH [OF run l] rem' w show ?case by simp
next
  case (ConfigP inputKeys queryKeys limit p)
  show ?case unfolding specRun.simps
    by (rule ConfigP.IH [OF ConfigP.prems(1) [unfolded specRun.simps]]) (use ConfigP.prems(2) in \<open>simp add: looser_def\<close>)
qed (auto split: sum.splits)

lemma specRun_limitResult:
  "specRun (limitResult n p) env q rd = Some (v, rd') \<longleftrightarrow> specRun p env q rd = Some (v, rd') \<and> int (length v) \<le> n"
  by (induction p arbitrary: rd rule: prog_induct) (auto split: sum.splits option.splits prod.splits bool.splits)

subsection \<open>The guarded evaluators\<close>

text \<open>A key map of the session is the identity on the admitted keys.\<close>

definition identity_keys :: "(Key, Key) gomap \<Rightarrow> bool" where
  "identity_keys m \<longleftrightarrow> (\<forall>k k'. map_of m k = Some k' \<longrightarrow> k = k')"

lemma guarded_covers:
  assumes "identity_keys (s_inputKeys s)" and "identity_keys (s_queryKeys s)"
  shows "covers (f name) (guardedEvaluator s kind f name)"
  unfolding covers_def
proof (intro allI impI)
  fix env q v rd
  assume run: "specRun (guardedEvaluator s kind f name) env q newReader = Some (v, rd)"
  then obtain entry where entry: "map_of (s_live s) \<lparr>Kind = kind, Name = name\<rparr> = Some entry"
    by (auto simp: guardedEvaluator_def split: option.splits)
  let ?rd = "newReader\<lparr>rd_inputAuthority := Some (map_of (s_inputKeys s)), rd_queryAuthority := Some (map_of (s_queryKeys s)),
    rd_boundedDependencies := True, rd_maxDependencies := sq_dependencies entry\<rparr>"
  from run entry have run': "specRun (f name) env q ?rd = Some (v, rd)"
    by (simp add: guardedEvaluator_def specRun_limitResult)
  have "wider None (Some (map_of (s_inputKeys s)))" "wider None (Some (map_of (s_queryKeys s)))"
    using assms by (simp_all add: wider_def authorised_def identity_keys_def)
  then have "looser newReader ?rd" by (simp add: looser_def readerOk_def newReader_def)
  from specRun_looser [OF run' this] show "\<exists>rd'. specRun (f name) env q newReader = Some (v, rd') \<and> rd_dependencies rd' = rd_dependencies rd"
    by (auto simp: looser_def)
qed

lemma registry_lookup:
  "evalMap (registry s) kind = map_option (guardedEvaluator s kind) (map_of (s_evaluators s) kind)"
proof -
  have "map_of (map (\<lambda>(kind, f). (kind, Some (guardedEvaluator s kind f))) m) kind =
        map_option (\<lambda>f. Some (guardedEvaluator s kind f)) (map_of m kind)" for m
    by (induction m) auto
  then show ?thesis by (cases "map_of (s_evaluators s) kind") (simp_all add: evalMap_def registry_def)
qed

lemma registry_ok: "gomap_ok (s_evaluators s) \<Longrightarrow> gomap_ok (registry s)"
  by (simp add: registry_def case_prod_unfold comp_def)

lemma registry_covered:
  assumes "identity_keys (s_inputKeys s)" and "identity_keys (s_queryKeys s)"
  shows "covered (evalMap (registry s)) (map_of (s_evaluators s))"
  unfolding covered_def registry_lookup using guarded_covers [OF assms] by fastforce

subsection \<open>The database under a publication\<close>

definition snapshotOf :: "(Key, Change) gomap \<Rightarrow> snapshot" where
  "snapshotOf m k = (case map_of m k of None \<Rightarrow> ([], False) | Some ch \<Rightarrow> changeEffect ch)"

definition good :: "(string \<rightharpoonup> Evaluator) \<Rightarrow> snapshot \<Rightarrow> nat \<Rightarrow> Database \<Rightarrow> bool" where
  "good evs env n db \<longleftrightarrow> (\<exists>hist. db_inv evs hist db) \<and> store_wf db \<and> view db = env \<and> revision db \<le> n"

lemma good_mono: "good evs env n db \<Longrightarrow> n \<le> m \<Longrightarrow> good evs env m db"
  by (auto simp: good_def)

lemma good_bumps:
  assumes "good evs env n db" "bumps db db'" "view db' = env'"
  shows "good evs env' (Suc n) db'"
proof -
  from assms(1) obtain hist where "db_inv evs hist db" and wf: "store_wf db" and n: "revision db \<le> n" by (auto simp: good_def)
  from bumps_inv [OF this(1) assms(2)] have "\<exists>hist. db_inv evs hist db'" by blast
  moreover have "revision db' \<le> Suc n" using assms(2) n by (simp add: bumps_def)
  ultimately show ?thesis using bumps_keeps(2) [OF assms(2) wf] assms(3) by (simp add: good_def)
qed

text \<open>An operation that either makes a new revision or changes nothing.\<close>

lemma good_step:
  assumes "good evs env n db" "bumps db db' \<or> db' = db" "view db' = env'"
  shows "good evs env' (Suc n) db'"
  using assms(2)
proof
  assume "bumps db db'"
  then show ?thesis by (rule good_bumps [OF assms(1) _ assms(3)])
next
  assume "db' = db"
  with assms(1,3) show ?thesis by (auto simp: good_def)
qed

lemma good_New:
  assumes "gomap_ok e" and "covered (evalMap e) evs"
  shows "good evs (\<lambda>_. ([], False)) 1 (New e)"
proof -
  have "view (New e) = (\<lambda>_. ([], False))" "revision (New e) = 1"
    by (simp_all add: New_def view_def inputAt_def zeroInput_def fun_eq_iff)
  with New_inv [OF assms] show ?thesis by (auto simp: good_def)
qed

lemma good_evict:
  assumes "good evs env n db" and "Suc n < 2 ^ 64"
  shows "good evs env (Suc n) (snd (EvictQuery db k))"
proof -
  have rev: "Suc (revision db) < 2 ^ 64" using assms by (simp add: good_def)
  have v: "view (snd (EvictQuery db k)) = env"
    using assms(1) by (auto simp: good_def EvictQuery_def split: option.splits)
  have "bumps db (snd (EvictQuery db k)) \<or> snd (EvictQuery db k) = db"
    using EvictQuery_bumps [OF rev prod.collapse [symmetric], of k] by (auto split: if_splits)
  then show ?thesis by (rule good_step [OF assms(1) _ v])
qed

lemma RetireInputs_view: "view (RetireInputs db keys) = (\<lambda>k. if k \<in> set keys then ([], False) else view db k)"
proof -
  have "foldl dropInput env keys = (\<lambda>k. if k \<in> set keys then ([], False) else env k)" for env
    by (induction keys arbitrary: env) (auto simp: dropInput_def fun_eq_iff)
  then show ?thesis by (simp add: RetireInputs_def foldl_retireInput_view)
qed

lemma good_retire:
  assumes "good evs env n db" and "Suc n < 2 ^ 64"
  shows "good evs (\<lambda>k. if k \<in> set keys then ([], False) else env k) (Suc n) (RetireInputs db keys)"
proof -
  have rev: "Suc (revision db) < 2 ^ 64" and env: "env = view db" using assms by (auto simp: good_def)
  show ?thesis
    by (rule good_step [OF assms(1) RetireInputs_bumps [OF rev]]) (simp only: RetireInputs_view env)
qed

lemma inputs_wf_pending: "inputs_wf m \<Longrightarrow> pending_wf m"
  by (auto simp: inputs_wf_def pending_wf_def)

lemma good_apply:
  assumes "good evs env n db" and "Suc n < 2 ^ 64" and "inputs_wf m"
  shows "good evs (\<lambda>k. case map_of m k of None \<Rightarrow> env k | Some ch \<Rightarrow> changeEffect ch) (Suc n) (snd (applySnapshot db m))"
proof -
  have rev: "Suc (revision db) < 2 ^ 64" and env: "env = view db" and wf: "store_wf db" using assms by (auto simp: good_def)
  obtain b db' where ap: "applyPending db m = (b, db')" by force
  note eff = applyPending_effect [OF wf inputs_wf_pending [OF assms(3)] rev ap]
  have v: "view db' = (\<lambda>k. case map_of m k of None \<Rightarrow> env k | Some ch \<Rightarrow> changeEffect ch)"
    using eff unfolding env pending_effect [OF inputs_wf_pending [OF assms(3)], abs_def] by blast
  from applyPending_bumps [OF rev ap] have "bumps db db' \<or> db' = db" by (auto split: if_splits)
  from good_step [OF assms(1) this v] ap show ?thesis by (simp add: applySnapshot_def)
qed

subsection \<open>Installing the admitted world\<close>

lemma fold_keyed:
  assumes "gomap_ok m" "fst ` set m \<inter> (fst ` set a \<union> fst ` set b) = {}"
  shows "foldl (\<lambda>(a, b) (k, v). (AList.update k (f k v) a, AList.update k k b)) (a, b) m =
    (a @ map (\<lambda>(k, v). (k, f k v)) m, b @ map (\<lambda>(k, v). (k, k)) m)"
  using assms
proof (induction m arbitrary: a b)
  case (Cons kv m)
  obtain k v where kv: "kv = (k, v)" by force
  have "map_of a k = None" "map_of b k = None" using Cons.prems(2) kv by (auto simp: map_of_eq_None_iff)
  with Cons kv show ?case by (auto simp: update_new)
qed simp

definition entryOf :: "publicationPlan \<Rightarrow> sessionQuery" where
  "entryOf plan = \<lparr>sq_resultBytes = pub_MaxResultBytes (pl_publication plan), sq_dependencies = pub_MaxDependencies (pl_publication plan)\<rparr>"

lemma canonicalChange_id:
  assumes "identity_keys keys" "inputs_wf old" "ch_Key ch = k" "normal ch"
  shows "canonicalChange keys old k ch = ch"
proof -
  have k: "(case map_of keys k of None \<Rightarrow> k | Some key \<Rightarrow> key) = k"
    using assms(1) by (auto simp: identity_keys_def split: option.splits)
  have c: "ch\<lparr>ch_Key := k\<rparr> = ch" using assms(3) by (cases ch) simp
  have "ch\<lparr>ch_Value := ch_Value prev\<rparr> = ch" if "map_of old k = Some prev" "sameChange prev ch" for prev
    using sameChange_eq [OF that(2)] inputs_wfD [OF assms(2) that(1)] assms(3,4) by simp
  then show ?thesis unfolding canonicalChange_def Let_def k c by (auto split: option.splits)
qed

lemma installInputs_eq:
  assumes "identity_keys (s_inputKeys s)" "inputs_wf (s_inputs s)" "inputs_wf m"
  shows "installInputs s m = (m, map (\<lambda>(k, ch). (k, k)) m)"
proof -
  have id: "canonicalChange (s_inputKeys s) (s_inputs s) k ch = ch" "ch_Key ch = k" if "(k, ch) \<in> set m" for k ch
    using that assms(3) by (auto simp: inputs_wf_def intro!: canonicalChange_id [OF assms(1,2)])
  have "installInputs s m = foldl (\<lambda>(a, b) (k, v). (AList.update k v a, AList.update k k b)) ([], []) m"
    unfolding installInputs_def by (rule foldl_cong) (auto simp: id Let_def)
  with fold_keyed [of m "[]" "[]" "\<lambda>k v. v"] assms(3) show ?thesis by (simp add: inputs_wf_def)
qed

lemma installQueries_eq:
  assumes "identity_keys (s_queryKeys s)" "gomap_ok m"
  shows "installQueries s m = (map (\<lambda>(k, plan). (k, entryOf plan)) m, map (\<lambda>(k, plan). (k, k)) m)"
proof -
  have id: "(case map_of (s_queryKeys s) k of None \<Rightarrow> k | Some key \<Rightarrow> key) = k" for k
    using assms(1) by (auto simp: identity_keys_def split: option.splits)
  have "installQueries s m = foldl (\<lambda>(a, b) (k, v). (AList.update k (entryOf v) a, AList.update k k b)) ([], []) m"
    unfolding installQueries_def by (rule foldl_cong) (auto simp: id Let_def entryOf_def)
  with fold_keyed [of m "[]" "[]" "\<lambda>k v. entryOf v"] assms(2) show ?thesis by simp
qed

text \<open>A key map as the session builds it.\<close>

definition keysOf :: "(Key, 'a) gomap \<Rightarrow> (Key, Key) gomap" where
  "keysOf m = map (\<lambda>(k, v). (k, k)) m"

lemma keysOf_lookup: "map_of (keysOf m) k = (if map_of m k = None then None else Some k)"
  by (induction m) (auto simp: keysOf_def)

lemma keysOf_identity [simp]: "identity_keys (keysOf m)"
  by (simp add: identity_keys_def keysOf_lookup)

definition entriesOf :: "(Key, publicationPlan) gomap \<Rightarrow> (Key, sessionQuery) gomap" where
  "entriesOf m = map (\<lambda>(k, plan). (k, entryOf plan)) m"

lemma entriesOf_lookup: "map_of (entriesOf m) k = map_option entryOf (map_of m k)"
  by (induction m) (auto simp: entriesOf_def)

lemma retireQuery_db:
  "s_db (retireQuery live s (key, old)) = (if map_of live key \<noteq> Some old then snd (EvictQuery (s_db s) key) else s_db s)"
  by (simp add: retireQuery_def Let_def)

lemma retireQuery_frame:
  "(retireQuery live s kq)\<lparr>s_db := db, s_stats := st, s_debtBytes := debt\<rparr> = s\<lparr>s_db := db, s_stats := st, s_debtBytes := debt\<rparr>"
  by (cases kq) (simp add: retireQuery_def Let_def)

lemma retireQuery_results:
  "map_of (results (s_db (retireQuery live s (key, old)))) k = Some r \<Longrightarrow>
   map_of (results (s_db s)) k = Some r \<and> (k = key \<longrightarrow> map_of live k = Some old)"
  unfolding retireQuery_db by (auto simp: EvictQuery_def split: if_splits option.splits)

lemma good_retireQuery:
  assumes "good evs env n (s_db s)" "Suc n < 2 ^ 64"
  shows "good evs env (Suc n) (s_db (retireQuery live s kq))"
proof (cases kq)
  case (Pair key old)
  show ?thesis using good_evict [OF assms] good_mono [OF assms(1), of "Suc n"] by (simp add: Pair retireQuery_db)
qed

text \<open>What the eviction loop leaves: the session but for its database and its counters, and no entry
  of a query that is gone or whose reservation has changed.\<close>

lemma retire_loop:
  assumes "good evs env n (s_db s)" and "n + length L < 2 ^ 64"
  shows "\<exists>db st debt. foldl (retireQuery live) s L = s\<lparr>s_db := db, s_stats := st, s_debtBytes := debt\<rparr> \<and>
    good evs env (n + length L) db \<and>
    (\<forall>k r. map_of (results db) k = Some r \<longrightarrow>
       map_of (results (s_db s)) k = Some r \<and> (\<forall>old. (k, old) \<in> set L \<longrightarrow> map_of live k = Some old))"
  using assms
proof (induction L arbitrary: s n)
  case Nil
  then show ?case by (intro exI [of _ "s_db s"] exI [of _ "s_stats s"] exI [of _ "s_debtBytes s"]) simp
next
  case (Cons kq L)
  obtain key old where kq: "kq = (key, old)" by (rule prod.exhaust)
  have "Suc n + length L < 2 ^ 64" "Suc n < 2 ^ 64" using Cons.prems(2) by simp_all
  from Cons.IH [OF good_retireQuery [OF Cons.prems(1) this(2), of live kq] this(1)] obtain db st debt where
    eq: "foldl (retireQuery live) (retireQuery live s kq) L = (retireQuery live s kq)\<lparr>s_db := db, s_stats := st, s_debtBytes := debt\<rparr>"
    and g: "good evs env (Suc n + length L) db"
    and res: "\<forall>k r. map_of (results db) k = Some r \<longrightarrow> map_of (results (s_db (retireQuery live s kq))) k = Some r \<and>
      (\<forall>old. (k, old) \<in> set L \<longrightarrow> map_of live k = Some old)" by (elim exE conjE) (rule that)
  have "map_of (results (s_db s)) k = Some r \<and> (\<forall>old. (k, old) \<in> set (kq # L) \<longrightarrow> map_of live k = Some old)"
    if "map_of (results db) k = Some r" for k r
  proof -
    from res that have 1: "map_of (results (s_db (retireQuery live s kq))) k = Some r"
      and 2: "\<forall>old. (k, old) \<in> set L \<longrightarrow> map_of live k = Some old" by blast+
    from retireQuery_results [OF 1 [unfolded kq]] 2 show ?thesis unfolding kq by auto
  qed
  moreover have "foldl (retireQuery live) s (kq # L) = s\<lparr>s_db := db, s_stats := st, s_debtBytes := debt\<rparr>"
    unfolding foldl_Cons eq by (rule retireQuery_frame)
  ultimately show ?case using g by (intro exI [of _ db] exI [of _ st] exI [of _ debt]) simp
qed

lemma retiredKeys_iff: "k \<in> set (retiredKeys old new) \<longleftrightarrow> map_of old k \<noteq> None \<and> map_of new k = None"
  using map_of_eq_None_iff [of old k] by (auto simp: retiredKeys_def)

subsection \<open>The invariant\<close>

definition session_inv :: "Session \<Rightarrow> bool" where
  "session_inv s \<longleftrightarrow> gomap_ok (s_evaluators s) \<and> limits_ok (s_limits s) \<and> inputs_wf (s_inputs s) \<and> gomap_ok (s_live s) \<and>
     (\<forall>k. map_of (s_inputKeys s) k = map_of (keysOf (s_inputs s)) k) \<and>
     (\<forall>k. map_of (s_queryKeys s) k = map_of (keysOf (s_live s)) k) \<and>
     good (map_of (s_evaluators s)) (snapshotOf (s_inputs s)) (revision (s_db s)) (s_db s)"

lemma session_keys:
  assumes "session_inv s"
  shows "identity_keys (s_inputKeys s)" "identity_keys (s_queryKeys s)"
proof -
  have "map_of (s_inputKeys s) = map_of (keysOf (s_inputs s))" "map_of (s_queryKeys s) = map_of (keysOf (s_live s))"
    using assms by (auto simp: session_inv_def)
  then show "identity_keys (s_inputKeys s)" "identity_keys (s_queryKeys s)"
    by (simp_all add: identity_keys_def keysOf_lookup)
qed

definition db_room :: "Session \<Rightarrow> bool" where
  "db_room s \<longleftrightarrow> revision (s_db s) + length (s_live s) + 2 < 2 ^ 64"

definition room :: "Session \<Rightarrow> bool" where
  "room s \<longleftrightarrow> db_room s \<and> Suc (s_epoch s) < 2 ^ 64"

lemma installWorld_spec:
  assumes inv: "session_inv s" and room: "db_room s" and wf: "inputs_wf (adm_inputs adm)" and sel: "gomap_ok (adm_selected adm)"
  shows "\<exists>db st debtB debtI totals. installWorld s adm =
      s\<lparr>s_delta := None, s_db := db, s_live := entriesOf (adm_selected adm), s_inputs := adm_inputs adm,
        s_queryKeys := keysOf (adm_selected adm), s_inputKeys := keysOf (adm_inputs adm), s_ready := True,
        s_bytes := adm_bytes adm, s_edges := adm_edges adm, s_dependencies := adm_dependencies adm,
        s_debtBytes := debtB, s_debtInputs := debtI, s_totals := totals, s_stats := st\<rparr> \<and>
      good (map_of (s_evaluators s)) (snapshotOf (adm_inputs adm)) (revision (s_db s) + length (s_live s) + 2) db \<and>
      debtB \<le> lim_Bytes (s_limits s) \<and> debtI \<le> lim_Inputs (s_limits s) \<and>
      (\<forall>k r. map_of (results db) k = Some r \<longrightarrow> map_of (results (s_db s)) k = Some r \<and>
         (\<forall>old. map_of (s_live s) k = Some old \<longrightarrow> map_of (entriesOf (adm_selected adm)) k = Some old))"
proof -
  let ?evs = "map_of (s_evaluators s)" and ?env = "snapshotOf (s_inputs s)" and ?n = "revision (s_db s)"
  let ?live = "entriesOf (adm_selected adm)" and ?ins = "adm_inputs adm"
  let ?retired = "retiredKeys (s_inputs s) ?ins"
  let ?s1 = "s\<lparr>s_debtBytes := s_debtBytes s + sum_list (map keyCost ?retired), s_debtInputs := s_debtInputs s + int (length ?retired)\<rparr>"
  note i = inv [unfolded session_inv_def] and r = room [unfolded db_room_def]
  have iI: "installInputs s ?ins = (?ins, keysOf ?ins)"
    using installInputs_eq [OF session_keys(1) [OF inv] _ wf] i by (simp add: keysOf_def)
  have iQ: "installQueries s (adm_selected adm) = (?live, keysOf (adm_selected adm))"
    using installQueries_eq [OF session_keys(2) [OF inv] sel] by (simp add: keysOf_def entriesOf_def)
  have "good ?evs ?env ?n (s_db ?s1)" "?n + length (s_live s) < 2 ^ 64" using i r by simp_all
  from retire_loop [OF this, of ?live] obtain db2 st2 debt2 where
    s2: "foldl (retireQuery ?live) ?s1 (s_live s) = ?s1\<lparr>s_db := db2, s_stats := st2, s_debtBytes := debt2\<rparr>"
    and g2: "good ?evs ?env (?n + length (s_live s)) db2"
    and res2: "\<forall>k r. map_of (results db2) k = Some r \<longrightarrow> map_of (results (s_db s)) k = Some r \<and>
       (\<forall>old. (k, old) \<in> set (s_live s) \<longrightarrow> map_of ?live k = Some old)" by auto
  let ?s3 = "?s1\<lparr>s_db := db2, s_stats := st2, s_debtBytes := debt2, s_delta := None, s_live := ?live, s_inputs := ?ins,
    s_inputKeys := keysOf ?ins, s_queryKeys := keysOf (adm_selected adm), s_bytes := adm_bytes adm, s_edges := adm_edges adm,
    s_dependencies := adm_dependencies adm\<rparr>"
  have lim: "0 < lim_Bytes (s_limits s)" "0 \<le> lim_Inputs (s_limits s)" using i by (auto simp: limits_ok_def)
  show ?thesis
  proof (cases "s_debtBytes ?s3 > lim_Bytes (s_limits ?s3) \<or> s_debtInputs ?s3 > lim_Inputs (s_limits ?s3)")
    case True
    let ?s4 = "countCompaction (compactSession ?s3)"
    let ?db = "snd (applySnapshot (newDatabase ?s3) ?ins)"
    have "covered (evalMap (registry ?s3)) ?evs" using registry_covered [of ?s3] by simp
    from good_New [OF registry_ok this] have "good ?evs (\<lambda>_. ([], False)) 1 (newDatabase ?s3)"
      using i by (simp add: newDatabase_def)
    from good_apply [OF this _ wf] have "good ?evs (snapshotOf ?ins) (Suc 1) ?db"
      by (simp add: snapshotOf_def [abs_def])
    then have g: "good ?evs (snapshotOf ?ins) (?n + length (s_live s) + 2) ?db" by (rule good_mono) simp
    have "results ?db = []"
      using writeChange_overwrites overwrites_foldl [of writeChange "bumpRevision (newDatabase ?s3)" ?ins]
      by (auto simp: applySnapshot_def applyPending_def overwrites_def newDatabase_def New_def)
    moreover have "installWorld s adm = ?s4\<lparr>s_db := ?db, s_ready := True,
        s_stats := (s_stats ?s4)\<lparr>st_Skipped := uint64_add (st_Skipped (s_stats ?s4)) (length (adm_skipped adm))\<rparr>\<rparr>"
      unfolding installWorld_def iI iQ Let_def prod.case s2 using True
      by (simp add: countCompaction_def compactSession_def)
    ultimately show ?thesis using g lim
      by (intro exI [of _ ?db] exI [of _ "(s_stats ?s4)\<lparr>st_Skipped := uint64_add (st_Skipped (s_stats ?s4)) (length (adm_skipped adm))\<rparr>"]
          exI [of _ 0] exI [of _ "s_totals ?s4"] conjI) (simp_all add: countCompaction_def compactSession_def)
  next
    case False
    let ?db3 = "RetireInputs db2 ?retired"
    let ?db = "snd (applySnapshot ?db3 ?ins)"
    have "good ?evs (\<lambda>k. if k \<in> set ?retired then ([], False) else ?env k) (Suc (?n + length (s_live s))) ?db3"
      using good_retire [OF g2] r by simp
    from good_apply [OF this _ wf] r have "good ?evs (\<lambda>k. case map_of ?ins k of
        None \<Rightarrow> (if k \<in> set ?retired then ([], False) else ?env k) | Some ch \<Rightarrow> changeEffect ch) (?n + length (s_live s) + 2) ?db" by simp
    moreover have "(case map_of ?ins k of None \<Rightarrow> (if k \<in> set ?retired then ([], False) else ?env k) | Some ch \<Rightarrow> changeEffect ch)
        = snapshotOf ?ins k" for k
      by (auto simp: snapshotOf_def retiredKeys_iff split: option.splits)
    ultimately have g: "good ?evs (snapshotOf ?ins) (?n + length (s_live s) + 2) ?db" by simp
    have "overwrites (bumpRevision db2) (foldl retireInput (bumpRevision db2) ?retired)"
      "overwrites (bumpRevision ?db3) (foldl writeChange (bumpRevision ?db3) ?ins)"
      by (intro overwrites_foldl retireInput_overwrites writeChange_overwrites)+
    then have res: "results ?db = results db2"
      by (auto simp: applySnapshot_def applyPending_def RetireInputs_def overwrites_def)
    let ?st = "st2\<lparr>st_Skipped := uint64_add (st_Skipped st2) (length (adm_skipped adm))\<rparr>"
    have "installWorld s adm = ?s3\<lparr>s_db := ?db, s_ready := True, s_stats := ?st\<rparr>"
      unfolding installWorld_def iI iQ Let_def prod.case s2 using False by simp
    also have "\<dots> = ?s3\<lparr>s_db := ?db, s_ready := True, s_stats := ?st, s_totals := s_totals s\<rparr>" by (cases s) simp
    finally have eq: "installWorld s adm = ?s3\<lparr>s_db := ?db, s_ready := True, s_stats := ?st, s_totals := s_totals s\<rparr>" .
    have last: "\<forall>k r. map_of (results ?db) k = Some r \<longrightarrow> map_of (results (s_db s)) k = Some r \<and>
         (\<forall>old. map_of (s_live s) k = Some old \<longrightarrow> map_of ?live k = Some old)"
      using res2 unfolding res by (blast dest: map_of_SomeD)
    have debts: "debt2 \<le> lim_Bytes (s_limits s)" "s_debtInputs ?s3 \<le> lim_Inputs (s_limits s)" using False by simp_all
    show ?thesis
      by (rule exI [of _ ?db], rule exI [of _ ?st], rule exI [of _ debt2], rule exI [of _ "s_debtInputs ?s3"], rule exI [of _ "s_totals s"],
          intro conjI g last debts) (simp add: eq)
  qed
qed

end
