(* ===== verification/IncSessionMemo.thy ===== *)
theory IncSessionMemo
  imports IncSessionProofs
begin

text \<open>
  The memo of a session stays within its reservations: an entry is stored only after a guarded
  evaluator has returned, so its value and its dependency list fit what its query has reserved.
  The contract \<open>kept_query\<close> is what the recursion of \<^verbatim>\<open>evaluate\<close> needs to keep such a
  property of the stored entries.
\<close>

subsection \<open>Properties of the stored entries\<close>

locale kept_query =
  fixes Q :: "Database \<Rightarrow> bool" and ev :: query_fn
  assumes keeps_stats: "Q (db\<lparr>stats := st\<rparr>) = Q db"
    and ev_keeps: "Q db \<Longrightarrow> ev key active db c = Some (r, db', c') \<Longrightarrow> Q db'"
begin

lemma input_keeps: "readerInput rd db key = (ans, rd', db') \<Longrightarrow> Q db' = Q db"
  unfolding readerInput_def Let_def by (auto simp: keeps_stats split: if_splits option.splits prod.splits bool.splits)

lemma query_keeps: "Q db \<Longrightarrow> readerQuery ev active rd db c key = Some (ans, rd', db', c') \<Longrightarrow> Q db'"
  unfolding readerQuery_def Let_def
  by (auto split: option.splits if_splits sum.splits prod.splits bool.splits dest: ev_keeps)

lemma run_keeps: "Q db \<Longrightarrow> runProg p ev active rd db c = Some (ret, rd', db', c') \<Longrightarrow> Q db'"
proof (induction p arbitrary: rd db c rule: prog_induct)
  case (InputP key k)
  then obtain ans rd1 db1 where i: "readerInput rd db key = (ans, rd1, db1)"
    and run: "runProg (k ans) ev active rd1 db1 c = Some (ret, rd', db', c')" by (auto split: prod.splits)
  from InputP.IH [OF _ run] input_keeps [OF i] InputP.prems(1) show ?case by simp
next
  case (QueryP key k)
  then obtain ans rd1 db1 c1 where q: "readerQuery ev active rd db c key = Some (ans, rd1, db1, c1)"
    and run: "runProg (k ans) ev active rd1 db1 c1 = Some (ret, rd', db', c')" by (auto split: option.splits prod.splits)
  from QueryP.IH [OF query_keeps [OF QueryP.prems(1) q] run] show ?case .
next
  case (ConfigP inputKeys queryKeys limit p)
  from ConfigP.IH [OF ConfigP.prems(1) ConfigP.prems(2) [unfolded runProg.simps]] show ?case .
qed (auto split: prod.splits)

lemma check_keeps: "Q db \<Longrightarrow> checkDependencies ev active verified deps db c = Some (r, db', c') \<Longrightarrow> Q db'"
proof (induction deps arbitrary: db c)
  case (Cons dep deps)
  let ?db1 = "countStat DependencyChecks_update db"
  have q1: "Q ?db1" using Cons.prems(1) by (simp add: countStat_def keeps_stats)
  show ?case
  proof (cases "dep_query dep")
    case True
    with Cons.prems(2) obtain r2 db2 c2 where e: "ev (dep_key dep) active ?db1 c = Some (r2, db2, c2)"
      by (auto simp: Let_def split: option.splits)
    from ev_keeps [OF q1 e] Cons.IH [of db2 c2] Cons.prems(2) True e show ?thesis
      by (auto simp: Let_def split: sum.splits option.splits if_splits)
  next
    case False
    with Cons.prems(2) Cons.IH [OF q1, of c] q1 show ?thesis by (auto simp: Let_def split: if_splits)
  qed
qed simp

end

definition results_all :: "(Key \<Rightarrow> string \<Rightarrow> dependency list \<Rightarrow> bool) \<Rightarrow> (string \<rightharpoonup> Evaluator) \<Rightarrow> Database \<Rightarrow> bool" where
  "results_all P reg db \<longleftrightarrow> lookupEvaluator db = reg \<and>
     (\<forall>k r. map_of (results db) k = Some r \<longrightarrow> P k (res_value r) (res_dependencies r))"

definition returns_only :: "(Key \<Rightarrow> string \<Rightarrow> dependency list \<Rightarrow> bool) \<Rightarrow> (string \<rightharpoonup> Evaluator) \<Rightarrow> bool" where
  "returns_only P reg \<longleftrightarrow>
     (\<forall>key f ev active db c v rd db' c'. reg (Kind key) = Some f \<longrightarrow>
        runProg (f (Name key)) ev active newReader db c = Some (Inr v, rd, db', c') \<longrightarrow> P key v (rd_dependencies rd))"

lemma results_all_stats [simp]: "results_all P reg (db\<lparr>stats := st\<rparr>) = results_all P reg db" "results_all P reg (countStat u db) = results_all P reg db"
  by (simp_all add: results_all_def countStat_def)

lemma execute_keeps:
  assumes kept: "kept_query (results_all P reg) ev" and only: "returns_only P reg" and all: "results_all P reg db"
    and ex: "executeQuery ev key active old db c = Some (r, db', c')"
  shows "results_all P reg db'"
proof (cases "lookupEvaluator db (Kind key)")
  case None
  with ex all show ?thesis by (simp add: executeQuery_def)
next
  case (Some f)
  let ?db0 = "countStat Executed_update db"
  from ex Some obtain ret rd db1 c1 where
    run: "runProg (f (Name key)) ev active newReader ?db0 c = Some (ret, rd, db1, c1)"
    by (auto simp: executeQuery_def split: option.splits)
  have all1: "results_all P reg db1" by (rule kept_query.run_keeps [OF kept _ run]) (simp add: all)
  have reg: "reg (Kind key) = Some f" using all Some by (simp add: results_all_def)
  have "P key v (rd_dependencies rd)" if "ret = Inr v" for v
    using only reg run unfolding that returns_only_def by blast
  with ex Some run all1 show ?thesis
    by (auto simp: executeQuery_def Let_def results_all_def split: option.splits sum.splits prod.splits if_splits)
qed

lemma evaluate_keeps: "returns_only P reg \<Longrightarrow> kept_query (results_all P reg) (evaluate fuel)"
proof (induction fuel)
  case 0
  show ?case by unfold_locales simp_all
next
  case (Suc fuel)
  note kept = Suc.IH [OF Suc.prems]
  show ?case
  proof
    fix db key active c r db' c'
    assume all: "results_all P reg db" and e: "evaluate (Suc fuel) key active db c = Some (r, db', c')"
    have validated: "results_all P reg (countStat u (d\<lparr>results := AList.update key (old\<lparr>res_verified := n\<rparr>) (results d)\<rparr>))"
      if "results_all P reg d" "results_all P reg db" "map_of (results db) key = Some old" for u d old n
      using that by (auto simp: results_all_def countStat_def)
    show "results_all P reg db'"
    proof (cases "fst (ctxErr c) = None \<and> key \<notin> set active")
      case False
      with e all show ?thesis by (auto split: prod.splits option.splits if_splits)
    next
      case True
      then obtain c1 where c1: "ctxErr c = (None, c1)" by (metis prod.collapse)
      show ?thesis
      proof (cases "map_of (results db) key")
        case None
        with e c1 True have "executeQuery (evaluate fuel) key (key # active) None db c1 = Some (r, db', c')" by simp
        from execute_keeps [OF kept Suc.prems all this] show ?thesis .
      next
        case (Some old)
        show ?thesis
        proof (cases "res_verified old = revision db")
          case True
          with e c1 Some \<open>fst (ctxErr c) = None \<and> key \<notin> set active\<close> all show ?thesis by auto
        next
          case stale: False
          with e c1 True Some obtain x db2 c2 where
            chk: "checkDependencies (evaluate fuel) (key # active) (res_verified old) (res_dependencies old) db c1 = Some (x, db2, c2)"
            by (auto split: option.splits)
          have all2: "results_all P reg db2" by (rule kept_query.check_keeps [OF kept all chk])
          consider (err) err where "x = Inl err" | (valid) "x = Inr True" | (rerun) "x = Inr False" by (cases x) (metis (full_types))+
          then show ?thesis
          proof cases
            case rerun
            with e c1 True Some stale chk have "executeQuery (evaluate fuel) key (key # active) (Some old) db2 c2 = Some (r, db', c')" by simp
            from execute_keeps [OF kept Suc.prems all2 this] show ?thesis .
          qed (use e c1 True Some stale chk all2 validated [OF all2 all Some] in auto)
        qed
      qed
    qed
  qed simp
qed

text \<open>With the condition on the evaluators inside the property, every recursion level keeps it.\<close>

interpretation memo: kept_query "\<lambda>db. returns_only P reg \<longrightarrow> results_all P reg db" "evaluate fuel" for P reg fuel
proof
  fix db key active c r db' c'
  assume "returns_only P reg \<longrightarrow> results_all P reg db" and e: "evaluate fuel key active db c = Some (r, db', c')"
  then show "returns_only P reg \<longrightarrow> results_all P reg db'"
    using kept_query.ev_keeps [OF evaluate_keeps _ e] by blast
qed simp

subsection \<open>Guarded evaluators return only what was reserved\<close>

text \<open>The restrictions of a reader are unexported fields: an evaluator outside the package cannot set them.\<close>

primrec plainProg :: "prog \<Rightarrow> bool" where
  "plainProg (Done r) = True"
| "plainProg (InputP key k) = (\<forall>ans. plainProg (k ans))"
| "plainProg (QueryP key k) = (\<forall>ans. plainProg (k ans))"
| "plainProg (ContextP k) = (\<forall>ans. plainProg (k ans))"
| "plainProg (ConfigP inputKeys queryKeys limit p) = False"

lemma run_limitResult: "runProg (limitResult n p) ev active rd db c = Some (Inr v, rd', db', c') \<Longrightarrow> int (length v) \<le> n"
proof (induction p arbitrary: rd db c rule: prog_induct)
  case (ConfigP inputKeys queryKeys limit p)
  from ConfigP.IH [OF ConfigP.prems [unfolded limitResult.simps runProg.simps]] show ?case .
qed (auto split: sum.splits option.splits prod.splits if_splits)

definition bounded_by :: "int \<Rightarrow> Reader \<Rightarrow> bool" where
  "bounded_by n rd \<longleftrightarrow> rd_boundedDependencies rd \<and> rd_maxDependencies rd = n \<and> int (length (rd_dependencies rd)) \<le> n"

lemma remember_bounded: "remember rd dep = (b, rd') \<Longrightarrow> bounded_by n rd \<Longrightarrow> bounded_by n rd'"
  unfolding remember_def Let_def bounded_by_def by (auto split: if_splits)

lemma bounded_failure [simp]: "bounded_by n (rd\<lparr>rd_failure := e\<rparr>) = bounded_by n rd"
  by (simp add: bounded_by_def)

lemma input_bounded: "readerInput rd db key = (ans, rd', db') \<Longrightarrow> bounded_by n rd \<Longrightarrow> bounded_by n rd'"
  unfolding readerInput_def Let_def by (auto split: if_splits option.splits prod.splits bool.splits dest: remember_bounded)

lemma query_bounded: "readerQuery ev active rd db c key = Some (ans, rd', db', c') \<Longrightarrow> bounded_by n rd \<Longrightarrow> bounded_by n rd'"
  unfolding readerQuery_def Let_def
  by (auto split: option.splits if_splits sum.splits prod.splits bool.splits dest: remember_bounded)

lemma run_bounded:
  "plainProg p \<Longrightarrow> bounded_by n rd \<Longrightarrow> runProg (limitResult m p) ev active rd db c = Some (ret, rd', db', c') \<Longrightarrow> bounded_by n rd'"
proof (induction p arbitrary: rd db c rule: prog_induct)
  case (InputP key k)
  then obtain ans rd1 db1 where i: "readerInput rd db key = (ans, rd1, db1)"
    and run: "runProg (limitResult m (k ans)) ev active rd1 db1 c = Some (ret, rd', db', c')" by (auto split: prod.splits)
  have "plainProg (k ans)" using InputP.prems(1) by (cases ans) simp
  from InputP.IH [OF this input_bounded [OF i InputP.prems(2)] run] show ?case .
next
  case (QueryP key k)
  then obtain ans rd1 db1 c1 where q: "readerQuery ev active rd db c key = Some (ans, rd1, db1, c1)"
    and run: "runProg (limitResult m (k ans)) ev active rd1 db1 c1 = Some (ret, rd', db', c')" by (auto split: option.splits prod.splits)
  have "plainProg (k ans)" using QueryP.prems(1) by simp
  from QueryP.IH [OF this query_bounded [OF q QueryP.prems(2)] run] show ?case .
qed (auto split: prod.splits)

text \<open>The reservation of an admitted query covers a value and its dependencies.\<close>

definition reserved :: "(Key, sessionQuery) gomap \<Rightarrow> Key \<Rightarrow> string \<Rightarrow> dependency list \<Rightarrow> bool" where
  "reserved live k v deps \<longleftrightarrow>
     (\<exists>e. map_of live k = Some e \<and> int (length v) \<le> sq_resultBytes e \<and> int (length deps) \<le> sq_dependencies e)"

definition plain_session :: "Session \<Rightarrow> bool" where
  "plain_session s \<longleftrightarrow> (\<forall>kind f name. map_of (s_evaluators s) kind = Some f \<longrightarrow> plainProg (f name))"

definition entries_ok :: "(Key, sessionQuery) gomap \<Rightarrow> bool" where
  "entries_ok live \<longleftrightarrow> (\<forall>k e. map_of live k = Some e \<longrightarrow> 0 \<le> sq_resultBytes e \<and> 0 \<le> sq_dependencies e)"

lemma registry_returns_reserved:
  assumes "plain_session s" and "entries_ok (s_live s)"
  shows "returns_only (reserved (s_live s)) (evalMap (registry s))"
  unfolding returns_only_def
proof (intro allI impI)
  fix key :: Key and f ev active db c v rd db' c'
  assume f: "evalMap (registry s) (Kind key) = Some f"
    and run: "runProg (f (Name key)) ev active newReader db c = Some (Inr v, rd, db', c')"
  from f obtain g where g: "map_of (s_evaluators s) (Kind key) = Some g" and f: "f = guardedEvaluator s (Kind key) g"
    by (auto simp: registry_lookup)
  have key: "\<lparr>Kind = Kind key, Name = Name key\<rparr> = key" by simp
  from run obtain e where e: "map_of (s_live s) key = Some e"
    unfolding f guardedEvaluator_def key by (auto split: option.splits)
  let ?rd = "newReader\<lparr>rd_inputAuthority := Some (map_of (s_inputKeys s)), rd_queryAuthority := Some (map_of (s_queryKeys s)),
    rd_boundedDependencies := True, rd_maxDependencies := sq_dependencies e\<rparr>"
  from run e have run': "runProg (limitResult (sq_resultBytes e) (g (Name key))) ev active ?rd db c = Some (Inr v, rd, db', c')"
    unfolding f guardedEvaluator_def key by simp
  have "bounded_by (sq_dependencies e) ?rd" using assms(2) e by (simp add: bounded_by_def entries_ok_def)
  moreover have "plainProg (g (Name key))" using assms(1) g unfolding plain_session_def by blast
  ultimately have "bounded_by (sq_dependencies e) rd" using run_bounded [OF _ _ run'] by blast
  with run_limitResult [OF run'] e show "reserved (s_live s) key v (rd_dependencies rd)"
    by (auto simp: reserved_def bounded_by_def)
qed

end
