(* ===== verification/IncDelta.thy ===== *)
theory IncDelta
  imports IncSession
begin

text \<open>
  Delta publications: \<^verbatim>\<open>compiler/src/incremental/session_delta.go\<close>. A delta replaces the named
  publications and removes owners; omitted owners stay. The loops over Go maps run in the order of
  the model's lists; which of several errors a failing delta reports depends on that order, what an
  accepted delta does not. A \<^verbatim>\<open>map[Key]struct{}\<close> is the list of its keys. The maps the source
  updates in place are updated after the last check, so they are results here.
\<close>

record Delta =
  d_Reset :: bool
  d_Upsert :: "Publication list"
  d_Remove :: "Key list"

definition newDeltaOwnership :: deltaOwnership where
  "newDeltaOwnership = \<lparr>own_owned = [], own_refs = []\<rparr>"

subsection \<open>Cost of a query\<close>

fun addAll :: "int \<Rightarrow> int list \<Rightarrow> int \<Rightarrow> int option" where
  "addAll limit [] cost = Some cost"
| "addAll limit (n # ns) cost = (if n < 0 \<or> n > limit - cost then None else addAll limit ns (cost + n))"

definition deltaQueryCost :: "Publication \<Rightarrow> int \<Rightarrow> int \<Rightarrow> error + int" where
  "deltaQueryCost p n limit =
     (if pub_MaxResultBytes p < 0 \<or> pub_MaxDependencies p < 0 \<or> pub_MaxDependencies p > limit div 96 \<or> n > limit div 96
      then Inl (ErrOther ''delta query reservation exceeds byte budget'')
      else case addAll limit [keyCost (pub_Key p), 128, pub_MaxResultBytes p, pub_MaxDependencies p * 96, n * 96] 0 of
        None \<Rightarrow> Inl (ErrOther ''delta query reservation exceeds byte budget'')
      | Some cost \<Rightarrow> Inr cost)"

subsection \<open>Planning\<close>

type_synonym deltaPlans = "(Key, publicationPlan option) gomap"

definition planRemovals :: "Key list \<Rightarrow> deltaPlans" where
  "planRemovals keys = foldl (\<lambda>plans key. if map_of plans key \<noteq> None then plans else AList.update key None plans) [] keys"

fun uniqueInputs :: "Change list \<Rightarrow> (Key, Change) gomap \<Rightarrow> Change list \<Rightarrow> error + Change list" where
  "uniqueInputs [] unique kept = Inr kept"
| "uniqueInputs (raw # changes) unique kept =
     (let change = normalChange raw in
      case map_of unique (ch_Key change) of
        Some old \<Rightarrow>
          if \<not> sameChange old change then Inl (ErrOther ''conflicting delta owner input'')
          else uniqueInputs changes unique kept
      | None \<Rightarrow> uniqueInputs changes (AList.update (ch_Key change) change unique) (kept @ [change]))"

fun planUpserts ::
  "Session \<Rightarrow> int \<Rightarrow> Publication list \<Rightarrow> ctx \<Rightarrow> deltaPlans \<Rightarrow> int \<Rightarrow> (error + deltaPlans) \<times> ctx" where
  "planUpserts s budget [] c plans work = (Inr plans, c)"
| "planUpserts s budget (p # ps) c plans work =
     (case ctxErr c of
        (Some err, c1) \<Rightarrow> (Inl err, c1)
      | (None, c1) \<Rightarrow>
          if map_of (s_evaluators s) (Kind (pub_Key p)) = None then (Inl (ErrOther ''unknown delta query kind''), c1)
          else if pub_MaxResultBytes p < 0 \<or> pub_MaxDependencies p < 0 then (Inl (ErrOther ''negative delta reservation''), c1)
          else if int (length (pub_Inputs p)) > budget - work then (Inl (ErrOther ''delta input work budget exceeded''), c1)
          else
            (case uniqueInputs (pub_Inputs p) [] [] of
               Inl err \<Rightarrow> (Inl err, c1)
             | Inr kept \<Rightarrow>
                 let plan = \<lparr>pl_publication = p\<lparr>pub_Inputs := kept\<rparr>, pl_inputs = kept\<rparr>;
                     work' = work + int (length (pub_Inputs p))
                 in case map_of plans (pub_Key p) of
                      Some None \<Rightarrow> (Inl (ErrOther ''conflicting delta owner''), c1)
                    | Some (Some old) \<Rightarrow>
                        if \<not> samePlan old plan then (Inl (ErrOther ''conflicting delta owner''), c1)
                        else planUpserts s budget ps c1 plans work'
                    | None \<Rightarrow> planUpserts s budget ps c1 (AList.update (pub_Key p) (Some plan) plans) work'))"

subsection \<open>Staging\<close>

record staged =
  sg_bytes :: int
  sg_edges :: int
  sg_dependencies :: int
  sg_queries :: int
  sg_touched :: "Key list"
  sg_assertions :: "(Key, (Key, Change) gomap) gomap"

definition touch :: "Key list \<Rightarrow> Key \<Rightarrow> Key list" where
  "touch touched key = (if key \<in> set touched then touched else touched @ [key])"

text \<open>\<^verbatim>\<open>m[key]\<close> for a map of slices, sets or maps: the zero value is empty.\<close>

definition listAt :: "('k, 'v list) gomap \<Rightarrow> 'k \<Rightarrow> 'v list" where
  "listAt m key = (case map_of m key of None \<Rightarrow> [] | Some xs \<Rightarrow> xs)"

definition assertInput :: "Key \<Rightarrow> staged \<Rightarrow> Change \<Rightarrow> staged" where
  "assertInput owner st change =
     st\<lparr>sg_touched := touch (sg_touched st) (ch_Key change),
        sg_assertions := AList.update (ch_Key change)
          (AList.update owner change (listAt (sg_assertions st) (ch_Key change))) (sg_assertions st)\<rparr>"

text \<open>The part of the loop that takes the old reservation of an owner back.\<close>

definition releaseOwner :: "Limits \<Rightarrow> (Key, sessionQuery) gomap \<Rightarrow> deltaOwnership \<Rightarrow> Key \<Rightarrow> staged \<Rightarrow> error + staged" where
  "releaseOwner limits live own key st =
     (case map_of live key of
        None \<Rightarrow> Inr st
      | Some old \<Rightarrow>
          let owned = listAt (own_owned own) key in
          (case deltaQueryCost \<lparr>pub_Key = key, pub_Inputs = [], pub_MaxResultBytes = sq_resultBytes old,
                  pub_MaxDependencies = sq_dependencies old\<rparr> (int (length owned)) (lim_Bytes limits) of
             Inl err \<Rightarrow> Inl err
           | Inr oldCost \<Rightarrow>
               Inr (st\<lparr>sg_bytes := sg_bytes st - oldCost, sg_edges := sg_edges st - int (length owned),
                       sg_dependencies := sg_dependencies st - sq_dependencies old,
                       sg_queries := sg_queries st - 1, sg_touched := foldl touch (sg_touched st) owned\<rparr>)))"

fun stageOwners ::
  "Limits \<Rightarrow> (Key, sessionQuery) gomap \<Rightarrow> deltaOwnership \<Rightarrow> deltaPlans \<Rightarrow> staged \<Rightarrow> error + staged" where
  "stageOwners limits live own [] st = Inr st"
| "stageOwners limits live own ((key, plan) # plans) st =
     (case releaseOwner limits live own key st of
        Inl err \<Rightarrow> Inl err
      | Inr st1 \<Rightarrow>
          (case plan of
             None \<Rightarrow> stageOwners limits live own plans st1
           | Some p \<Rightarrow>
               (case deltaQueryCost (pl_publication p) (int (length (pl_inputs p))) (lim_Bytes limits) of
                  Inl err \<Rightarrow> Inl err
                | Inr _ \<Rightarrow> stageOwners limits live own plans (foldl (assertInput key) st1 (pl_inputs p)))))"

definition zeroChange :: Change where
  "zeroChange = \<lparr>ch_Key = \<lparr>Kind = [], Name = []\<rparr>, ch_Value = [], ch_Remove = False\<rparr>"

text \<open>The value an input has after the delta: the retained one when an untouched owner has it, and
  all assertions must agree.\<close>

fun agreeAll :: "Change option \<Rightarrow> Change list \<Rightarrow> error + Change option" where
  "agreeAll selected [] = Inr selected"
| "agreeAll selected (change # changes) =
     (if (case selected of None \<Rightarrow> False | Some old \<Rightarrow> \<not> sameChange old change)
      then Inl (ErrOther ''conflicting shared delta input'')
      else agreeAll (Some change) changes)"

definition retainedInput :: "(Key, Change) gomap \<Rightarrow> deltaOwnership \<Rightarrow> deltaPlans \<Rightarrow> Key \<Rightarrow> Change option" where
  "retainedInput ins own plans key =
     (if list_ex (\<lambda>owner. map_of plans owner = None) (listAt (own_refs own) key)
      then Some (case map_of ins key of None \<Rightarrow> zeroChange | Some ch \<Rightarrow> ch) else None)"

record stagedInputs =
  si_bytes :: int
  si_count :: int
  si_changes :: "(Key, Change) gomap"
  si_retired :: "Key list"

fun stageInputs ::
  "(Key, Change) gomap \<Rightarrow> deltaOwnership \<Rightarrow> deltaPlans \<Rightarrow> (Key, (Key, Change) gomap) gomap \<Rightarrow> Key list \<Rightarrow> ctx \<Rightarrow>
     stagedInputs \<Rightarrow> (error + stagedInputs) \<times> ctx" where
  "stageInputs ins own plans assertions [] c st = (Inr st, c)"
| "stageInputs ins own plans assertions (key # keys) c st =
     (case ctxErr c of
        (Some err, c1) \<Rightarrow> (Inl err, c1)
      | (None, c1) \<Rightarrow>
          let st1 = (case map_of ins key of
                       None \<Rightarrow> st
                     | Some old \<Rightarrow> st\<lparr>si_bytes := si_bytes st - inputCost old, si_count := si_count st - 1\<rparr>)
          in case agreeAll (retainedInput ins own plans key) (map snd (listAt assertions key)) of
               Inl err \<Rightarrow> (Inl err, c1)
             | Inr None \<Rightarrow>
                 stageInputs ins own plans assertions keys c1
                   (case map_of ins key of
                      None \<Rightarrow> st1
                    | Some old \<Rightarrow> st1\<lparr>si_retired := si_retired st1 @ [ch_Key old]\<rparr>)
             | Inr (Some change) \<Rightarrow>
                 stageInputs ins own plans assertions keys c1 (st1\<lparr>si_changes := AList.update key change (si_changes st1)\<rparr>))"

subsection \<open>Admission\<close>

fun admitOwners :: "Limits \<Rightarrow> deltaPlans \<Rightarrow> int \<times> int \<times> int \<times> int \<Rightarrow> error + (int \<times> int \<times> int \<times> int)" where
  "admitOwners limits [] acc = Inr acc"
| "admitOwners limits ((key, None) # plans) acc = admitOwners limits plans acc"
| "admitOwners limits ((key, Some plan) # plans) (bytes, edges, dependencies, queries) =
     (let n = int (length (pl_inputs plan));
          p = pl_publication plan;
          cost = (case deltaQueryCost p n (lim_Bytes limits) of Inl _ \<Rightarrow> 0 | Inr cost \<Rightarrow> cost)
      in if cost > lim_Bytes limits - bytes \<or> n > lim_InputEdges limits - edges \<or>
            pub_MaxDependencies p > lim_Dependencies limits - dependencies \<or> queries \<ge> lim_Queries limits
         then Inl (ErrOther ''delta reservation budget exceeded'')
         else admitOwners limits plans (bytes + cost, edges + n, dependencies + pub_MaxDependencies p, queries + 1))"

fun admitInputs :: "Limits \<Rightarrow> (Key, Change) gomap \<Rightarrow> int \<times> int \<Rightarrow> error + (int \<times> int)" where
  "admitInputs limits [] acc = Inr acc"
| "admitInputs limits ((key, change) # changes) (bytes, n) =
     (let cost = inputCost change in
      if cost < 0 \<or> cost > lim_Bytes limits - bytes \<or> n \<ge> lim_Inputs limits then Inl (ErrOther ''delta input budget exceeded'')
      else admitInputs limits changes (bytes + cost, n + 1))"

record preparedDelta =
  dp_own :: deltaOwnership
  dp_plans :: deltaPlans
  dp_assertions :: "(Key, (Key, Change) gomap) gomap"
  dp_changes :: "(Key, Change) gomap"
  dp_retired :: "Key list"
  dp_bytes :: int
  dp_edges :: int
  dp_dependencies :: int

text \<open>The world a delta starts from: the empty one on a reset.\<close>

definition baseLive :: "Session \<Rightarrow> bool \<Rightarrow> (Key, sessionQuery) gomap" where
  "baseLive s reset = (if reset then [] else s_live s)"

definition baseInputs :: "Session \<Rightarrow> bool \<Rightarrow> (Key, Change) gomap" where
  "baseInputs s reset = (if reset then [] else s_inputs s)"

definition baseOwnership :: "Session \<Rightarrow> bool \<Rightarrow> error + deltaOwnership" where
  "baseOwnership s reset =
     (if reset then Inr newDeltaOwnership
      else case s_delta s of
        Some own \<Rightarrow> Inr own
      | None \<Rightarrow>
          if s_live s \<noteq> [] \<or> s_inputs s \<noteq> [] then Inl (ErrOther ''delta requires explicit reset after full publication'')
          else Inr newDeltaOwnership)"

text \<open>Staging and admission, given the plans.\<close>

definition admitDelta :: "Session \<Rightarrow> bool \<Rightarrow> deltaOwnership \<Rightarrow> deltaPlans \<Rightarrow> ctx \<Rightarrow> (error + preparedDelta) \<times> ctx" where
  "admitDelta s reset own plans c =
     (let live = baseLive s reset; ins = baseInputs s reset;
          st0 = \<lparr>sg_bytes = (if reset then 0 else s_bytes s), sg_edges = (if reset then 0 else s_edges s),
                 sg_dependencies = (if reset then 0 else s_dependencies s), sg_queries = int (length live),
                 sg_touched = [], sg_assertions = []\<rparr>
      in case stageOwners (s_limits s) live own plans st0 of
           Inl err \<Rightarrow> (Inl err, c)
         | Inr st \<Rightarrow>
             (case stageInputs ins own plans (sg_assertions st) (sg_touched st) c
                     \<lparr>si_bytes = sg_bytes st, si_count = int (length ins), si_changes = [], si_retired = []\<rparr> of
                (Inl err, c1) \<Rightarrow> (Inl err, c1)
              | (Inr si, c1) \<Rightarrow>
                  (case admitOwners (s_limits s) plans (si_bytes si, sg_edges st, sg_dependencies st, sg_queries st) of
                     Inl err \<Rightarrow> (Inl err, c1)
                   | Inr (bytes, edges, dependencies, queries) \<Rightarrow>
                       (case admitInputs (s_limits s) (si_changes si) (bytes, si_count si) of
                          Inl err \<Rightarrow> (Inl err, c1)
                        | Inr (bytes', n) \<Rightarrow>
                            (case ctxErr c1 of
                               (Some err, c2) \<Rightarrow> (Inl err, c2)
                             | (None, c2) \<Rightarrow>
                                 (Inr \<lparr>dp_own = own, dp_plans = plans, dp_assertions = sg_assertions st,
                                       dp_changes = si_changes si, dp_retired = si_retired si, dp_bytes = bytes',
                                       dp_edges = edges, dp_dependencies = dependencies\<rparr>, c2))))))"

definition prepareDelta :: "Session \<Rightarrow> ctx \<Rightarrow> Delta \<Rightarrow> (error + preparedDelta) \<times> ctx" where
  "prepareDelta s c delta =
     (case ctxErr c of
        (Some err, c1) \<Rightarrow> (Inl err, c1)
      | (None, c1) \<Rightarrow>
          if int (length (d_Upsert delta)) > workQueries (s_limits s) \<or>
             int (length (d_Remove delta)) > workQueries (s_limits s) - int (length (d_Upsert delta))
          then (Inl (ErrOther ''delta query work budget exceeded''), c1)
          else case baseOwnership s (d_Reset delta) of
            Inl err \<Rightarrow> (Inl err, c1)
          | Inr own \<Rightarrow>
              (case planUpserts s (workEdges (s_limits s)) (d_Upsert delta) c1 (planRemovals (d_Remove delta)) 0 of
                 (Inl err, c2) \<Rightarrow> (Inl err, c2)
               | (Inr plans, c2) \<Rightarrow> admitDelta s (d_Reset delta) own plans c2))"

subsection \<open>Installation\<close>

record deltaInstall =
  di_live :: "(Key, sessionQuery) gomap"
  di_queryKeys :: "(Key, Key) gomap"
  di_own :: deltaOwnership
  di_evicted :: "Key list"
  di_retiredQueries :: nat
  di_debt :: int
  di_compact :: bool

definition addDebt :: "Limits \<Rightarrow> int \<Rightarrow> deltaInstall \<Rightarrow> deltaInstall" where
  "addDebt limits n di =
     (if n < 0 \<or> n > lim_Bytes limits - di_debt di then di\<lparr>di_compact := True\<rparr> else di\<lparr>di_debt := di_debt di + n\<rparr>)"

definition dropRef :: "Key \<Rightarrow> Key \<Rightarrow> (Key, Key list) gomap \<Rightarrow> (Key, Key list) gomap" where
  "dropRef owner key refs =
     (case map_of refs key of None \<Rightarrow> refs | Some owners \<Rightarrow> AList.update key (removeAll owner owners) refs)"

definition addRef :: "Key \<Rightarrow> (Key, Key list) gomap \<Rightarrow> Key \<Rightarrow> (Key, Key list) gomap" where
  "addRef owner refs key = AList.update key (List.insert owner (listAt refs key)) refs"

definition releaseRef :: "Limits \<Rightarrow> (Key, (Key, Change) gomap) gomap \<Rightarrow> Key \<Rightarrow> Key \<Rightarrow> deltaInstall \<Rightarrow> Key \<Rightarrow> deltaInstall" where
  "releaseRef limits assertions raw owner di key =
     (let di1 = di\<lparr>di_own := (di_own di)\<lparr>own_refs := dropRef owner key (own_refs (di_own di))\<rparr>\<rparr>
      in if map_of (listAt assertions key) raw = None then addDebt limits 96 di1 else di1)"

definition changeKey :: "(Key, Change) gomap \<Rightarrow> Change \<Rightarrow> Key" where
  "changeKey changes change = ch_Key (case map_of changes (ch_Key change) of None \<Rightarrow> zeroChange | Some ch \<Rightarrow> ch)"

definition installOwner ::
  "Limits \<Rightarrow> (Key, (Key, Change) gomap) gomap \<Rightarrow> (Key, Change) gomap \<Rightarrow> deltaInstall \<Rightarrow> Key \<times> publicationPlan option \<Rightarrow> deltaInstall" where
  "installOwner limits assertions changes di rp = (case rp of (raw, plan) \<Rightarrow>
     let existed = map_of (di_queryKeys di) raw in
     if existed = None \<and> plan = None then di
     else
       let key = (case existed of None \<Rightarrow> raw | Some key \<Rightarrow> key);
           old = map_of (di_live di) raw;
           di1 = (if old = None then di
                  else foldl (releaseRef limits assertions raw key) di (listAt (own_owned (di_own di)) raw))
       in case plan of
            None \<Rightarrow>
              let di2 = (if old = None then di1
                         else addDebt limits (keyCost key + 128)
                                (di1\<lparr>di_evicted := di_evicted di1 @ [key], di_retiredQueries := Suc (di_retiredQueries di1)\<rparr>))
              in di2\<lparr>di_live := AList.delete key (di_live di2), di_queryKeys := AList.delete key (di_queryKeys di2),
                     di_own := (di_own di2)\<lparr>own_owned := AList.delete key (own_owned (di_own di2))\<rparr>\<rparr>
          | Some p \<Rightarrow>
              let entry = \<lparr>sq_resultBytes = pub_MaxResultBytes (pl_publication p), sq_dependencies = pub_MaxDependencies (pl_publication p)\<rparr>;
                  owned = map (changeKey changes) (pl_inputs p)
              in di1\<lparr>di_evicted := (if old \<noteq> None \<and> old \<noteq> Some entry then di_evicted di1 @ [key] else di_evicted di1),
                     di_live := AList.update key entry (di_live di1),
                     di_queryKeys := AList.update key key (di_queryKeys di1),
                     di_own := \<lparr>own_owned = AList.update key owned (own_owned (di_own di1)),
                                own_refs = foldl (addRef key) (own_refs (di_own di1)) owned\<rparr>\<rparr>)"

definition compactDeltaMaps :: "Session \<Rightarrow> Session" where
  "compactDeltaMaps s =
     s\<lparr>s_live := copyMap (s_live s), s_inputs := copyMap (s_inputs s),
       s_queryKeys := copyMap (map (\<lambda>(k, v). (k, k)) (s_live s)), s_inputKeys := copyMap (map (\<lambda>(k, v). (k, k)) (s_inputs s)),
       s_delta := map_option (\<lambda>own. \<lparr>own_owned = copyMap (own_owned own), own_refs = copyMap (own_refs own)\<rparr>) (s_delta s)\<rparr>"

definition canonicalChanges :: "(Key, Key) gomap \<Rightarrow> (Key, Change) gomap \<Rightarrow> (Key, Change) gomap \<Rightarrow> (Key, Change) gomap" where
  "canonicalChanges keys ins changes =
     foldl (\<lambda>m (raw, change). let change' = canonicalChange keys ins raw change in AList.update (ch_Key change') change' m) [] changes"

text \<open>The two loops behind the owners: retired inputs leave, changed ones are written.\<close>

definition retireInputs :: "Limits \<Rightarrow> deltaInstall \<Rightarrow> Key list \<Rightarrow> deltaInstall" where
  "retireInputs limits di retired =
     foldl (\<lambda>di key. addDebt limits (keyCost key)
              (di\<lparr>di_own := (di_own di)\<lparr>own_refs := AList.delete key (own_refs (di_own di))\<rparr>\<rparr>)) di retired"

definition removeKeys :: "(Key, 'a) gomap \<Rightarrow> Key list \<Rightarrow> (Key, 'a) gomap" where
  "removeKeys m keys = foldl (\<lambda>m key. AList.delete key m) m keys"

definition writeInputs :: "(Key, Change) gomap \<Rightarrow> (Key, Change) gomap \<Rightarrow> (Key, Change) gomap" where
  "writeInputs m changes = foldl (\<lambda>m (key, change). AList.update key change m) m changes"

definition writeKeys :: "(Key, Key) gomap \<Rightarrow> (Key, Change) gomap \<Rightarrow> (Key, Key) gomap" where
  "writeKeys m changes = foldl (\<lambda>m (key, change). AList.update key key m) m changes"

definition installDelta :: "Session \<Rightarrow> bool \<Rightarrow> preparedDelta \<Rightarrow> Session" where
  "installDelta s reset dp =
     (let limits = s_limits s; ins = baseInputs s reset;
          queryKeys = (if reset then [] else s_queryKeys s); inputKeys = (if reset then [] else s_inputKeys s);
          changes = canonicalChanges inputKeys ins (dp_changes dp);
          di0 = \<lparr>di_live = baseLive s reset, di_queryKeys = queryKeys, di_own = dp_own dp, di_evicted = [],
                 di_retiredQueries = (if reset then length (s_live s) else 0), di_debt = s_debtBytes s, di_compact = False\<rparr>;
          di1 = foldl (installOwner limits (dp_assertions dp) changes) di0 (dp_plans dp);
          di2 = retireInputs limits di1 (dp_retired dp);
          s1 = s\<lparr>s_live := di_live di2, s_inputs := writeInputs (removeKeys ins (dp_retired dp)) changes,
                 s_queryKeys := di_queryKeys di2, s_inputKeys := writeKeys (removeKeys inputKeys (dp_retired dp)) changes,
                 s_delta := Some (di_own di2), s_bytes := dp_bytes dp, s_edges := dp_edges dp,
                 s_dependencies := dp_dependencies dp, s_debtBytes := di_debt di2,
                 s_debtInputs := s_debtInputs s + int (length (dp_retired dp)),
                 s_stats := (s_stats s)\<lparr>st_RetiredQueries := uint64_add (st_RetiredQueries (s_stats s)) (di_retiredQueries di2)\<rparr>\<rparr>;
          s2 = (if reset \<or> di_compact di2 \<or> s_debtInputs s1 > lim_Inputs limits
                then
                  let s3 = compactSession (if reset then s1 else compactDeltaMaps s1);
                      s4 = (if reset then s3 else countCompaction s3)
                  in s4\<lparr>s_db := snd (applySnapshot (s_db s4) (s_inputs s4))\<rparr>
                else s1\<lparr>s_db := snd (applyTransaction (s_db s1) changes (dp_retired dp) (di_evicted di2))\<rparr>)
      in s2\<lparr>s_ready := True\<rparr>)"

definition PublishDeltaPrepared ::
  "Session \<Rightarrow> ctx \<Rightarrow> (error + Delta) option \<Rightarrow> (Published \<times> error option) \<times> Session \<times> ctx" where
  "PublishDeltaPrepared s c prepare =
     (case ctxErr c of
        (Some err, c1) \<Rightarrow> ((zeroPublished, Some err), s, c1)
      | (None, c1) \<Rightarrow>
          let s1 = beginPublication s in
          (case prepare of
             None \<Rightarrow> ((zeroPublished, Some (ErrOther ''nil delta preparation'')), rejectPublication s1, c1)
           | Some (Inl err) \<Rightarrow> ((zeroPublished, Some err), rejectPublication s1, c1)
           | Some (Inr delta) \<Rightarrow>
               (case prepareDelta s1 c1 delta of
                  (Inl err, c2) \<Rightarrow> ((zeroPublished, Some err), rejectPublication s1, c2)
                | (Inr dp, c2) \<Rightarrow>
                    ((zeroPublished\<lparr>pb_Revision := \<lparr>rev_session = True, rev_epoch = s_epoch s1\<rparr>\<rparr>, None),
                     installDelta s1 (d_Reset delta) dp, c2))))"

definition PublishDelta :: "Session \<Rightarrow> ctx \<Rightarrow> Delta \<Rightarrow> (Published \<times> error option) \<times> Session \<times> ctx" where
  "PublishDelta s c delta = PublishDeltaPrepared s c (Some (Inr delta))"

end
