(* ===== verification/IncDeltaPlan.thy ===== *)
theory IncDeltaPlan
  imports IncDelta IncSessionProofs
begin

text \<open>
  Planning and staging of a delta: a delta is a patch of maps, from owners to what replaces them and
  from touched inputs to their new values; the sums a session accounts for change by what the patch
  takes away and what it adds. What the planning loops accept and what the staging loops compute are
  stated as such patches.
\<close>

subsection \<open>Patching a map\<close>

definition patch :: "('k, 'v) gomap \<Rightarrow> ('k, 'v option) gomap \<Rightarrow> ('k, 'v) gomap" where
  "patch m p = foldl (\<lambda>m (k, v). case v of None \<Rightarrow> AList.delete k m | Some v \<Rightarrow> AList.update k v m) m p"

definition sumOf :: "('k \<Rightarrow> 'v \<Rightarrow> int) \<Rightarrow> ('k, 'v) gomap \<Rightarrow> int" where
  "sumOf f m = sum_list (map (\<lambda>(k, v). f k v) m)"

text \<open>The share of one key, and what a patch takes away and adds.\<close>

definition shareOf :: "('k \<Rightarrow> 'v \<Rightarrow> int) \<Rightarrow> ('k, 'v) gomap \<Rightarrow> 'k \<Rightarrow> int" where
  "shareOf f m k = (case map_of m k of None \<Rightarrow> 0 | Some v \<Rightarrow> f k v)"

definition takenAway :: "('k \<Rightarrow> 'v \<Rightarrow> int) \<Rightarrow> ('k, 'v) gomap \<Rightarrow> 'k list \<Rightarrow> int" where
  "takenAway f m ks = sum_list (map (shareOf f m) ks)"

definition addedBy :: "('k \<Rightarrow> 'v \<Rightarrow> int) \<Rightarrow> ('k, 'v option) gomap \<Rightarrow> int" where
  "addedBy f p = sum_list (map (\<lambda>(k, v). case v of None \<Rightarrow> 0 | Some v \<Rightarrow> f k v) p)"

lemma patch_Nil [simp]: "patch m [] = m"
  by (simp add: patch_def)

lemma patch_Cons [simp]:
  "patch m ((k, v) # p) = patch (case v of None \<Rightarrow> AList.delete k m | Some v \<Rightarrow> AList.update k v m) p"
  by (simp add: patch_def)

lemma patch_append: "patch m (p @ q) = patch (patch m p) q"
  by (simp add: patch_def)

lemma patch_step_ok: "gomap_ok m \<Longrightarrow> gomap_ok (case v of None \<Rightarrow> AList.delete k m | Some v \<Rightarrow> AList.update k v m)"
  by (cases v) (simp_all add: gomap_ok_update gomap_ok_delete del: distinct_map)

lemma patch_ok: "gomap_ok m \<Longrightarrow> gomap_ok (patch m p)"
proof (induction p arbitrary: m)
  case (Cons kv p)
  obtain a v where kv: "kv = (a, v)" by (rule prod.exhaust)
  show ?case unfolding kv patch_Cons by (rule Cons.IH [OF patch_step_ok [OF Cons.prems]])
qed simp

lemma patch_lookup: "gomap_ok p \<Longrightarrow> map_of (patch m p) k = (case map_of p k of None \<Rightarrow> map_of m k | Some v \<Rightarrow> v)"
proof (induction p arbitrary: m)
  case (Cons kv p)
  obtain a v where kv: "kv = (a, v)" by (rule prod.exhaust)
  with Cons.prems have none: "map_of p a = None" by (simp add: map_of_eq_None_iff)
  from Cons kv none show ?case by (cases v) (auto split: option.splits)
qed simp

lemma sumOf_Cons [simp]: "sumOf f [] = 0" "sumOf f ((k, v) # m) = f k v + sumOf f m"
  by (simp_all add: sumOf_def)

lemma shareOf_Cons [simp]: "shareOf f [] k = 0" "shareOf f ((a, v) # m) k = (if a = k then f k v else shareOf f m k)"
  by (simp_all add: shareOf_def)

lemma sumOf_update: "sumOf f (AList.update k v m) = sumOf f m - shareOf f m k + f k v"
  by (induction m) auto

lemma delete_new: "map_of m k = None \<Longrightarrow> AList.delete k m = m"
  by (simp add: map_of_eq_None_iff delete_idem)

lemma sumOf_delete: "gomap_ok m \<Longrightarrow> sumOf f (AList.delete k m) = sumOf f m - shareOf f m k"
proof (induction m)
  case (Cons kv m)
  obtain a v where kv: "kv = (a, v)" by (rule prod.exhaust)
  show ?case
  proof (cases "a = k")
    case True
    with Cons.prems kv have "map_of m k = None" by (simp add: map_of_eq_None_iff)
    then show ?thesis by (simp add: kv True delete_new)
  next
    case False
    with Cons kv show ?thesis by simp
  qed
qed simp

lemma shareOf_patched: "k \<notin> fst ` set p \<Longrightarrow> gomap_ok p \<Longrightarrow> shareOf f (patch m p) k = shareOf f m k"
  by (simp add: shareOf_def patch_lookup map_of_eq_None_iff [THEN iffD2])

lemma takenAway_cong: "(\<And>k. k \<in> set ks \<Longrightarrow> map_of m k = map_of m' k) \<Longrightarrow> takenAway f m ks = takenAway f m' ks"
  unfolding takenAway_def by (rule arg_cong [of _ _ sum_list], rule map_cong) (simp_all add: shareOf_def)

lemma sumOf_patch:
  "gomap_ok m \<Longrightarrow> gomap_ok p \<Longrightarrow> sumOf f (patch m p) = sumOf f m - takenAway f m (map fst p) + addedBy f p"
proof (induction p arbitrary: m)
  case (Cons kv p)
  obtain a v where kv: "kv = (a, v)" by (rule prod.exhaust)
  let ?m = "case v of None \<Rightarrow> AList.delete a m | Some v \<Rightarrow> AList.update a v m"
  have ok: "gomap_ok ?m" by (rule patch_step_ok [OF Cons.prems(1)])
  have "takenAway f ?m (map fst p) = takenAway f m (map fst p)"
    by (rule takenAway_cong) (use Cons.prems(2) kv in \<open>auto split: option.splits\<close>)
  moreover have "sumOf f ?m = sumOf f m - shareOf f m a + (case v of None \<Rightarrow> 0 | Some v \<Rightarrow> f a v)"
    using Cons.prems(1) by (cases v) (simp_all add: sumOf_update sumOf_delete)
  ultimately show ?case using Cons.IH [OF ok] Cons.prems(2) kv by (simp add: takenAway_def addedBy_def)
qed (simp add: takenAway_def addedBy_def)

lemma sumOf_length: "sumOf (\<lambda>_ _. 1) m = int (length m)"
  by (induction m) auto

lemma sumOf_nonneg: "(\<And>k v. (k, v) \<in> set m \<Longrightarrow> 0 \<le> f k v) \<Longrightarrow> 0 \<le> sumOf f m"
  unfolding sumOf_def by (rule sum_list_nonneg) auto

lemma copyMap_id: "gomap_ok m \<Longrightarrow> copyMap m = m"
proof -
  have "gomap_ok (acc @ m) \<Longrightarrow> foldl (\<lambda>dst (k, v). AList.update k v dst) acc m = acc @ m" for acc
    by (induction m arbitrary: acc) (auto simp: update_new map_of_eq_None_iff)
  from this [of "[]"] show "gomap_ok m \<Longrightarrow> copyMap m = m" by (simp add: copyMap_def)
qed

subsection \<open>The cost of a query\<close>

lemma addAll_spec: "addAll limit ns cost = Some spent \<Longrightarrow> spent = cost + sum_list ns \<and> (\<forall>n \<in> set ns. 0 \<le> n)"
proof (induction ns arbitrary: cost)
  case (Cons n ns)
  from Cons.IH [of "cost + n"] Cons.prems show ?case by (auto split: if_splits)
qed simp

lemma addAll_limit: "addAll limit ns cost = Some spent \<Longrightarrow> cost \<le> limit \<Longrightarrow> spent \<le> limit"
  by (induction ns arbitrary: cost) (auto split: if_splits)

lemma deltaQueryCost_exact:
  assumes "deltaQueryCost p n limit = Inr cost"
  shows "cost = keyCost (pub_Key p) + 128 + pub_MaxResultBytes p + pub_MaxDependencies p * 96 + n * 96" "0 \<le> cost"
proof -
  from assms have run: "addAll limit [keyCost (pub_Key p), 128, pub_MaxResultBytes p, pub_MaxDependencies p * 96, n * 96] 0 = Some cost"
    by (auto simp: deltaQueryCost_def simp del: addAll.simps split: if_splits option.splits)
  from addAll_spec [OF run] show "cost = keyCost (pub_Key p) + 128 + pub_MaxResultBytes p + pub_MaxDependencies p * 96 + n * 96" "0 \<le> cost"
    by simp_all
qed

subsection \<open>The plans of a delta\<close>

definition kept_ok :: "(Key, Change) gomap \<Rightarrow> Change list \<Rightarrow> bool" where
  "kept_ok unique kept \<longleftrightarrow> distinct (map ch_Key kept) \<and> (\<forall>ch \<in> set kept. normal ch) \<and>
     (\<forall>k ch. map_of unique k = Some ch \<longleftrightarrow> ch \<in> set kept \<and> ch_Key ch = k)"

lemma kept_ok_add:
  assumes "kept_ok unique kept" "map_of unique (ch_Key ch) = None" "normal ch"
  shows "kept_ok (AList.update (ch_Key ch) ch unique) (kept @ [ch])"
proof -
  have "ch_Key ch \<notin> ch_Key ` set kept"
  proof
    assume "ch_Key ch \<in> ch_Key ` set kept"
    then obtain ch' where "ch' \<in> set kept" "ch_Key ch' = ch_Key ch" by auto
    with assms(1) have "map_of unique (ch_Key ch) = Some ch'" by (simp add: kept_ok_def)
    with assms(2) show False by simp
  qed
  then have "ch' \<notin> set kept" if "ch_Key ch' = ch_Key ch" for ch' using that by (metis image_eqI)
  with assms show ?thesis by (auto simp: kept_ok_def)
qed

lemma kept_okD:
  assumes "kept_ok unique kept"
  shows "distinct (map ch_Key kept)" "ch \<in> set kept \<Longrightarrow> normal ch" "map_of unique k = Some ch \<Longrightarrow> ch \<in> set kept \<and> ch_Key ch = k"
  using assms unfolding kept_ok_def by blast+

lemma kept_ok_Nil [simp]: "kept_ok [] []"
  by (simp add: kept_ok_def)

lemma uniqueInputs_spec:
  assumes "uniqueInputs changes unique kept = Inr kept'" and "kept_ok unique kept"
  shows "distinct (map ch_Key kept') \<and> (\<forall>ch \<in> set kept'. normal ch) \<and> set kept' = set kept \<union> normalChange ` set changes"
  using assms
proof (induction changes arbitrary: unique kept)
  case (Cons raw changes)
  let ?ch = "normalChange raw"
  show ?case
  proof (cases "map_of unique (ch_Key ?ch)")
    case (Some old)
    with kept_okD [OF Cons.prems(2)] have o: "old \<in> set kept" "ch_Key old = ch_Key ?ch" "normal old" by blast+
    from Some Cons.prems(1) have same: "sameChange old ?ch" and run: "uniqueInputs changes unique kept = Inr kept'"
      by (auto simp: Let_def split: if_splits)
    have "?ch = old" using sameChange_eq [OF same o(2,3)] by simp
    then have eq: "set kept \<union> normalChange ` set (raw # changes) = set kept \<union> normalChange ` set changes"
      using o(1) by (simp add: insert_absorb)
    show ?thesis unfolding eq by (rule Cons.IH [OF run Cons.prems(2)])
  next
    case None
    with Cons.prems(1) have run: "uniqueInputs changes (AList.update (ch_Key ?ch) ?ch unique) (kept @ [?ch]) = Inr kept'"
      by (simp add: Let_def)
    have eq: "set kept \<union> normalChange ` set (raw # changes) = set (kept @ [?ch]) \<union> normalChange ` set changes" by simp
    show ?thesis unfolding eq by (rule Cons.IH [OF run kept_ok_add [OF Cons.prems(2) None normal_normalChange(1)]])
  qed
next
  case Nil
  with kept_okD [OF Nil.prems(2)] show ?case by simp
qed

definition delta_plan_ok :: "Session \<Rightarrow> Key \<Rightarrow> publicationPlan \<Rightarrow> bool" where
  "delta_plan_ok s k plan \<longleftrightarrow> plan_wf plan \<and> pub_Key (pl_publication plan) = k \<and>
     0 \<le> pub_MaxResultBytes (pl_publication plan) \<and> 0 \<le> pub_MaxDependencies (pl_publication plan) \<and>
     map_of (s_evaluators s) (Kind k) \<noteq> None"

definition plans_ok :: "Session \<Rightarrow> deltaPlans \<Rightarrow> bool" where
  "plans_ok s plans \<longleftrightarrow> gomap_ok plans \<and> (\<forall>k plan. map_of plans k = Some (Some plan) \<longrightarrow> delta_plan_ok s k plan)"

lemma plans_ok_add: "plans_ok s plans \<Longrightarrow> delta_plan_ok s k plan \<Longrightarrow> plans_ok s (AList.update k (Some plan) plans)"
  by (auto simp: plans_ok_def gomap_ok_update simp del: distinct_map)

lemma planRemovals_spec:
  "gomap_ok (planRemovals keys)" "map_of (planRemovals keys) k = (if k \<in> set keys then Some None else None)"
proof -
  let ?f = "\<lambda>plans key. if map_of plans key \<noteq> None then plans else AList.update key None plans"
  have ok: "gomap_ok (foldl ?f acc keys)" if "gomap_ok acc" for acc :: deltaPlans
    using that by (induction keys arbitrary: acc) (simp_all add: gomap_ok_update del: distinct_map)
  show "gomap_ok (planRemovals keys)" unfolding planRemovals_def by (rule ok) simp
  have "map_of (foldl ?f acc keys) k = (if map_of acc k \<noteq> None then map_of acc k else if k \<in> set keys then Some None else None)"
    for acc :: deltaPlans
    by (induction keys arbitrary: acc) auto
  from this [of "[]"] show "map_of (planRemovals keys) k = (if k \<in> set keys then Some None else None)"
    by (simp add: planRemovals_def)
qed

text \<open>What the planning loop accepts: one plan per upserted owner, none of them removed.\<close>

lemma planUpserts_spec:
  assumes "planUpserts s w ps c plans work = (Inr plans', c')" and "plans_ok s plans"
  shows "plans_ok s plans' \<and> map_of plans \<subseteq>\<^sub>m map_of plans' \<and>
    (\<forall>p \<in> set ps. \<exists>plan. map_of plans' (pub_Key p) = Some (Some plan) \<and> planned p plan) \<and>
    (\<forall>k. map_of plans k = None \<longrightarrow> map_of plans' k \<noteq> Some None \<and> (map_of plans' k \<noteq> None \<longrightarrow> k \<in> pub_Key ` set ps))"
  using assms
proof (induction ps arbitrary: c plans work)
  case (Cons p ps)
  let ?k = "pub_Key p"
  let ?w = "work + int (length (pub_Inputs p))"
  from Cons.prems(1) obtain c1 kept where c1: "ctxErr c = (None, c1)"
    and kind: "map_of (s_evaluators s) (Kind ?k) \<noteq> None" and nonneg: "0 \<le> pub_MaxResultBytes p" "0 \<le> pub_MaxDependencies p"
    and pin: "uniqueInputs (pub_Inputs p) [] [] = Inr kept"
    by (auto split: prod.splits option.splits if_splits sum.splits)
  let ?plan = "\<lparr>pl_publication = p\<lparr>pub_Inputs := kept\<rparr>, pl_inputs = kept\<rparr>"
  have spec: "distinct (map ch_Key kept)" "\<forall>ch \<in> set kept. normal ch" "set kept = normalChange ` set (pub_Inputs p)"
    using uniqueInputs_spec [OF pin kept_ok_Nil] unfolding list.set(1) Un_empty_left by blast+
  have wf: "plan_wf ?plan" using spec by (simp add: plan_wf_def)
  have pl: "planned p ?plan" using spec by (simp add: planned_def)
  have pok: "delta_plan_ok s ?k ?plan" using wf kind nonneg by (simp add: delta_plan_ok_def)
  show ?case
  proof (cases "map_of plans ?k")
    case (Some known)
    with Cons.prems(1) c1 kind nonneg pin obtain old where old: "known = Some old" and same: "samePlan old ?plan"
      and run: "planUpserts s w ps c1 plans ?w = (Inr plans', c')"
      by (auto simp: Let_def split: if_splits option.splits)
    have "plan_wf old" using Cons.prems(2) Some old by (simp add: plans_ok_def delta_plan_ok_def)
    with same pl wf have pold: "planned p old" by (simp add: samePlan_iff planned_def)
    note ih = Cons.IH [OF run Cons.prems(2)]
    then have "map_of plans' ?k = Some (Some old)" using Some old by (metis domI map_le_def)
    with ih pold show ?thesis by auto
  next
    case None
    with Cons.prems(1) c1 kind nonneg pin
    have run: "planUpserts s w ps c1 (AList.update ?k (Some ?plan) plans) ?w = (Inr plans', c')"
      by (auto simp: Let_def split: if_splits)
    note ih = Cons.IH [OF run plans_ok_add [OF Cons.prems(2) pok]]
    have at: "map_of plans' ?k = Some (Some ?plan)" using ih by (metis domI map_le_def map_of_update fun_upd_same)
    have "map_of plans \<subseteq>\<^sub>m map_of plans'"
      using ih None unfolding map_le_def by (metis domI domIff fun_upd_other map_of_update)
    moreover have "map_of plans' k \<noteq> Some None \<and> (map_of plans' k \<noteq> None \<longrightarrow> k \<in> pub_Key ` set (p # ps))" if "map_of plans k = None" for k
      using ih at that by (cases "k = ?k") auto
    moreover have "\<exists>plan. map_of plans' (pub_Key q) = Some (Some plan) \<and> planned q plan" if "q \<in> set (p # ps)" for q
      using ih at pl that by auto
    ultimately show ?thesis using ih by blast
  qed
qed auto

end
