(* ===== verification/IncDeltaStage.thy ===== *)
theory IncDeltaStage
  imports IncDeltaPlan
begin

text \<open>
  Staging of a delta: what the loops over the touched owners and the touched inputs compute, and what
  admission adds to it.
\<close>

subsection \<open>Maps of lists\<close>

lemma listAt_update [simp]: "listAt (AList.update k v m) i = (if i = k then v else listAt m i)"
  by (simp add: listAt_def)

lemma listAt_delete [simp]: "listAt (AList.delete k m) i = (if i = k then [] else listAt m i)"
  by (simp add: listAt_def)

lemma listAt_Nil [simp]: "listAt [] i = []"
  by (simp add: listAt_def)

lemma listAt_None: "map_of m k = None \<Longrightarrow> listAt m k = []"
  by (simp add: listAt_def)

lemma touch_foldl: "set (foldl touch t ks) = set t \<union> set ks" "distinct t \<Longrightarrow> distinct (foldl touch t ks)"
  by (induction ks arbitrary: t) (auto simp: touch_def)

subsection \<open>The owners\<close>

text \<open>What an owner asserts about an input, by the plans and by the staged assertions.\<close>

definition asserted :: "deltaPlans \<Rightarrow> Key \<Rightarrow> Key \<Rightarrow> Change option" where
  "asserted plans owner i =
     (case map_of plans owner of Some (Some p) \<Rightarrow> find (\<lambda>ch. ch_Key ch = i) (pl_inputs p) | _ \<Rightarrow> None)"

definition assertion :: "staged \<Rightarrow> Key \<Rightarrow> Key \<Rightarrow> Change option" where
  "assertion st owner i = map_of (listAt (sg_assertions st) i) owner"

definition assertions_ok :: "staged \<Rightarrow> bool" where
  "assertions_ok st \<longleftrightarrow> (\<forall>i. gomap_ok (listAt (sg_assertions st) i))"

definition entryWeight :: "Key \<Rightarrow> sessionQuery \<Rightarrow> int" where
  "entryWeight k e = keyCost k + 128 + sq_resultBytes e + sq_dependencies e * 96"

definition edgeCount :: "Key \<Rightarrow> Key list \<Rightarrow> int" where
  "edgeCount k xs = int (length xs)"

definition stagePlan :: "Key \<Rightarrow> publicationPlan option \<Rightarrow> staged \<Rightarrow> staged" where
  "stagePlan k plan st = (case plan of None \<Rightarrow> st | Some p \<Rightarrow> foldl (assertInput k) st (pl_inputs p))"

lemma find_distinct:
  "distinct (map ch_Key chs) \<Longrightarrow> find (\<lambda>ch. ch_Key ch = i) chs = Some ch \<longleftrightarrow> ch \<in> set chs \<and> ch_Key ch = i"
  by (induction chs) auto

lemma assertInputs_frame:
  "sg_bytes (foldl (assertInput k) st chs) = sg_bytes st" "sg_edges (foldl (assertInput k) st chs) = sg_edges st"
  "sg_dependencies (foldl (assertInput k) st chs) = sg_dependencies st" "sg_queries (foldl (assertInput k) st chs) = sg_queries st"
  "sg_touched (foldl (assertInput k) st chs) = foldl touch (sg_touched st) (map ch_Key chs)"
  by (induction chs arbitrary: st) (simp_all add: assertInput_def)

lemma assertInput_ok: "assertions_ok st \<Longrightarrow> assertions_ok (assertInput k st ch)"
  by (simp add: assertions_ok_def assertInput_def gomap_ok_update)

lemma assertInputs_ok: "assertions_ok st \<Longrightarrow> assertions_ok (foldl (assertInput k) st chs)"
  by (induction chs arbitrary: st) (simp_all add: assertInput_ok)

lemma assertInput_assertion:
  "assertion (assertInput k st ch) owner i = (if owner = k \<and> i = ch_Key ch then Some ch else assertion st owner i)"
  by (simp add: assertion_def assertInput_def)

lemma assertInputs_assertion:
  "distinct (map ch_Key chs) \<Longrightarrow> assertion (foldl (assertInput k) st chs) owner i =
     (if owner = k \<and> find (\<lambda>ch. ch_Key ch = i) chs \<noteq> None then find (\<lambda>ch. ch_Key ch = i) chs else assertion st owner i)"
proof (induction chs arbitrary: st)
  case (Cons ch chs)
  have "find (\<lambda>c. ch_Key c = ch_Key ch) chs = None" using Cons.prems by (auto simp: find_None_iff image_iff)
  with Cons show ?case by (auto simp: assertInput_assertion)
qed simp

lemma stageOwners_Cons:
  assumes "stageOwners limits live own ((k, plan) # plans) st = Inr st'"
  obtains st1 where "releaseOwner limits live own k st = Inr st1"
    "stageOwners limits live own plans (stagePlan k plan st1) = Inr st'"
    "\<And>p. plan = Some p \<Longrightarrow> \<exists>cost. deltaQueryCost (pl_publication p) (int (length (pl_inputs p))) (lim_Bytes limits) = Inr cost"
  using assms by (auto simp: stagePlan_def split: sum.splits option.splits)

lemma releaseOwner_numbers:
  assumes "releaseOwner limits live own k st = Inr st1" and "map_of live k = None \<longleftrightarrow> map_of (own_owned own) k = None"
  shows "sg_bytes st1 = sg_bytes st - shareOf entryWeight live k - 96 * shareOf edgeCount (own_owned own) k"
    "sg_edges st1 = sg_edges st - shareOf edgeCount (own_owned own) k"
    "sg_dependencies st1 = sg_dependencies st - shareOf (\<lambda>_. sq_dependencies) live k"
    "sg_queries st1 = sg_queries st - shareOf (\<lambda>_ _. 1) live k"
    "sg_touched st1 = foldl touch (sg_touched st) (listAt (own_owned own) k)" "sg_assertions st1 = sg_assertions st"
proof -
  have all: "sg_bytes st1 = sg_bytes st - shareOf entryWeight live k - 96 * shareOf edgeCount (own_owned own) k \<and>
    sg_edges st1 = sg_edges st - shareOf edgeCount (own_owned own) k \<and>
    sg_dependencies st1 = sg_dependencies st - shareOf (\<lambda>_. sq_dependencies) live k \<and>
    sg_queries st1 = sg_queries st - shareOf (\<lambda>_ _. 1) live k \<and>
    sg_touched st1 = foldl touch (sg_touched st) (listAt (own_owned own) k) \<and> sg_assertions st1 = sg_assertions st"
  proof (cases "map_of live k")
    case None
    with assms show ?thesis by (simp add: releaseOwner_def shareOf_def listAt_None)
  next
    case (Some old)
    with assms(2) obtain xs where xs: "map_of (own_owned own) k = Some xs" by auto
    with Some assms(1) obtain cost where
      c: "deltaQueryCost \<lparr>pub_Key = k, pub_Inputs = [], pub_MaxResultBytes = sq_resultBytes old,
                  pub_MaxDependencies = sq_dependencies old\<rparr> (int (length xs)) (lim_Bytes limits) = Inr cost"
      and st1: "st1 = st\<lparr>sg_bytes := sg_bytes st - cost, sg_edges := sg_edges st - int (length xs),
                       sg_dependencies := sg_dependencies st - sq_dependencies old,
                       sg_queries := sg_queries st - 1, sg_touched := foldl touch (sg_touched st) xs\<rparr>"
      by (auto simp: releaseOwner_def listAt_def Let_def split: sum.splits)
    from deltaQueryCost_exact(1) [OF c] show ?thesis
      by (simp add: st1 Some xs shareOf_def entryWeight_def edgeCount_def listAt_def)
  qed
  then show "sg_bytes st1 = sg_bytes st - shareOf entryWeight live k - 96 * shareOf edgeCount (own_owned own) k"
    "sg_edges st1 = sg_edges st - shareOf edgeCount (own_owned own) k"
    "sg_dependencies st1 = sg_dependencies st - shareOf (\<lambda>_. sq_dependencies) live k"
    "sg_queries st1 = sg_queries st - shareOf (\<lambda>_ _. 1) live k"
    "sg_touched st1 = foldl touch (sg_touched st) (listAt (own_owned own) k)" "sg_assertions st1 = sg_assertions st" by blast+
qed

lemma takenAway_Cons [simp]: "takenAway f m [] = 0" "takenAway f m (k # ks) = shareOf f m k + takenAway f m ks"
  by (simp_all add: takenAway_def)

lemma stagePlan_frame:
  "sg_bytes (stagePlan k plan st) = sg_bytes st" "sg_edges (stagePlan k plan st) = sg_edges st"
  "sg_dependencies (stagePlan k plan st) = sg_dependencies st" "sg_queries (stagePlan k plan st) = sg_queries st"
  "sg_touched (stagePlan k plan st) = foldl touch (sg_touched st) (case plan of None \<Rightarrow> [] | Some p \<Rightarrow> map ch_Key (pl_inputs p))"
  by (simp_all add: stagePlan_def assertInputs_frame split: option.splits)

lemma stageOwners_numbers:
  assumes "stageOwners limits live own plans st = Inr st'" and "\<And>k. map_of live k = None \<longleftrightarrow> map_of (own_owned own) k = None"
  shows "sg_bytes st' = sg_bytes st - takenAway entryWeight live (map fst plans) - 96 * takenAway edgeCount (own_owned own) (map fst plans) \<and>
    sg_edges st' = sg_edges st - takenAway edgeCount (own_owned own) (map fst plans) \<and>
    sg_dependencies st' = sg_dependencies st - takenAway (\<lambda>_. sq_dependencies) live (map fst plans) \<and>
    sg_queries st' = sg_queries st - takenAway (\<lambda>_ _. 1) live (map fst plans)"
  using assms(1)
proof (induction plans arbitrary: st)
  case (Cons kp plans)
  obtain k plan where kp: "kp = (k, plan)" by (rule prod.exhaust)
  from Cons.prems [unfolded kp] obtain st1 where rel: "releaseOwner limits live own k st = Inr st1"
    and run: "stageOwners limits live own plans (stagePlan k plan st1) = Inr st'" by (rule stageOwners_Cons)
  from Cons.IH [OF run] releaseOwner_numbers [OF rel assms(2)] show ?case by (simp add: kp stagePlan_frame)
qed simp

lemma stageOwners_touched:
  assumes "stageOwners limits live own plans st = Inr st'" and "\<And>k. map_of live k = None \<longleftrightarrow> map_of (own_owned own) k = None"
    and "distinct (sg_touched st)"
  shows "distinct (sg_touched st') \<and> set (sg_touched st') = set (sg_touched st) \<union> (\<Union>k \<in> fst ` set plans. set (listAt (own_owned own) k)) \<union>
    {i. \<exists>k p. (k, Some p) \<in> set plans \<and> i \<in> ch_Key ` set (pl_inputs p)}"
  using assms(1,3)
proof (induction plans arbitrary: st)
  case (Cons kp plans)
  obtain k plan where kp: "kp = (k, plan)" by (rule prod.exhaust)
  from Cons.prems(1) [unfolded kp] obtain st1 where rel: "releaseOwner limits live own k st = Inr st1"
    and run: "stageOwners limits live own plans (stagePlan k plan st1) = Inr st'" by (rule stageOwners_Cons)
  note t1 = releaseOwner_numbers(5) [OF rel assms(2)]
  have d: "distinct (sg_touched (stagePlan k plan st1))"
    unfolding stagePlan_frame t1 by (intro touch_foldl(2) Cons.prems(2))
  have s: "set (sg_touched (stagePlan k plan st1)) = set (sg_touched st) \<union> set (listAt (own_owned own) k) \<union>
      {i. \<exists>p. plan = Some p \<and> i \<in> ch_Key ` set (pl_inputs p)}"
    unfolding stagePlan_frame t1 touch_foldl(1) by (auto split: option.splits)
  from Cons.IH [OF run d] show ?case unfolding s kp by simp blast
qed auto

lemma stageOwners_assertions:
  assumes "stageOwners limits live own plans st = Inr st'" and "\<And>k. map_of live k = None \<longleftrightarrow> map_of (own_owned own) k = None"
    and "gomap_ok plans" and "\<forall>k p. (k, Some p) \<in> set plans \<longrightarrow> plan_wf p" and "assertions_ok st"
  shows "assertions_ok st' \<and> (\<forall>owner i. assertion st' owner i = (if asserted plans owner i = None then assertion st owner i else asserted plans owner i))"
  using assms(1,3-)
proof (induction plans arbitrary: st)
  case (Cons kp plans)
  obtain k plan where kp: "kp = (k, plan)" by (rule prod.exhaust)
  from Cons.prems(1) [unfolded kp] obtain st1 where rel: "releaseOwner limits live own k st = Inr st1"
    and run: "stageOwners limits live own plans (stagePlan k plan st1) = Inr st'" by (rule stageOwners_Cons)
  note a1 = releaseOwner_numbers(6) [OF rel assms(2)]
  have same: "assertions_ok st1" "assertion st1 = assertion st"
    using a1 Cons.prems(4) by (simp_all add: assertions_ok_def assertion_def fun_eq_iff)
  have ok: "assertions_ok (stagePlan k plan st1)" using same(1) by (simp add: stagePlan_def assertInputs_ok split: option.splits)
  have fresh: "map_of plans k = None" using Cons.prems(2) kp by (simp add: map_of_eq_None_iff)
  have wf: "\<And>p. plan = Some p \<Longrightarrow> distinct (map ch_Key (pl_inputs p))" using Cons.prems(3) kp by (auto simp: plan_wf_def)
  have ih: "assertions_ok st'" "assertion st' owner i =
      (if asserted plans owner i = None then assertion (stagePlan k plan st1) owner i else asserted plans owner i)" for owner i
    using Cons.IH [OF run _ _ ok] Cons.prems(2,3) kp by auto
  have "assertion (stagePlan k plan st1) owner i =
      (if owner = k \<and> asserted [(k, plan)] k i \<noteq> None then asserted [(k, plan)] k i else assertion st owner i)" for owner i
    using wf by (auto simp: stagePlan_def assertInputs_assertion asserted_def same(2) split: option.splits)
  then have "assertion st' owner i = (if asserted (kp # plans) owner i = None then assertion st owner i else asserted (kp # plans) owner i)"
    for owner i
    unfolding ih(2) kp using fresh by (auto simp: asserted_def)
  with ih(1) show ?case by blast
qed (simp add: asserted_def)

lemma stageOwners_costs:
  assumes "stageOwners limits live own plans st = Inr st'" and "(k, Some p) \<in> set plans"
  shows "\<exists>cost. deltaQueryCost (pl_publication p) (int (length (pl_inputs p))) (lim_Bytes limits) = Inr cost"
  using assms
proof (induction plans arbitrary: st)
  case (Cons kp plans)
  obtain a plan where kp: "kp = (a, plan)" by (rule prod.exhaust)
  from Cons.prems(1) [unfolded kp] show ?case
    by (rule stageOwners_Cons) (use Cons.IH Cons.prems(2) kp in auto)
qed simp

subsection \<open>The inputs\<close>

definition selectedInput ::
  "(Key, Change) gomap \<Rightarrow> deltaOwnership \<Rightarrow> deltaPlans \<Rightarrow> (Key, (Key, Change) gomap) gomap \<Rightarrow> Key \<Rightarrow> error + Change option" where
  "selectedInput ins own plans a key = agreeAll (retainedInput ins own plans key) (map snd (listAt a key))"

definition newValue ::
  "(Key, Change) gomap \<Rightarrow> deltaOwnership \<Rightarrow> deltaPlans \<Rightarrow> (Key, (Key, Change) gomap) gomap \<Rightarrow> Key \<Rightarrow> Change option" where
  "newValue ins own plans a key = (case selectedInput ins own plans a key of Inl _ \<Rightarrow> None | Inr sel \<Rightarrow> sel)"

lemma agreeAll_spec:
  assumes "agreeAll sel chs = Inr r" and "\<forall>x \<in> set chs \<union> set_option sel. ch_Key x = k \<and> normal x"
  shows "(r = None \<longleftrightarrow> sel = None \<and> chs = []) \<and> (\<forall>ch. r = Some ch \<longrightarrow> ch \<in> set chs \<union> set_option sel \<and> (\<forall>x \<in> set chs \<union> set_option sel. x = ch))"
  using assms
proof (induction chs arbitrary: sel)
  case (Cons ch chs)
  from Cons.prems(1) have run: "agreeAll (Some ch) chs = Inr r"
    and fits: "\<And>old. sel = Some old \<Longrightarrow> sameChange old ch" by (auto split: if_splits option.splits)
  have same: "old = ch" if "sel = Some old" for old
    by (rule sameChange_eq [OF fits [OF that]]) (use Cons.prems(2) that in auto)
  have ih: "(r = None \<longleftrightarrow> Some ch = None \<and> chs = []) \<and>
    (\<forall>ch'. r = Some ch' \<longrightarrow> ch' \<in> set chs \<union> set_option (Some ch) \<and> (\<forall>x \<in> set chs \<union> set_option (Some ch). x = ch'))"
    by (rule Cons.IH [OF run]) (use Cons.prems(2) in auto)
  then obtain v where r: "r = Some v" by (cases r) auto
  with ih have v: "\<forall>x \<in> set chs \<union> {ch}. x = v" by simp
  have sub: "set_option sel \<subseteq> {ch}" using same by (cases sel) auto
  have "v = ch" "\<forall>x \<in> set (ch # chs) \<union> set_option sel. x = v" using v sub by fastforce+
  then show ?case by (simp add: r)
next
  case Nil
  from Nil.prems(1) have "r = sel" by simp
  then show ?case by (cases sel) simp_all
qed

lemma stageInputs_spec:
  assumes "stageInputs ins own plans a keys c st = (Inr st', c')" and "inputs_wf ins" and "distinct keys"
    and "set keys \<inter> fst ` set (si_changes st) = {}"
  shows "(\<forall>k \<in> set keys. \<exists>sel. selectedInput ins own plans a k = Inr sel) \<and>
    si_bytes st' = si_bytes st - takenAway (\<lambda>_. inputCost) ins keys \<and> si_count st' = si_count st - takenAway (\<lambda>_ _. 1) ins keys \<and>
    si_changes st' = si_changes st @ map (\<lambda>k. (k, the (newValue ins own plans a k))) (filter (\<lambda>k. newValue ins own plans a k \<noteq> None) keys) \<and>
    si_retired st' = si_retired st @ filter (\<lambda>k. newValue ins own plans a k = None \<and> map_of ins k \<noteq> None) keys"
  using assms(1,3-)
proof (induction keys arbitrary: c st)
  case (Cons k keys)
  let ?st1 = "case map_of ins k of None \<Rightarrow> st
     | Some old \<Rightarrow> st\<lparr>si_bytes := si_bytes st - inputCost old, si_count := si_count st - 1\<rparr>"
  from Cons.prems(1) obtain c1 sel where c1: "ctxErr c = (None, c1)" and sel: "selectedInput ins own plans a k = Inr sel"
    by (auto simp: selectedInput_def Let_def split: prod.splits option.splits sum.splits)
  let ?st2 = "case sel of None \<Rightarrow> (case map_of ins k of None \<Rightarrow> ?st1 | Some old \<Rightarrow> ?st1\<lparr>si_retired := si_retired ?st1 @ [ch_Key old]\<rparr>)
     | Some ch \<Rightarrow> ?st1\<lparr>si_changes := AList.update k ch (si_changes ?st1)\<rparr>"
  have run: "stageInputs ins own plans a keys c1 ?st2 = (Inr st', c')"
    using Cons.prems(1) c1 sel by (cases sel) (simp_all add: selectedInput_def Let_def)
  have nv: "newValue ins own plans a k = sel" using sel by (simp add: newValue_def)
  have new: "map_of (si_changes st) k = None" using Cons.prems(3) by (simp add: map_of_eq_None_iff)
  have old: "ch_Key old = k" if "map_of ins k = Some old" for old using inputs_wfD [OF assms(2) that] by simp
  have ch: "si_changes ?st2 = si_changes st @ (case sel of None \<Rightarrow> [] | Some ch \<Rightarrow> [(k, ch)])"
    using new by (auto simp: update_new split: option.splits)
  have re: "si_retired ?st2 = si_retired st @ (if sel = None \<and> map_of ins k \<noteq> None then [k] else [])"
  proof (cases "map_of ins k")
    case (Some prev)
    show ?thesis by (simp add: Some old [OF Some] split: option.splits)
  qed (simp split: option.splits)
  have nums: "si_bytes ?st2 = si_bytes st - shareOf (\<lambda>_. inputCost) ins k" "si_count ?st2 = si_count st - shareOf (\<lambda>_ _. 1) ins k"
    by (auto simp: shareOf_def split: option.splits)
  have "set keys \<inter> fst ` set (si_changes ?st2) = {}" unfolding ch using Cons.prems(2,3) by (auto split: option.splits)
  note ih = Cons.IH [OF run _ this]
  show ?case using ih [unfolded ch re nums] Cons.prems(2) sel nv by (auto split: option.splits)
qed simp

lemma takenAway_split:
  "takenAway f m ks = takenAway f m (filter (\<lambda>k. \<not> P k \<and> map_of m k \<noteq> None) ks) + takenAway f m (filter P ks)"
  by (induction ks) (auto simp: shareOf_def)

text \<open>The patch a delta makes of the inputs.\<close>

definition inputPatch :: "Key list \<Rightarrow> (Key, Change) gomap \<Rightarrow> (Key, Change option) gomap" where
  "inputPatch retired changes = map (\<lambda>k. (k, None)) retired @ map (\<lambda>(k, ch). (k, Some ch)) changes"

lemma patch_inputs: "patch m (inputPatch retired changes) = writeInputs (removeKeys m retired) changes"
proof -
  have "patch m (map (\<lambda>k. (k, None)) retired) = removeKeys m retired" for m :: "(Key, Change) gomap"
    by (induction retired arbitrary: m) (simp_all add: removeKeys_def)
  moreover have "patch m (map (\<lambda>(k, ch). (k, Some ch)) changes) = writeInputs m changes" for m
    by (induction changes arbitrary: m) (auto simp: writeInputs_def)
  ultimately show ?thesis by (simp add: inputPatch_def patch_append)
qed

lemma patch_keys: "patch m (map (\<lambda>k. (k, None)) retired @ map (\<lambda>(k, ch). (k, Some k)) changes) = writeKeys (removeKeys m retired) changes"
proof -
  have "patch m (map (\<lambda>k. (k, None)) retired) = removeKeys m retired" for m :: "(Key, Key) gomap"
    by (induction retired arbitrary: m) (simp_all add: removeKeys_def)
  moreover have "patch m (map (\<lambda>(k, ch). (k, Some k)) changes) = writeKeys m changes" for m
    by (induction changes arbitrary: m) (auto simp: writeKeys_def)
  ultimately show ?thesis by (simp add: patch_append)
qed

subsection \<open>Admission\<close>

definition ownerPatch :: "(publicationPlan \<Rightarrow> 'a) \<Rightarrow> deltaPlans \<Rightarrow> (Key, 'a option) gomap" where
  "ownerPatch g plans = map (\<lambda>(k, plan). (k, map_option g plan)) plans"

lemma ownerPatch_keys [simp]: "map fst (ownerPatch g plans) = map fst plans"
  by (simp add: ownerPatch_def case_prod_unfold comp_def)

lemma ownerPatch_lookup: "map_of (ownerPatch g plans) k = map_option (map_option g) (map_of plans k)"
  by (induction plans) (auto simp: ownerPatch_def)

lemma addedBy_Cons [simp]:
  "addedBy f [] = 0" "addedBy f ((k, v) # p) = (case v of None \<Rightarrow> 0 | Some v \<Rightarrow> f k v) + addedBy f p"
  by (simp_all add: addedBy_def)

lemma ownerPatch_Cons [simp]: "ownerPatch g [] = []" "ownerPatch g ((k, plan) # plans) = (k, map_option g plan) # ownerPatch g plans"
  by (simp_all add: ownerPatch_def)

definition ownedKeys :: "publicationPlan \<Rightarrow> Key list" where
  "ownedKeys plan = map ch_Key (pl_inputs plan)"

definition priced :: "Limits \<Rightarrow> deltaPlans \<Rightarrow> bool" where
  "priced limits plans \<longleftrightarrow> (\<forall>k p. (k, Some p) \<in> set plans \<longrightarrow> pub_Key (pl_publication p) = k \<and>
     (\<exists>cost. deltaQueryCost (pl_publication p) (int (length (pl_inputs p))) (lim_Bytes limits) = Inr cost))"

lemma admitOwners_spec:
  assumes "admitOwners limits plans (b, e, d, q) = Inr (b', e', d', q')" and "priced limits plans"
  shows "(b' = b + addedBy entryWeight (ownerPatch entryOf plans) + 96 * addedBy edgeCount (ownerPatch ownedKeys plans) \<and>
     e' = e + addedBy edgeCount (ownerPatch ownedKeys plans) \<and>
     d' = d + addedBy (\<lambda>_. sq_dependencies) (ownerPatch entryOf plans) \<and>
     q' = q + addedBy (\<lambda>_ _. 1) (ownerPatch entryOf plans)) \<and>
    (b \<le> lim_Bytes limits \<longrightarrow> b' \<le> lim_Bytes limits) \<and> (e \<le> lim_InputEdges limits \<longrightarrow> e' \<le> lim_InputEdges limits) \<and>
    (d \<le> lim_Dependencies limits \<longrightarrow> d' \<le> lim_Dependencies limits) \<and> (q \<le> lim_Queries limits \<longrightarrow> q' \<le> lim_Queries limits)"
  using assms
proof (induction plans arbitrary: b e d q)
  case (Cons kp plans)
  obtain k plan where kp: "kp = (k, plan)" by (rule prod.exhaust)
  have pr: "priced limits plans" using Cons.prems(2) by (auto simp: priced_def)
  show ?case
  proof (cases plan)
    case None
    with Cons.prems(1) kp have "admitOwners limits plans (b, e, d, q) = Inr (b', e', d', q')" by simp
    from Cons.IH [OF this pr] show ?thesis unfolding kp None ownerPatch_Cons addedBy_Cons option.map option.case add_0 .
  next
    case (Some p)
    let ?n = "int (length (pl_inputs p))" and ?d = "pub_MaxDependencies (pl_publication p)"
    from Cons.prems(2) kp Some obtain cost where key: "pub_Key (pl_publication p) = k"
      and cost: "deltaQueryCost (pl_publication p) ?n (lim_Bytes limits) = Inr cost"
      unfolding priced_def by (metis list.set_intros(1))
    from Cons.prems(1) have run: "admitOwners limits plans (b + cost, e + ?n, d + ?d, q + 1) = Inr (b', e', d', q')"
      and fits: "cost \<le> lim_Bytes limits - b" "?n \<le> lim_InputEdges limits - e" "?d \<le> lim_Dependencies limits - d" "q < lim_Queries limits"
      by (simp_all add: kp Some cost Let_def split: if_splits)
    have w: "cost = entryWeight k (entryOf p) + 96 * edgeCount k (ownedKeys p)" "edgeCount k (ownedKeys p) = ?n" "sq_dependencies (entryOf p) = ?d"
      using deltaQueryCost_exact(1) [OF cost] key by (simp_all add: entryWeight_def edgeCount_def entryOf_def ownedKeys_def)
    from Cons.IH [OF run pr] w fits show ?thesis by (simp add: kp Some algebra_simps)
  qed
qed simp

lemma admitInputs_spec:
  assumes "admitInputs limits m (b, n) = Inr (b', n')"
  shows "b' = b + sumOf (\<lambda>_. inputCost) m \<and> n' = n + int (length m) \<and>
    (b \<le> lim_Bytes limits \<longrightarrow> b' \<le> lim_Bytes limits) \<and> (n \<le> lim_Inputs limits \<longrightarrow> n' \<le> lim_Inputs limits)"
  using assms
proof (induction m arbitrary: b n)
  case (Cons kc m)
  obtain k ch where kc: "kc = (k, ch)" by (rule prod.exhaust)
  from Cons.prems have run: "admitInputs limits m (b + inputCost ch, n + 1) = Inr (b', n')"
    and fits: "inputCost ch \<le> lim_Bytes limits - b" "n < lim_Inputs limits" by (simp_all add: kc Let_def split: if_splits)
  from Cons.IH [OF run] fits show ?case by (simp add: kc)
qed simp

end
