(* ===== verification/IncDeltaInstall.thy ===== *)
theory IncDeltaInstall
  imports IncDeltaStage
begin

text \<open>
  Installation of a delta: the loop over the owners patches the admitted queries and the two ownership
  indexes, and the staged input values are exactly what the owners after the delta assert.
\<close>

subsection \<open>The ownership indexes\<close>

definition owners_ok :: "deltaOwnership \<Rightarrow> (Key, sessionQuery) gomap \<Rightarrow> bool" where
  "owners_ok own live \<longleftrightarrow> gomap_ok (own_owned own) \<and> gomap_ok (own_refs own) \<and>
     (\<forall>k. map_of live k = None \<longleftrightarrow> map_of (own_owned own) k = None) \<and>
     (\<forall>q i. q \<in> set (listAt (own_refs own) i) \<longleftrightarrow> i \<in> set (listAt (own_owned own) q))"

definition inputs_owned :: "deltaOwnership \<Rightarrow> (Key, Change) gomap \<Rightarrow> bool" where
  "inputs_owned own ins \<longleftrightarrow> (\<forall>i. map_of ins i \<noteq> None \<longleftrightarrow> (\<exists>q. i \<in> set (listAt (own_owned own) q)))"

lemma owners_ok_new [simp]: "owners_ok newDeltaOwnership []" "inputs_owned newDeltaOwnership []"
  by (simp_all add: owners_ok_def inputs_owned_def newDeltaOwnership_def)

lemma dropRef_listAt: "listAt (dropRef q i refs) j = (if j = i then removeAll q (listAt refs j) else listAt refs j)"
  by (auto simp: dropRef_def listAt_def split: option.splits)

lemma dropRefs_set:
  "set (listAt (foldl (\<lambda>r i. dropRef q i r) refs xs) j) = set (listAt refs j) - (if j \<in> set xs then {q} else {})"
  by (induction xs arbitrary: refs) (auto simp: dropRef_listAt)

lemma addRef_listAt: "listAt (addRef q refs i) j = (if j = i then List.insert q (listAt refs j) else listAt refs j)"
  by (simp add: addRef_def)

lemma addRefs_set: "set (listAt (foldl (addRef q) refs xs) j) = set (listAt refs j) \<union> (if j \<in> set xs then {q} else {})"
  by (induction xs arbitrary: refs) (auto simp: addRef_listAt)

lemma refs_ok:
  "gomap_ok refs \<Longrightarrow> gomap_ok (foldl (\<lambda>r i. dropRef q i r) refs xs)" "gomap_ok refs \<Longrightarrow> gomap_ok (foldl (addRef q) refs xs)"
proof -
  have d: "gomap_ok (dropRef q i refs)" if "gomap_ok refs" for i refs
    using that by (simp add: dropRef_def gomap_ok_update split: option.splits)
  have a: "gomap_ok (addRef q refs i)" if "gomap_ok refs" for i refs
    using that by (simp add: addRef_def gomap_ok_update)
  show "gomap_ok refs \<Longrightarrow> gomap_ok (foldl (\<lambda>r i. dropRef q i r) refs xs)" by (induction xs arbitrary: refs) (simp_all add: d)
  show "gomap_ok refs \<Longrightarrow> gomap_ok (foldl (addRef q) refs xs)" by (induction xs arbitrary: refs) (simp_all add: a)
qed

subsection \<open>The loop over the owners\<close>

lemma addDebt_frame:
  "\<exists>d b. addDebt limits n di = di\<lparr>di_debt := d, di_compact := b\<rparr> \<and> (di_debt di \<le> lim_Bytes limits \<longrightarrow> d \<le> lim_Bytes limits)"
proof (cases "n < 0 \<or> n > lim_Bytes limits - di_debt di")
  case True
  then show ?thesis by (intro exI [of _ "di_debt di"] exI [of _ True]) (cases di; simp add: addDebt_def)
next
  case False
  then show ?thesis by (intro exI [of _ "di_debt di + n"] exI [of _ "di_compact di"]) (cases di; simp add: addDebt_def)
qed

lemma releaseRef_frame:
  "\<exists>d b. releaseRef limits a raw q di i =
     di\<lparr>di_own := (di_own di)\<lparr>own_refs := dropRef q i (own_refs (di_own di))\<rparr>, di_debt := d, di_compact := b\<rparr> \<and>
     (di_debt di \<le> lim_Bytes limits \<longrightarrow> d \<le> lim_Bytes limits)"
proof (cases "map_of (listAt a i) raw")
  case None
  let ?di = "di\<lparr>di_own := (di_own di)\<lparr>own_refs := dropRef q i (own_refs (di_own di))\<rparr>\<rparr>"
  from addDebt_frame [of limits 96 ?di] obtain d b where
    "addDebt limits 96 ?di = ?di\<lparr>di_debt := d, di_compact := b\<rparr>" "di_debt ?di \<le> lim_Bytes limits \<longrightarrow> d \<le> lim_Bytes limits"
    by (elim exE conjE) (rule that)
  with None show ?thesis by (intro exI [of _ d] exI [of _ b]) (simp add: releaseRef_def Let_def)
next
  case (Some ch)
  then show ?thesis
    by (intro exI [of _ "di_debt di"] exI [of _ "di_compact di"]) (cases di; simp add: releaseRef_def)
qed

lemma releaseRefs_frame:
  "\<exists>d b. foldl (releaseRef limits a raw q) di xs =
     di\<lparr>di_own := (di_own di)\<lparr>own_refs := foldl (\<lambda>r i. dropRef q i r) (own_refs (di_own di)) xs\<rparr>, di_debt := d, di_compact := b\<rparr> \<and>
     (di_debt di \<le> lim_Bytes limits \<longrightarrow> d \<le> lim_Bytes limits)"
proof (induction xs arbitrary: di)
  case Nil
  then show ?case by (intro exI [of _ "di_debt di"] exI [of _ "di_compact di"]) (cases di; simp)
next
  case (Cons i xs)
  from releaseRef_frame [of limits a raw q di i] obtain d b where
    1: "releaseRef limits a raw q di i =
     di\<lparr>di_own := (di_own di)\<lparr>own_refs := dropRef q i (own_refs (di_own di))\<rparr>, di_debt := d, di_compact := b\<rparr>"
    "di_debt di \<le> lim_Bytes limits \<longrightarrow> d \<le> lim_Bytes limits" by (elim exE conjE) (rule that)
  let ?di = "releaseRef limits a raw q di i"
  from Cons.IH [of ?di] obtain d' b' where
    2: "foldl (releaseRef limits a raw q) ?di xs =
     ?di\<lparr>di_own := (di_own ?di)\<lparr>own_refs := foldl (\<lambda>r i. dropRef q i r) (own_refs (di_own ?di)) xs\<rparr>, di_debt := d', di_compact := b'\<rparr>"
    "di_debt ?di \<le> lim_Bytes limits \<longrightarrow> d' \<le> lim_Bytes limits" by (elim exE conjE) (rule that)
  have "foldl (releaseRef limits a raw q) di (i # xs) =
     di\<lparr>di_own := (di_own di)\<lparr>own_refs := foldl (\<lambda>r i. dropRef q i r) (own_refs (di_own di)) (i # xs)\<rparr>, di_debt := d', di_compact := b'\<rparr>"
    using 2(1) by (simp add: 1(1))
  moreover have "di_debt di \<le> lim_Bytes limits \<longrightarrow> d' \<le> lim_Bytes limits" using 1 2(2) by simp
  ultimately show ?case by blast
qed

text \<open>The keys a loop has reached, and the session fields it keeps in step.\<close>

definition install_ok :: "deltaInstall \<Rightarrow> bool" where
  "install_ok di \<longleftrightarrow> owners_ok (di_own di) (di_live di) \<and>
     (\<forall>k. map_of (di_queryKeys di) k = map_of (keysOf (di_live di)) k)"

definition newRefs :: "deltaOwnership \<Rightarrow> Key \<Rightarrow> Key list \<Rightarrow> (Key, Key list) gomap" where
  "newRefs own k xs = foldl (addRef k) (foldl (\<lambda>r i. dropRef k i r) (own_refs own) (listAt (own_owned own) k)) xs"

definition installed_plan :: "(Key, Change) gomap \<Rightarrow> publicationPlan \<Rightarrow> bool" where
  "installed_plan changes p \<longleftrightarrow> (\<forall>ch \<in> set (pl_inputs p). \<exists>x. map_of changes (ch_Key ch) = Some x \<and> ch_Key x = ch_Key ch)"

lemma installed_plan_keys: "installed_plan changes p \<Longrightarrow> map (changeKey changes) (pl_inputs p) = ownedKeys p"
  by (auto simp: installed_plan_def ownedKeys_def changeKey_def)

lemma installOwner_eq:
  assumes ok: "install_ok di" and ip: "\<forall>p. plan = Some p \<longrightarrow> installed_plan changes p"
  shows "\<exists>n d b. installOwner limits a changes di (k, plan) =
     di\<lparr>di_live := patch (di_live di) [(k, map_option entryOf plan)],
        di_queryKeys := patch (di_queryKeys di) [(k, map_option (\<lambda>_. k) plan)],
        di_own := \<lparr>own_owned = patch (own_owned (di_own di)) [(k, map_option ownedKeys plan)],
                   own_refs = newRefs (di_own di) k (case plan of None \<Rightarrow> [] | Some p \<Rightarrow> ownedKeys p)\<rparr>,
        di_evicted := di_evicted di @ (if map_of (di_live di) k \<noteq> None \<and> map_of (di_live di) k \<noteq> map_option entryOf plan then [k] else []),
        di_retiredQueries := n, di_debt := d, di_compact := b\<rparr> \<and>
     (di_debt di \<le> lim_Bytes limits \<longrightarrow> d \<le> lim_Bytes limits)"
proof -
  have keys: "map_of (di_queryKeys di) k = (if map_of (di_live di) k = None then None else Some k)"
    using ok by (simp add: install_ok_def keysOf_lookup)
  have dom: "map_of (di_live di) k = None \<longleftrightarrow> map_of (own_owned (di_own di)) k = None"
    using ok by (simp add: install_ok_def owners_ok_def)
  let ?rel = "foldl (releaseRef limits a k k) di (listAt (own_owned (di_own di)) k)"
  have nil: "foldl (\<lambda>r i. dropRef k i r) (own_refs (di_own di)) (listAt (own_owned (di_own di)) k) = newRefs (di_own di) k []"
    by (simp add: newRefs_def)
  from releaseRefs_frame [of limits a k k di "listAt (own_owned (di_own di)) k"] obtain d1 b1 where
    rel: "?rel = di\<lparr>di_own := (di_own di)\<lparr>own_refs := newRefs (di_own di) k []\<rparr>, di_debt := d1, di_compact := b1\<rparr>"
    "di_debt di \<le> lim_Bytes limits \<longrightarrow> d1 \<le> lim_Bytes limits" unfolding nil by (elim exE conjE) (rule that)
  have skip: "?rel = di" if "map_of (di_live di) k = None" using that dom by (simp add: listAt_None)
  show ?thesis
  proof (cases plan)
    case (Some p)
    have "installOwner limits a changes di (k, plan) =
      ?rel\<lparr>di_evicted := (if map_of (di_live di) k \<noteq> None \<and> map_of (di_live di) k \<noteq> Some (entryOf p) then di_evicted ?rel @ [k] else di_evicted ?rel),
                     di_live := AList.update k (entryOf p) (di_live ?rel),
                     di_queryKeys := AList.update k k (di_queryKeys ?rel),
                     di_own := \<lparr>own_owned = AList.update k (ownedKeys p) (own_owned (di_own ?rel)),
                                own_refs = foldl (addRef k) (own_refs (di_own ?rel)) (ownedKeys p)\<rparr>\<rparr>"
      using skip keys by (simp add: installOwner_def Let_def Some installed_plan_keys [OF ip [rule_format, OF Some]] entryOf_def)
    then show ?thesis using rel(2)
      by (intro exI [of _ "di_retiredQueries di"] exI [of _ d1] exI [of _ b1] conjI deltaInstall.equality) (simp_all add: rel(1) Some newRefs_def)
  next
    case None
    show ?thesis
    proof (cases "map_of (di_live di) k")
      case gone: None
      then have "installOwner limits a changes di (k, plan) = di" using keys by (simp add: installOwner_def None)
      moreover have "patch (di_live di) [(k, map_option entryOf plan)] = di_live di"
        "patch (di_queryKeys di) [(k, map_option (\<lambda>_. k) plan)] = di_queryKeys di"
        "patch (own_owned (di_own di)) [(k, map_option ownedKeys plan)] = own_owned (di_own di)"
        "newRefs (di_own di) k [] = own_refs (di_own di)"
        using gone dom keys by (simp_all add: None delete_new newRefs_def listAt_None)
      ultimately show ?thesis
        by (intro exI [of _ "di_retiredQueries di"] exI [of _ "di_debt di"] exI [of _ "di_compact di"] conjI deltaInstall.equality) (simp_all add: gone None)
    next
      case (Some old)
      let ?di2 = "?rel\<lparr>di_evicted := di_evicted ?rel @ [k], di_retiredQueries := Suc (di_retiredQueries ?rel)\<rparr>"
      from addDebt_frame [of limits "keyCost k + 128" ?di2] obtain d2 b2 where
        debt: "addDebt limits (keyCost k + 128) ?di2 = ?di2\<lparr>di_debt := d2, di_compact := b2\<rparr>"
        "di_debt ?di2 \<le> lim_Bytes limits \<longrightarrow> d2 \<le> lim_Bytes limits" by (elim exE conjE) (rule that)
      have "installOwner limits a changes di (k, plan) = (?di2\<lparr>di_debt := d2, di_compact := b2\<rparr>)
        \<lparr>di_live := AList.delete k (di_live ?di2), di_queryKeys := AList.delete k (di_queryKeys ?di2),
         di_own := (di_own ?di2)\<lparr>own_owned := AList.delete k (own_owned (di_own ?di2))\<rparr>\<rparr>"
        using keys by (simp add: installOwner_def Let_def None Some debt(1))
      moreover have "di_debt di \<le> lim_Bytes limits \<longrightarrow> d2 \<le> lim_Bytes limits" using rel debt(2) by simp
      ultimately show ?thesis
        by (intro exI [of _ "Suc (di_retiredQueries di)"] exI [of _ d2] exI [of _ b2] conjI deltaInstall.equality) (simp_all add: rel(1) None Some)
    qed
  qed
qed

text \<open>One owner in step: both indexes and the key map still fit the admitted queries.\<close>

lemma owners_ok_step:
  assumes "owners_ok own live"
  shows "owners_ok \<lparr>own_owned = patch (own_owned own) [(k, map_option ownedKeys plan)],
      own_refs = newRefs own k (case plan of None \<Rightarrow> [] | Some p \<Rightarrow> ownedKeys p)\<rparr> (patch live [(k, map_option entryOf plan)])"
proof -
  note o = assms [unfolded owners_ok_def]
  let ?xs = "case plan of None \<Rightarrow> [] | Some p \<Rightarrow> ownedKeys p"
  have at: "listAt (patch (own_owned own) [(k, map_option ownedKeys plan)]) q = (if q = k then ?xs else listAt (own_owned own) q)" for q
    by (cases plan) simp_all
  have "set (listAt (newRefs own k ?xs) i) = (set (listAt (own_refs own) i) - {k}) \<union> (if i \<in> set ?xs then {k} else {})" for i
    unfolding newRefs_def addRefs_set dropRefs_set using o by auto
  then have "q \<in> set (listAt (newRefs own k ?xs) i) \<longleftrightarrow> i \<in> set (listAt (patch (own_owned own) [(k, map_option ownedKeys plan)]) q)" for q i
    unfolding at using o by auto
  moreover have "map_of (patch live [(k, map_option entryOf plan)]) j = None \<longleftrightarrow>
      map_of (patch (own_owned own) [(k, map_option ownedKeys plan)]) j = None" for j
    using o by (cases plan) simp_all
  moreover have "gomap_ok (patch (own_owned own) [(k, map_option ownedKeys plan)])" by (rule patch_ok) (use o in blast)
  moreover have "gomap_ok (newRefs own k ?xs)" unfolding newRefs_def by (intro refs_ok) (use o in blast)
  ultimately show ?thesis by (simp add: owners_ok_def)
qed

lemma installOwners_spec:
  assumes "install_ok di" and "\<forall>k p. (k, Some p) \<in> set plans \<longrightarrow> installed_plan changes p"
  shows "\<exists>di'. foldl (installOwner limits a changes) di plans = di' \<and> install_ok di' \<and>
    di_live di' = patch (di_live di) (ownerPatch entryOf plans) \<and>
    own_owned (di_own di') = patch (own_owned (di_own di)) (ownerPatch ownedKeys plans) \<and>
    set (di_evicted di) \<subseteq> set (di_evicted di') \<and>
    (\<forall>k. map_of (di_live di) k \<noteq> None \<and> map_of (di_live di') k \<noteq> map_of (di_live di) k \<longrightarrow> k \<in> set (di_evicted di')) \<and>
    (di_debt di \<le> lim_Bytes limits \<longrightarrow> di_debt di' \<le> lim_Bytes limits)"
  using assms
proof (induction plans arbitrary: di)
  case (Cons kp plans)
  obtain k plan where kp: "kp = (k, plan)" by (rule prod.exhaust)
  have ip: "\<forall>p. plan = Some p \<longrightarrow> installed_plan changes p" using Cons.prems(2) kp by auto
  let ?di1 = "installOwner limits a changes di (k, plan)"
  from installOwner_eq [of di plan changes limits a k, OF Cons.prems(1) ip] obtain n d b where
    eq: "?di1 = di\<lparr>di_live := patch (di_live di) [(k, map_option entryOf plan)],
        di_queryKeys := patch (di_queryKeys di) [(k, map_option (\<lambda>_. k) plan)],
        di_own := \<lparr>own_owned = patch (own_owned (di_own di)) [(k, map_option ownedKeys plan)],
                   own_refs = newRefs (di_own di) k (case plan of None \<Rightarrow> [] | Some p \<Rightarrow> ownedKeys p)\<rparr>,
        di_evicted := di_evicted di @ (if map_of (di_live di) k \<noteq> None \<and> map_of (di_live di) k \<noteq> map_option entryOf plan then [k] else []),
        di_retiredQueries := n, di_debt := d, di_compact := b\<rparr>"
    and debt: "di_debt di \<le> lim_Bytes limits \<longrightarrow> d \<le> lim_Bytes limits" by (elim exE conjE) (rule that)
  have own: "owners_ok (di_own ?di1) (di_live ?di1)"
    unfolding eq using owners_ok_step [of "di_own di" "di_live di" k plan] Cons.prems(1) by (simp add: install_ok_def)
  have keys: "map_of (di_queryKeys ?di1) j = map_of (keysOf (di_live ?di1)) j" for j
  proof -
    have "map_of (di_queryKeys di) j = (if map_of (di_live di) j = None then None else Some j)" for j
      using Cons.prems(1) by (simp add: install_ok_def keysOf_lookup)
    then show ?thesis unfolding eq keysOf_lookup by (cases plan) simp_all
  qed
  have live: "map_of (di_live ?di1) j = (if j = k then map_option entryOf plan else map_of (di_live di) j)" for j
    unfolding eq by (cases plan) simp_all
  have ok: "install_ok ?di1" using own keys by (simp add: install_ok_def)
  have rest: "\<forall>k p. (k, Some p) \<in> set plans \<longrightarrow> installed_plan changes p" using Cons.prems(2) by auto
  from Cons.IH [OF ok rest] obtain di' where run: "foldl (installOwner limits a changes) ?di1 plans = di'" and ok': "install_ok di'"
    and l: "di_live di' = patch (di_live ?di1) (ownerPatch entryOf plans)"
    and w: "own_owned (di_own di') = patch (own_owned (di_own ?di1)) (ownerPatch ownedKeys plans)"
    and e: "set (di_evicted ?di1) \<subseteq> set (di_evicted di')"
      "\<forall>k. map_of (di_live ?di1) k \<noteq> None \<and> map_of (di_live di') k \<noteq> map_of (di_live ?di1) k \<longrightarrow> k \<in> set (di_evicted di')"
    and d': "di_debt ?di1 \<le> lim_Bytes limits \<longrightarrow> di_debt di' \<le> lim_Bytes limits" by (elim exE conjE) (rule that)
  have "j \<in> set (di_evicted di')" if "map_of (di_live di) j \<noteq> None" "map_of (di_live di') j \<noteq> map_of (di_live di) j" for j
  proof (cases "map_of (di_live ?di1) j = map_of (di_live di) j")
    case True
    with e(2) that show ?thesis by metis
  next
    case False
    with live have "j = k" "map_of (di_live di) k \<noteq> map_option entryOf plan" by (auto split: if_splits)
    with that(1) have "j \<in> set (di_evicted ?di1)" by (simp add: eq)
    with e(1) show ?thesis by blast
  qed
  moreover have "set (di_evicted di) \<subseteq> set (di_evicted di')" using e(1) by (auto simp: eq)
  moreover have "di_debt di \<le> lim_Bytes limits \<longrightarrow> di_debt di' \<le> lim_Bytes limits" using debt d' by (simp add: eq)
  moreover have "di_live di' = patch (di_live di) (ownerPatch entryOf (kp # plans))"
    "own_owned (di_own di') = patch (own_owned (di_own di)) (ownerPatch ownedKeys (kp # plans))"
    using l w by (simp_all add: kp eq)
  ultimately show ?case using run ok' kp by (intro exI [of _ di']) simp
qed (simp add: ownerPatch_def)

subsection \<open>The staged values\<close>

lemma ownedAfter:
  assumes "gomap_ok plans"
  shows "listAt (patch owned (ownerPatch ownedKeys plans)) q =
    (case map_of plans q of None \<Rightarrow> listAt owned q | Some None \<Rightarrow> [] | Some (Some p) \<Rightarrow> ownedKeys p)"
proof -
  have "gomap_ok (ownerPatch ownedKeys plans)" using assms by simp
  from patch_lookup [OF this, of owned q] show ?thesis
    by (simp add: listAt_def ownerPatch_lookup split: option.splits)
qed

lemma asserted_iff:
  assumes "plans_ok s plans"
  shows "asserted plans q i = Some ch \<longleftrightarrow> (\<exists>p. map_of plans q = Some (Some p) \<and> ch \<in> set (pl_inputs p) \<and> ch_Key ch = i)"
    "asserted plans q i = Some ch \<Longrightarrow> ch_Key ch = i \<and> normal ch"
proof -
  have wf: "distinct (map ch_Key (pl_inputs p))" "\<forall>ch \<in> set (pl_inputs p). normal ch" if "map_of plans q = Some (Some p)" for p
    using assms that by (simp_all add: plans_ok_def delta_plan_ok_def plan_wf_def)
  show 1: "asserted plans q i = Some ch \<longleftrightarrow> (\<exists>p. map_of plans q = Some (Some p) \<and> ch \<in> set (pl_inputs p) \<and> ch_Key ch = i)"
    using find_distinct [OF wf(1)] by (auto simp: asserted_def split: option.splits)
  show "asserted plans q i = Some ch \<Longrightarrow> ch_Key ch = i \<and> normal ch" using 1 wf(2) by blast
qed

lemma newValue_spec:
  assumes own: "owners_ok own live" "inputs_owned own ins" and ins: "inputs_wf ins" and plans: "plans_ok s plans"
    and st: "assertions_ok st" "\<And>q i. assertion st q i = asserted plans q i"
    and sel: "selectedInput ins own plans (sg_assertions st) i = Inr sel"
  shows "(sel = None \<longleftrightarrow> (\<forall>q. i \<notin> set (listAt (patch (own_owned own) (ownerPatch ownedKeys plans)) q))) \<and>
    (\<forall>ch. sel = Some ch \<longrightarrow> ch_Key ch = i \<and> normal ch \<and> (\<forall>q x. asserted plans q i = Some x \<longrightarrow> x = ch) \<and>
       ((\<exists>q. map_of plans q = None \<and> i \<in> set (listAt (own_owned own) q)) \<longrightarrow> map_of ins i = Some ch))"
proof -
  let ?chs = "map snd (listAt (sg_assertions st) i)" and ?kept = "retainedInput ins own plans i"
  have ok: "gomap_ok plans" using plans by (simp add: plans_ok_def)
  have chs: "ch \<in> set ?chs \<longleftrightarrow> (\<exists>q. asserted plans q i = Some ch)" for ch
  proof -
    have "gomap_ok (listAt (sg_assertions st) i)" using st(1) by (simp add: assertions_ok_def)
    then have "(q, ch) \<in> set (listAt (sg_assertions st) i) \<longleftrightarrow> asserted plans q i = Some ch" for q
      using st(2) [of q i] by (metis assertion_def map_of_eq_Some_iff)
    then show ?thesis by force
  qed
  have untouched: "(\<exists>q. map_of plans q = None \<and> i \<in> set (listAt (own_owned own) q)) \<longleftrightarrow> list_ex (\<lambda>q. map_of plans q = None) (listAt (own_refs own) i)"
    using own(1) by (auto simp: owners_ok_def list_ex_iff)
  have kept: "if \<exists>q. map_of plans q = None \<and> i \<in> set (listAt (own_owned own) q) then \<exists>ch. ?kept = Some ch \<and> map_of ins i = Some ch else ?kept = None"
  proof (cases "\<exists>q. map_of plans q = None \<and> i \<in> set (listAt (own_owned own) q)")
    case True
    then have "map_of ins i \<noteq> None" using own(2) by (auto simp: inputs_owned_def)
    with True untouched show ?thesis by (auto simp: retainedInput_def)
  next
    case False
    with untouched show ?thesis by (auto simp: retainedInput_def)
  qed
  have all: "\<forall>x \<in> set ?chs \<union> set_option ?kept. ch_Key x = i \<and> normal x"
    using chs asserted_iff(2) [OF plans] inputs_wfD [OF ins] kept by (auto split: if_splits)
  note ag = agreeAll_spec [OF sel [unfolded selectedInput_def] all, THEN conjunct1]
    agreeAll_spec [OF sel [unfolded selectedInput_def] all, THEN conjunct2, rule_format]
  have "i \<in> set (listAt (patch (own_owned own) (ownerPatch ownedKeys plans)) q) \<longleftrightarrow>
      map_of plans q = None \<and> i \<in> set (listAt (own_owned own) q) \<or> (\<exists>ch. asserted plans q i = Some ch)" for q
    unfolding ownedAfter [OF ok] asserted_iff(1) [OF plans] by (cases "map_of plans q") (auto simp: ownedKeys_def split: option.splits)
  then have own_after: "(\<exists>q. i \<in> set (listAt (patch (own_owned own) (ownerPatch ownedKeys plans)) q)) \<longleftrightarrow>
      (\<exists>q. map_of plans q = None \<and> i \<in> set (listAt (own_owned own) q)) \<or> (\<exists>q ch. asserted plans q i = Some ch)" by blast
  have none: "sel = None \<longleftrightarrow> (\<forall>q. i \<notin> set (listAt (patch (own_owned own) (ownerPatch ownedKeys plans)) q))"
  proof -
    have "?chs = [] \<longleftrightarrow> \<not> (\<exists>q ch. asserted plans q i = Some ch)"
      using chs by (metis last_in_set list.set(1) empty_iff)
    moreover have "?kept = None \<longleftrightarrow> \<not> (\<exists>q. map_of plans q = None \<and> i \<in> set (listAt (own_owned own) q))"
      by (cases "\<exists>q. map_of plans q = None \<and> i \<in> set (listAt (own_owned own) q)") (use kept in auto)
    ultimately show ?thesis using ag(1) own_after by blast
  qed
  have "ch_Key ch = i \<and> normal ch \<and> (\<forall>q x. asserted plans q i = Some x \<longrightarrow> x = ch) \<and>
       ((\<exists>q. map_of plans q = None \<and> i \<in> set (listAt (own_owned own) q)) \<longrightarrow> map_of ins i = Some ch)" if "sel = Some ch" for ch
  proof (intro conjI allI impI)
    note mem = ag(2) [OF that, THEN conjunct1] and eq = ag(2) [OF that, THEN conjunct2]
    from bspec [OF all mem] show "ch_Key ch = i" "normal ch" by simp_all
    show "x = ch" if "asserted plans q i = Some x" for q x using eq chs that by blast
    show "map_of ins i = Some ch" if "\<exists>q. map_of plans q = None \<and> i \<in> set (listAt (own_owned own) q)"
    proof -
      from kept that obtain y where "?kept = Some y" "map_of ins i = Some y" by auto
      with eq show ?thesis by simp
    qed
  qed
  with none show ?thesis by blast
qed

end
