(* ===== verification/IncSessionWorld.thy ===== *)
theory IncSessionWorld
  imports IncSessionMemo IncDeltaInstall
begin

text \<open>
  The invariant \<open>world_inv\<close> of a session, that new sessions have it, and that publishing a whole world
  and evaluating keep it, in histories in which neither the database revision nor the epoch, both
  \<^verbatim>\<open>uint64\<close>, has wrapped around.
\<close>

subsection \<open>The account\<close>

definition liveBytes :: "(Key, sessionQuery) gomap \<Rightarrow> int" where
  "liveBytes m = sum_list (map (\<lambda>(k, e). keyCost k + sq_resultBytes e + sq_dependencies e * 96) m)"

definition liveDependencies :: "(Key, sessionQuery) gomap \<Rightarrow> int" where
  "liveDependencies m = sum_list (map (\<lambda>(k, e). sq_dependencies e) m)"

lemma queryBytes_live: "queryBytes m = liveBytes (entriesOf m) + 40 * edgesOf m"
  by (induction m) (auto simp: queryBytes_def liveBytes_def entriesOf_def edgesOf_def queryCost_def entryOf_def)

lemma dependenciesOf_live: "dependenciesOf m = liveDependencies (entriesOf m)"
  by (induction m) (auto simp: dependenciesOf_def liveDependencies_def entriesOf_def entryOf_def)

text \<open>Whole publications and deltas account for ownership differently: 40 bytes an edge, or 96 bytes an
  edge and 128 bytes a query.\<close>

definition ownershipBytes :: "deltaOwnership option \<Rightarrow> (Key, sessionQuery) gomap \<Rightarrow> int \<Rightarrow> int" where
  "ownershipBytes delta live edges = (case delta of None \<Rightarrow> 40 * edges | Some _ \<Rightarrow> 128 * int (length live) + 96 * edges)"

definition accounted :: "Session \<Rightarrow> bool" where
  "accounted s \<longleftrightarrow>
     int (length (s_live s)) \<le> lim_Queries (s_limits s) \<and> int (length (s_inputs s)) \<le> lim_Inputs (s_limits s) \<and>
     0 \<le> s_edges s \<and> s_edges s \<le> lim_InputEdges (s_limits s) \<and>
     s_dependencies s = liveDependencies (s_live s) \<and> s_dependencies s \<le> lim_Dependencies (s_limits s) \<and>
     s_bytes s = liveBytes (s_live s) + ownershipBytes (s_delta s) (s_live s) (s_edges s) + inputBytes (s_inputs s) \<and> s_bytes s \<le> lim_Bytes (s_limits s) \<and>
     s_debtBytes s \<le> lim_Bytes (s_limits s) \<and> s_debtInputs s \<le> lim_Inputs (s_limits s)"

definition memo_reserved :: "Session \<Rightarrow> bool" where
  "memo_reserved s \<longleftrightarrow>
     (\<forall>k r. map_of (results (s_db s)) k = Some r \<longrightarrow> reserved (s_live s) k (res_value r) (res_dependencies r))"

text \<open>In delta mode the ownership indexes fit the admitted queries and the inputs.\<close>

definition delta_ok :: "deltaOwnership option \<Rightarrow> (Key, sessionQuery) gomap \<Rightarrow> (Key, Change) gomap \<Rightarrow> int \<Rightarrow> bool" where
  "delta_ok delta live ins edges \<longleftrightarrow> (case delta of
       None \<Rightarrow> live = [] \<longrightarrow> edges = 0
     | Some own \<Rightarrow> owners_ok own live \<and> inputs_owned own ins \<and> edges = sumOf edgeCount (own_owned own))"

definition world_inv :: "Session \<Rightarrow> bool" where
  "world_inv s \<longleftrightarrow> session_inv s \<and> entries_ok (s_live s) \<and> accounted s \<and> delta_ok (s_delta s) (s_live s) (s_inputs s) (s_edges s) \<and> (plain_session s \<longrightarrow> memo_reserved s)"

subsection \<open>Starting and failing\<close>

lemma New_session:
  assumes "NewSession evals limits = Inr s"
  shows "world_inv s \<and> s_limits s = limits \<and> s_live s = [] \<and> s_inputs s = [] \<and> \<not> s_ready s"
proof -
  from assms have lim: "limits_ok limits" by (auto simp: NewSession_def limits_ok_def split: if_splits)
  define evs where "evs = copyMap (map (\<lambda>(kind, evaluator). (kind, the evaluator)) evals)"
  define s0 where "s0 = \<lparr>s_delta = None, s_limits = limits, s_evaluators = evs, s_db = New [], s_live = [], s_inputs = [],
     s_queryKeys = [], s_inputKeys = [], s_epoch = 0, s_ready = False, s_bytes = 0, s_edges = 0, s_dependencies = 0,
     s_debtBytes = 0, s_debtInputs = 0, s_totals = zeroStats, s_stats = zeroSessionStats\<rparr>"
  from assms have s: "s = s0\<lparr>s_db := newDatabase s0\<rparr>"
    by (auto simp: NewSession_def Let_def s0_def evs_def split: if_splits)
  have ok: "gomap_ok (s_evaluators s0)" by (simp add: s0_def evs_def copyMap_ok)
  have "covered (evalMap (registry s0)) (map_of (s_evaluators s0))"
    by (rule registry_covered) (simp_all add: s0_def identity_keys_def)
  from good_New [OF registry_ok [OF ok] this] have g: "good (map_of evs) (\<lambda>_. ([], False)) 1 (newDatabase s0)"
    by (simp add: newDatabase_def s0_def)
  have "revision (newDatabase s0) = 1" by (simp add: newDatabase_def New_def)
  with g have "session_inv s" using ok lim
    by (simp add: session_inv_def s s0_def snapshotOf_def [abs_def] keysOf_def)
  moreover have "results (newDatabase s0) = []" by (simp add: newDatabase_def New_def)
  ultimately show ?thesis using lim
    by (simp add: world_inv_def entries_ok_def accounted_def memo_reserved_def s s0_def liveBytes_def liveDependencies_def
        inputBytes_def limits_ok_def ownershipBytes_def delta_ok_def)
qed

text \<open>The fields a preparation touches do not matter to the invariant.\<close>

lemma world_inv_frame [simp]:
  "world_inv (s\<lparr>s_epoch := e, s_ready := b, s_stats := st\<rparr>) = world_inv s"
  by (simp add: world_inv_def session_inv_def accounted_def memo_reserved_def plain_session_def)

lemma begin_frame [simp]:
  "world_inv (beginPublication s) = world_inv s" "world_inv (rejectPublication s) = world_inv s"
  "s_live (beginPublication s) = s_live s" "s_inputs (beginPublication s) = s_inputs s" "s_db (beginPublication s) = s_db s"
  "s_limits (beginPublication s) = s_limits s" "s_evaluators (beginPublication s) = s_evaluators s"
  "s_epoch (beginPublication s) = uint64_inc (s_epoch s)" "\<not> s_ready (beginPublication s)"
  "s_live (rejectPublication s) = s_live s" "s_inputs (rejectPublication s) = s_inputs s" "s_db (rejectPublication s) = s_db s"
  "s_epoch (rejectPublication s) = s_epoch s" "s_ready (rejectPublication s) = s_ready s"
  "s_limits (rejectPublication s) = s_limits s" "s_evaluators (rejectPublication s) = s_evaluators s"
  by (simp_all add: beginPublication_def rejectPublication_def world_inv_def session_inv_def accounted_def
      memo_reserved_def plain_session_def)

subsection \<open>A successful publication\<close>

text \<open>What an accepted batch did: plans that are the publications, and an admission of them.\<close>

definition accepted :: "Session \<Rightarrow> Publication list \<Rightarrow> (Key, publicationPlan) gomap \<Rightarrow> Key list \<Rightarrow> admission \<Rightarrow> bool" where
  "accepted s ps plans order adm \<longleftrightarrow> adm = admitAll s plans order \<and>
     (\<exists>known. batch_ok s known plans order \<and> adm_ok (s_limits s) known plans (set order) adm) \<and>
     (\<forall>p \<in> set ps. \<exists>plan. map_of plans (pub_Key p) = Some plan \<and> planned p plan) \<and>
     (\<forall>k plan. map_of plans k = Some plan \<longrightarrow> (\<exists>p \<in> set ps. planned p plan \<and> pub_Key p = k))"

lemma prepareWorld_accepted:
  assumes "prepareWorld s c ps = (skipped, Inr adm, c')" and "limits_ok (s_limits s)"
  shows "\<exists>plans order. accepted s ps plans order adm \<and> skipped = adm_skipped adm"
proof -
  from assms(1) obtain plans order c1 where
    run: "planPublications s (workEdges (s_limits s)) ps c [] [] [] 0 = (Inr (plans, order), c1)"
    and adm: "adm = admitAll s plans order" "skipped = adm_skipped adm"
    by (auto simp: prepareWorld_def Let_def split: if_splits prod.splits sum.splits option.splits)
  have "batch_ok s [] [] []" by (simp add: batch_ok_def)
  from planPublications_spec [OF run this] obtain known where "batch_ok s known plans order"
    "\<forall>p \<in> set ps. \<exists>plan. map_of plans (pub_Key p) = Some plan \<and> planned p plan"
    "\<forall>k plan. map_of plans k = Some plan \<longrightarrow> (\<exists>p \<in> set ps. planned p plan \<and> pub_Key p = k)" by auto
  with admitAll_ok [OF this(1) assms(2)] adm show ?thesis unfolding accepted_def by blast
qed

lemma publish_cases:
  assumes "PublishPrepared s c prepare = ((pub, err), s', c')" and "limits_ok (s_limits s)"
  obtains (refused) e where "s' = s" "err = Some e" "pub = zeroPublished" "fst (ctxErr c) \<noteq> None"
  | (rejected) e where "s' = rejectPublication (beginPublication s)" "err = Some e"
  | (published) ps plans order adm where "prepare = Some (Inr ps)" "err = None" "accepted (beginPublication s) ps plans order adm"
      "s' = installWorld (beginPublication s) adm" "pb_Skipped pub = adm_skipped adm"
      "pb_Revision pub = \<lparr>rev_session = True, rev_epoch = s_epoch (beginPublication s)\<rparr>"
proof (cases "\<exists>ps skipped adm. fst (ctxErr c) = None \<and> prepare = Some (Inr ps) \<and>
    prepareWorld (beginPublication s) (snd (ctxErr c)) ps = (skipped, Inr adm, c')")
  case True
  then obtain ps skipped adm where t: "fst (ctxErr c) = None" "prepare = Some (Inr ps)"
    "prepareWorld (beginPublication s) (snd (ctxErr c)) ps = (skipped, Inr adm, c')" by blast
  have "limits_ok (s_limits (beginPublication s))" using assms(2) by simp
  from prepareWorld_accepted [OF t(3) this] obtain plans order where
    acc: "accepted (beginPublication s) ps plans order adm" "skipped = adm_skipped adm" by blast
  have "ctxErr c = (None, snd (ctxErr c))" using t(1) by (metis prod.collapse)
  with assms(1) t acc(2) have "err = None" "s' = installWorld (beginPublication s) adm" "pb_Skipped pub = adm_skipped adm"
    "pb_Revision pub = \<lparr>rev_session = True, rev_epoch = s_epoch (beginPublication s)\<rparr>"
    by (auto simp: PublishPrepared_def Let_def split: prod.splits)
  then show ?thesis by (rule published [OF t(2) _ acc(1)])
next
  case False
  with assms(1) have "(s' = s \<and> (\<exists>e. err = Some e) \<and> pub = zeroPublished \<and> fst (ctxErr c) \<noteq> None) \<or> (s' = rejectPublication (beginPublication s) \<and> (\<exists>e. err = Some e))"
    by (auto simp: PublishPrepared_def Let_def split: prod.splits option.splits sum.splits)
  then show ?thesis using refused rejected by blast
qed

lemma sum_list_nonneg_map: "(\<And>x. x \<in> set xs \<Longrightarrow> (0::int) \<le> f x) \<Longrightarrow> 0 \<le> sum_list (map f xs)"
  by (rule sum_list_nonneg) auto

lemma edgesOf_nonneg: "0 \<le> edgesOf m"
  unfolding edgesOf_def by (rule sum_list_nonneg_map) auto

text \<open>The session after an accepted batch.\<close>

lemma installed:
  assumes inv: "world_inv s" and room: "db_room s" and acc: "accepted s ps plans order adm" and s': "s' = installWorld s adm"
  shows "world_inv s'" "s_live s' = entriesOf (adm_selected adm)" "s_inputs s' = adm_inputs adm" "s_ready s'"
    "s_epoch s' = s_epoch s" "s_evaluators s' = s_evaluators s" "s_limits s' = s_limits s"
proof -
  from acc obtain known where batch: "batch_ok s known plans order" and ok: "adm_ok (s_limits s) known plans (set order) adm"
    by (auto simp: accepted_def)
  note o = ok [unfolded adm_ok_def]
  have wf: "inputs_wf (adm_inputs adm)" and sel: "gomap_ok (adm_selected adm)" using o by blast+
  have si: "session_inv s" using inv by (simp add: world_inv_def)
  from installWorld_spec [OF si room wf sel] obtain db st debtB debtI totals where
    eq: "installWorld s adm = s\<lparr>s_delta := None, s_db := db, s_live := entriesOf (adm_selected adm), s_inputs := adm_inputs adm,
        s_queryKeys := keysOf (adm_selected adm), s_inputKeys := keysOf (adm_inputs adm), s_ready := True,
        s_bytes := adm_bytes adm, s_edges := adm_edges adm, s_dependencies := adm_dependencies adm,
        s_debtBytes := debtB, s_debtInputs := debtI, s_totals := totals, s_stats := st\<rparr>"
    and g: "good (map_of (s_evaluators s)) (snapshotOf (adm_inputs adm)) (revision (s_db s) + length (s_live s) + 2) db"
    and debts: "debtB \<le> lim_Bytes (s_limits s)" "debtI \<le> lim_Inputs (s_limits s)"
    and res: "\<forall>k r. map_of (results db) k = Some r \<longrightarrow> map_of (results (s_db s)) k = Some r \<and>
         (\<forall>old. map_of (s_live s) k = Some old \<longrightarrow> map_of (entriesOf (adm_selected adm)) k = Some old)"
    by (elim exE conjE) (rule that)
  show "s_live s' = entriesOf (adm_selected adm)" "s_inputs s' = adm_inputs adm" "s_ready s'" "s_epoch s' = s_epoch s"
    "s_evaluators s' = s_evaluators s" "s_limits s' = s_limits s" by (simp_all add: s' eq)
  have keys: "map_of (keysOf (entriesOf m)) k = map_of (keysOf m) k" for m k by (simp add: keysOf_lookup entriesOf_lookup)
  have gl: "gomap_ok (entriesOf (adm_selected adm))" using sel by (simp add: entriesOf_def case_prod_unfold comp_def)
  have g': "good (map_of (s_evaluators s)) (snapshotOf (adm_inputs adm)) (revision db) db" using g by (simp add: good_def)
  have "session_inv s'" using si g' wf gl by (simp add: session_inv_def s' eq keys)
  moreover have "entries_ok (s_live s')" unfolding entries_ok_def
  proof (intro allI impI)
    fix k e assume "map_of (s_live s') k = Some e"
    then obtain plan where p: "map_of (adm_selected adm) k = Some plan" "e = entryOf plan" by (auto simp: s' eq entriesOf_lookup)
    with o have "map_of plans k = Some plan" by blast
    with batch p(2) show "0 \<le> sq_resultBytes e \<and> 0 \<le> sq_dependencies e" by (auto simp: batch_ok_def plan_ok_def entryOf_def)
  qed
  moreover have "accounted s'" unfolding accounted_def s' eq
    using o debts edgesOf_nonneg [of "adm_selected adm"] queryBytes_live [of "adm_selected adm"] dependenciesOf_live [of "adm_selected adm"]
    by (simp add: entriesOf_def ownershipBytes_def)
  moreover have "delta_ok (s_delta s') (s_live s') (s_inputs s') (s_edges s')" unfolding delta_ok_def s' eq using o by (simp add: entriesOf_def edgesOf_def)
  moreover have "memo_reserved s'" if "plain_session s'"
  proof -
    have "memo_reserved s" using inv that by (simp add: world_inv_def plain_session_def s' eq)
    then show ?thesis using res by (fastforce simp: memo_reserved_def reserved_def s' eq)
  qed
  ultimately show "world_inv s'" by (simp add: world_inv_def)
qed

subsection \<open>Evaluation\<close>

lemma good_attach:
  assumes "good evs env n db" and "covered (evalMap e) evs"
  shows "good evs env n (db\<lparr>evaluators := e\<rparr>)" "lookupEvaluator (db\<lparr>evaluators := e\<rparr>) = evalMap e"
proof -
  have look: "lookupEvaluator (db\<lparr>evaluators := e\<rparr>) = evalMap e" by (simp add: lookupEvaluator_def evalMap_def fun_eq_iff)
  have i: "inputAt (db\<lparr>evaluators := e\<rparr>) = inputAt db" by (simp add: inputAt_def fun_eq_iff)
  have v: "view (db\<lparr>evaluators := e\<rparr>) = view db" by (simp add: view_def i fun_eq_iff)
  show "lookupEvaluator (db\<lparr>evaluators := e\<rparr>) = evalMap e" by (rule look)
  have "db_inv evs hist (db\<lparr>evaluators := e\<rparr>)" if "db_inv evs hist db" for hist
    using that assms(2) by (simp add: db_inv_def look inputs_inv_def memo_inv_def links_inv_def link_ok_def i v)
  moreover have "store_wf (db\<lparr>evaluators := e\<rparr>) = store_wf db" by (simp add: store_wf_def i)
  ultimately show "good evs env n (db\<lparr>evaluators := e\<rparr>)" using assms(1) by (auto simp: good_def v)
qed

lemma session_covered: "session_inv s \<Longrightarrow> covered (evalMap (registry s)) (map_of (s_evaluators s))"
  using registry_covered session_keys by blast

text \<open>An evaluation changes the database of the session only, and a value it returns is the
  reference's on the published inputs.\<close>

lemma evaluate_session:
  assumes inv: "world_inv s" and e: "RevisionEvaluate fuel r s c key = Some (ans, s', c')"
  shows "world_inv s' \<and> (\<exists>db. s' = s\<lparr>s_db := db\<rparr>) \<and> revision (s_db s') = revision (s_db s) \<and>
    (\<forall>v. ans = Inr v \<longrightarrow> rev_session r \<and> s_ready s \<and> rev_epoch r = s_epoch s \<and> map_of (s_live s) key \<noteq> None \<and>
       (\<exists>deps. denotes (map_of (s_evaluators s)) (snapshotOf (s_inputs s)) key v deps) \<and> fresh (s_db s') key v)"
proof (cases "rev_session r \<and> fst (ctxErr c) = None \<and> s_ready s \<and> rev_epoch r = s_epoch s \<and> map_of (s_queryKeys s) key \<noteq> None")
  case False
  have same: "s = s\<lparr>s_db := s_db s\<rparr>" by (cases s) simp
  have "s' = s \<and> (\<exists>err. ans = Inl err)" using e False
    by (auto simp: RevisionEvaluate_def split: if_splits prod.splits option.splits)
  with inv same show ?thesis by blast
next
  case True
  note i = inv [unfolded world_inv_def session_inv_def]
  have si: "session_inv s" using inv by (simp add: world_inv_def)
  from True session_keys(2) [OF si] have canon: "map_of (s_queryKeys s) key = Some key" by (auto simp: identity_keys_def)
  have live: "map_of (s_live s) key \<noteq> None" using canon i by (auto simp: keysOf_lookup split: if_splits)
  obtain c1 where c1: "ctxErr c = (None, c1)" using True by (metis prod.collapse)
  let ?db0 = "(s_db s)\<lparr>evaluators := registry s\<rparr>"
  from e True canon c1 obtain db where ev: "Evaluate fuel ?db0 c1 key = Some (ans, db, c')" and s': "s' = s\<lparr>s_db := db\<rparr>"
    by (auto simp: RevisionEvaluate_def split: option.splits)
  have "good (map_of (s_evaluators s)) (snapshotOf (s_inputs s)) (revision (s_db s)) (s_db s)" using i by blast
  note at = good_attach [OF this session_covered [OF si]]
  from at(1) obtain hist where inv0: "db_inv (map_of (s_evaluators s)) hist ?db0" and w0: "store_wf ?db0"
    and v0: "view ?db0 = snapshotOf (s_inputs s)" by (auto simp: good_def)
  from Evaluate_contract [OF ev inv0] have evo: "evolves [] ?db0 db" and inv': "db_inv (map_of (s_evaluators s)) hist db"
    and fr: "\<forall>v. ans = Inr v \<longrightarrow> fresh db key v" by auto
  have rev: "revision db = revision (s_db s)" using evo by (simp add: evolves_def)
  have v': "view db = snapshotOf (s_inputs s)" using evolves_view [OF evo] v0 by simp
  have "good (map_of (s_evaluators s)) (snapshotOf (s_inputs s)) (revision db) db"
    using inv' v' evolves_store_wf(1) [OF evo] w0 by (auto simp: good_def)
  then have "session_inv s'" using si by (simp add: session_inv_def s')
  moreover have "memo_reserved s'" if "plain_session s'"
  proof -
    have pl: "plain_session s" using that by (simp add: plain_session_def s')
    have only: "returns_only (reserved (s_live s)) (evalMap (registry s))"
      by (rule registry_returns_reserved [OF pl]) (use i in blast)
    have "memo_reserved s" using inv pl by (simp add: world_inv_def)
    then have "results_all (reserved (s_live s)) (evalMap (registry s)) ?db0"
      using at(2) by (simp add: results_all_def memo_reserved_def)
    with memo.ev_keeps [OF _ ev [unfolded Evaluate_def]] only have "results_all (reserved (s_live s)) (evalMap (registry s)) db" by blast
    then show ?thesis by (simp add: results_all_def memo_reserved_def s')
  qed
  ultimately have "world_inv s'" using inv by (simp add: world_inv_def accounted_def s')
  moreover have "\<exists>deps. denotes (map_of (s_evaluators s)) (snapshotOf (s_inputs s)) key v deps" if "ans = Inr v" for v
    using fresh_denotes [OF inv'] fr that v' by simp
  ultimately show ?thesis using True live fr s' rev by auto
qed

end
