(* ===== verification/IncDeltaWorld.thy ===== *)
theory IncDeltaWorld
  imports IncSessionWorld
begin

text \<open>
  An accepted delta: what preparation has established (\<open>delta_fits\<close>), and that installing it keeps the
  invariant of the session, with the ownership indexes, the account and the database in step.
\<close>

subsection \<open>The world a delta starts from\<close>

lemma liveBytes_weight: "sumOf entryWeight m = liveBytes m + 128 * int (length m)"
  by (induction m) (auto simp: liveBytes_def entryWeight_def)

lemma liveDependencies_sum: "liveDependencies m = sumOf (\<lambda>_. sq_dependencies) m"
  by (simp add: liveDependencies_def sumOf_def)

lemma inputBytes_sum: "inputBytes m = sumOf (\<lambda>_. inputCost) m"
  by (simp add: inputBytes_def sumOf_def)

definition baseBytes :: "Session \<Rightarrow> bool \<Rightarrow> int" where
  "baseBytes s reset = (if reset then 0 else s_bytes s)"

definition baseEdges :: "Session \<Rightarrow> bool \<Rightarrow> int" where
  "baseEdges s reset = (if reset then 0 else s_edges s)"

definition baseDependencies :: "Session \<Rightarrow> bool \<Rightarrow> int" where
  "baseDependencies s reset = (if reset then 0 else s_dependencies s)"

lemma base_ok:
  assumes inv: "world_inv s" and own: "baseOwnership s reset = Inr own"
  shows "owners_ok own (baseLive s reset)" "inputs_owned own (baseInputs s reset)"
    "inputs_wf (baseInputs s reset)" "gomap_ok (baseLive s reset)"
    "baseBytes s reset = sumOf entryWeight (baseLive s reset) + 96 * sumOf edgeCount (own_owned own) + sumOf (\<lambda>_. inputCost) (baseInputs s reset)"
    "baseEdges s reset = sumOf edgeCount (own_owned own)" "baseDependencies s reset = sumOf (\<lambda>_. sq_dependencies) (baseLive s reset)"
proof -
  note w = inv [unfolded world_inv_def session_inv_def]
  have bytes: "s_bytes s = liveBytes (s_live s) + ownershipBytes (s_delta s) (s_live s) (s_edges s) + inputBytes (s_inputs s)"
    "s_dependencies s = liveDependencies (s_live s)" using w by (simp_all add: accounted_def)
  have dl: "delta_ok (s_delta s) (s_live s) (s_inputs s) (s_edges s)" using w by blast
  consider (fresh) "own = newDeltaOwnership" "baseLive s reset = []" "baseInputs s reset = []" "baseBytes s reset = 0" "baseEdges s reset = 0" "baseDependencies s reset = 0"
    | (kept) "s_delta s = Some own" "\<not> reset"
  proof (cases "reset \<or> s_delta s = None")
    case True
    have "own = newDeltaOwnership \<and> baseLive s reset = [] \<and> baseInputs s reset = [] \<and> baseBytes s reset = 0 \<and> baseEdges s reset = 0 \<and> baseDependencies s reset = 0"
    proof (cases reset)
      case True
      with own show ?thesis by (simp add: baseOwnership_def baseLive_def baseInputs_def baseBytes_def baseEdges_def baseDependencies_def)
    next
      case False
      with True own have m: "s_delta s = None" "s_live s = []" "s_inputs s = []" "own = newDeltaOwnership"
        by (auto simp: baseOwnership_def split: if_splits)
      with dl bytes have "s_edges s = 0" "s_bytes s = 0" "s_dependencies s = 0"
        by (simp_all add: delta_ok_def ownershipBytes_def liveBytes_def inputBytes_def liveDependencies_def)
      with False m show ?thesis by (simp add: baseLive_def baseInputs_def baseBytes_def baseEdges_def baseDependencies_def)
    qed
    then show ?thesis using fresh by blast
  next
    case False
    with own kept show ?thesis by (auto simp: baseOwnership_def split: option.splits)
  qed
  then have "owners_ok own (baseLive s reset) \<and> inputs_owned own (baseInputs s reset) \<and>
    inputs_wf (baseInputs s reset) \<and> gomap_ok (baseLive s reset) \<and>
    baseBytes s reset = sumOf entryWeight (baseLive s reset) + 96 * sumOf edgeCount (own_owned own) + sumOf (\<lambda>_. inputCost) (baseInputs s reset) \<and>
    baseEdges s reset = sumOf edgeCount (own_owned own) \<and> baseDependencies s reset = sumOf (\<lambda>_. sq_dependencies) (baseLive s reset)"
  proof cases
    case fresh
    then show ?thesis by (simp add: newDeltaOwnership_def [THEN arg_cong, of own_owned])
  next
    case kept
    with dl bytes w show ?thesis
      by (simp add: delta_ok_def ownershipBytes_def baseLive_def baseInputs_def baseBytes_def baseEdges_def baseDependencies_def
          liveBytes_weight liveDependencies_sum inputBytes_sum)
  qed
  then show "owners_ok own (baseLive s reset)" "inputs_owned own (baseInputs s reset)"
    "inputs_wf (baseInputs s reset)" "gomap_ok (baseLive s reset)"
    "baseBytes s reset = sumOf entryWeight (baseLive s reset) + 96 * sumOf edgeCount (own_owned own) + sumOf (\<lambda>_. inputCost) (baseInputs s reset)"
    "baseEdges s reset = sumOf edgeCount (own_owned own)" "baseDependencies s reset = sumOf (\<lambda>_. sq_dependencies) (baseLive s reset)"
    by blast+
qed

lemma base_limits:
  assumes "world_inv s"
  shows "baseBytes s reset \<le> lim_Bytes (s_limits s)" "baseEdges s reset \<le> lim_InputEdges (s_limits s)"
    "baseDependencies s reset \<le> lim_Dependencies (s_limits s)" "int (length (baseLive s reset)) \<le> lim_Queries (s_limits s)"
    "int (length (baseInputs s reset)) \<le> lim_Inputs (s_limits s)" "entries_ok (baseLive s reset)"
  using assms by (auto simp: world_inv_def session_inv_def accounted_def limits_ok_def entries_ok_def baseBytes_def baseEdges_def
      baseDependencies_def baseLive_def baseInputs_def)

subsection \<open>An accepted delta\<close>

definition liveAfter :: "Session \<Rightarrow> bool \<Rightarrow> preparedDelta \<Rightarrow> (Key, sessionQuery) gomap" where
  "liveAfter s reset dp = patch (baseLive s reset) (ownerPatch entryOf (dp_plans dp))"

definition ownedAt :: "preparedDelta \<Rightarrow> (Key, Key list) gomap" where
  "ownedAt dp = patch (own_owned (dp_own dp)) (ownerPatch ownedKeys (dp_plans dp))"

definition inputsAfter :: "Session \<Rightarrow> bool \<Rightarrow> preparedDelta \<Rightarrow> (Key, Change) gomap" where
  "inputsAfter s reset dp = patch (baseInputs s reset) (inputPatch (dp_retired dp) (dp_changes dp))"

text \<open>The values: every input an owner asserts is written, an input that loses its last owner is
  retired, and nothing changes under an owner the delta does not name.\<close>

definition delta_values :: "Session \<Rightarrow> bool \<Rightarrow> preparedDelta \<Rightarrow> bool" where
  "delta_values s reset dp \<longleftrightarrow> gomap_ok (inputPatch (dp_retired dp) (dp_changes dp)) \<and> inputs_wf (dp_changes dp) \<and>
     (\<forall>i. map_of (inputsAfter s reset dp) i \<noteq> None \<longleftrightarrow> (\<exists>q. i \<in> set (listAt (ownedAt dp) q))) \<and>
     (\<forall>i q. i \<in> set (dp_retired dp) \<longrightarrow> i \<notin> set (listAt (ownedAt dp) q)) \<and>
     (\<forall>k p ch. map_of (dp_plans dp) k = Some (Some p) \<and> ch \<in> set (pl_inputs p) \<longrightarrow> map_of (dp_changes dp) (ch_Key ch) = Some ch) \<and>
     (\<forall>q i. map_of (dp_plans dp) q = None \<and> i \<in> set (listAt (own_owned (dp_own dp)) q) \<longrightarrow>
        map_of (inputsAfter s reset dp) i = map_of (baseInputs s reset) i)"

definition delta_account :: "Session \<Rightarrow> bool \<Rightarrow> preparedDelta \<Rightarrow> bool" where
  "delta_account s reset dp \<longleftrightarrow>
     dp_bytes dp = sumOf entryWeight (liveAfter s reset dp) + 96 * dp_edges dp + sumOf (\<lambda>_. inputCost) (inputsAfter s reset dp) \<and>
     dp_edges dp = sumOf edgeCount (ownedAt dp) \<and> dp_dependencies dp = sumOf (\<lambda>_. sq_dependencies) (liveAfter s reset dp) \<and>
     dp_bytes dp \<le> lim_Bytes (s_limits s) \<and> dp_edges dp \<le> lim_InputEdges (s_limits s) \<and>
     dp_dependencies dp \<le> lim_Dependencies (s_limits s) \<and> int (length (liveAfter s reset dp)) \<le> lim_Queries (s_limits s) \<and>
     int (length (inputsAfter s reset dp)) \<le> lim_Inputs (s_limits s)"

definition delta_fits :: "Session \<Rightarrow> bool \<Rightarrow> preparedDelta \<Rightarrow> bool" where
  "delta_fits s reset dp \<longleftrightarrow> plans_ok s (dp_plans dp) \<and> baseOwnership s reset = Inr (dp_own dp) \<and>
     delta_values s reset dp \<and> delta_account s reset dp"

lemma inputPatch_lookup:
  assumes "gomap_ok (inputPatch retired changes)"
  shows "map_of (patch m (inputPatch retired changes)) i =
    (if i \<in> set retired then None else case map_of changes i of None \<Rightarrow> map_of m i | Some ch \<Rightarrow> Some ch)"
proof -
  have "map_of (map (\<lambda>(k, ch). (k, Some ch)) changes) i = map_option Some (map_of changes i)" by (induction changes) auto
  then have "map_of (inputPatch retired changes) i = (if i \<in> set retired then Some None else map_option Some (map_of changes i))"
    unfolding inputPatch_def by (induction retired) auto
  then show ?thesis by (simp add: patch_lookup [OF assms] split: option.splits)
qed

lemma takenAway_nonneg: "(\<And>k v. map_of m k = Some v \<Longrightarrow> 0 \<le> f k v) \<Longrightarrow> 0 \<le> takenAway f m ks"
  unfolding takenAway_def by (rule sum_list_nonneg) (auto simp: shareOf_def split: option.splits)

lemma admitDelta_parts:
  assumes "admitDelta s reset own plans c = (Inr dp, c')"
  obtains st si e d q n b b' c1 where
    "stageOwners (s_limits s) (baseLive s reset) own plans
       \<lparr>sg_bytes = baseBytes s reset, sg_edges = baseEdges s reset, sg_dependencies = baseDependencies s reset,
        sg_queries = int (length (baseLive s reset)), sg_touched = [], sg_assertions = []\<rparr> = Inr st"
    "stageInputs (baseInputs s reset) own plans (sg_assertions st) (sg_touched st) c
       \<lparr>si_bytes = sg_bytes st, si_count = int (length (baseInputs s reset)), si_changes = [], si_retired = []\<rparr> = (Inr si, c1)"
    "admitOwners (s_limits s) plans (si_bytes si, sg_edges st, sg_dependencies st, sg_queries st) = Inr (b, e, d, q)"
    "admitInputs (s_limits s) (si_changes si) (b, si_count si) = Inr (b', n)"
    "dp = \<lparr>dp_own = own, dp_plans = plans, dp_assertions = sg_assertions st, dp_changes = si_changes si, dp_retired = si_retired si,
       dp_bytes = b', dp_edges = e, dp_dependencies = d\<rparr>"
  using assms unfolding admitDelta_def Let_def baseBytes_def [symmetric] baseEdges_def [symmetric] baseDependencies_def [symmetric]
  by (auto split: sum.splits prod.splits option.splits)

lemma prepareDelta_parts:
  assumes "prepareDelta s c delta = (Inr dp, c')"
  obtains own plans c1 where "baseOwnership s (d_Reset delta) = Inr own" "plans_ok s plans"
    "admitDelta s (d_Reset delta) own plans c1 = (Inr dp, c')"
    "\<forall>k \<in> set (d_Remove delta). map_of plans k = Some None"
    "\<forall>p \<in> set (d_Upsert delta). \<exists>plan. map_of plans (pub_Key p) = Some (Some plan) \<and> planned p plan"
    "\<forall>k. map_of plans k \<noteq> None \<longrightarrow> k \<in> set (d_Remove delta) \<or> k \<in> pub_Key ` set (d_Upsert delta)"
proof -
  from assms obtain own plans c0 c1 where own: "baseOwnership s (d_Reset delta) = Inr own"
    and up: "planUpserts s (workEdges (s_limits s)) (d_Upsert delta) c0 (planRemovals (d_Remove delta)) 0 = (Inr plans, c1)"
    and run: "admitDelta s (d_Reset delta) own plans c1 = (Inr dp, c')"
    by (auto simp: prepareDelta_def split: prod.splits option.splits if_splits sum.splits)
  have "plans_ok s (planRemovals (d_Remove delta))"
    using planRemovals_spec by (auto simp: plans_ok_def split: if_splits)
  note spec = planUpserts_spec [OF up this]
  have rem: "map_of plans k = Some None" if "k \<in> set (d_Remove delta)" for k
    using spec that planRemovals_spec(2) [of "d_Remove delta" k] by (metis domI map_le_def)
  have only: "k \<in> set (d_Remove delta) \<or> k \<in> pub_Key ` set (d_Upsert delta)" if "map_of plans k \<noteq> None" for k
    using spec that planRemovals_spec(2) [of "d_Remove delta" k] by (auto split: if_splits)
  show ?thesis by (rule that [OF own _ run]) (use spec rem only in blast)+
qed

text \<open>The touched inputs and their new values, as staging leaves them.\<close>

definition staged_value :: "deltaOwnership \<Rightarrow> (Key, Change) gomap \<Rightarrow> deltaPlans \<Rightarrow> Key \<Rightarrow> Change option \<Rightarrow> bool" where
  "staged_value own ins plans i v \<longleftrightarrow>
     (v = None \<longleftrightarrow> (\<forall>q. i \<notin> set (listAt (patch (own_owned own) (ownerPatch ownedKeys plans)) q))) \<and>
     (\<forall>ch. v = Some ch \<longrightarrow> ch_Key ch = i \<and> normal ch \<and> (\<forall>q x. asserted plans q i = Some x \<longrightarrow> x = ch) \<and>
       ((\<exists>q. map_of plans q = None \<and> i \<in> set (listAt (own_owned own) q)) \<longrightarrow> map_of ins i = Some ch))"

lemma staged_valueD:
  assumes "staged_value own ins plans i v"
  shows "v = None \<longleftrightarrow> (\<forall>q. i \<notin> set (listAt (patch (own_owned own) (ownerPatch ownedKeys plans)) q))"
    "v = Some ch \<Longrightarrow> ch_Key ch = i" "v = Some ch \<Longrightarrow> normal ch" "v = Some ch \<Longrightarrow> asserted plans q i = Some x \<Longrightarrow> x = ch"
    "v = Some ch \<Longrightarrow> map_of plans q = None \<Longrightarrow> i \<in> set (listAt (own_owned own) q) \<Longrightarrow> map_of ins i = Some ch"
  using assms unfolding staged_value_def by blast+

definition touchedInputs :: "deltaOwnership \<Rightarrow> deltaPlans \<Rightarrow> Key set" where
  "touchedInputs own plans = (\<Union>k \<in> fst ` set plans. set (listAt (own_owned own) k)) \<union>
     {i. \<exists>k p. (k, Some p) \<in> set plans \<and> i \<in> ch_Key ` set (pl_inputs p)}"

definition stagedChanges :: "Key list \<Rightarrow> (Key \<Rightarrow> Change option) \<Rightarrow> (Key, Change) gomap" where
  "stagedChanges keys nv = map (\<lambda>k. (k, the (nv k))) (filter (\<lambda>k. nv k \<noteq> None) keys)"

definition stagedRetired :: "Key list \<Rightarrow> (Key \<Rightarrow> Change option) \<Rightarrow> (Key, Change) gomap \<Rightarrow> Key list" where
  "stagedRetired keys nv ins = filter (\<lambda>k. nv k = None \<and> map_of ins k \<noteq> None) keys"

lemma admitDelta_staged:
  assumes own: "owners_ok own (baseLive s reset)" "inputs_owned own (baseInputs s reset)" and ins: "inputs_wf (baseInputs s reset)"
    and plans: "plans_ok s plans" and run: "admitDelta s reset own plans c = (Inr dp, c')"
  obtains keys nv where "distinct keys" "set keys = touchedInputs own plans"
    "\<forall>i \<in> set keys. staged_value own (baseInputs s reset) plans i (nv i)"
    "dp_changes dp = stagedChanges keys nv" "dp_retired dp = stagedRetired keys nv (baseInputs s reset)"
    "dp_own dp = own" "dp_plans dp = plans"
proof -
  let ?ins = "baseInputs s reset"
  obtain st si e d b' c1 where
    so: "stageOwners (s_limits s) (baseLive s reset) own plans
       \<lparr>sg_bytes = baseBytes s reset, sg_edges = baseEdges s reset, sg_dependencies = baseDependencies s reset,
        sg_queries = int (length (baseLive s reset)), sg_touched = [], sg_assertions = []\<rparr> = Inr st"
    and inp: "stageInputs ?ins own plans (sg_assertions st) (sg_touched st) c
       \<lparr>si_bytes = sg_bytes st, si_count = int (length ?ins), si_changes = [], si_retired = []\<rparr> = (Inr si, c1)"
    and dp: "dp = \<lparr>dp_own = own, dp_plans = plans, dp_assertions = sg_assertions st, dp_changes = si_changes si, dp_retired = si_retired si,
       dp_bytes = b', dp_edges = e, dp_dependencies = d\<rparr>" using run by (rule admitDelta_parts)
  let ?nv = "newValue ?ins own plans (sg_assertions st)"
  have ok: "gomap_ok plans" and pw: "\<forall>k p. (k, Some p) \<in> set plans \<longrightarrow> plan_wf p"
    using plans by (auto simp: plans_ok_def delta_plan_ok_def)
  have dom: "\<And>k. map_of (baseLive s reset) k = None \<longleftrightarrow> map_of (own_owned own) k = None" using own(1) by (simp add: owners_ok_def)
  have T: "distinct (sg_touched st)" "set (sg_touched st) = touchedInputs own plans"
    using stageOwners_touched [OF so dom] by (simp_all add: touchedInputs_def)
  have A: "assertions_ok st" "\<And>q i. assertion st q i = asserted plans q i"
    using stageOwners_assertions [OF so dom ok pw] by (simp_all add: assertions_ok_def assertion_def)
  note si = stageInputs_spec [OF inp ins T(1), simplified]
  have nv: "\<forall>i \<in> set (sg_touched st). staged_value own ?ins plans i (?nv i)"
  proof
    fix i assume "i \<in> set (sg_touched st)"
    with si obtain sel where sel: "selectedInput ?ins own plans (sg_assertions st) i = Inr sel" by blast
    then have eq: "?nv i = sel" by (simp add: newValue_def)
    show "staged_value own ?ins plans i (?nv i)" unfolding eq staged_value_def by (rule newValue_spec [OF own ins plans A sel])
  qed
  show ?thesis by (rule that [OF T nv]) (use si in \<open>simp_all add: dp stagedChanges_def stagedRetired_def\<close>)
qed

lemma stagedChanges_lookup: "map_of (stagedChanges keys nv) i = (if i \<in> set keys then nv i else None)"
  unfolding stagedChanges_def by (induction keys) auto

lemma ownedAfter_untouched:
  assumes "gomap_ok plans" "i \<notin> touchedInputs own plans"
  shows "i \<in> set (listAt (patch (own_owned own) (ownerPatch ownedKeys plans)) q) \<longleftrightarrow> i \<in> set (listAt (own_owned own) q)"
proof (cases "map_of plans q")
  case None
  then show ?thesis by (simp add: ownedAfter [OF assms(1)])
next
  case (Some plan)
  then have mem: "(q, plan) \<in> set plans" by (rule map_of_SomeD)
  then have "q \<in> fst ` set plans" by force
  with assms(2) have "i \<notin> set (listAt (own_owned own) q)" by (auto simp: touchedInputs_def)
  moreover have "i \<notin> set (listAt (patch (own_owned own) (ownerPatch ownedKeys plans)) q)"
    using assms(2) mem unfolding ownedAfter [OF assms(1)] Some touchedInputs_def by (auto simp: ownedKeys_def split: option.splits)
  ultimately show ?thesis by simp
qed

lemma values_fit:
  assumes own: "owners_ok own (baseLive s reset)" "inputs_owned own (baseInputs s reset)" and ins: "inputs_wf (baseInputs s reset)"
    and plans: "plans_ok s plans" and run: "admitDelta s reset own plans c = (Inr dp, c')"
  shows "delta_values s reset dp"
proof -
  let ?ins = "baseInputs s reset" and ?owned = "patch (own_owned own) (ownerPatch ownedKeys plans)"
  have ok: "gomap_ok plans" using plans by (simp add: plans_ok_def)
  obtain keys nv where T: "distinct keys" "set keys = touchedInputs own plans"
    and all: "\<forall>i \<in> set keys. staged_value own ?ins plans i (nv i)"
    and ch: "dp_changes dp = stagedChanges keys nv" and re: "dp_retired dp = stagedRetired keys nv ?ins"
    and dp: "dp_own dp = own" "dp_plans dp = plans" using own ins plans run by (rule admitDelta_staged)
  note nv = bspec [OF all]
  have owned: "ownedAt dp = ?owned" by (simp add: ownedAt_def dp)
  have keys: "gomap_ok (inputPatch (dp_retired dp) (dp_changes dp))"
    using T(1) by (auto simp: inputPatch_def ch re stagedChanges_def stagedRetired_def comp_def)
  have wf: "inputs_wf (dp_changes dp)"
    using T(1) staged_valueD(2,3) [OF nv] by (auto simp: inputs_wf_def ch stagedChanges_def comp_def)
  have after: "map_of (inputsAfter s reset dp) i = (if i \<in> set keys then nv i else map_of ?ins i)" for i
    unfolding inputsAfter_def inputPatch_lookup [OF keys] unfolding ch stagedChanges_lookup
    by (auto simp: re stagedRetired_def split: option.splits)
  have cover: "map_of (inputsAfter s reset dp) i \<noteq> None \<longleftrightarrow> (\<exists>q. i \<in> set (listAt (ownedAt dp) q))" for i
  proof (cases "i \<in> set keys")
    case True
    then show ?thesis using staged_valueD(1) [OF nv [OF True]] by (simp add: after owned)
  next
    case False
    then have "i \<notin> touchedInputs own plans" by (simp add: T(2))
    from ownedAfter_untouched [OF ok this] False show ?thesis using own(2) by (simp add: after owned inputs_owned_def)
  qed
  have gone: "i \<notin> set (listAt (ownedAt dp) q)" if "i \<in> set (dp_retired dp)" for i q
    using that staged_valueD(1) [OF nv, of i] unfolding re owned stagedRetired_def by simp
  have written: "map_of (dp_changes dp) (ch_Key x) = Some x" if p: "map_of plans k = Some (Some p)" "x \<in> set (pl_inputs p)" for k p x
  proof -
    have i: "ch_Key x \<in> set keys" unfolding T(2) touchedInputs_def using map_of_SomeD [OF p(1)] p(2) by blast
    have as: "asserted plans k (ch_Key x) = Some x" unfolding asserted_iff(1) [OF plans] using p by blast
    have "ch_Key x \<in> set (listAt ?owned k)" using p by (simp add: ownedAfter [OF ok] ownedKeys_def)
    with staged_valueD(1) [OF nv [OF i]] obtain y where y: "nv (ch_Key x) = Some y" by blast
    with staged_valueD(4) [OF nv [OF i] y as] i show ?thesis by (simp add: ch stagedChanges_lookup)
  qed
  have kept: "map_of (inputsAfter s reset dp) i = map_of ?ins i" if "map_of plans q = None" "i \<in> set (listAt (own_owned own) q)" for q i
  proof (cases "i \<in> set keys")
    case True
    have "i \<in> set (listAt ?owned q)" using that by (simp add: ownedAfter [OF ok])
    with staged_valueD(1) [OF nv [OF True]] obtain y where y: "nv i = Some y" by blast
    with staged_valueD(5) [OF nv [OF True] y that] True show ?thesis by (simp add: after)
  qed (simp add: after)
  show ?thesis unfolding delta_values_def
    by (intro conjI allI impI keys wf cover gone) (use written kept in \<open>auto simp: dp\<close>)
qed

text \<open>The account: what the patches take away was subtracted, what they add was admitted.\<close>

lemma account_fits:
  assumes inv: "world_inv s" and base: "baseOwnership s reset = Inr own" and plans: "plans_ok s plans"
    and run: "admitDelta s reset own plans c = (Inr dp, c')" and vals: "delta_values s reset dp"
  shows "delta_account s reset dp"
proof -
  let ?live = "baseLive s reset" and ?ins = "baseInputs s reset" and ?lim = "s_limits s" and ?ks = "map fst plans"
  note b = base_ok [OF inv base] and lim = base_limits [OF inv, of reset]
  have own: "gomap_ok (own_owned own)" "\<And>k. map_of ?live k = None \<longleftrightarrow> map_of (own_owned own) k = None" using b(1) by (simp_all add: owners_ok_def)
  obtain st si e d q n bs b' c1 where
    so: "stageOwners ?lim ?live own plans
       \<lparr>sg_bytes = baseBytes s reset, sg_edges = baseEdges s reset, sg_dependencies = baseDependencies s reset,
        sg_queries = int (length ?live), sg_touched = [], sg_assertions = []\<rparr> = Inr st"
    and inp: "stageInputs ?ins own plans (sg_assertions st) (sg_touched st) c
       \<lparr>si_bytes = sg_bytes st, si_count = int (length ?ins), si_changes = [], si_retired = []\<rparr> = (Inr si, c1)"
    and ao: "admitOwners ?lim plans (si_bytes si, sg_edges st, sg_dependencies st, sg_queries st) = Inr (bs, e, d, q)"
    and ai: "admitInputs ?lim (si_changes si) (bs, si_count si) = Inr (b', n)"
    and dp: "dp = \<lparr>dp_own = own, dp_plans = plans, dp_assertions = sg_assertions st, dp_changes = si_changes si, dp_retired = si_retired si,
       dp_bytes = b', dp_edges = e, dp_dependencies = d\<rparr>" using run by (rule admitDelta_parts)
  have ok: "gomap_ok plans" and pr: "priced ?lim plans"
    using plans stageOwners_costs [OF so] by (auto simp: plans_ok_def priced_def delta_plan_ok_def)
  have T: "distinct (sg_touched st)" using stageOwners_touched [OF so own(2)] by simp
  note so' = stageOwners_numbers [OF so own(2), simplified]
    and ao' = admitOwners_spec [OF ao pr] and ai' = admitInputs_spec [OF ai]
    and si' = stageInputs_spec [OF inp b(3) T, simplified]
  have taken: "takenAway f ?ins (map fst (inputPatch (si_retired si) (si_changes si))) = takenAway f ?ins (sg_touched st)" for f
  proof -
    have "map fst (inputPatch (si_retired si) (si_changes si)) =
        filter (\<lambda>k. \<not> newValue ?ins own plans (sg_assertions st) k \<noteq> None \<and> map_of ?ins k \<noteq> None) (sg_touched st) @
        filter (\<lambda>k. newValue ?ins own plans (sg_assertions st) k \<noteq> None) (sg_touched st)"
      using si' by (simp add: inputPatch_def comp_def case_prod_unfold)
    then show ?thesis using takenAway_split [of f ?ins "sg_touched st" "\<lambda>k. newValue ?ins own plans (sg_assertions st) k \<noteq> None"]
      by (simp add: takenAway_def)
  qed
  have added: "addedBy f (inputPatch (si_retired si) (si_changes si)) = sumOf f (si_changes si)" for f
    by (simp add: addedBy_def inputPatch_def sumOf_def comp_def case_prod_unfold)
  have ip: "gomap_ok (inputPatch (si_retired si) (si_changes si))" using vals by (simp add: delta_values_def dp)
  have ins: "sumOf f (inputsAfter s reset dp) = sumOf f ?ins - takenAway f ?ins (sg_touched st) + sumOf f (si_changes si)" for f
    using sumOf_patch [OF _ ip, of ?ins f] b(3) unfolding taken added by (simp add: inputsAfter_def dp inputs_wf_def)
  have live: "sumOf f (liveAfter s reset dp) = sumOf f ?live - takenAway f ?live ?ks + addedBy f (ownerPatch entryOf plans)" for f
    using sumOf_patch [OF b(4), of "ownerPatch entryOf plans" f] ok by (simp add: liveAfter_def dp)
  have owned: "sumOf f (ownedAt dp) = sumOf f (own_owned own) - takenAway f (own_owned own) ?ks + addedBy f (ownerPatch ownedKeys plans)" for f
    using sumOf_patch [OF own(1), of "ownerPatch ownedKeys plans" f] ok by (simp add: ownedAt_def dp)
  have pos: "0 \<le> takenAway entryWeight ?live ?ks" "0 \<le> takenAway (\<lambda>_. sq_dependencies) ?live ?ks" "0 \<le> takenAway (\<lambda>_ _. 1) ?live ?ks"
    "0 \<le> takenAway edgeCount (own_owned own) ?ks" "0 \<le> takenAway (\<lambda>_. inputCost) ?ins (sg_touched st)" "0 \<le> takenAway (\<lambda>_ _. 1) ?ins (sg_touched st)"
    using lim(6) by (auto intro!: takenAway_nonneg simp: entries_ok_def entryWeight_def keyCost_def edgeCount_def inputCost_def)
  have account: "b' = sumOf entryWeight (liveAfter s reset dp) + 96 * e + sumOf (\<lambda>_. inputCost) (inputsAfter s reset dp)"
    "e = sumOf edgeCount (ownedAt dp)" "d = sumOf (\<lambda>_. sq_dependencies) (liveAfter s reset dp)"
    using so' ao' ai' si' b(5-7) unfolding ins live owned by simp_all
  have counts: "int (length (liveAfter s reset dp)) = q" "int (length (inputsAfter s reset dp)) = n"
    using so' ao' ai' si' unfolding sumOf_length [symmetric] ins live by simp_all
  have within: "b' \<le> lim_Bytes ?lim" "e \<le> lim_InputEdges ?lim" "d \<le> lim_Dependencies ?lim" "q \<le> lim_Queries ?lim" "n \<le> lim_Inputs ?lim"
  proof -
    have "si_bytes si \<le> lim_Bytes ?lim" "sg_edges st \<le> lim_InputEdges ?lim" "sg_dependencies st \<le> lim_Dependencies ?lim"
      "sg_queries st \<le> lim_Queries ?lim" "si_count si \<le> lim_Inputs ?lim" using so' si' pos lim by simp_all
    with ao' ai' show "b' \<le> lim_Bytes ?lim" "e \<le> lim_InputEdges ?lim" "d \<le> lim_Dependencies ?lim" "q \<le> lim_Queries ?lim" "n \<le> lim_Inputs ?lim" by blast+
  qed
  have fields: "dp_bytes dp = b'" "dp_edges dp = e" "dp_dependencies dp = d" by (simp_all add: dp)
  show ?thesis unfolding delta_account_def counts fields using account within by blast
qed

lemma prepareDelta_fits:
  assumes inv: "world_inv s" and run: "prepareDelta s c delta = (Inr dp, c')"
  shows "delta_fits s (d_Reset delta) dp" "\<forall>k \<in> set (d_Remove delta). map_of (dp_plans dp) k = Some None"
    "\<forall>p \<in> set (d_Upsert delta). \<exists>plan. map_of (dp_plans dp) (pub_Key p) = Some (Some plan) \<and> planned p plan"
    "\<forall>k. map_of (dp_plans dp) k \<noteq> None \<longrightarrow> k \<in> set (d_Remove delta) \<or> k \<in> pub_Key ` set (d_Upsert delta)"
proof -
  obtain own plans c1 where own: "baseOwnership s (d_Reset delta) = Inr own" and plans: "plans_ok s plans"
    and ad: "admitDelta s (d_Reset delta) own plans c1 = (Inr dp, c')"
    and rest: "\<forall>k \<in> set (d_Remove delta). map_of plans k = Some None"
      "\<forall>p \<in> set (d_Upsert delta). \<exists>plan. map_of plans (pub_Key p) = Some (Some plan) \<and> planned p plan"
      "\<forall>k. map_of plans k \<noteq> None \<longrightarrow> k \<in> set (d_Remove delta) \<or> k \<in> pub_Key ` set (d_Upsert delta)"
    using run by (rule prepareDelta_parts)
  have dp: "dp_plans dp = plans" "dp_own dp = own" using ad by (rule admitDelta_parts, simp)+
  note b = base_ok [OF inv own]
  have "delta_values s (d_Reset delta) dp" by (rule values_fit [OF b(1-3) plans ad])
  with account_fits [OF inv own plans ad] own plans show "delta_fits s (d_Reset delta) dp" by (simp add: delta_fits_def dp)
  show "\<forall>k \<in> set (d_Remove delta). map_of (dp_plans dp) k = Some None"
    "\<forall>p \<in> set (d_Upsert delta). \<exists>plan. map_of (dp_plans dp) (pub_Key p) = Some (Some plan) \<and> planned p plan"
    "\<forall>k. map_of (dp_plans dp) k \<noteq> None \<longrightarrow> k \<in> set (d_Remove delta) \<or> k \<in> pub_Key ` set (d_Upsert delta)"
    unfolding dp by (rule rest)+
qed

end
