(* ===== verification/IncDeltaKeeps.thy ===== *)
theory IncDeltaKeeps
  imports IncDeltaWorld
begin

text \<open>
  Installing an accepted delta keeps the invariant of the session, in the ordinary path, where the
  database gets one transaction, and in the two paths that rebuild it.
\<close>

subsection \<open>The database\<close>

lemma good_transaction:
  assumes "good evs env n db" and "Suc n < 2 ^ 64" and "inputs_wf m"
  shows "good evs (\<lambda>k. if k \<in> set retired then ([], False) else case map_of m k of None \<Rightarrow> env k | Some ch \<Rightarrow> changeEffect ch) (Suc n)
      (snd (applyTransaction db m retired evicted))"
    "map_of (results (snd (applyTransaction db m retired evicted))) k = (if k \<in> set evicted then None else map_of (results db) k)"
proof -
  have rev: "Suc (revision db) < 2 ^ 64" and env: "env = view db" and wf: "store_wf db" using assms by (auto simp: good_def)
  obtain b db' where run: "applyTransaction db m retired evicted = (b, db')" by (rule prod.exhaust)
  note eff = applyTransaction_effect [OF wf rev inputs_wf_pending [OF assms(3)] run]
  have drop: "foldl dropInput e retired = (\<lambda>k. if k \<in> set retired then ([], False) else e k)" for e
    by (induction retired arbitrary: e) (auto simp: dropInput_def fun_eq_iff)
  have v: "view db' = (\<lambda>k. if k \<in> set retired then ([], False) else case map_of m k of None \<Rightarrow> env k | Some ch \<Rightarrow> changeEffect ch)"
    using eff unfolding env drop pending_effect [OF inputs_wf_pending [OF assms(3)], abs_def] by blast
  from applyTransaction_bumps [OF rev run] have "bumps db db' \<or> db' = db" by (auto split: if_splits)
  from good_step [OF assms(1) this v] run
  show "good evs (\<lambda>k. if k \<in> set retired then ([], False) else case map_of m k of None \<Rightarrow> env k | Some ch \<Rightarrow> changeEffect ch) (Suc n)
      (snd (applyTransaction db m retired evicted))" by simp
  show "map_of (results (snd (applyTransaction db m retired evicted))) k = (if k \<in> set evicted then None else map_of (results db) k)"
    using eff run by simp
qed

text \<open>A database built afresh over the inputs of a session.\<close>

lemma good_rebuilt:
  assumes "gomap_ok (s_evaluators s)" "identity_keys (s_inputKeys s)" "identity_keys (s_queryKeys s)" "inputs_wf m"
  shows "good (map_of (s_evaluators s)) (snapshotOf m) 2 (snd (applySnapshot (newDatabase s) m))"
    "results (snd (applySnapshot (newDatabase s) m)) = []"
proof -
  from good_New [OF registry_ok [OF assms(1)] registry_covered [OF assms(2,3)]]
  have "good (map_of (s_evaluators s)) (\<lambda>_. ([], False)) 1 (newDatabase s)" by (simp add: newDatabase_def)
  from good_apply [OF this _ assms(4)] have "good (map_of (s_evaluators s)) (snapshotOf m) (Suc 1) (snd (applySnapshot (newDatabase s) m))"
    by (simp add: snapshotOf_def [abs_def])
  then show "good (map_of (s_evaluators s)) (snapshotOf m) 2 (snd (applySnapshot (newDatabase s) m))" by (simp add: numeral_2_eq_2)
  show "results (snd (applySnapshot (newDatabase s) m)) = []"
    using writeChange_overwrites overwrites_foldl [of writeChange "bumpRevision (newDatabase s)" m]
    by (auto simp: applySnapshot_def applyPending_def overwrites_def newDatabase_def New_def)
qed

subsection \<open>The session maps\<close>

lemma canonicalChanges_id:
  assumes "identity_keys keys" "inputs_wf old" "inputs_wf m"
  shows "canonicalChanges keys old m = m"
proof -
  have id: "canonicalChange keys old k ch = ch" "ch_Key ch = k" if "(k, ch) \<in> set m" for k ch
    using that assms(3) by (auto simp: inputs_wf_def intro!: canonicalChange_id [OF assms(1,2)])
  have "canonicalChanges keys old m = copyMap m"
    unfolding canonicalChanges_def copyMap_def by (rule foldl_cong) (auto simp: id Let_def)
  also have "\<dots> = m" using assms(3) by (simp add: copyMap_id inputs_wf_def)
  finally show ?thesis .
qed

lemma removeKeys_lookup: "map_of (removeKeys m ks) k = (if k \<in> set ks then None else map_of m k)"
  unfolding removeKeys_def by (induction ks arbitrary: m) auto

lemma removeKeys_ok: "gomap_ok m \<Longrightarrow> gomap_ok (removeKeys m ks)"
  unfolding removeKeys_def by (induction ks arbitrary: m) (simp_all add: gomap_ok_delete)

lemma retireInputs_frame:
  "\<exists>d b. retireInputs limits di ks =
     di\<lparr>di_own := (di_own di)\<lparr>own_refs := removeKeys (own_refs (di_own di)) ks\<rparr>, di_debt := d, di_compact := b\<rparr> \<and>
     (di_debt di \<le> lim_Bytes limits \<longrightarrow> d \<le> lim_Bytes limits)"
proof (induction ks arbitrary: di)
  case Nil
  then show ?case
    by (intro exI [of _ "di_debt di"] exI [of _ "di_compact di"] conjI deltaInstall.equality) (simp_all add: retireInputs_def removeKeys_def)
next
  case (Cons k ks)
  let ?di = "di\<lparr>di_own := (di_own di)\<lparr>own_refs := AList.delete k (own_refs (di_own di))\<rparr>\<rparr>"
  from addDebt_frame [of limits "keyCost k" ?di] obtain d b where
    1: "addDebt limits (keyCost k) ?di = ?di\<lparr>di_debt := d, di_compact := b\<rparr>" "di_debt ?di \<le> lim_Bytes limits \<longrightarrow> d \<le> lim_Bytes limits"
    by (elim exE conjE) (rule that)
  let ?di1 = "?di\<lparr>di_debt := d, di_compact := b\<rparr>"
  from Cons.IH [of ?di1] obtain d' b' where
    2: "retireInputs limits ?di1 ks =
     ?di1\<lparr>di_own := (di_own ?di1)\<lparr>own_refs := removeKeys (own_refs (di_own ?di1)) ks\<rparr>, di_debt := d', di_compact := b'\<rparr>"
    "di_debt ?di1 \<le> lim_Bytes limits \<longrightarrow> d' \<le> lim_Bytes limits" by (elim exE conjE) (rule that)
  have "retireInputs limits di (k # ks) = retireInputs limits ?di1 ks" by (simp add: retireInputs_def 1(1))
  with 1(2) 2 show ?case by (intro exI [of _ d'] exI [of _ b']) (simp add: removeKeys_def)
qed

text \<open>The key map of the inputs follows the inputs.\<close>

lemma writeKeys_lookup:
  assumes "gomap_ok (inputPatch retired changes)" "\<And>i. map_of keys i = map_of (keysOf m) i"
  shows "map_of (writeKeys (removeKeys keys retired) changes) i = map_of (keysOf (patch m (inputPatch retired changes))) i"
proof -
  have "map_of (writeKeys m' ch) i = (if map_of ch i = None then map_of m' i else Some i)" for m' ch
    unfolding writeKeys_def by (induction ch arbitrary: m') auto
  moreover have "map_of changes i = None" if "i \<in> set retired"
  proof -
    have "map fst (inputPatch retired changes) = retired @ map fst changes" by (simp add: inputPatch_def comp_def case_prod_unfold)
    with assms(1) that have "i \<notin> fst ` set changes" by auto
    then show ?thesis by (simp add: map_of_eq_None_iff)
  qed
  ultimately show ?thesis using assms(2) [of i]
    by (auto simp: keysOf_lookup inputPatch_lookup [OF assms(1)] removeKeys_lookup split: option.splits)
qed

lemma copyKeys: "gomap_ok m \<Longrightarrow> copyMap (keysOf m) = keysOf m"
  by (rule copyMap_id) (simp add: keysOf_def comp_def case_prod_unfold)

lemma inputsAfter_wf:
  assumes "world_inv s" "delta_fits s reset dp"
  shows "inputs_wf (inputsAfter s reset dp)"
proof -
  have vals: "gomap_ok (inputPatch (dp_retired dp) (dp_changes dp))" "inputs_wf (dp_changes dp)"
    using assms(2) by (simp_all add: delta_fits_def delta_values_def)
  have base: "inputs_wf (baseInputs s reset)" using assms(1) by (simp add: world_inv_def session_inv_def baseInputs_def)
  have ok: "gomap_ok (inputsAfter s reset dp)" unfolding inputsAfter_def by (rule patch_ok) (use base in \<open>simp add: inputs_wf_def\<close>)
  have "ch_Key ch = k \<and> normal ch" if "map_of (inputsAfter s reset dp) k = Some ch" for k ch
    using that inputs_wfD [OF vals(2), of k ch] inputs_wfD [OF base, of k ch]
    unfolding inputsAfter_def inputPatch_lookup [OF vals(1)] by (auto split: if_splits option.splits)
  with ok show ?thesis by (auto simp: inputs_wf_def)
qed

subsection \<open>Installation\<close>

text \<open>What the loops of an installation leave behind.\<close>

lemma delta_loops:
  assumes inv: "world_inv s" and fits: "delta_fits s reset dp"
  defines "di0 \<equiv> \<lparr>di_live = baseLive s reset, di_queryKeys = (if reset then [] else s_queryKeys s), di_own = dp_own dp, di_evicted = [],
       di_retiredQueries = (if reset then length (s_live s) else 0), di_debt = s_debtBytes s, di_compact = False\<rparr>"
  shows "\<exists>di. retireInputs (s_limits s) (foldl (installOwner (s_limits s) (dp_assertions dp) (dp_changes dp)) di0 (dp_plans dp)) (dp_retired dp) = di \<and>
    di_live di = liveAfter s reset dp \<and> own_owned (di_own di) = ownedAt dp \<and> owners_ok (di_own di) (liveAfter s reset dp) \<and>
    (\<forall>k. map_of (di_queryKeys di) k = map_of (keysOf (liveAfter s reset dp)) k) \<and>
    (\<forall>k. map_of (baseLive s reset) k \<noteq> None \<and> map_of (liveAfter s reset dp) k \<noteq> map_of (baseLive s reset) k \<longrightarrow> k \<in> set (di_evicted di)) \<and>
    di_debt di \<le> lim_Bytes (s_limits s)"
proof -
  note f = fits [unfolded delta_fits_def] and w = inv [unfolded world_inv_def session_inv_def]
  have base: "owners_ok (dp_own dp) (baseLive s reset)" using base_ok(1) [OF inv] f by blast
  have vals: "delta_values s reset dp" using f by blast
  have ok0: "install_ok di0" using base w by (auto simp: install_ok_def di0_def baseLive_def keysOf_def)
  have ip: "\<forall>k p. (k, Some p) \<in> set (dp_plans dp) \<longrightarrow> installed_plan (dp_changes dp) p"
  proof (intro allI impI)
    fix k p assume "(k, Some p) \<in> set (dp_plans dp)"
    with f have "map_of (dp_plans dp) k = Some (Some p)" by (simp add: plans_ok_def)
    with vals show "installed_plan (dp_changes dp) p" unfolding installed_plan_def delta_values_def by blast
  qed
  from installOwners_spec [OF ok0 ip, of "s_limits s" "dp_assertions dp"] obtain di1 where
    run: "foldl (installOwner (s_limits s) (dp_assertions dp) (dp_changes dp)) di0 (dp_plans dp) = di1" and ok1: "install_ok di1"
    and live: "di_live di1 = patch (di_live di0) (ownerPatch entryOf (dp_plans dp))"
    and own: "own_owned (di_own di1) = patch (own_owned (di_own di0)) (ownerPatch ownedKeys (dp_plans dp))"
    and ev: "\<forall>k. map_of (di_live di0) k \<noteq> None \<and> map_of (di_live di1) k \<noteq> map_of (di_live di0) k \<longrightarrow> k \<in> set (di_evicted di1)"
    and debt: "di_debt di0 \<le> lim_Bytes (s_limits s) \<longrightarrow> di_debt di1 \<le> lim_Bytes (s_limits s)" by (elim exE conjE) (rule that)
  from retireInputs_frame [of "s_limits s" di1 "dp_retired dp"] obtain d b where
    ret: "retireInputs (s_limits s) di1 (dp_retired dp) =
     di1\<lparr>di_own := (di_own di1)\<lparr>own_refs := removeKeys (own_refs (di_own di1)) (dp_retired dp)\<rparr>, di_debt := d, di_compact := b\<rparr>"
    and d: "di_debt di1 \<le> lim_Bytes (s_limits s) \<longrightarrow> d \<le> lim_Bytes (s_limits s)" by (elim exE conjE) (rule that)
  have live': "di_live di1 = liveAfter s reset dp" using live by (simp add: liveAfter_def di0_def)
  have own': "own_owned (di_own di1) = ownedAt dp" using own by (simp add: ownedAt_def di0_def)
  have gone: "\<forall>i q. i \<in> set (dp_retired dp) \<longrightarrow> i \<notin> set (listAt (ownedAt dp) q)" using vals unfolding delta_values_def by blast
  have "owners_ok ((di_own di1)\<lparr>own_refs := removeKeys (own_refs (di_own di1)) (dp_retired dp)\<rparr>) (liveAfter s reset dp)"
  proof -
    have o: "owners_ok (di_own di1) (liveAfter s reset dp)" using ok1 by (simp add: install_ok_def live')
    have "listAt (removeKeys (own_refs (di_own di1)) (dp_retired dp)) i = (if i \<in> set (dp_retired dp) then [] else listAt (own_refs (di_own di1)) i)" for i
      by (simp add: listAt_def removeKeys_lookup)
    with o gone own' show ?thesis by (auto simp: owners_ok_def removeKeys_ok)
  qed
  moreover have "\<forall>k. map_of (di_queryKeys di1) k = map_of (keysOf (liveAfter s reset dp)) k" using ok1 by (simp add: install_ok_def live')
  moreover have "d \<le> lim_Bytes (s_limits s)" using d debt w by (simp add: di0_def accounted_def)
  ultimately show ?thesis using ev live' own' unfolding run ret by (simp add: di0_def)
qed

text \<open>The two ways the database follows: one transaction, or a new one over the new inputs.\<close>

lemma installDelta_db:
  assumes inv: "world_inv s" and room: "db_room s" and fits: "delta_fits s reset dp"
    and di: "\<forall>k. map_of (baseLive s reset) k \<noteq> None \<and> map_of (liveAfter s reset dp) k \<noteq> map_of (baseLive s reset) k \<longrightarrow> k \<in> set evicted"
    and s1: "s_evaluators s1 = s_evaluators s" "identity_keys (s_inputKeys s1)" "identity_keys (s_queryKeys s1)"
    and db: "db = snd (applySnapshot (newDatabase s1) (inputsAfter s reset dp)) \<or>
      \<not> reset \<and> db = snd (applyTransaction (s_db s) (dp_changes dp) (dp_retired dp) evicted)"
  shows "good (map_of (s_evaluators s)) (snapshotOf (inputsAfter s reset dp)) (revision (s_db s) + 2) db \<and>
    (\<forall>k r. map_of (results db) k = Some r \<longrightarrow> map_of (results (s_db s)) k = Some r \<and>
       (\<forall>old. map_of (s_live s) k = Some old \<longrightarrow> map_of (liveAfter s reset dp) k = Some old))"
  using db
proof
  note w = inv [unfolded world_inv_def session_inv_def]
  have vals: "delta_values s reset dp" using fits by (simp add: delta_fits_def)
  then have keys: "gomap_ok (inputPatch (dp_retired dp) (dp_changes dp))" and ch: "inputs_wf (dp_changes dp)"
    by (simp_all add: delta_values_def)
  have wf: "inputs_wf (inputsAfter s reset dp)" using inputsAfter_wf [OF inv fits] .
  {
    assume "db = snd (applySnapshot (newDatabase s1) (inputsAfter s reset dp))"
    moreover have "gomap_ok (s_evaluators s1)" using w s1(1) by simp
    note re = good_rebuilt [OF this s1(2,3) wf]
    have "good (map_of (s_evaluators s)) (snapshotOf (inputsAfter s reset dp)) (revision (s_db s) + 2) (snd (applySnapshot (newDatabase s1) (inputsAfter s reset dp)))"
      using good_mono [OF re(1), of "revision (s_db s) + 2"] s1(1) by simp
    ultimately show ?thesis using re(2) by simp
  }
  assume t: "\<not> reset \<and> db = snd (applyTransaction (s_db s) (dp_changes dp) (dp_retired dp) evicted)"
  have g: "good (map_of (s_evaluators s)) (snapshotOf (s_inputs s)) (revision (s_db s)) (s_db s)" using w by blast
  have r: "Suc (revision (s_db s)) < 2 ^ 64" using room by (simp add: db_room_def)
  note tr = good_transaction [OF g r ch, of "dp_retired dp" evicted]
  have "(\<lambda>k. if k \<in> set (dp_retired dp) then ([], False) else case map_of (dp_changes dp) k of None \<Rightarrow> snapshotOf (s_inputs s) k | Some ch \<Rightarrow> changeEffect ch)
      = snapshotOf (inputsAfter s reset dp)"
    using t by (auto simp: snapshotOf_def fun_eq_iff inputsAfter_def inputPatch_lookup [OF keys] baseInputs_def split: option.splits)
  with tr(1) have "good (map_of (s_evaluators s)) (snapshotOf (inputsAfter s reset dp)) (Suc (revision (s_db s))) db" using t by simp
  then have "good (map_of (s_evaluators s)) (snapshotOf (inputsAfter s reset dp)) (revision (s_db s) + 2) db" by (rule good_mono) simp
  moreover have "map_of (results (s_db s)) k = Some r \<and> (\<forall>old. map_of (s_live s) k = Some old \<longrightarrow> map_of (liveAfter s reset dp) k = Some old)"
    if "map_of (results db) k = Some r" for k r
  proof -
    from that t tr(2) [of k] have "k \<notin> set evicted" "map_of (results (s_db s)) k = Some r" by (auto split: if_splits)
    with di t show ?thesis by (auto simp: baseLive_def)
  qed
  ultimately show ?thesis by blast
qed

lemma installDelta_spec:
  assumes inv: "world_inv s" and room: "db_room s" and fits: "delta_fits s reset dp"
  shows "\<exists>own db queryKeys inputKeys debtB debtI totals st. installDelta s reset dp =
      s\<lparr>s_delta := Some own, s_db := db, s_live := liveAfter s reset dp, s_inputs := inputsAfter s reset dp,
        s_queryKeys := queryKeys, s_inputKeys := inputKeys, s_ready := True,
        s_bytes := dp_bytes dp, s_edges := dp_edges dp, s_dependencies := dp_dependencies dp,
        s_debtBytes := debtB, s_debtInputs := debtI, s_totals := totals, s_stats := st\<rparr> \<and>
      own_owned own = ownedAt dp \<and> owners_ok own (liveAfter s reset dp) \<and>
      (\<forall>k. map_of queryKeys k = map_of (keysOf (liveAfter s reset dp)) k) \<and>
      (\<forall>k. map_of inputKeys k = map_of (keysOf (inputsAfter s reset dp)) k) \<and>
      debtB \<le> lim_Bytes (s_limits s) \<and> debtI \<le> lim_Inputs (s_limits s) \<and>
      good (map_of (s_evaluators s)) (snapshotOf (inputsAfter s reset dp)) (revision (s_db s) + 2) db \<and>
      (\<forall>k r. map_of (results db) k = Some r \<longrightarrow> map_of (results (s_db s)) k = Some r \<and>
         (\<forall>old. map_of (s_live s) k = Some old \<longrightarrow> map_of (liveAfter s reset dp) k = Some old))"
proof -
  note w = inv [unfolded world_inv_def session_inv_def] and f = fits [unfolded delta_fits_def delta_values_def]
  let ?live = "liveAfter s reset dp" and ?ins = "inputsAfter s reset dp" and ?lim = "s_limits s"
  let ?ik = "if reset then [] else s_inputKeys s"
  have wf: "inputs_wf ?ins" by (rule inputsAfter_wf [OF inv fits])
  have live_ok: "gomap_ok ?live" unfolding liveAfter_def by (rule patch_ok) (use w in \<open>simp add: baseLive_def\<close>)
  have ik: "\<And>i. map_of ?ik i = map_of (keysOf (baseInputs s reset)) i" using w by (simp add: baseInputs_def keysOf_def)
  have idk: "identity_keys ?ik" using ik by (simp add: identity_keys_def keysOf_lookup)
  have can: "canonicalChanges ?ik (baseInputs s reset) (dp_changes dp) = dp_changes dp"
    by (rule canonicalChanges_id [OF idk]) (use w f in \<open>auto simp: baseInputs_def\<close>)
  from delta_loops [OF inv fits] obtain di where
    di: "retireInputs ?lim (foldl (installOwner ?lim (dp_assertions dp) (dp_changes dp))
       \<lparr>di_live = baseLive s reset, di_queryKeys = (if reset then [] else s_queryKeys s), di_own = dp_own dp, di_evicted = [],
       di_retiredQueries = (if reset then length (s_live s) else 0), di_debt = s_debtBytes s, di_compact = False\<rparr> (dp_plans dp)) (dp_retired dp) = di"
    and live: "di_live di = ?live" and own: "own_owned (di_own di) = ownedAt dp" "owners_ok (di_own di) ?live"
    and qk: "\<forall>k. map_of (di_queryKeys di) k = map_of (keysOf ?live) k"
    and ev: "\<forall>k. map_of (baseLive s reset) k \<noteq> None \<and> map_of ?live k \<noteq> map_of (baseLive s reset) k \<longrightarrow> k \<in> set (di_evicted di)"
    and debt: "di_debt di \<le> lim_Bytes ?lim" by (elim exE conjE) (rule that)
  let ?keys = "writeKeys (removeKeys ?ik (dp_retired dp)) (dp_changes dp)"
  have keys: "\<forall>i. map_of ?keys i = map_of (keysOf ?ins) i"
    unfolding inputsAfter_def using writeKeys_lookup [of "dp_retired dp" "dp_changes dp" ?ik "baseInputs s reset"] f ik by blast
  let ?st = "(s_stats s)\<lparr>st_RetiredQueries := uint64_add (st_RetiredQueries (s_stats s)) (di_retiredQueries di)\<rparr>"
  let ?s1 = "s\<lparr>s_live := ?live, s_inputs := ?ins, s_queryKeys := di_queryKeys di, s_inputKeys := ?keys,
                 s_delta := Some (di_own di), s_bytes := dp_bytes dp, s_edges := dp_edges dp,
                 s_dependencies := dp_dependencies dp, s_debtBytes := di_debt di,
                 s_debtInputs := s_debtInputs s + int (length (dp_retired dp)), s_stats := ?st\<rparr>"
  have whole: "installDelta s reset dp = (let s2 = (if reset \<or> di_compact di \<or> s_debtInputs ?s1 > lim_Inputs ?lim
                then
                  let s3 = compactSession (if reset then ?s1 else compactDeltaMaps ?s1);
                      s4 = (if reset then s3 else countCompaction s3)
                  in s4\<lparr>s_db := snd (applySnapshot (s_db s4) (s_inputs s4))\<rparr>
                else ?s1\<lparr>s_db := snd (applyTransaction (s_db ?s1) (dp_changes dp) (dp_retired dp) (di_evicted di))\<rparr>)
      in s2\<lparr>s_ready := True\<rparr>)"
    unfolding installDelta_def Let_def can di by (simp add: live inputsAfter_def patch_inputs)
  show ?thesis
  proof (cases "reset \<or> di_compact di \<or> s_debtInputs ?s1 > lim_Inputs ?lim")
    case True
    let ?qk = "if reset then di_queryKeys di else keysOf ?live" and ?jk = "if reset then ?keys else keysOf ?ins"
    let ?s2 = "?s1\<lparr>s_queryKeys := ?qk, s_inputKeys := ?jk\<rparr>"
    let ?db = "snd (applySnapshot (newDatabase ?s2) ?ins)"
    have ok: "gomap_ok ?live" "gomap_ok ?ins" "gomap_ok (own_owned (di_own di))" "gomap_ok (own_refs (di_own di))"
      using own(2) wf live_ok by (auto simp: owners_ok_def inputs_wf_def)
    have "compactDeltaMaps ?s1 = ?s1\<lparr>s_queryKeys := keysOf ?live, s_inputKeys := keysOf ?ins\<rparr>"
      by (rule Session.equality) (simp_all add: compactDeltaMaps_def copyMap_id ok copyKeys keysOf_def [symmetric])
    then have "(if reset then ?s1 else compactDeltaMaps ?s1) = ?s2" by (cases reset) simp_all
    then have "installDelta s reset dp = (let s3 = compactSession ?s2; s4 = (if reset then s3 else countCompaction s3)
        in s4\<lparr>s_db := snd (applySnapshot (s_db s4) (s_inputs s4)), s_ready := True\<rparr>)"
      using whole True by (simp add: Let_def)
    then have eq: "installDelta s reset dp = ?s2\<lparr>s_db := ?db, s_debtBytes := 0, s_debtInputs := 0, s_totals := sumStats (s_totals s) (stats (s_db s)),
        s_stats := (if reset then ?st else ?st\<lparr>st_Compactions := uint64_inc (st_Compactions ?st)\<rparr>), s_ready := True\<rparr>"
      by (simp add: compactSession_def countCompaction_def Let_def)
    have idm: "\<forall>k. map_of ?qk k = map_of (keysOf ?live) k" "\<forall>k. map_of ?jk k = map_of (keysOf ?ins) k" using qk keys by (cases reset; simp)+
    then have "identity_keys (s_inputKeys ?s2)" "identity_keys (s_queryKeys ?s2)" by (simp_all add: identity_keys_def keysOf_lookup)
    from installDelta_db [OF inv room fits ev _ this, of ?db] have
      "good (map_of (s_evaluators s)) (snapshotOf ?ins) (revision (s_db s) + 2) ?db \<and> (\<forall>k r. map_of (results ?db) k = Some r \<longrightarrow>
         map_of (results (s_db s)) k = Some r \<and> (\<forall>old. map_of (s_live s) k = Some old \<longrightarrow> map_of ?live k = Some old))" by simp
    with idm own w show ?thesis
      by (intro exI [of _ "di_own di"] exI [of _ ?db] exI [of _ ?qk] exI [of _ ?jk] exI [of _ 0] exI [of _ "sumStats (s_totals s) (stats (s_db s))"]
          exI [of _ "if reset then ?st else ?st\<lparr>st_Compactions := uint64_inc (st_Compactions ?st)\<rparr>"] conjI)
        (simp_all add: eq limits_ok_def)
  next
    case False
    let ?db = "snd (applyTransaction (s_db s) (dp_changes dp) (dp_retired dp) (di_evicted di))"
    have eq: "installDelta s reset dp = ?s1\<lparr>s_db := ?db, s_ready := True\<rparr>" using whole False by (simp add: Let_def)
    have "identity_keys (s_inputKeys ?s1)" "identity_keys (s_queryKeys ?s1)" using qk keys by (simp_all add: identity_keys_def keysOf_lookup)
    from installDelta_db [OF inv room fits ev _ this, of ?db] False have
      gd: "good (map_of (s_evaluators s)) (snapshotOf ?ins) (revision (s_db s) + 2) ?db" "\<forall>k r. map_of (results ?db) k = Some r \<longrightarrow>
         map_of (results (s_db s)) k = Some r \<and> (\<forall>old. map_of (s_live s) k = Some old \<longrightarrow> map_of ?live k = Some old)" by simp_all
    have dI: "s_debtInputs ?s1 \<le> lim_Inputs ?lim" using False by simp
    have "installDelta s reset dp = s\<lparr>s_delta := Some (di_own di), s_db := ?db, s_live := ?live, s_inputs := ?ins,
        s_queryKeys := di_queryKeys di, s_inputKeys := ?keys, s_ready := True,
        s_bytes := dp_bytes dp, s_edges := dp_edges dp, s_dependencies := dp_dependencies dp,
        s_debtBytes := di_debt di, s_debtInputs := s_debtInputs ?s1, s_totals := s_totals s, s_stats := ?st\<rparr>"
      unfolding eq by (rule Session.equality) simp_all
    then show ?thesis using own qk keys debt dI gd by blast
  qed
qed

lemma liveAfter_entries:
  assumes "world_inv s" "delta_fits s reset dp"
  shows "entries_ok (liveAfter s reset dp)"
  unfolding entries_ok_def
proof (intro allI impI)
  fix k e assume k: "map_of (liveAfter s reset dp) k = Some e"
  have plans: "plans_ok s (dp_plans dp)" using assms(2) by (simp add: delta_fits_def)
  then have "gomap_ok (ownerPatch entryOf (dp_plans dp))" by (simp add: plans_ok_def)
  from k [unfolded liveAfter_def patch_lookup [OF this] ownerPatch_lookup] show "0 \<le> sq_resultBytes e \<and> 0 \<le> sq_dependencies e"
    using plans base_limits(6) [OF assms(1), of reset]
    by (auto simp: entries_ok_def plans_ok_def delta_plan_ok_def entryOf_def split: option.splits)
qed

lemma delta_installed:
  assumes inv: "world_inv s" and room: "db_room s" and fits: "delta_fits s reset dp" and s': "s' = installDelta s reset dp"
  shows "world_inv s'" "s_live s' = liveAfter s reset dp" "s_inputs s' = inputsAfter s reset dp" "s_ready s'"
    "s_epoch s' = s_epoch s" "s_evaluators s' = s_evaluators s" "s_limits s' = s_limits s"
    "\<exists>own. s_delta s' = Some own \<and> own_owned own = ownedAt dp"
proof -
  let ?live = "liveAfter s reset dp" and ?ins = "inputsAfter s reset dp"
  from installDelta_spec [OF inv room fits] obtain own db queryKeys inputKeys debtB debtI totals st where
    eq: "installDelta s reset dp = s\<lparr>s_delta := Some own, s_db := db, s_live := ?live, s_inputs := ?ins,
        s_queryKeys := queryKeys, s_inputKeys := inputKeys, s_ready := True,
        s_bytes := dp_bytes dp, s_edges := dp_edges dp, s_dependencies := dp_dependencies dp,
        s_debtBytes := debtB, s_debtInputs := debtI, s_totals := totals, s_stats := st\<rparr>"
    and own: "own_owned own = ownedAt dp" "owners_ok own ?live"
    and keys: "\<forall>k. map_of queryKeys k = map_of (keysOf ?live) k" "\<forall>k. map_of inputKeys k = map_of (keysOf ?ins) k"
    and debts: "debtB \<le> lim_Bytes (s_limits s)" "debtI \<le> lim_Inputs (s_limits s)"
    and g: "good (map_of (s_evaluators s)) (snapshotOf ?ins) (revision (s_db s) + 2) db"
    and res: "\<forall>k r. map_of (results db) k = Some r \<longrightarrow> map_of (results (s_db s)) k = Some r \<and>
         (\<forall>old. map_of (s_live s) k = Some old \<longrightarrow> map_of ?live k = Some old)" by (elim exE conjE) (rule that)
  show "s_live s' = ?live" "s_inputs s' = ?ins" "s_ready s'" "s_epoch s' = s_epoch s" "s_evaluators s' = s_evaluators s"
    "s_limits s' = s_limits s" "\<exists>own. s_delta s' = Some own \<and> own_owned own = ownedAt dp" using own(1) by (simp_all add: s' eq)
  have si: "session_inv s" and ac: "delta_account s reset dp" using inv fits by (simp_all add: world_inv_def delta_fits_def)
  have "gomap_ok ?live" unfolding liveAfter_def by (rule patch_ok) (use si in \<open>simp add: session_inv_def baseLive_def\<close>)
  moreover have "good (map_of (s_evaluators s)) (snapshotOf ?ins) (revision db) db" using g by (simp add: good_def)
  ultimately have "session_inv s'" using si keys inputsAfter_wf [OF inv fits] by (simp add: session_inv_def s' eq)
  moreover have "entries_ok (s_live s')" using liveAfter_entries [OF inv fits] by (simp add: s' eq)
  moreover have "accounted s'"
  proof -
    have "0 \<le> sumOf edgeCount (ownedAt dp)" by (rule sumOf_nonneg) (simp add: edgeCount_def)
    with ac debts show ?thesis unfolding accounted_def delta_account_def
      by (simp add: s' eq ownershipBytes_def liveBytes_weight liveDependencies_sum inputBytes_sum)
  qed
  moreover have "delta_ok (s_delta s') (s_live s') (s_inputs s') (s_edges s')"
    using own ac fits by (simp add: s' eq delta_ok_def inputs_owned_def delta_account_def delta_fits_def delta_values_def)
  moreover have "memo_reserved s'" if "plain_session s'"
  proof -
    have "memo_reserved s" using inv that by (simp add: world_inv_def plain_session_def s' eq)
    then show ?thesis using res by (fastforce simp: memo_reserved_def reserved_def s' eq)
  qed
  ultimately show "world_inv s'" by (simp add: world_inv_def)
qed

lemma publish_delta_cases:
  assumes "PublishDeltaPrepared s c prepare = ((pub, err), s', c')"
  obtains (refused) e where "s' = s" "err = Some e" "pub = zeroPublished" "fst (ctxErr c) \<noteq> None"
  | (rejected) e where "s' = rejectPublication (beginPublication s)" "err = Some e" "pub = zeroPublished"
  | (published) delta dp c1 where "prepare = Some (Inr delta)" "err = None" "prepareDelta (beginPublication s) c1 delta = (Inr dp, c')"
      "s' = installDelta (beginPublication s) (d_Reset delta) dp"
      "pub = zeroPublished\<lparr>pb_Revision := \<lparr>rev_session = True, rev_epoch = s_epoch (beginPublication s)\<rparr>\<rparr>"
proof (cases "\<exists>delta dp. fst (ctxErr c) = None \<and> prepare = Some (Inr delta) \<and>
    prepareDelta (beginPublication s) (snd (ctxErr c)) delta = (Inr dp, c')")
  case True
  then obtain delta dp where t: "fst (ctxErr c) = None" "prepare = Some (Inr delta)"
    "prepareDelta (beginPublication s) (snd (ctxErr c)) delta = (Inr dp, c')" by blast
  have "ctxErr c = (None, snd (ctxErr c))" using t(1) by (metis prod.collapse)
  with assms t have "err = None" "s' = installDelta (beginPublication s) (d_Reset delta) dp"
    "pub = zeroPublished\<lparr>pb_Revision := \<lparr>rev_session = True, rev_epoch = s_epoch (beginPublication s)\<rparr>\<rparr>"
    by (auto simp: PublishDeltaPrepared_def Let_def split: prod.splits)
  then show ?thesis by (rule published [OF t(2) _ t(3)])
next
  case False
  with assms have "(s' = s \<and> (\<exists>e. err = Some e) \<and> pub = zeroPublished \<and> fst (ctxErr c) \<noteq> None) \<or>
      (s' = rejectPublication (beginPublication s) \<and> (\<exists>e. err = Some e) \<and> pub = zeroPublished)"
    by (auto simp: PublishDeltaPrepared_def Let_def split: prod.splits option.splits sum.splits)
  then show ?thesis using refused rejected by blast
qed

end
