(* ===== verification/IncSessionReach.thy ===== *)
theory IncSessionReach
  imports IncDeltaKeeps
begin

text \<open>
  Every history of a session: publications of whole worlds and of deltas, and evaluations, as the
  steps of \<open>session_reach\<close>, which keep the invariant \<open>world_inv\<close>.
\<close>

subsection \<open>Histories\<close>

inductive session_step :: "Session \<Rightarrow> Session \<Rightarrow> bool" where
  publish: "room s \<Longrightarrow> PublishPrepared s c prepare = (out, s', c') \<Longrightarrow> session_step s s'"
| publishDelta: "room s \<Longrightarrow> PublishDeltaPrepared s c delta = (out, s', c') \<Longrightarrow> session_step s s'"
| evaluate: "RevisionEvaluate fuel r s c key = Some (ans, s', c') \<Longrightarrow> session_step s s'"

inductive session_steps :: "Session \<Rightarrow> Session \<Rightarrow> bool" where
  none: "session_steps s s"
| more: "session_steps s s1 \<Longrightarrow> session_step s1 s2 \<Longrightarrow> session_steps s s2"

definition session_reach :: "(string, Evaluator option) gomap \<Rightarrow> Limits \<Rightarrow> Session \<Rightarrow> bool" where
  "session_reach evals limits s \<longleftrightarrow> (\<exists>s0. NewSession evals limits = Inr s0 \<and> session_steps s0 s)"

text \<open>Steps in which no publication succeeds: publications and deltas that return an error, and
  evaluations. They keep the session's data; only the epoch, the ready flag and the counters move.\<close>

inductive unsuccessful :: "Session \<Rightarrow> Session \<Rightarrow> bool" where
  none: "unsuccessful s s"
| publish: "unsuccessful s s1 \<Longrightarrow> PublishPrepared s1 c prepare = ((pub, Some err), s2, c') \<Longrightarrow> unsuccessful s s2"
| publishDelta: "unsuccessful s s1 \<Longrightarrow> PublishDeltaPrepared s1 c delta = ((pub, Some err), s2, c') \<Longrightarrow> unsuccessful s s2"
| evaluate: "unsuccessful s s1 \<Longrightarrow> RevisionEvaluate fuel r s1 c key = Some (ans, s2, c') \<Longrightarrow> unsuccessful s s2"

definition sameData :: "Session \<Rightarrow> Session \<Rightarrow> bool" where
  "sameData s s' \<longleftrightarrow> s'\<lparr>s_epoch := s_epoch s, s_ready := s_ready s, s_stats := s_stats s\<rparr> = s"

lemma sameData_refl [simp]: "sameData s s"
  by (simp add: sameData_def)

lemma sameData_trans: "sameData a b \<Longrightarrow> sameData b c \<Longrightarrow> sameData a c"
  unfolding sameData_def by (cases a, cases b, cases c) simp

lemma publish_fails:
  assumes "PublishPrepared s c prepare = ((pub, Some err), s', c')"
  shows "\<not> rev_session (pb_Revision pub) \<and> sameData s s' \<and>
    (if fst (ctxErr c) = None then \<not> s_ready s' else s' = s)"
proof -
  have "\<not> rev_session (pb_Revision pub) \<and>
      (if fst (ctxErr c) = None then s' = rejectPublication (beginPublication s) else s' = s)"
    using assms by (auto simp: PublishPrepared_def Let_def zeroPublished_def zeroRevision_def
        split: prod.splits option.splits sum.splits if_splits)
  then show ?thesis by (auto simp: sameData_def rejectPublication_def beginPublication_def split: if_splits)
qed

lemma publish_delta_fails:
  assumes "PublishDeltaPrepared s c prepare = ((pub, Some err), s', c')"
  shows "\<not> rev_session (pb_Revision pub) \<and> sameData s s' \<and>
    (if fst (ctxErr c) = None then \<not> s_ready s' else s' = s)"
proof -
  have "\<not> rev_session (pb_Revision pub) \<and>
      (if fst (ctxErr c) = None then s' = rejectPublication (beginPublication s) else s' = s)"
    using assms by (auto simp: PublishDeltaPrepared_def Let_def zeroPublished_def zeroRevision_def
        split: prod.splits option.splits sum.splits if_splits)
  then show ?thesis by (auto simp: sameData_def rejectPublication_def beginPublication_def split: if_splits)
qed

text \<open>A session that is not ready answers every evaluation with an error and stays as it is.\<close>

lemma evaluate_unready:
  assumes "\<not> s_ready s"
  shows "\<exists>err c'. RevisionEvaluate fuel r s c key = Some (Inl err, s, c')"
  using assms by (auto simp: RevisionEvaluate_def split: prod.splits option.splits)

lemma unsuccessful_unready:
  assumes "unsuccessful s s'" and "\<not> s_ready s"
  shows "\<not> s_ready s' \<and> sameData s s'"
  using assms
proof (induction rule: unsuccessful.induct)
  case (publish s s1 c prepare pub err s2 c')
  from publish_fails [OF publish.hyps(2)] publish.IH publish.prems show ?case
    by (auto intro: sameData_trans split: if_splits)
next
  case (publishDelta s s1 c delta pub err s2 c')
  from publish_delta_fails [OF publishDelta.hyps(2)] publishDelta.IH publishDelta.prems show ?case
    by (auto intro: sameData_trans split: if_splits)
next
  case (evaluate s s1 fuel r c key ans s2 c')
  with evaluate_unready [of s1 fuel r c key] show ?case by auto
qed simp

text \<open>What a failed publication leaves behind, until the next that succeeds.\<close>

definition lapsed :: "Session \<Rightarrow> bool" where
  "lapsed s \<longleftrightarrow> (\<forall>s'. unsuccessful s s' \<longrightarrow> sameData s s' \<and> \<not> s_ready s' \<and>
     (\<forall>fuel r c key. \<exists>err c'. RevisionEvaluate fuel r s' c key = Some (Inl err, s', c')))"

lemma lapsed_unready: "\<not> s_ready s \<Longrightarrow> lapsed s"
  unfolding lapsed_def using unsuccessful_unready evaluate_unready by blast

lemma room_begin: "room s \<Longrightarrow> revision (s_db s) + length (s_live s) + 2 < 2 ^ 64 \<and> uint64_inc (s_epoch s) = Suc (s_epoch s)"
  by (simp add: room_def db_room_def uint64_inc_small)

lemma world_limits: "world_inv s \<Longrightarrow> limits_ok (s_limits s)"
  by (simp add: world_inv_def session_inv_def)

text \<open>The invariant needs only the room of the database revision; the epoch has moved on by then.\<close>

lemma installed_begin:
  assumes "world_inv s" "room s" "accepted (beginPublication s) ps plans order adm" "s' = installWorld (beginPublication s) adm"
  shows "world_inv s'" "s_live s' = entriesOf (adm_selected adm)" "s_inputs s' = adm_inputs adm" "s_ready s'"
    "s_epoch s' = Suc (s_epoch s)" "s_evaluators s' = s_evaluators s" "s_limits s' = s_limits s"
proof -
  have r: "db_room (beginPublication s)" using assms(2) by (simp add: room_def db_room_def)
  have w: "world_inv (beginPublication s)" using assms(1) by simp
  from installed [OF w r assms(3,4)] room_begin [OF assms(2)]
  show "world_inv s'" "s_live s' = entriesOf (adm_selected adm)" "s_inputs s' = adm_inputs adm" "s_ready s'"
    "s_epoch s' = Suc (s_epoch s)" "s_evaluators s' = s_evaluators s" "s_limits s' = s_limits s" by simp_all
qed

lemma delta_installed_begin:
  assumes "world_inv s" "room s" "prepareDelta (beginPublication s) c delta = (Inr dp, c')"
    "s' = installDelta (beginPublication s) (d_Reset delta) dp"
  shows "world_inv s'" "s_live s' = liveAfter (beginPublication s) (d_Reset delta) dp" "s_inputs s' = inputsAfter (beginPublication s) (d_Reset delta) dp"
    "s_ready s'" "s_epoch s' = Suc (s_epoch s)" "s_evaluators s' = s_evaluators s" "s_limits s' = s_limits s"
    "\<exists>own. s_delta s' = Some own \<and> own_owned own = ownedAt dp"
proof -
  have r: "db_room (beginPublication s)" using assms(2) by (simp add: room_def db_room_def)
  have w: "world_inv (beginPublication s)" using assms(1) by simp
  from delta_installed [OF w r prepareDelta_fits(1) [OF w assms(3)] assms(4)] room_begin [OF assms(2)]
  show "world_inv s'" "s_live s' = liveAfter (beginPublication s) (d_Reset delta) dp" "s_inputs s' = inputsAfter (beginPublication s) (d_Reset delta) dp"
    "s_ready s'" "s_epoch s' = Suc (s_epoch s)" "s_evaluators s' = s_evaluators s" "s_limits s' = s_limits s"
    "\<exists>own. s_delta s' = Some own \<and> own_owned own = ownedAt dp" by simp_all
qed

lemma step_keeps:
  assumes "session_step s s'" and inv: "world_inv s"
  shows "world_inv s' \<and> s_limits s' = s_limits s \<and> s_evaluators s' = s_evaluators s \<and> s_epoch s \<le> s_epoch s'"
  using assms(1)
proof cases
  case (publish c prepare out c')
  obtain pub err where out: "out = (pub, err)" by (rule prod.exhaust)
  from publish(2) [unfolded out] world_limits [OF inv] show ?thesis
  proof (cases rule: publish_cases)
    case (published ps plans order adm)
    from installed_begin [OF inv publish(1) published(3,4)] show ?thesis by simp
  qed (use inv room_begin [OF publish(1)] in auto)
next
  case (publishDelta c prepare out c')
  obtain pub err where out: "out = (pub, err)" by (rule prod.exhaust)
  from publishDelta(2) [unfolded out] show ?thesis
  proof (cases rule: publish_delta_cases)
    case (published delta dp c1)
    from delta_installed_begin [OF inv publishDelta(1) published(3,4)] show ?thesis by simp
  qed (use inv room_begin [OF publishDelta(1)] in auto)
next
  case (evaluate fuel r c key ans c')
  from evaluate_session [OF inv evaluate] show ?thesis by auto
qed

lemma steps_keep:
  "session_steps s s' \<Longrightarrow> world_inv s \<Longrightarrow> world_inv s' \<and> s_limits s' = s_limits s \<and> s_evaluators s' = s_evaluators s \<and> s_epoch s \<le> s_epoch s'"
proof (induction rule: session_steps.induct)
  case (more s s1 s2)
  from more.IH [OF more.prems] step_keeps [OF more.hyps(2)] show ?case by auto
qed simp

lemma NewSession_evaluators:
  assumes "NewSession evals limits = Inr s" and "gomap_ok evals"
  shows "map_of (s_evaluators s) = evalMap evals"
proof -
  let ?raw = "map (\<lambda>(kind, evaluator). (kind, the evaluator)) evals"
  from assms(1) have nn: "\<forall>(kind, e) \<in> set evals. e \<noteq> None" and s: "s_evaluators s = copyMap ?raw"
    by (auto simp: NewSession_def Let_def list_ex_iff split: if_splits)
  have "gomap_ok ?raw" using assms(2) by (simp add: case_prod_unfold comp_def)
  moreover have "map_of ?raw kind = evalMap evals kind" for kind
    using nn by (induction evals) (auto simp: evalMap_def)
  ultimately show ?thesis by (simp add: s copyMap_lookup fun_eq_iff)
qed

lemma reach_world:
  assumes "session_reach evals limits s"
  shows "world_inv s" "s_limits s = limits" "gomap_ok evals \<Longrightarrow> map_of (s_evaluators s) = evalMap evals"
proof -
  from assms obtain s0 where s0: "NewSession evals limits = Inr s0" "session_steps s0 s" by (auto simp: session_reach_def)
  from steps_keep [OF s0(2)] New_session [OF s0(1)] NewSession_evaluators [OF s0(1)]
  show "world_inv s" "s_limits s = limits" "gomap_ok evals \<Longrightarrow> map_of (s_evaluators s) = evalMap evals" by auto
qed

end
