(* ===== verification/IncSessionProps.thy ===== *)
theory IncSessionProps
  imports IncSessionReach "HOL-Library.Code_Target_Nat"
begin

text \<open>
  What a session promises its clients: a handle answers with the current world or not at all, a
  publication is installed whole, limits hold at all times, and a failed publication leaves the
  retained data as it was.
\<close>

subsection \<open>A small session for the witnesses\<close>

definition demoPub :: "Key \<Rightarrow> Change list \<Rightarrow> Publication" where
  "demoPub key changes = \<lparr>pub_Key = key, pub_Inputs = changes, pub_MaxResultBytes = 16, pub_MaxDependencies = 4\<rparr>"

definition demoBatch :: "string \<Rightarrow> Publication list" where
  "demoBatch b = [demoPub (lineKey ''a'') [putFile ''a'' ''x''], demoPub (lineKey ''b'') [putFile ''b'' b], demoPub pairKey []]"

definition demoSession0 :: Session where
  "demoSession0 = (case NewSession demoEvals DefaultLimits of Inr s \<Rightarrow> s)"

definition demoSession1 :: Session where
  "demoSession1 = fst (snd (Publish demoSession0 None (demoBatch ''y'')))"

definition demoHandle1 :: Revision where
  "demoHandle1 = pb_Revision (fst (fst (Publish demoSession0 None (demoBatch ''y''))))"

definition demoSession2 :: Session where
  "demoSession2 = (case RevisionEvaluate 4 demoHandle1 demoSession1 None pairKey of Some (_, s, _) \<Rightarrow> s)"

definition demoSession3 :: Session where
  "demoSession3 = fst (snd (Publish demoSession2 None (demoBatch ''z'')))"

definition demoHandle3 :: Revision where
  "demoHandle3 = pb_Revision (fst (fst (Publish demoSession2 None (demoBatch ''z''))))"

lemma demo_new: "NewSession demoEvals DefaultLimits = Inr demoSession0"
proof -
  have "\<exists>s. NewSession demoEvals DefaultLimits = Inr s" by (simp add: NewSession_def Let_def DefaultLimits_def maxInt_def demoEvals_def)
  then show ?thesis by (auto simp: demoSession0_def)
qed

lemma demo_room: "room demoSession0" "room demoSession2" "room demoSession3"
proof -
  have "revision (s_db demoSession0) = 1" "length (s_live demoSession0) = 0" "s_epoch demoSession0 = 0" by code_simp+
  then show "room demoSession0" by (simp add: room_def db_room_def)
  have "revision (s_db demoSession2) = 2" "length (s_live demoSession2) = 3" "s_epoch demoSession2 = 1" by code_simp+
  then show "room demoSession2" by (simp add: room_def db_room_def)
  have "revision (s_db demoSession3) = 3" "length (s_live demoSession3) = 3" "s_epoch demoSession3 = 2" by code_simp+
  then show "room demoSession3" by (simp add: room_def db_room_def)
qed

lemma demo_answers:
  "map_option fst (RevisionEvaluate 4 demoHandle1 demoSession1 None pairKey) = Some (Inr ''xy'')"
  "map_option fst (RevisionEvaluate 4 demoHandle3 demoSession3 None pairKey) = Some (Inr ''xz'')"
  by code_simp+

lemma demo_published:
  "snd (fst (Publish demoSession0 None (demoBatch ''y''))) = None" "snd (fst (Publish demoSession2 None (demoBatch ''z''))) = None"
  by code_simp+

lemma publish_step: "room s \<Longrightarrow> session_step s (fst (snd (Publish s c ps)))"
  unfolding Publish_def by (rule session_step.publish [where out = "fst (PublishPrepared s c (Some (Inr ps)))" and c' = "snd (snd (PublishPrepared s c (Some (Inr ps))))"]) simp_all

lemma demo_steps:
  "session_steps demoSession0 demoSession1" "session_steps demoSession1 demoSession2" "session_step demoSession2 demoSession3"
proof -
  show "session_steps demoSession0 demoSession1" unfolding demoSession1_def
    by (rule session_steps.more [OF session_steps.none publish_step [OF demo_room(1)]])
  obtain ans s c where e: "RevisionEvaluate 4 demoHandle1 demoSession1 None pairKey = Some (ans, s, c)" using demo_answers(1) by force
  show "session_steps demoSession1 demoSession2"
  proof -
    have "session_steps demoSession1 s" by (rule session_steps.more [OF session_steps.none session_step.evaluate [OF e]])
    then show ?thesis by (simp add: demoSession2_def e)
  qed
  show "session_step demoSession2 demoSession3" unfolding demoSession3_def by (rule publish_step [OF demo_room(2)])
qed

lemma steps_trans: "session_steps b c \<Longrightarrow> session_steps a b \<Longrightarrow> session_steps a c"
  by (induction rule: session_steps.induct) (auto intro: session_steps.more)

lemma demo_reach: "session_reach demoEvals DefaultLimits demoSession0" "session_reach demoEvals DefaultLimits demoSession2"
  "session_reach demoEvals DefaultLimits demoSession3"
proof -
  have 2: "session_steps demoSession0 demoSession2" by (rule steps_trans [OF demo_steps(2,1)])
  then have 3: "session_steps demoSession0 demoSession3" by (rule session_steps.more [OF _ demo_steps(3)])
  show "session_reach demoEvals DefaultLimits demoSession0" "session_reach demoEvals DefaultLimits demoSession2"
    "session_reach demoEvals DefaultLimits demoSession3"
    using demo_new 2 3 session_steps.none unfolding session_reach_def by blast+
qed

subsection \<open>Answers\<close>

text \<open>
  Claim C2. A session never serves the old world: whatever publications, deltas, evaluations and failures
  came before, a value that \<^verbatim>\<open>Revision.Evaluate\<close> returns is the from-scratch value of the query, by
  the client's own evaluators, over exactly the inputs of the publication the handle came from; the
  session is ready, the handle is the current one and the query is admitted.
\<close>

theorem session_answers_are_current:
  assumes "gomap_ok evals" and "session_reach evals limits s"
    and "RevisionEvaluate fuel r s c key = Some (Inr v, s', c')"
  shows "s_ready s \<and> rev_epoch r = s_epoch s \<and> map_of (s_live s) key \<noteq> None \<and>
    (\<exists>deps. denotes (evalMap evals) (snapshotOf (s_inputs s)) key v deps)"
  using evaluate_session [OF reach_world(1) [OF assms(2)] assms(3)] reach_world(3) [OF assms(2,1)] by auto

theorem session_answers_are_current_witness:
  "\<exists>deps. denotes (evalMap demoEvals) (snapshotOf (s_inputs demoSession3)) pairKey ''xz'' deps"
proof -
  obtain s c where "RevisionEvaluate 4 demoHandle3 demoSession3 None pairKey = Some (Inr ''xz'', s, c)" using demo_answers(2) by force
  from session_answers_are_current [OF demo_ok demo_reach(3) this] show ?thesis by blast
qed

text \<open>
  Claim C5. A session finds every answer its world has: when evaluating the query from scratch over the
  published inputs succeeds under the admission rules (only admitted queries and inputs are read,
  reservations are respected), the current handle returns that value, for any amount of fuel from some point on.
\<close>

theorem session_finds_answers:
  assumes "session_reach evals limits s" and "s_ready s" and "map_of (s_live s) key \<noteq> None"
    and "denotes (evalMap (registry s)) (snapshotOf (s_inputs s)) key v deps"
  shows "\<exists>n. \<forall>fuel \<ge> n. \<exists>s'. RevisionEvaluate fuel \<lparr>rev_session = True, rev_epoch = s_epoch s\<rparr> s None key = Some (Inr v, s', None)"
proof -
  have inv: "session_inv s" using reach_world(1) [OF assms(1)] by (simp add: world_inv_def)
  then have g: "good (map_of (s_evaluators s)) (snapshotOf (s_inputs s)) (revision (s_db s)) (s_db s)" by (simp add: session_inv_def)
  note at = good_attach [OF g session_covered [OF inv]]
  let ?db = "(s_db s)\<lparr>evaluators := registry s\<rparr>"
  from at obtain hist where inv0: "db_inv (map_of (s_evaluators s)) hist ?db"
    and now: "current (evalMap (registry s)) (snapshotOf (s_inputs s)) ?db" by (auto simp: good_def current_def)
  from assms(4) obtain n where n: "specEval n (evalMap (registry s)) (snapshotOf (s_inputs s)) key = Some (v, deps)"
    unfolding denotes_def by blast
  have key: "map_of (s_queryKeys s) key = Some key"
    using inv assms(3) by (auto simp: session_inv_def keysOf_lookup)
  have "\<exists>s'. RevisionEvaluate (n + extra) \<lparr>rev_session = True, rev_epoch = s_epoch s\<rparr> s None key = Some (Inr v, s', None)" for extra
  proof -
    have "\<exists>db'. evaluate (n + extra) key [] ?db None = Some (Inr v, db', None)"
      by (rule evc.ev_complete [OF inv0 now n]) simp
    then show ?thesis using assms(2) key by (auto simp: RevisionEvaluate_def Evaluate_def)
  qed
  then show ?thesis by (metis le_Suc_ex)
qed

theorem session_finds_answers_witness:
  "\<exists>n. \<forall>fuel \<ge> n. \<exists>s'. RevisionEvaluate fuel \<lparr>rev_session = True, rev_epoch = s_epoch demoSession3\<rparr> demoSession3 None pairKey = Some (Inr ''xz'', s', None)"
proof -
  have "map_option fst (specEval 2 (evalMap (registry demoSession3)) (snapshotOf (s_inputs demoSession3)) pairKey) = Some ''xz''"
    by code_simp
  then obtain deps where "denotes (evalMap (registry demoSession3)) (snapshotOf (s_inputs demoSession3)) pairKey ''xz'' deps"
    unfolding denotes_def by force
  moreover have "s_ready demoSession3" "map_of (s_live demoSession3) pairKey \<noteq> None" by code_simp+
  ultimately show ?thesis using session_finds_answers [OF demo_reach(3)] by blast
qed

subsection \<open>Publications\<close>

text \<open>
  Claim C6. An accepted batch is installed whole. Every publication of it is either reported as
  skipped, and then its query is not admitted, or admitted with its own reservations and with every
  one of its inputs, positive and negative, exactly as published; nothing else is admitted, no input
  is present that no admitted publication owns, and the handle returned is the current one.
\<close>

theorem publish_installs_batch:
  assumes "session_reach evals limits s" and "room s" and "Publish s c ps = ((pub, None), s', c')"
  shows "s_ready s' \<and> pb_Revision pub = \<lparr>rev_session = True, rev_epoch = s_epoch s'\<rparr> \<and>
    (\<forall>p \<in> set ps. if map_of (s_live s') (pub_Key p) = None then pub_Key p \<in> set (pb_Skipped pub)
       else pub_Key p \<notin> set (pb_Skipped pub) \<and>
         map_of (s_live s') (pub_Key p) = Some \<lparr>sq_resultBytes = pub_MaxResultBytes p, sq_dependencies = pub_MaxDependencies p\<rparr> \<and>
         (\<forall>ch \<in> set (pub_Inputs p). snapshotOf (s_inputs s') (ch_Key ch) = changeEffect ch)) \<and>
    (\<forall>k. map_of (s_live s') k \<noteq> None \<longrightarrow> k \<in> pub_Key ` set ps) \<and>
    (\<forall>k. map_of (s_inputs s') k \<noteq> None \<longrightarrow>
       (\<exists>p \<in> set ps. map_of (s_live s') (pub_Key p) \<noteq> None \<and> k \<in> ch_Key ` set (pub_Inputs p)))"
proof -
  have inv: "world_inv s" by (rule reach_world(1) [OF assms(1)])
  from assms(3) [unfolded Publish_def] world_limits [OF inv] obtain plans order adm where
    acc: "accepted (beginPublication s) ps plans order adm" and s': "s' = installWorld (beginPublication s) adm"
    and sk: "pb_Skipped pub = adm_skipped adm" and rv: "pb_Revision pub = \<lparr>rev_session = True, rev_epoch = s_epoch (beginPublication s)\<rparr>"
    by (cases rule: publish_cases) auto
  note inst = installed_begin [OF inv assms(2) acc s']
  from acc obtain known where batch: "batch_ok (beginPublication s) known plans order"
    and ok: "adm_ok (s_limits (beginPublication s)) known plans (set order) adm"
    and pls: "\<forall>p \<in> set ps. \<exists>plan. map_of plans (pub_Key p) = Some plan \<and> planned p plan"
    and from_ps: "\<forall>k plan. map_of plans k = Some plan \<longrightarrow> (\<exists>p \<in> set ps. planned p plan \<and> pub_Key p = k)"
    unfolding accepted_def by blast
  have selected: "\<forall>k plan. map_of (adm_selected adm) k = Some plan \<longrightarrow> map_of plans k = Some plan \<and> recorded (adm_inputs adm) (pl_inputs plan)"
    and owners: "\<forall>k ch. map_of (adm_inputs adm) k = Some ch \<longrightarrow> (\<exists>q plan. map_of (adm_selected adm) q = Some plan \<and> ch \<in> set (pl_inputs plan))"
    and part: "dom (map_of (adm_selected adm)) \<union> set (adm_skipped adm) = set order" "dom (map_of (adm_selected adm)) \<inter> set (adm_skipped adm) = {}"
    and wf: "inputs_wf (adm_inputs adm)"
    using ok unfolding adm_ok_def by blast+
  have order: "set order = dom (map_of plans)" using batch by (simp add: batch_ok_def)
  have effect: "changeEffect (normalChange ch) = changeEffect ch" for ch by (simp add: changeEffect_def normalChange_def)
  have live: "map_of (s_live s') k = map_option entryOf (map_of (adm_selected adm) k)" for k by (simp add: inst(2) entriesOf_lookup)
  have one: "if map_of (s_live s') (pub_Key p) = None then pub_Key p \<in> set (pb_Skipped pub)
       else pub_Key p \<notin> set (pb_Skipped pub) \<and>
         map_of (s_live s') (pub_Key p) = Some \<lparr>sq_resultBytes = pub_MaxResultBytes p, sq_dependencies = pub_MaxDependencies p\<rparr> \<and>
         (\<forall>ch \<in> set (pub_Inputs p). snapshotOf (s_inputs s') (ch_Key ch) = changeEffect ch)" if "p \<in> set ps" for p
  proof (cases "map_of (adm_selected adm) (pub_Key p)")
    case None
    with pls that order part(1) have "pub_Key p \<in> set (adm_skipped adm)" by blast
    with None show ?thesis by (simp add: live sk)
  next
    case (Some plan)
    with selected have "map_of plans (pub_Key p) = Some plan" and rec: "recorded (adm_inputs adm) (pl_inputs plan)" by blast+
    with pls that have pl: "planned p plan" by force
    have "snapshotOf (s_inputs s') (ch_Key ch) = changeEffect ch" if "ch \<in> set (pub_Inputs p)" for ch
    proof -
      have "normalChange ch \<in> set (pl_inputs plan)" using pl that by (auto simp: planned_def)
      with rec have "map_of (adm_inputs adm) (ch_Key ch) = Some (normalChange ch)" by (fastforce simp: recorded_def)
      then show ?thesis by (simp add: snapshotOf_def inst(3) effect)
    qed
    moreover have "pub_Key p \<notin> set (adm_skipped adm)" using part(2) Some by blast
    ultimately show ?thesis using Some pl by (simp add: live sk entryOf_def planned_def)
  qed
  have "k \<in> pub_Key ` set ps" if "map_of (s_live s') k \<noteq> None" for k
    using that selected from_ps unfolding live by (auto simp: image_iff) (metis)
  moreover have "\<exists>p \<in> set ps. map_of (s_live s') (pub_Key p) \<noteq> None \<and> k \<in> ch_Key ` set (pub_Inputs p)"
    if k: "map_of (s_inputs s') k \<noteq> None" for k
  proof -
    from k obtain ch where ch: "map_of (adm_inputs adm) k = Some ch" by (auto simp: inst(3))
    with owners obtain q plan where q: "map_of (adm_selected adm) q = Some plan" "ch \<in> set (pl_inputs plan)" by blast
    with selected from_ps obtain p where p: "p \<in> set ps" "planned p plan" "pub_Key p = q" by blast
    with q(2) obtain ch' where "ch' \<in> set (pub_Inputs p)" "ch = normalChange ch'" by (auto simp: planned_def)
    with inputs_wfD [OF wf ch] have "k \<in> ch_Key ` set (pub_Inputs p)" by auto
    with p q(1) show ?thesis by (auto simp: live)
  qed
  moreover have "s_epoch (beginPublication s) = s_epoch s'" using inst(5) room_begin [OF assms(2)] by simp
  ultimately show ?thesis using one inst(4) rv by simp
qed

lemma demo_whole:
  assumes "snd (fst (Publish demoSession2 None (demoBatch ''z''))) = None"
  shows "\<exists>pub c'. Publish demoSession2 None (demoBatch ''z'') = ((pub, None), demoSession3, c')"
proof -
  have "fst (snd (Publish demoSession2 None (demoBatch ''z''))) = demoSession3" by (simp only: demoSession3_def)
  with assms show ?thesis by (cases "Publish demoSession2 None (demoBatch ''z'')") auto
qed

theorem publish_installs_batch_witness:
  "map_of (s_live demoSession3) (lineKey ''b'') = Some \<lparr>sq_resultBytes = 16, sq_dependencies = 4\<rparr> \<and>
   snapshotOf (s_inputs demoSession3) (fileKey ''b'') = (''z'', True)"
proof -
  obtain pub c' where pub: "Publish demoSession2 None (demoBatch ''z'') = ((pub, None), demoSession3, c')"
    using demo_published(2) demo_whole by blast
  have "map_of (s_live demoSession3) (lineKey ''b'') \<noteq> None" by code_simp
  with publish_installs_batch [OF demo_reach(2) demo_room(2) pub] show ?thesis
    by (simp add: demoBatch_def demoPub_def putFile_def changeEffect_def)
qed

end
