(* ===== verification/IncSessionLimits.thy ===== *)
theory IncSessionLimits
  imports IncSessionProps
begin

text \<open>
  Limits, refusals and priorities of a session: what it retains is bounded at all times, a handle is
  dead as soon as the next publication has begun, a rejected batch changes no retained data, and
  queries that are already admitted go first.
\<close>

subsection \<open>Limits\<close>

text \<open>
  Claim C14. Whatever its history, a session is within its limits: the admitted queries, their inputs,
  ownership edges and reserved dependencies are each at most the limit, the bytes it accounts for are
  exactly the admitted keys, result and dependency reservations, ownership records and inputs and at
  most the limit, and the debt of retired keys never exceeds the limit either.
\<close>

theorem session_within_limits:
  assumes "session_reach evals limits s"
  shows "int (length (s_live s)) \<le> lim_Queries limits \<and> int (length (s_inputs s)) \<le> lim_Inputs limits \<and>
    s_edges s \<le> lim_InputEdges limits \<and> liveDependencies (s_live s) \<le> lim_Dependencies limits \<and>
    s_bytes s = liveBytes (s_live s) + ownershipBytes (s_delta s) (s_live s) (s_edges s) + inputBytes (s_inputs s) \<and> s_bytes s \<le> lim_Bytes limits \<and>
    s_debtBytes s \<le> lim_Bytes limits \<and> s_debtInputs s \<le> lim_Inputs limits"
  using reach_world(1,2) [OF assms] by (auto simp: world_inv_def accounted_def)

theorem session_within_limits_witness: "int (length (s_live demoSession3)) \<le> 32768 \<and> s_bytes demoSession3 \<le> 134217728"
  using session_within_limits [OF demo_reach(3)] by (simp add: DefaultLimits_def)

text \<open>
  Claim C20. The memo stays within the reservations: as long as the evaluators use the public reader
  only, every stored result belongs to an admitted query, its value is no longer than the query's
  reservation and it records no more dependencies than reserved.
\<close>

theorem memo_within_reservations:
  assumes "session_reach evals limits s" and "plain_session s" and "map_of (results (s_db s)) k = Some r"
  shows "\<exists>e. map_of (s_live s) k = Some e \<and> int (length (res_value r)) \<le> sq_resultBytes e \<and>
    int (length (res_dependencies r)) \<le> sq_dependencies e"
  using reach_world(1) [OF assms(1)] assms(2,3) by (auto simp: world_inv_def memo_reserved_def reserved_def)

lemma demo_plain: "plain_session demoSession2"
proof -
  have "plain_session demoSession0"
    using NewSession_evaluators [OF demo_new demo_ok]
    by (auto simp: plain_session_def evalMap_def demoEvals_def lineEval_def pairEval_def loopEval_def split: if_splits)
  moreover have "s_evaluators demoSession2 = s_evaluators demoSession0"
    using steps_keep [OF steps_trans [OF demo_steps(2,1)]] New_session [OF demo_new] by blast
  ultimately show ?thesis by (simp add: plain_session_def)
qed

theorem memo_within_reservations_witness:
  "\<exists>r e. map_of (results (s_db demoSession2)) pairKey = Some r \<and> map_of (s_live demoSession2) pairKey = Some e \<and>
     int (length (res_value r)) \<le> sq_resultBytes e"
proof -
  have "map_of (results (s_db demoSession2)) pairKey \<noteq> None" by code_simp
  then obtain r where "map_of (results (s_db demoSession2)) pairKey = Some r" by blast
  with memo_within_reservations [OF demo_reach(2) demo_plain this] show ?thesis by blast
qed

subsection \<open>Refusals\<close>

lemma publish_epoch:
  assumes inv: "world_inv s" and room: "room s" and c: "ctxErr c = (None, c1)" and p: "PublishPrepared s c prepare = (out, s', c')"
  shows "s_epoch s' = Suc (s_epoch s)"
proof -
  obtain pub err where out: "out = (pub, err)" by (rule prod.exhaust)
  from p [unfolded out] world_limits [OF inv] show ?thesis
  proof (cases rule: publish_cases)
    case (refused e)
    with c show ?thesis by simp
  next
    case (rejected e)
    then show ?thesis using room_begin [OF room] by simp
  next
    case (published ps plans order adm)
    from installed_begin [OF inv room published(3,4)] show ?thesis by simp
  qed
qed

lemma publish_current:
  assumes inv: "world_inv s" and room: "room s" and p: "PublishPrepared s c prepare = ((pub, None), s', c')"
  shows "pb_Revision pub = \<lparr>rev_session = True, rev_epoch = s_epoch s'\<rparr>"
  using p world_limits [OF inv]
proof (cases rule: publish_cases)
  case (published ps plans order adm)
  from installed_begin [OF inv room published(3,4)] published(6) room_begin [OF room] show ?thesis by simp
qed auto

text \<open>The same for deltas.\<close>

lemma delta_epoch:
  assumes inv: "world_inv s" and room: "room s" and c: "ctxErr c = (None, c1)" and p: "PublishDeltaPrepared s c prepare = (out, s', c')"
  shows "s_epoch s' = Suc (s_epoch s)"
proof -
  obtain pub err where out: "out = (pub, err)" by (rule prod.exhaust)
  from p [unfolded out] show ?thesis
  proof (cases rule: publish_delta_cases)
    case (refused e)
    with c show ?thesis by simp
  next
    case (rejected e)
    then show ?thesis using room_begin [OF room] by simp
  next
    case (published delta dp c1)
    from delta_installed_begin [OF inv room published(3,4)] show ?thesis by simp
  qed
qed

lemma delta_current:
  assumes inv: "world_inv s" and room: "room s" and p: "PublishDeltaPrepared s c prepare = ((pub, None), s', c')"
  shows "pb_Revision pub = \<lparr>rev_session = True, rev_epoch = s_epoch s'\<rparr>"
  using p
proof (cases rule: publish_delta_cases)
  case (published delta dp c1)
  from delta_installed_begin [OF inv room published(3,4)] published(5) room_begin [OF room] show ?thesis by simp
qed auto

text \<open>
  Claim C16. A handle dies with the next publication, whole or delta, successful or not: once a later publication has
  begun, no history brings the handle back; it is refused as stale (until the epoch counter wraps
  around), also when preparing the later world failed.
\<close>

theorem stale_handles_are_refused:
  assumes "session_reach evals limits s" and "room s"
    and "Publish s c ps = ((pub, None), s1, c1) \<or> PublishDelta s c delta = ((pub, None), s1, c1)"
    and "session_steps s1 s2" and "room s2" and "ctxErr c2 = (None, c2')"
    and "PublishPrepared s2 c2 prepare = (out, s3, c3) \<or> PublishDeltaPrepared s2 c2 prepared = (out, s3, c3)"
    and "session_steps s3 s4" and "ctxErr c4 = (None, c5)"
  shows "RevisionEvaluate fuel (pb_Revision pub) s4 c4 key = Some (Inl ErrStaleRevision, s4, c5)"
proof -
  have inv: "world_inv s" by (rule reach_world(1) [OF assms(1)])
  have step1: "session_step s s1" using assms(3)
    by (auto simp: Publish_def PublishDelta_def intro: session_step.publish [OF assms(2)] session_step.publishDelta [OF assms(2)])
  have inv1: "world_inv s1" using step_keeps [OF step1 inv] by blast
  have rv: "pb_Revision pub = \<lparr>rev_session = True, rev_epoch = s_epoch s1\<rparr>"
    using assms(3) publish_current [OF inv assms(2)] delta_current [OF inv assms(2)] by (auto simp: Publish_def PublishDelta_def)
  note k2 = steps_keep [OF assms(4) inv1]
  then have inv2: "world_inv s2" by blast
  have epoch3: "s_epoch s3 = Suc (s_epoch s2)"
    using assms(7) publish_epoch [OF inv2 assms(5,6)] delta_epoch [OF inv2 assms(5,6)] by blast
  have "session_step s2 s3" using assms(7) by (auto intro: session_step.publish [OF assms(5)] session_step.publishDelta [OF assms(5)])
  then have "world_inv s3" using step_keeps inv2 by blast
  from steps_keep [OF assms(8) this] have "s_epoch s3 \<le> s_epoch s4" by blast
  with epoch3 k2 have "s_epoch s1 < s_epoch s4" by simp
  with rv assms(9) show ?thesis by (simp add: RevisionEvaluate_def)
qed

theorem stale_handles_are_refused_witness:
  "RevisionEvaluate 9 demoHandle1 demoSession3 None pairKey = Some (Inl ErrStaleRevision, demoSession3, None)"
proof -
  obtain pub c' where pub: "Publish demoSession0 None (demoBatch ''y'') = ((pub, None), demoSession1, c')"
    and h: "demoHandle1 = pb_Revision pub"
  proof (rule that)
    show "Publish demoSession0 None (demoBatch ''y'') =
      ((fst (fst (Publish demoSession0 None (demoBatch ''y''))), None), demoSession1, snd (snd (Publish demoSession0 None (demoBatch ''y''))))"
      using demo_published(1) by (simp only: demoSession1_def prod_eq_iff fst_conv snd_conv)
  qed (simp only: demoHandle1_def)
  obtain out c3 where "PublishPrepared demoSession2 None (Some (Inr (demoBatch ''z''))) = (out, demoSession3, c3)"
    using demo_whole [OF demo_published(2)] by (auto simp: Publish_def)
  from stale_handles_are_refused [OF demo_reach(1) demo_room(1) disjI1 [OF pub] demo_steps(2) demo_room(2) _ disjI1 [OF this] session_steps.none, of _ None None 9 pairKey]
  show ?thesis by (simp add: h)
qed

text \<open>
  Claim C18. A publication that fails, in its preparation, for a conflict, an unknown kind, a negative
  reservation, a work budget or a cancelled context, keeps all data of the session (the admitted
  queries, the inputs, the ownership indexes, the account and the database; only the epoch, the ready
  flag and the counters may move) and hands out no handle. If its context was cancelled before it had
  begun, the session is exactly what it was. Once it had begun, no value is served until the next
  successful publication: after any further failing publications, failing deltas and evaluations the
  data is still the same and every evaluation, under any handle, returns an error.
\<close>

theorem failed_publication_keeps_data:
  assumes "PublishPrepared s c prepare = ((pub, Some e), s', c')"
  shows "\<not> rev_session (pb_Revision pub) \<and>
    s'\<lparr>s_epoch := s_epoch s, s_ready := s_ready s, s_stats := s_stats s\<rparr> = s \<and>
    (fst (ctxErr c) \<noteq> None \<longrightarrow> s' = s) \<and>
    (fst (ctxErr c) = None \<longrightarrow> (\<forall>s''. unsuccessful s' s'' \<longrightarrow>
       s''\<lparr>s_epoch := s_epoch s', s_ready := s_ready s', s_stats := s_stats s'\<rparr> = s' \<and>
       (\<forall>fuel r c2 key. \<exists>err c3. RevisionEvaluate fuel r s'' c2 key = Some (Inl err, s'', c3))))"
proof -
  from publish_fails [OF assms] have f: "\<not> rev_session (pb_Revision pub)" "sameData s s'"
    "fst (ctxErr c) \<noteq> None \<longrightarrow> s' = s" "fst (ctxErr c) = None \<longrightarrow> \<not> s_ready s'" by (auto split: if_splits)
  then have "fst (ctxErr c) = None \<longrightarrow> lapsed s'" using lapsed_unready by blast
  with f show ?thesis unfolding lapsed_def sameData_def by blast
qed

text \<open>A batch with two values for one input.\<close>

definition conflictingBatch :: "Publication list" where
  "conflictingBatch = [demoPub (lineKey ''a'') [putFile ''a'' ''x''], demoPub pairKey [putFile ''a'' ''q'']]"

text \<open>It fails, a nil preparation after it fails, and then nothing is served.\<close>

theorem failed_publication_keeps_data_witness:
  "s_inputs (fst (snd (Publish demoSession2 None conflictingBatch))) = s_inputs demoSession2 \<and>
   (let s1 = fst (snd (Publish demoSession2 None conflictingBatch));
        s2 = fst (snd (PublishPrepared s1 None None))
    in \<exists>err c3. RevisionEvaluate 9 \<lparr>rev_session = True, rev_epoch = s_epoch s2\<rparr> s2 None pairKey = Some (Inl err, s2, c3)) \<and>
   fst (snd (PublishPrepared demoSession2 (Some 0) None)) = demoSession2"
proof -
  let ?s1 = "fst (snd (Publish demoSession2 None conflictingBatch))"
  have e: "snd (fst (Publish demoSession2 None conflictingBatch)) = Some (ErrOther ''conflicting snapshot input'')" by code_simp
  have p: "PublishPrepared demoSession2 None (Some (Inr conflictingBatch)) =
    ((fst (fst (Publish demoSession2 None conflictingBatch)), Some (ErrOther ''conflicting snapshot input'')),
     ?s1, snd (snd (Publish demoSession2 None conflictingBatch)))"
    using e by (simp only: Publish_def prod_eq_iff fst_conv snd_conv)
  note f = failed_publication_keeps_data [OF p]
  have "PublishPrepared ?s1 None None = ((zeroPublished, Some (ErrOther ''nil publication preparation'')),
      fst (snd (PublishPrepared ?s1 None None)), None)" by (simp add: PublishPrepared_def Let_def)
  from unsuccessful.publish [OF unsuccessful.none this] f
  have "\<exists>err c3. RevisionEvaluate 9 \<lparr>rev_session = True, rev_epoch = s_epoch (fst (snd (PublishPrepared ?s1 None None)))\<rparr>
      (fst (snd (PublishPrepared ?s1 None None))) None pairKey =
      Some (Inl err, fst (snd (PublishPrepared ?s1 None None)), c3)" by (simp del: prod.collapse)
  moreover from f have "s_inputs (?s1\<lparr>s_epoch := s_epoch demoSession2, s_ready := s_ready demoSession2,
      s_stats := s_stats demoSession2\<rparr>) = s_inputs demoSession2" by simp
  moreover have "PublishPrepared demoSession2 (Some 0) None = ((zeroPublished, Some ErrContext),
      fst (snd (PublishPrepared demoSession2 (Some 0) None)), Some 0)" by (simp add: PublishPrepared_def)
  from failed_publication_keeps_data [OF this] have "fst (snd (PublishPrepared demoSession2 (Some 0) None)) = demoSession2" by simp
  ultimately show ?thesis by (simp add: Let_def)
qed

subsection \<open>Comparison and priority\<close>

text \<open>
  Claim C27. The two ways \<^verbatim>\<open>samePlan\<close> compares publications agree: below and above sixteen inputs it
  answers whether the reservations are equal and the two normalised input lists, each with one entry
  per key, are the same set.
\<close>

theorem same_plan_is_set_equality:
  assumes "distinct (map ch_Key (pl_inputs a))" and "\<forall>ch \<in> set (pl_inputs a). normal ch"
    and "distinct (map ch_Key (pl_inputs b))" and "\<forall>ch \<in> set (pl_inputs b). normal ch"
  shows "samePlan a b \<longleftrightarrow>
    pub_MaxResultBytes (pl_publication a) = pub_MaxResultBytes (pl_publication b) \<and>
    pub_MaxDependencies (pl_publication a) = pub_MaxDependencies (pl_publication b) \<and> set (pl_inputs a) = set (pl_inputs b)"
  by (rule samePlan_iff) (use assms in \<open>simp_all add: plan_wf_def\<close>)

definition demoPlan :: "Change list \<Rightarrow> publicationPlan" where
  "demoPlan changes = \<lparr>pl_publication = demoPub pairKey changes, pl_inputs = changes\<rparr>"

theorem same_plan_is_set_equality_witness:
  "samePlan (demoPlan [putFile ''a'' ''x'', putFile ''b'' ''y'']) (demoPlan [putFile ''b'' ''y'', putFile ''a'' ''x''])"
proof -
  let ?a = "demoPlan [putFile ''a'' ''x'', putFile ''b'' ''y'']" and ?b = "demoPlan [putFile ''b'' ''y'', putFile ''a'' ''x'']"
  have "distinct (map ch_Key (pl_inputs ?a))" "\<forall>ch \<in> set (pl_inputs ?a). normal ch"
    "distinct (map ch_Key (pl_inputs ?b))" "\<forall>ch \<in> set (pl_inputs ?b). normal ch"
    by (simp_all add: demoPlan_def putFile_def fileKey_def normal_def)
  from same_plan_is_set_equality [OF this] show ?thesis by (auto simp: demoPlan_def demoPub_def)
qed

text \<open>
  Claim C26. Queries that are already admitted have priority: which of them a batch skips depends on
  the batch's publications for admitted queries alone. Publications of new queries in the same batch,
  wherever they stand, take no budget from them.
\<close>

theorem admitted_queries_have_priority:
  "{k \<in> set (adm_skipped (admitAll s plans order)). map_of (s_live s) k \<noteq> None} =
    set (adm_skipped (admitAll s plans (filter (\<lambda>k. map_of (s_live s) k \<noteq> None) order)))"
proof -
  let ?live = "\<lambda>k. map_of (s_live s) k \<noteq> None"
  let ?q = "admitQuery (s_limits s) plans"
  have grow: "\<exists>xs. adm_skipped (?q adm k) = adm_skipped adm @ xs \<and> set xs \<subseteq> {k}" for adm k
    by (auto simp: admitQuery_def Let_def split: prod.splits)
  have fold: "\<exists>xs. adm_skipped (foldl ?q adm ks) = adm_skipped adm @ xs \<and> set xs \<subseteq> set ks" for adm ks
  proof (induction ks arbitrary: adm)
    case (Cons k ks)
    from grow [of adm k] obtain xs where xs: "adm_skipped (?q adm k) = adm_skipped adm @ xs" "set xs \<subseteq> {k}" by blast
    from Cons.IH [of "?q adm k"] obtain ys where ys: "adm_skipped (foldl ?q (?q adm k) ks) = adm_skipped (?q adm k) @ ys" "set ys \<subseteq> set ks" by blast
    with xs show ?case by (intro exI [of _ "xs @ ys"]) auto
  qed simp
  let ?old = "filter ?live order" and ?new = "filter (\<lambda>k. \<not> ?live k) order"
  have "admissionOrder s ?old = ?old" by (auto simp: admissionOrder_def filter_empty_conv)
  then have old: "admitAll s plans ?old = foldl ?q zeroAdmission ?old" by (simp add: admitAll_order)
  have all: "admitAll s plans order = foldl ?q (foldl ?q zeroAdmission ?old) ?new" by (simp add: admitAll_order admissionOrder_def)
  from fold [of "foldl ?q zeroAdmission ?old" ?new] obtain xs where
    xs: "adm_skipped (admitAll s plans order) = adm_skipped (admitAll s plans ?old) @ xs" "set xs \<subseteq> set ?new" unfolding all old by blast
  from fold [of zeroAdmission ?old] have "set (adm_skipped (admitAll s plans ?old)) \<subseteq> set ?old" unfolding old by (auto simp: zeroAdmission_def)
  with xs show ?thesis by auto
qed

subsection \<open>Well-formedness\<close>

text \<open>
  Claim C22. The maps of a session fit together at all times: one entry per key, every input filed under
  its own key and carrying no value when it is a removal, the key maps the identity on exactly the
  admitted inputs and queries, reservations not negative, and the database holding exactly the
  admitted inputs.
\<close>

theorem session_well_formed:
  assumes "session_reach evals limits s"
  shows "gomap_ok (s_live s) \<and> gomap_ok (s_inputs s) \<and>
    (\<forall>k ch. map_of (s_inputs s) k = Some ch \<longrightarrow> ch_Key ch = k \<and> (ch_Remove ch \<longrightarrow> ch_Value ch = [])) \<and>
    (\<forall>k. map_of (s_inputKeys s) k = (if map_of (s_inputs s) k = None then None else Some k)) \<and>
    (\<forall>k. map_of (s_queryKeys s) k = (if map_of (s_live s) k = None then None else Some k)) \<and>
    (\<forall>k e. map_of (s_live s) k = Some e \<longrightarrow> 0 \<le> sq_resultBytes e \<and> 0 \<le> sq_dependencies e) \<and>
    view (s_db s) = snapshotOf (s_inputs s)"
proof -
  have w: "session_inv s" "entries_ok (s_live s)" using reach_world(1) [OF assms] by (simp_all add: world_inv_def)
  then have wf: "inputs_wf (s_inputs s)" by (simp add: session_inv_def)
  from w(1) have v: "view (s_db s) = snapshotOf (s_inputs s)" by (simp add: session_inv_def good_def)
  from w(1) have keys: "\<forall>k. map_of (s_inputKeys s) k = map_of (keysOf (s_inputs s)) k" "\<forall>k. map_of (s_queryKeys s) k = map_of (keysOf (s_live s)) k"
    and live: "gomap_ok (s_live s)" by (simp_all add: session_inv_def)
  show ?thesis
    using wf inputs_wfD [OF wf] live keys w(2) v by (auto simp: inputs_wf_def normal_def entries_ok_def keysOf_lookup)
qed

theorem session_well_formed_witness:
  "\<exists>ch. map_of (s_inputs demoSession3) (fileKey ''b'') = Some ch \<and> ch_Key ch = fileKey ''b''"
proof -
  have "map_of (s_inputs demoSession3) (fileKey ''b'') \<noteq> None" by code_simp
  then obtain ch where "map_of (s_inputs demoSession3) (fileKey ''b'') = Some ch" by blast
  with session_well_formed [OF demo_reach(3)] show ?thesis by blast
qed

end
