(* ===== verification/IncDeltaProps.thy ===== *)
theory IncDeltaProps
  imports IncSessionLimits
begin

text \<open>
  What a delta promises: it changes exactly what it names, its ownership indexes always describe the
  published world, and a delta that is not accepted changes no retained data. The theorems about
  sessions hold for histories with deltas as well.
\<close>

subsection \<open>Ownership\<close>

text \<open>
  Claim C21. In delta mode the two ownership indexes describe the published world at all times: every
  admitted query has an entry, the reverse index lists exactly the owners of an input, an input is
  present exactly when some admitted query owns it, and the edge count is the number of entries.
\<close>

theorem delta_ownership_exact:
  assumes "session_reach evals limits s" and "s_delta s = Some own"
  shows "(\<forall>k. map_of (s_live s) k = None \<longleftrightarrow> map_of (own_owned own) k = None) \<and>
    (\<forall>k i. k \<in> set (listAt (own_refs own) i) \<longleftrightarrow> i \<in> set (listAt (own_owned own) k)) \<and>
    (\<forall>i. map_of (s_inputs s) i \<noteq> None \<longleftrightarrow> (\<exists>k. i \<in> set (listAt (own_owned own) k))) \<and>
    s_edges s = sum_list (map (\<lambda>(k, owned). int (length owned)) (own_owned own))"
proof -
  have "delta_ok (s_delta s) (s_live s) (s_inputs s) (s_edges s)" using reach_world(1) [OF assms(1)] by (simp add: world_inv_def)
  with assms(2) have d: "owners_ok own (s_live s)" "inputs_owned own (s_inputs s)" "s_edges s = sumOf edgeCount (own_owned own)"
    by (simp_all add: delta_ok_def)
  from d(1) have "\<forall>k. map_of (s_live s) k = None \<longleftrightarrow> map_of (own_owned own) k = None"
    "\<forall>k i. k \<in> set (listAt (own_refs own) i) \<longleftrightarrow> i \<in> set (listAt (own_owned own) k)" unfolding owners_ok_def by blast+
  with d(2,3) show ?thesis by (simp add: inputs_owned_def sumOf_def edgeCount_def)
qed

text \<open>A session in delta mode: three owners, then one of them replaced and one removed.\<close>

definition demoDelta :: Delta where
  "demoDelta = \<lparr>d_Reset = False, d_Upsert = demoBatch ''y'', d_Remove = []\<rparr>"

definition demoUpdate :: Delta where
  "demoUpdate = \<lparr>d_Reset = False, d_Upsert = [demoPub (lineKey ''b'') [putFile ''b'' ''q'', putFile ''a'' ''x'']], d_Remove = [lineKey ''a'']\<rparr>"

definition demoDelta1 :: Session where
  "demoDelta1 = fst (snd (PublishDelta demoSession0 None demoDelta))"

definition demoDelta2 :: Session where
  "demoDelta2 = fst (snd (PublishDelta demoDelta1 None demoUpdate))"

lemma delta_step: "room s \<Longrightarrow> session_step s (fst (snd (PublishDelta s c delta)))"
  unfolding PublishDelta_def
  by (rule session_step.publishDelta [where out = "fst (PublishDeltaPrepared s c (Some (Inr delta)))" and c' = "snd (snd (PublishDeltaPrepared s c (Some (Inr delta))))"]) simp_all

lemma demo_delta_room: "room demoDelta1"
proof -
  have "revision (s_db demoDelta1) = 2" "length (s_live demoDelta1) = 3" "s_epoch demoDelta1 = 1" by code_simp+
  then show ?thesis by (simp add: room_def db_room_def)
qed

lemma demo_delta_reach: "session_reach demoEvals DefaultLimits demoDelta1" "session_reach demoEvals DefaultLimits demoDelta2"
proof -
  have 1: "session_steps demoSession0 demoDelta1"
    unfolding demoDelta1_def by (rule session_steps.more [OF session_steps.none delta_step [OF demo_room(1)]])
  have 2: "session_steps demoSession0 demoDelta2"
    unfolding demoDelta2_def by (rule session_steps.more [OF 1 delta_step [OF demo_delta_room]])
  show "session_reach demoEvals DefaultLimits demoDelta1" "session_reach demoEvals DefaultLimits demoDelta2"
    using demo_new 1 2 unfolding session_reach_def by blast+
qed

theorem delta_ownership_exact_witness:
  "\<exists>own. s_delta demoDelta2 = Some own \<and> fileKey ''a'' \<in> set (listAt (own_owned own) (lineKey ''b'')) \<and>
     lineKey ''b'' \<in> set (listAt (own_refs own) (fileKey ''a'')) \<and> map_of (s_inputs demoDelta2) (fileKey ''a'') \<noteq> None"
proof -
  have "map_option (\<lambda>own. fileKey ''a'' \<in> set (listAt (own_owned own) (lineKey ''b''))) (s_delta demoDelta2) = Some True" by code_simp
  then obtain own where own: "s_delta demoDelta2 = Some own" "fileKey ''a'' \<in> set (listAt (own_owned own) (lineKey ''b''))" by auto
  from delta_ownership_exact [OF demo_delta_reach(2) own(1)] own show ?thesis by blast
qed

subsection \<open>What an accepted delta does\<close>

definition ownedInputs :: "Session \<Rightarrow> Key \<Rightarrow> Key list" where
  "ownedInputs s k = (case s_delta s of None \<Rightarrow> [] | Some own \<Rightarrow> listAt (own_owned own) k)"

lemma ownership_base:
  "baseOwnership (beginPublication s) reset = Inr own \<Longrightarrow> listAt (own_owned own) k = (if reset then [] else ownedInputs s k)"
  by (auto simp: baseOwnership_def ownedInputs_def newDeltaOwnership_def beginPublication_def split: option.splits if_splits)

lemma delta_writes:
  assumes "delta_values s reset dp" "map_of (dp_plans dp) k = Some (Some p)" "ch \<in> set (pl_inputs p)" "gomap_ok (dp_plans dp)"
  shows "map_of (inputsAfter s reset dp) (ch_Key ch) = Some ch"
proof -
  have keys: "gomap_ok (inputPatch (dp_retired dp) (dp_changes dp))" and at: "map_of (dp_changes dp) (ch_Key ch) = Some ch"
    and gone: "\<forall>i q. i \<in> set (dp_retired dp) \<longrightarrow> i \<notin> set (listAt (ownedAt dp) q)"
    using assms(1-3) unfolding delta_values_def by blast+
  have "ch_Key ch \<in> set (listAt (ownedAt dp) k)" using assms(2,3) by (simp add: ownedAt_def ownedAfter [OF assms(4)] ownedKeys_def)
  with gone have "ch_Key ch \<notin> set (dp_retired dp)" by blast
  with at show ?thesis by (simp add: inputsAfter_def inputPatch_lookup [OF keys])
qed

lemma changeEffect_normal: "changeEffect (normalChange ch) = changeEffect ch"
  by (simp add: changeEffect_def normalChange_def)

text \<open>
  Claim C7. An accepted delta changes what it names and nothing else. Removed owners are gone; upserted
  owners have the reservations and own exactly the inputs they were published with, with these
  values; every other owner keeps its reservation and its inputs with their values, unless the delta
  is a reset, which drops it; and the handle returned is the current one.
\<close>

theorem delta_changes_named_owners:
  assumes "session_reach evals limits s" and "room s" and "PublishDelta s c delta = ((pub, None), s', c')"
  shows "s_ready s' \<and> pb_Revision pub = \<lparr>rev_session = True, rev_epoch = s_epoch s'\<rparr> \<and>
    (\<forall>k \<in> set (d_Remove delta). map_of (s_live s') k = None \<and> ownedInputs s' k = []) \<and>
    (\<forall>p \<in> set (d_Upsert delta).
       map_of (s_live s') (pub_Key p) = Some \<lparr>sq_resultBytes = pub_MaxResultBytes p, sq_dependencies = pub_MaxDependencies p\<rparr> \<and>
       set (ownedInputs s' (pub_Key p)) = ch_Key ` set (pub_Inputs p) \<and>
       (\<forall>ch \<in> set (pub_Inputs p). snapshotOf (s_inputs s') (ch_Key ch) = changeEffect ch)) \<and>
    (\<forall>k. k \<notin> set (d_Remove delta) \<and> k \<notin> pub_Key ` set (d_Upsert delta) \<longrightarrow>
       (if d_Reset delta then map_of (s_live s') k = None \<and> ownedInputs s' k = []
        else map_of (s_live s') k = map_of (s_live s) k \<and> ownedInputs s' k = ownedInputs s k \<and>
          (\<forall>i \<in> set (ownedInputs s k). map_of (s_inputs s') i = map_of (s_inputs s) i)))"
proof -
  let ?b = "beginPublication s" and ?reset = "d_Reset delta"
  have inv: "world_inv s" by (rule reach_world(1) [OF assms(1)])
  then have invb: "world_inv ?b" by simp
  from assms(3) obtain dp c1 where prep: "prepareDelta ?b c1 delta = (Inr dp, c')" and s': "s' = installDelta ?b ?reset dp"
    unfolding PublishDelta_def by (cases rule: publish_delta_cases) auto
  note inst = delta_installed_begin [OF inv assms(2) prep s'] and fits = prepareDelta_fits [OF invb prep]
  have plans: "gomap_ok (dp_plans dp)" and vals: "delta_values ?b ?reset dp" and own: "baseOwnership ?b ?reset = Inr (dp_own dp)"
    using fits(1) by (simp_all add: delta_fits_def plans_ok_def)
  have "gomap_ok (ownerPatch entryOf (dp_plans dp))" using plans by simp
  note live = inst(2) [THEN arg_cong, of map_of, unfolded liveAfter_def, THEN fun_cong, unfolded patch_lookup [OF this] ownerPatch_lookup]
  have owned: "ownedInputs s' k = (case map_of (dp_plans dp) k of None \<Rightarrow> listAt (own_owned (dp_own dp)) k | Some None \<Rightarrow> [] | Some (Some p) \<Rightarrow> ownedKeys p)" for k
    using inst(8) ownedAfter [OF plans] by (auto simp: ownedInputs_def ownedAt_def)
  have base: "listAt (own_owned (dp_own dp)) k = (if ?reset then [] else ownedInputs s k)" for k by (rule ownership_base [OF own])
  have up: "map_of (s_live s') (pub_Key p) = Some \<lparr>sq_resultBytes = pub_MaxResultBytes p, sq_dependencies = pub_MaxDependencies p\<rparr> \<and>
       set (ownedInputs s' (pub_Key p)) = ch_Key ` set (pub_Inputs p) \<and>
       (\<forall>ch \<in> set (pub_Inputs p). snapshotOf (s_inputs s') (ch_Key ch) = changeEffect ch)" if "p \<in> set (d_Upsert delta)" for p
  proof -
    from fits(3) that obtain plan where plan: "map_of (dp_plans dp) (pub_Key p) = Some (Some plan)" "planned p plan" by blast
    then have set: "set (pl_inputs plan) = normalChange ` set (pub_Inputs p)" by (simp add: planned_def)
    have "map_of (s_inputs s') (ch_Key ch) = Some (normalChange ch)" if "ch \<in> set (pub_Inputs p)" for ch
      using delta_writes [OF vals plan(1), of "normalChange ch"] that plans set by (simp add: inst(3))
    then have "\<forall>ch \<in> set (pub_Inputs p). snapshotOf (s_inputs s') (ch_Key ch) = changeEffect ch"
      by (simp add: snapshotOf_def changeEffect_normal)
    moreover have "set (ownedKeys plan) = ch_Key ` set (pub_Inputs p)" by (simp add: ownedKeys_def set image_image)
    ultimately show ?thesis using plan by (simp add: live owned entryOf_def planned_def)
  qed
  have other: "if ?reset then map_of (s_live s') k = None \<and> ownedInputs s' k = []
        else map_of (s_live s') k = map_of (s_live s) k \<and> ownedInputs s' k = ownedInputs s k \<and>
          (\<forall>i \<in> set (ownedInputs s k). map_of (s_inputs s') i = map_of (s_inputs s) i)"
    if "k \<notin> set (d_Remove delta) \<and> k \<notin> pub_Key ` set (d_Upsert delta)" for k
  proof -
    from fits(4) that have none: "map_of (dp_plans dp) k = None" by blast
    with vals have "\<forall>i \<in> set (listAt (own_owned (dp_own dp)) k). map_of (s_inputs s') i = map_of (baseInputs ?b ?reset) i"
      unfolding delta_values_def inst(3) by blast
    with none show ?thesis by (cases ?reset) (simp_all add: live owned base baseLive_def baseInputs_def)
  qed
  have "\<forall>k \<in> set (d_Remove delta). map_of (s_live s') k = None \<and> ownedInputs s' k = []"
    using fits(2) by (simp add: live owned)
  moreover have "pb_Revision pub = \<lparr>rev_session = True, rev_epoch = s_epoch s'\<rparr>"
    using delta_current [OF inv assms(2) assms(3) [unfolded PublishDelta_def]] .
  ultimately show ?thesis using inst(4) up other by blast
qed

theorem delta_changes_named_owners_witness:
  "map_of (s_live demoDelta2) (lineKey ''a'') = None \<and> snapshotOf (s_inputs demoDelta2) (fileKey ''b'') = (''q'', True) \<and>
   map_of (s_live demoDelta2) pairKey = map_of (s_live demoDelta1) pairKey"
proof -
  have "snd (fst (PublishDelta demoDelta1 None demoUpdate)) = None" by code_simp
  then have "PublishDelta demoDelta1 None demoUpdate =
      ((fst (fst (PublishDelta demoDelta1 None demoUpdate)), None), demoDelta2, snd (snd (PublishDelta demoDelta1 None demoUpdate)))"
    by (simp only: demoDelta2_def prod_eq_iff fst_conv snd_conv)
  from delta_changes_named_owners [OF demo_delta_reach(1) demo_delta_room this] show ?thesis
    by (simp add: demoUpdate_def demoPub_def putFile_def changeEffect_def pairKey_def lineKey_def)
qed

subsection \<open>Refusals\<close>

text \<open>
  Claim C19. A delta that fails, in its preparation, for a conflict, an unknown kind, a negative
  reservation, a budget, a missing reset or a cancelled context, keeps all data of the session (the
  admitted queries, the inputs, the ownership indexes, the account and the database; only the epoch,
  the ready flag and the counters may move) and hands out no handle. If its context was cancelled
  before it had begun, the session is exactly what it was. Once it had begun, no value is served until
  the next successful publication: after any further failing publications, failing deltas and
  evaluations the data is still the same and every evaluation, under any handle, returns an error.
\<close>

theorem failed_delta_keeps_data:
  assumes "PublishDeltaPrepared s c prepare = ((pub, Some e), s', c')"
  shows "\<not> rev_session (pb_Revision pub) \<and>
    s'\<lparr>s_epoch := s_epoch s, s_ready := s_ready s, s_stats := s_stats s\<rparr> = s \<and>
    (fst (ctxErr c) \<noteq> None \<longrightarrow> s' = s) \<and>
    (fst (ctxErr c) = None \<longrightarrow> (\<forall>s''. unsuccessful s' s'' \<longrightarrow>
       s''\<lparr>s_epoch := s_epoch s', s_ready := s_ready s', s_stats := s_stats s'\<rparr> = s' \<and>
       (\<forall>fuel r c2 key. \<exists>err c3. RevisionEvaluate fuel r s'' c2 key = Some (Inl err, s'', c3))))"
proof -
  from publish_delta_fails [OF assms] have f: "\<not> rev_session (pb_Revision pub)" "sameData s s'"
    "fst (ctxErr c) \<noteq> None \<longrightarrow> s' = s" "fst (ctxErr c) = None \<longrightarrow> \<not> s_ready s'" by (auto split: if_splits)
  then have "fst (ctxErr c) = None \<longrightarrow> lapsed s'" using lapsed_unready by blast
  with f show ?thesis unfolding lapsed_def sameData_def by blast
qed

text \<open>A delta that changes an input under an owner it does not name.\<close>

definition demoConflict :: Delta where
  "demoConflict = \<lparr>d_Reset = False, d_Upsert = [demoPub pairKey [putFile ''a'' ''w'']], d_Remove = []\<rparr>"

text \<open>It fails, a nil preparation after it fails, and then nothing is served.\<close>

theorem failed_delta_keeps_data_witness:
  "s_inputs (fst (snd (PublishDelta demoDelta1 None demoConflict))) = s_inputs demoDelta1 \<and>
   (let s1 = fst (snd (PublishDelta demoDelta1 None demoConflict));
        s2 = fst (snd (PublishDeltaPrepared s1 None None))
    in \<exists>err c3. RevisionEvaluate 9 \<lparr>rev_session = True, rev_epoch = s_epoch s2\<rparr> s2 None pairKey = Some (Inl err, s2, c3)) \<and>
   fst (snd (PublishDeltaPrepared demoDelta1 (Some 0) None)) = demoDelta1"
proof -
  let ?s1 = "fst (snd (PublishDelta demoDelta1 None demoConflict))"
  have e: "snd (fst (PublishDelta demoDelta1 None demoConflict)) = Some (ErrOther ''conflicting shared delta input'')" by code_simp
  then have p: "PublishDeltaPrepared demoDelta1 None (Some (Inr demoConflict)) =
    ((fst (fst (PublishDelta demoDelta1 None demoConflict)), Some (ErrOther ''conflicting shared delta input'')),
     ?s1, snd (snd (PublishDelta demoDelta1 None demoConflict)))"
    by (simp only: PublishDelta_def prod_eq_iff fst_conv snd_conv)
  note f = failed_delta_keeps_data [OF p]
  have "PublishDeltaPrepared ?s1 None None = ((zeroPublished, Some (ErrOther ''nil delta preparation'')),
      fst (snd (PublishDeltaPrepared ?s1 None None)), None)" by (simp add: PublishDeltaPrepared_def Let_def)
  from unsuccessful.publishDelta [OF unsuccessful.none this] f
  have "\<exists>err c3. RevisionEvaluate 9 \<lparr>rev_session = True, rev_epoch = s_epoch (fst (snd (PublishDeltaPrepared ?s1 None None)))\<rparr>
      (fst (snd (PublishDeltaPrepared ?s1 None None))) None pairKey =
      Some (Inl err, fst (snd (PublishDeltaPrepared ?s1 None None)), c3)" by (simp del: prod.collapse)
  moreover from f have "s_inputs (?s1\<lparr>s_epoch := s_epoch demoDelta1, s_ready := s_ready demoDelta1,
      s_stats := s_stats demoDelta1\<rparr>) = s_inputs demoDelta1" by simp
  moreover have "PublishDeltaPrepared demoDelta1 (Some 0) None = ((zeroPublished, Some ErrContext),
      fst (snd (PublishDeltaPrepared demoDelta1 (Some 0) None)), Some 0)" by (simp add: PublishDeltaPrepared_def)
  from failed_delta_keeps_data [OF this] have "fst (snd (PublishDeltaPrepared demoDelta1 (Some 0) None)) = demoDelta1" by simp
  ultimately show ?thesis by (simp add: Let_def)
qed

end
