(* ===== verification/Spec2Isabelle.thy ===== *)
theory Spec2Isabelle
  imports IncDatabaseProps LexerProps LexTokenProps IncSourceBounds IncSccProps IncDeltaProps
begin

text \<open>
  A verification library for the Go implementation of the Elisa compiler (\<^verbatim>\<open>compiler/src\<close>).

  \<^bold>\<open>The program.\<close> The compiler turns source text into tokens (package \<^verbatim>\<open>lexer\<close>), parses and checks
  them, and generates code. So that an edit does not redo all of it, intermediate results are kept in a
  revisioned query database (package \<^verbatim>\<open>incremental\<close>): inputs are written under keys, queries are
  computed by registered evaluators that read inputs and other queries through a recording reader,
  and a stored result is reused when the dependencies it recorded have not changed. A session
  bounds what is retained and replaces the published world as a whole or by deltas; the component queries
  are evaluators over a published dependency graph; the incremental tokeniser keeps checkpoints of the
  lexer so that an edited file is lexed again from the edit on.

  \<^bold>\<open>The library.\<close> Each part is a group of theories: first the model, one definition per operation of
  the source with the source's names, then the lemmas, then a theory of promises, each stated right
  after a text that says it in words. \<open>ElisaPrelude\<close> holds the shared vocabulary: Go maps as
  association lists with unique keys, \<^verbatim>\<open>uint64\<close> counters as naturals modulo \<open>2 ^ 64\<close>.

  \<^item> \<^bold>\<open>Query database\<close> (\<^verbatim>\<open>incremental/database.go\<close>, \<^verbatim>\<open>database_transaction.go\<close>): the model is
    \<open>IncDatabase\<close> (record \<open>Database\<close>; \<open>Apply\<close>, \<open>EvictQuery\<close>, \<open>RetireInputs\<close>, \<open>applyTransaction\<close>,
    \<open>Evaluate\<close>, \<open>EvaluateBatch\<close>, the reader). An evaluator is a tree of reader calls, \<open>prog\<close>. The
    reference evaluator without memo is \<open>IncReference\<close>; \<open>IncDatabaseProofs\<close> (soundness, locale
    \<open>memo_query\<close>), \<open>IncDatabaseComplete\<close> (completeness, locale \<open>complete_query\<close>) and
    \<open>IncDatabaseReach\<close> (every history) and \<open>IncDatabaseCycle\<close> (evaluators that fail or ask for
    themselves) lead to \<open>IncDatabaseProps\<close>: answers are exactly the reference's on the current
    inputs, a query that needs itself is a cycle error, writes are exactly the intended snapshot
    updates, and eviction and retirement make the readers be computed again.
  \<^item> \<^bold>\<open>Sessions\<close> (\<^verbatim>\<open>incremental/session.go\<close>): the model is \<open>IncSession\<close> (record \<open>Session\<close>;
    \<open>NewSession\<close>, \<open>PublishPrepared\<close>, \<open>RevisionEvaluate\<close>, \<open>SessionStatsOf\<close>). \<open>IncSessionPlan\<close> and
    \<open>IncSessionAdmit\<close> treat planning and admission, \<open>IncSessionProofs\<close> the guarded evaluators and the
    installation of a world, \<open>IncSessionMemo\<close> the reservations of the memo (locale \<open>kept_query\<close>),
    \<open>IncSessionWorld\<close> the invariant, \<open>IncSessionReach\<close> every history. \<open>IncSessionProps\<close> and \<open>IncSessionLimits\<close> show that a handle
    answers with the reference's value over exactly the inputs of its own publication or not at
    all, that accepted batches are installed whole, that failed ones change no data and nothing is
    served after them until a publication succeeds, and that all limits hold at all times.
  \<^item> \<^bold>\<open>Delta publications\<close> (\<^verbatim>\<open>incremental/session_delta.go\<close>): the model is \<open>IncDelta\<close> (\<open>PublishDelta\<close>,
    \<open>PublishDeltaPrepared\<close>, \<open>prepareDelta\<close>, \<open>installDelta\<close>). \<open>IncDeltaPlan\<close> treats a delta as a patch of
    maps, with the sums a patch changes; \<open>IncDeltaStage\<close> the staging and admission loops;
    \<open>IncDeltaInstall\<close> the ownership indexes and the staged values; \<open>IncDeltaWorld\<close> what an accepted delta
    has established; \<open>IncDeltaKeeps\<close> that installing it keeps the invariant of the session.
    \<open>IncDeltaProps\<close> shows that a delta changes exactly the owners it names, that the indexes are exact at
    all times and that a failed delta changes no data and serves nothing. Deltas are steps of the histories in
    \<open>IncSessionReach\<close>, so the theorems about sessions cover them.
  \<^item> \<^bold>\<open>Component queries\<close> (\<^verbatim>\<open>incremental/scc.go\<close>, \<^verbatim>\<open>scc_component.go\<close>): the model is \<open>IncScc\<close>, with
    \<^verbatim>\<open>encoding/json\<close> on byte strings in \<open>GoJson\<close> and \<open>GoJsonProofs\<close>. \<open>IncSccGraph\<close> (the two searches),
    \<open>IncSccOrder\<close> (the order), \<open>IncSccRead\<close> (decoding), \<open>IncSccPlan\<close> lead to \<open>IncSccProps\<close>: the plan
    query, evaluated through the database, answers the strongly connected components and a
    dependency-first order, and the projection query a node's own component and its direct
    dependencies, or the budget error when that exceeds 64 KiB.
  \<^item> \<^bold>\<open>Lexer\<close> (\<^verbatim>\<open>lexer/token.go\<close>, \<^verbatim>\<open>lexer_lexer_to_readident.go\<close>,
    \<^verbatim>\<open>lexer_nexttoken_to_hexdigitvalue.go\<close>, \<^verbatim>\<open>source_reads.go\<close>): tokens, keywords and positions in \<open>LexToken\<close>
    and \<open>LexTokenProps\<close>, the lexer in \<open>LexerModel\<close> and \<open>LexerNext\<close> as a state monad over the record
    \<open>Lexer\<close>, in which a read that Go would refuse sets the flag \<open>panicked\<close> and a loop round that makes
    no progress sets the flag \<open>hung\<close>; UTF-8 is in \<open>GoUtf8\<close>. \<open>LexerCalculus\<close> is its Hoare calculus;
    \<open>LexerSafe\<close>, \<open>LexerSafeIdent\<close>, \<open>LexerSafeNext\<close>, \<open>LexerSafeToken\<close>, \<open>LexerProgress\<close>, \<open>LexerLayout\<close>,
    \<open>LexerTokenize\<close> and \<open>LexerViews\<close> lead to \<open>LexerProps\<close>: on every byte string neither flag is ever
    set, so lexing returns without a panic, indentation tokens balance, and what a checkpoint has
    read determines it. \<open>LexerTracking\<close> shows that read tracking changes nothing but the read limit.
  \<^item> \<^bold>\<open>Incremental tokeniser\<close> (\<^verbatim>\<open>lexer/incremental_source.go\<close>, \<^verbatim>\<open>incremental_suffix.go\<close>,
    \<^verbatim>\<open>borrow_tokens.go\<close>): the model is \<open>IncSource\<close>, the lemmas \<open>IncSourceProofs\<close>, the promises
    \<open>IncSourceProps\<close> (resuming equals lexing afresh, which equals the plain lexer) and \<open>IncSourceBounds\<close> (budgets, line epochs).
  \<^item> \<^bold>\<open>Parity recorder\<close> (\<^verbatim>\<open>lexer/parity_source_record.go\<close>): \<open>LexParity\<close>.

  \<^bold>\<open>Loops and fuel.\<close> The graph searches and the component order are total functions whose
  termination is proved by a measure: unvisited nodes and edges left, and the work pending. The loops
  of the lexer run any body, so their combinator \<open>loopM\<close> carries a measure (the bytes left, the stack
  height, the work left) and stops with the flag \<open>hung\<close> when a round that goes on has not brought it
  down; the token loops of the incremental tokeniser are \<open>None\<close> in that case. That neither happens is
  proved, not assumed. \<^verbatim>\<open>Database.evaluate\<close> calls evaluators that may call it back
  without end, so \<open>evaluate\<close> takes fuel and \<open>None\<close> means that it ran out; the liveness theorems
  state that every answer of the reference is returned from some amount of fuel on. The reference
  itself is monotone in its fuel.

  \<^bold>\<open>Errors.\<close> Errors are values: a sum or an option in the database, the sessions and the component
  queries, where an index Go would refuse is an error of its own; \<open>None\<close> for a refused index or view in
  the incremental tokeniser; the error list and the two flags in the lexer.

  \<^bold>\<open>Machine integers.\<close> Revisions, epochs and counters wrap at \<open>2 ^ 64\<close>; the theorems about histories
  assume that the revision (and the epoch) has not wrapped. Offsets and lengths are naturals, accounting
  in sessions is on \<open>int\<close>: the source guards its sums and products by the limits.

  \<^bold>\<open>Concurrency.\<close> Database and session operations run behind a gate, one at a time; each is a function
  of the state, and a context is the number of its polls that still succeed.

  \<^bold>\<open>Parameters.\<close> Unicode tables beyond Latin-1, the sizes of Go structs in the retained-bytes account,
  the environment of the parity recorder and the client's evaluators are arguments of the definitions.

  \<^bold>\<open>Not modelled.\<close> Frame catalogs (\<^verbatim>\<open>frame_catalog.go\<close>, a client of the
  sessions); \<^verbatim>\<open>Token.String\<close>, which needs Go's \<^verbatim>\<open>%q\<close> quoting and is debug output; the parser, the
  semantic analyser, the interpreter, the unparser and the IR codec, which need the complete syntax tree
  and type model; the backend and the assembly verifier, whose meaning is that of LLVM and of machine
  instructions; the SMT interface, driver, caches and servers, which are input and output.
\<close>

end
